(* ===== verification/Prelude.thy ===== *)
theory Prelude
  imports Main "HOL-Library.Word" "HOL-Library.Signed_Division"
begin

text \<open>
  What every component shares: the outcome of running a C function, C's 32-bit integers and
  addresses, and the collections of rewrite rules the component proofs use.

  A C function of the library is a function that takes the values it reads and returns an
  \<open>outcome\<close>:
  \<^item> \<open>Ret v\<close>: it returned, and \<open>v\<close> holds the returned value and the new state;
  \<^item> \<open>Panic\<close>: a failed \<open>assert\<close> (410user/inc/assert.h), which prints and calls
    \<open>task_vanish(-3)\<close>, so the whole task ends (410user/libstdlib/panic.c);
  \<^item> \<open>Fault\<close>: the code has undefined behaviour (a NULL or freed pointer is dereferenced, a
    pointer is freed twice, a division by zero);
  \<^item> \<open>Hang\<close>: the code loops for as long as no other thread changes what it waits for.
\<close>

unbundle bit_operations_syntax

type_synonym i32 = "32 word"
type_synonym u32 = "32 word"
type_synonym u64 = "64 word"
type_synonym byte = "8 word"
type_synonym addr = "32 word"

named_theorems outcome_simps \<open>rules that run sequenced calls\<close>
named_theorems frame_rules \<open>what an operation leaves unchanged\<close>

datatype 'a outcome = Ret 'a | Panic | Fault | Hang

text \<open>Sequencing: the rest runs only when the first call returned.\<close>

primrec bnd :: "'a outcome \<Rightarrow> ('a \<Rightarrow> 'b outcome) \<Rightarrow> 'b outcome" where
  "bnd (Ret v) f = f v"
| "bnd Panic f = Panic"
| "bnd Fault f = Fault"
| "bnd Hang f = Hang"

declare bnd.simps [outcome_simps]

lemma bnd_Ret_iff [outcome_simps]: "bnd x f = Ret v \<longleftrightarrow> (\<exists>u. x = Ret u \<and> f u = Ret v)"
  by (cases x) auto

lemma bnd_cong [fundef_cong]: "x = y \<Longrightarrow> (\<And>v. y = Ret v \<Longrightarrow> f v = g v) \<Longrightarrow> bnd x f = bnd y g"
  by (cases y) auto

lemma bnd_assoc [outcome_simps]: "bnd (bnd x f) g = bnd x (\<lambda>v. bnd (f v) g)"
  by (cases x) auto

lemma bnd_Panic_left: "bnd x (\<lambda>_. Panic) \<noteq> Ret v"
  by (cases x) auto

primrec the_outcome :: "'a outcome \<Rightarrow> 'a" where
  "the_outcome (Ret v) = v"

text \<open>\<open>assert(b)\<close>: go on when \<open>b\<close> holds, panic otherwise.\<close>

definition c_assert :: "bool \<Rightarrow> 'a outcome \<Rightarrow> 'a outcome" where
  "c_assert b rest = (if b then rest else Panic)"

lemma c_assert_simps [simp]: "c_assert True r = r" "c_assert False r = Panic"
  by (simp_all add: c_assert_def)

text \<open>A C truth value as the int the code returns.\<close>

definition c_bool :: "bool \<Rightarrow> i32" where
  "c_bool b = (if b then 1 else 0)"

lemma c_bool_simps [simp]: "c_bool True = 1" "c_bool False = 0" "(c_bool b = 0) = (\<not> b)"
  by (auto simp: c_bool_def)

text \<open>The sign test \<open>x < 0\<close> on an int.\<close>

abbreviation neg32 :: "i32 \<Rightarrow> bool" where
  "neg32 x \<equiv> x <s 0"

lemma neg32_simps [simp]: "neg32 (-1)" "\<not> neg32 0" "\<not> neg32 1"
  by (simp_all add: word_sless_alt)

text \<open>C's \<open>/\<close> and \<open>%\<close> on ints truncate toward zero.\<close>

definition sdiv32 :: "i32 \<Rightarrow> i32 \<Rightarrow> i32" where
  "sdiv32 a b = word_of_int (sint a sdiv sint b)"

definition smod32 :: "i32 \<Rightarrow> i32 \<Rightarrow> i32" where
  "smod32 a b = word_of_int (sint a smod sint b)"

text \<open>Counters kept in 32 bits agree with natural numbers below the bound.\<close>

lemma of_nat_eq_0_iff32: "n < 2 ^ 32 \<Longrightarrow> ((of_nat n :: u32) = 0) = (n = 0)"
  using word_of_nat_eq_0_iff [of n, where 'a = 32] by (auto dest: dvd_imp_le)

lemma of_nat_gt_0_iff32: "n < 2 ^ 32 \<Longrightarrow> ((0 :: u32) < of_nat n) = (0 < n)"
  using of_nat_eq_0_iff32 [of n] by (simp add: word_gt_0)

lemma sint_of_nat32: "n < 2 ^ 31 \<Longrightarrow> sint (of_nat n :: i32) = int n"
  by (simp add: signed_of_nat signed_take_bit_int_eq_self)

lemma of_nat_Suc_32 [simp]: "(of_nat (Suc n) :: u32) - 1 = of_nat n"
  by simp

text \<open>An int and its unsigned reading.\<close>

lemma uint_less32: "uint (a :: u32) < 2 ^ 32"
  using unsigned_less [of a] by simp

lemma sint_uint_cases: "sint (a :: i32) = uint a - 2 ^ 32 * of_bool (bit (uint a) 31)"
proof -
  have "sint a = signed_take_bit 31 (uint a)" by (simp add: sint_uint)
  also have "\<dots> = take_bit 32 (uint a) - 2 ^ 32 * of_bool (bit (uint a) 31)"
    by (simp only: signed_take_bit_eq_take_bit_minus) simp
  also have "take_bit 32 (uint a) = uint a"
    by (rule take_bit_int_eq_self) (use uint_less32 [of a] in simp_all)
  finally show ?thesis .
qed

lemma sint_0_iff: "sint (x :: i32) = 0 \<longleftrightarrow> x = 0"
  by (metis sint_0 signed_word_eqI)

lemma sint_neg: "sint (a :: i32) < 0 \<Longrightarrow> sint a = uint a - 2 ^ 32"
  unfolding sint_uint_cases by (cases "bit (uint a) 31") simp_all

lemma sint_nonneg: "0 \<le> sint (a :: i32) \<Longrightarrow> sint a = uint a"
  using uint_less32 [of a] unfolding sint_uint_cases by (cases "bit (uint a) 31") simp_all

end
