(* ===== verification/Atomic.thy ===== *)
theory Atomic
  imports Prelude
begin

text \<open>
  user/libatomic/atomic.S: the six atomic operations on one \<open>int\<close> in memory. Each routine is
  a single locked instruction on \<open>(%ecx)\<close>, so one call is one atomic step. The model takes the
  value the cell holds and returns the pair of \<open>%eax\<close> at \<open>ret\<close> (the C return value) and
  the value left in the cell.
\<close>

text \<open>\<open>lock xchg (%ecx), %eax\<close>\<close>

definition atomic_exchange :: "i32 \<Rightarrow> i32 \<Rightarrow> i32 \<times> i32" where
  "atomic_exchange obj desired = (obj, desired)"

text \<open>\<open>lock cmpxchg %edx, (%ecx)\<close>: \<open>%eax\<close> holds \<open>expected\<close>; on a mismatch the
  instruction loads the cell into \<open>%eax\<close>, on a match \<open>%eax\<close> already equals it.\<close>

definition atomic_compare_swap :: "i32 \<Rightarrow> i32 \<Rightarrow> i32 \<Rightarrow> i32 \<times> i32" where
  "atomic_compare_swap obj expected desired =
     (if obj = expected then (expected, desired) else (obj, obj))"

text \<open>\<open>lock xadd %edx, (%ecx)\<close>: the cell gets the sum, \<open>%edx\<close> the old value.\<close>

definition atomic_fetch_add :: "i32 \<Rightarrow> i32 \<Rightarrow> i32 \<times> i32" where
  "atomic_fetch_add obj arg = (obj, obj + arg)"

text \<open>\<open>neg %edx\<close>, then \<open>lock xadd\<close>.\<close>

definition atomic_fetch_sub :: "i32 \<Rightarrow> i32 \<Rightarrow> i32 \<times> i32" where
  "atomic_fetch_sub obj arg = (obj, obj + (- arg))"

text \<open>\<open>mov $0, %eax\<close>, then \<open>lock xadd %eax, (%ecx)\<close>.\<close>

definition atomic_load :: "i32 \<Rightarrow> i32 \<times> i32" where
  "atomic_load obj = (obj, obj + 0)"

definition atomic_store :: "i32 \<Rightarrow> i32 \<Rightarrow> i32" where
  "atomic_store obj desired = desired"

lemma atomic_exchange_simps [simp]:
  "fst (atomic_exchange v d) = v" "snd (atomic_exchange v d) = d"
  by (simp_all add: atomic_exchange_def)

lemma atomic_compare_swap_old [simp]: "fst (atomic_compare_swap v e d) = v"
  by (simp add: atomic_compare_swap_def)

lemma atomic_compare_swap_new: "snd (atomic_compare_swap v e d) = (if v = e then d else v)"
  by (simp add: atomic_compare_swap_def)

text \<open>Any number of threads adding to one counter lose no update, whatever the order.\<close>

fun atomic_run_adds :: "i32 \<Rightarrow> i32 list \<Rightarrow> i32" where
  "atomic_run_adds v [] = v"
| "atomic_run_adds v (d # ds) = atomic_run_adds (snd (atomic_fetch_add v d)) ds"

lemma atomic_run_adds_sum: "atomic_run_adds v ds = v + sum_list ds"
  by (induction ds arbitrary: v) (simp_all add: atomic_fetch_add_def add.assoc)

lemma atomic_sub_undoes_add: "snd (atomic_fetch_sub (snd (atomic_fetch_add v d)) d) = v"
  by (simp add: atomic_fetch_add_def atomic_fetch_sub_def)

lemma atomic_load_pure: "atomic_load v = (v, v)"
  by (simp add: atomic_load_def)

end
