(* ===== verification/Types.thy ===== *)
theory Types
  imports Atomic
begin

text \<open>
  The structs of the thread library (user/inc, user/libthread/linked_list.h,
  user/libthread/thr_internals.h) and the objects the library keeps on the heap.

  A pointer is an address; \<open>NULL\<close> is address 0. The heap of the model is typed: an allocated
  object is one of the structs the library passes to \<open>malloc\<close>. Reading an address that
  holds no object, or an object of another struct, is a \<open>Fault\<close>, and so is freeing an
  address that holds none.
\<close>

record list_node =
  nd_next :: addr
  nd_prev :: addr
  nd_thread_data :: addr
  nd_threadID :: i32

record list_t =
  l_head :: addr
  l_tail :: addr
  l_count :: u32

record mutex =
  mx_lockFlag :: i32
  mx_initializeFlag :: i32

record cond =
  cd_initializeFlag :: i32
  cd_condMutex :: mutex
  cd_list :: list_t

record sem =
  sm_semCond :: cond
  sm_semMutex :: mutex
  sm_initializeFlag :: i32
  sm_semaphore :: i32

record thread =
  th_threadID :: i32
  th_status :: addr
  th_baseAddress :: addr
  th_exitFlag :: i32
  th_joinedFlag :: i32
  th_stack_size :: u32
  th_threadCond :: cond

record thread_cond =
  tc_waitFlag :: i32
  tc_threadID :: i32

datatype obj = Node list_node | TCond thread_cond | Thread thread

type_synonym heap = "addr \<Rightarrow> obj option"

text \<open>Reading a struct through a pointer of its type.\<close>

definition get_node :: "heap \<Rightarrow> addr \<Rightarrow> list_node outcome" where
  "get_node h p = (case h p of Some (Node n) \<Rightarrow> Ret n | _ \<Rightarrow> Fault)"

definition get_tcond :: "heap \<Rightarrow> addr \<Rightarrow> thread_cond outcome" where
  "get_tcond h p = (case h p of Some (TCond n) \<Rightarrow> Ret n | _ \<Rightarrow> Fault)"

definition get_thread :: "heap \<Rightarrow> addr \<Rightarrow> thread outcome" where
  "get_thread h p = (case h p of Some (Thread n) \<Rightarrow> Ret n | _ \<Rightarrow> Fault)"

lemma get_node_Ret [simp]: "get_node h p = Ret n \<longleftrightarrow> h p = Some (Node n)"
  by (auto simp: get_node_def split: option.splits obj.splits)

lemma get_tcond_Ret [simp]: "get_tcond h p = Ret n \<longleftrightarrow> h p = Some (TCond n)"
  by (auto simp: get_tcond_def split: option.splits obj.splits)

lemma get_thread_Ret [simp]: "get_thread h p = Ret n \<longleftrightarrow> h p = Some (Thread n)"
  by (auto simp: get_thread_def split: option.splits obj.splits)

lemma get_node_eq [outcome_simps]: "h p = Some (Node n) \<Longrightarrow> get_node h p = Ret n"
  by simp

lemma get_tcond_eq [outcome_simps]: "h p = Some (TCond n) \<Longrightarrow> get_tcond h p = Ret n"
  by simp

lemma get_thread_eq [outcome_simps]: "h p = Some (Thread n) \<Longrightarrow> get_thread h p = Ret n"
  by simp

text \<open>Writing fields of a struct through its pointer.\<close>

definition upd_node :: "addr \<Rightarrow> (list_node \<Rightarrow> list_node) \<Rightarrow> heap \<Rightarrow> heap outcome" where
  "upd_node p f h = bnd (get_node h p) (\<lambda>n. Ret (h(p \<mapsto> Node (f n))))"

definition upd_tcond :: "addr \<Rightarrow> (thread_cond \<Rightarrow> thread_cond) \<Rightarrow> heap \<Rightarrow> heap outcome" where
  "upd_tcond p f h = bnd (get_tcond h p) (\<lambda>n. Ret (h(p \<mapsto> TCond (f n))))"

definition upd_thread :: "addr \<Rightarrow> (thread \<Rightarrow> thread) \<Rightarrow> heap \<Rightarrow> heap outcome" where
  "upd_thread p f h = bnd (get_thread h p) (\<lambda>n. Ret (h(p \<mapsto> Thread (f n))))"

lemma upd_node_eq [outcome_simps]:
  "h p = Some (Node n) \<Longrightarrow> upd_node p f h = Ret (h(p \<mapsto> Node (f n)))"
  by (simp add: upd_node_def outcome_simps)

lemma upd_tcond_eq [outcome_simps]:
  "h p = Some (TCond n) \<Longrightarrow> upd_tcond p f h = Ret (h(p \<mapsto> TCond (f n)))"
  by (simp add: upd_tcond_def outcome_simps)

lemma upd_thread_eq [outcome_simps]:
  "h p = Some (Thread n) \<Longrightarrow> upd_thread p f h = Ret (h(p \<mapsto> Thread (f n)))"
  by (simp add: upd_thread_def outcome_simps)

text \<open>\<open>free(p)\<close> of the typed heap: \<open>NULL\<close> is ignored, an address that holds no object is
  undefined behaviour (a double free).\<close>

definition c_free :: "addr \<Rightarrow> heap \<Rightarrow> heap outcome" where
  "c_free p h = (if p = 0 then Ret h else case h p of None \<Rightarrow> Fault | Some _ \<Rightarrow> Ret (h(p := None)))"

lemma c_free_NULL [simp]: "c_free 0 h = Ret h"
  by (simp add: c_free_def)

lemma c_free_eq [outcome_simps]: "p \<noteq> 0 \<Longrightarrow> h p = Some x \<Longrightarrow> c_free p h = Ret (h(p := None))"
  by (simp add: c_free_def)

text \<open>
  \<open>malloc\<close> enters the model through the address it returned: \<open>fresh h p\<close> says that the
  address is not NULL and holds no live object, which is what the allocator promises.
\<close>

definition fresh :: "heap \<Rightarrow> addr \<Rightarrow> bool" where
  "fresh h p \<longleftrightarrow> p \<noteq> 0 \<and> h p = None"

lemma fresh_NULL [simp]: "\<not> fresh h 0"
  by (simp add: fresh_def)

lemma freshD: "fresh h p \<Longrightarrow> p \<noteq> 0 \<and> h p = None"
  by (simp add: fresh_def)

end
