(* ===== verification/Mutex.thy ===== *)
theory Mutex
  imports Types
begin

text \<open>
  user/libthread/mutex.c: a spin lock built on \<open>atomic_exchange\<close>. \<open>mutex_lock\<close> contains the
  only loop; while it spins, other threads run (each iteration calls \<open>yield(gettid())\<close>). What
  they do to the mutex between two iterations is the list \<open>env\<close> of the model, one entry for
  each yield; \<open>Hang\<close> says that the loop was still spinning when the list ended.
  The second half is the machine of any number of threads that use one mutex.
\<close>

section \<open>The four operations\<close>

definition mutex_init :: "mutex option \<Rightarrow> i32 \<times> mutex option" where
  "mutex_init mp =
     (case mp of
        None \<Rightarrow> (-1, None)
      | Some m \<Rightarrow> (0, Some (m\<lparr>mx_initializeFlag := 1, mx_lockFlag := 0\<rparr>)))"

definition mutex_destroy :: "mutex \<Rightarrow> mutex outcome" where
  "mutex_destroy m =
     (if mx_initializeFlag m = 1 \<and> mx_lockFlag m \<noteq> 1
      then Ret (m\<lparr>mx_initializeFlag := 0\<rparr>)
      else Panic)"

text \<open>One evaluation of the guard \<open>atomic_exchange(&mutex->lockFlag, 1) == 1\<close>.\<close>

definition lock_try :: "mutex \<Rightarrow> bool \<times> mutex" where
  "lock_try m =
     (case atomic_exchange (mx_lockFlag m) 1 of
        (old, new) \<Rightarrow> (old = 1, m\<lparr>mx_lockFlag := new\<rparr>))"

fun lock_spin :: "(mutex \<Rightarrow> mutex) list \<Rightarrow> mutex \<Rightarrow> mutex outcome" where
  "lock_spin env m =
     (case lock_try m of (busy, m') \<Rightarrow>
        if \<not> busy then Ret m'
        else (case env of [] \<Rightarrow> Hang | others # env' \<Rightarrow> lock_spin env' (others m')))"

definition mutex_lock :: "(mutex \<Rightarrow> mutex) list \<Rightarrow> mutex \<Rightarrow> mutex outcome" where
  "mutex_lock env m = (if mx_initializeFlag m = 1 then lock_spin env m else Panic)"

definition mutex_unlock :: "mutex \<Rightarrow> mutex outcome" where
  "mutex_unlock m =
     (if mx_initializeFlag m = 1 \<and> mx_lockFlag m = 1
      then Ret (m\<lparr>mx_lockFlag := snd (atomic_exchange (mx_lockFlag m) 0)\<rparr>)
      else Panic)"

section \<open>What the operations do\<close>

text \<open>The three states of a mutex the code tells apart.\<close>

definition mx_free :: "mutex \<Rightarrow> bool" where
  "mx_free m \<longleftrightarrow> mx_initializeFlag m = 1 \<and> mx_lockFlag m = 0"

definition mx_held :: "mutex \<Rightarrow> bool" where
  "mx_held m \<longleftrightarrow> mx_initializeFlag m = 1 \<and> mx_lockFlag m = 1"

declare lock_spin.simps [simp del]

lemma lock_try_simps:
  "lock_try m = (mx_lockFlag m = 1, m\<lparr>mx_lockFlag := 1\<rparr>)"
  by (simp add: lock_try_def atomic_exchange_def)

lemma lock_spin_free: "mx_lockFlag m \<noteq> 1 \<Longrightarrow> lock_spin env m = Ret (m\<lparr>mx_lockFlag := 1\<rparr>)"
  by (subst lock_spin.simps) (simp add: lock_try_simps)

lemma mx_lock_again: "mx_lockFlag m = 1 \<Longrightarrow> m\<lparr>mx_lockFlag := 1\<rparr> = m"
  by (cases m) simp

lemma lock_spin_busy:
  "mx_lockFlag m = 1 \<Longrightarrow>
   lock_spin env m = (case env of [] \<Rightarrow> Hang | others # env' \<Rightarrow> lock_spin env' (others m))"
  by (subst lock_spin.simps) (simp add: lock_try_simps mx_lock_again split: list.splits)

lemma mutex_lock_free [outcome_simps]:
  "mx_free m \<Longrightarrow> mutex_lock env m = Ret (m\<lparr>mx_lockFlag := 1\<rparr>)"
  by (simp add: mutex_lock_def mx_free_def lock_spin_free)

lemma mutex_lock_held_alone: "mx_held m \<Longrightarrow> mutex_lock [] m = Hang"
  by (simp add: mutex_lock_def mx_held_def lock_spin_busy)

lemma mutex_lock_uninit: "mx_initializeFlag m \<noteq> 1 \<Longrightarrow> mutex_lock env m = Panic"
  by (simp add: mutex_lock_def)

lemma mutex_unlock_held [outcome_simps]:
  "mx_held m \<Longrightarrow> mutex_unlock m = Ret (m\<lparr>mx_lockFlag := 0\<rparr>)"
  by (simp add: mutex_unlock_def mx_held_def)

lemma mutex_unlock_not_held: "\<not> mx_held m \<Longrightarrow> mutex_unlock m = Panic"
  by (auto simp: mutex_unlock_def mx_held_def)

lemma mutex_init_free: "mutex_init (Some m) = (0, Some m') \<Longrightarrow> mx_free m'"
  by (auto simp: mutex_init_def mx_free_def)

lemma mx_free_lock [simp]: "mx_free m \<Longrightarrow> mx_held (m\<lparr>mx_lockFlag := 1\<rparr>)"
  by (simp add: mx_free_def mx_held_def)

lemma mx_held_unlock [simp]: "mx_held m \<Longrightarrow> mx_free (m\<lparr>mx_lockFlag := 0\<rparr>)"
  by (simp add: mx_free_def mx_held_def)

lemma mx_free_unlocked [simp]: "mx_free m \<Longrightarrow> mx_free (m\<lparr>mx_lockFlag := 0\<rparr>)"
  by (simp add: mx_free_def)

lemma mx_free_not_held: "mx_free m \<Longrightarrow> \<not> mx_held m"
  by (simp add: mx_free_def mx_held_def)

lemma mx_lock_unlock: "mx_free m \<Longrightarrow> m\<lparr>mx_lockFlag := 0\<rparr> = m"
  by (cases m) (simp add: mx_free_def)

text \<open>Locking and unlocking a free mutex gives it back unchanged.\<close>

lemma lock_unlock_roundtrip: "mx_free m \<Longrightarrow> bnd (mutex_lock env m) mutex_unlock = Ret m"
  by (simp add: outcome_simps mx_lock_unlock)

lemma mutex_lock_result_held:
  "mutex_lock env m = Ret m' \<Longrightarrow> \<forall>f \<in> set env. \<forall>x. mx_initializeFlag (f x) = mx_initializeFlag x
   \<Longrightarrow> mx_held m'"
proof (induction env arbitrary: m)
  case Nil
  then show ?case
    by (cases "mx_lockFlag m = 1")
       (auto simp: mutex_lock_def lock_spin_free lock_spin_busy mx_held_def split: if_splits)
next
  case (Cons f env)
  show ?case
  proof (cases "mx_lockFlag m = 1")
    case True
    with Cons.prems have "mutex_lock env (f m) = Ret m'"
      by (auto simp: mutex_lock_def lock_spin_busy split: if_splits)
    with Cons show ?thesis by auto
  next
    case False
    with Cons.prems show ?thesis
      by (auto simp: mutex_lock_def lock_spin_free mx_held_def split: if_splits)
  qed
qed

text \<open>
  The spin loop ends exactly when some yield leaves the flag different from 1: as soon as the
  holder's unlock falls into one of the yields, the caller gets the lock.
\<close>

fun ever_free :: "(mutex \<Rightarrow> mutex) list \<Rightarrow> mutex \<Rightarrow> bool" where
  "ever_free [] m = (mx_lockFlag m \<noteq> 1)"
| "ever_free (f # env) m = (mx_lockFlag m \<noteq> 1 \<or> ever_free env (f m))"

lemma lock_spin_Ret_iff: "(\<exists>m'. lock_spin env m = Ret m') \<longleftrightarrow> ever_free env m"
proof (induction env arbitrary: m)
  case Nil
  show ?case by (cases "mx_lockFlag m = 1") (simp_all add: lock_spin_free lock_spin_busy)
next
  case (Cons f env)
  then show ?case
    by (cases "mx_lockFlag m = 1") (simp_all add: lock_spin_free lock_spin_busy)
qed

lemma lock_spin_Hang_iff: "lock_spin env m = Hang \<longleftrightarrow> \<not> ever_free env m"
proof (induction env arbitrary: m)
  case Nil
  show ?case by (cases "mx_lockFlag m = 1") (simp_all add: lock_spin_free lock_spin_busy)
next
  case (Cons f env)
  then show ?case
    by (cases "mx_lockFlag m = 1") (simp_all add: lock_spin_free lock_spin_busy)
qed

section \<open>Threads that hold a mutex\<close>

text \<open>
  \<open>guarded P m pc\<close>: \<open>m\<close> is initialised, and \<open>lockFlag\<close> is 1 exactly when one thread is at
  a program point where it holds the lock (\<open>P\<close>); it is never two. Every machine of the development
  keeps this for each of its mutexes.
\<close>

definition guarded :: "('p \<Rightarrow> bool) \<Rightarrow> mutex \<Rightarrow> (i32 \<Rightarrow> 'p) \<Rightarrow> bool" where
  "guarded P m pc \<longleftrightarrow> mx_free m \<and> {t. P (pc t)} = {} \<or> mx_held m \<and> (\<exists>h. {t. P (pc t)} = {h})"

lemma points_upd: "{u. P ((pc(t := y)) u)} = (if P y then insert t {u. P (pc u)} else {u. P (pc u)} - {t})"
  by auto

lemma guarded_keep: "guarded P m pc \<Longrightarrow> P y = P (pc t) \<Longrightarrow> guarded P m (pc(t := y))"
  unfolding guarded_def points_upd by (cases "P y") (auto simp: insert_absorb)

lemma guarded_unique: "guarded P m pc \<Longrightarrow> P (pc t) \<Longrightarrow> P (pc u) \<Longrightarrow> t = u"
  by (auto simp: guarded_def set_eq_iff)

lemma guarded_held: "guarded P m pc \<Longrightarrow> P (pc t) \<Longrightarrow> mx_held m"
  by (auto simp: guarded_def)

lemma guarded_init: "guarded P m pc \<Longrightarrow> mx_initializeFlag m = 1"
  by (auto simp: guarded_def mx_free_def mx_held_def)

lemma guarded_flag: "guarded P m pc \<Longrightarrow> mx_lockFlag m = 1 \<longleftrightarrow> (\<exists>t. P (pc t))"
  by (auto simp: guarded_def mx_free_def mx_held_def)

lemma guarded_busy: "guarded P m pc \<Longrightarrow> lock_try m = (True, m') \<Longrightarrow> m' = m"
  by (auto simp: guarded_def mx_free_def mx_held_def lock_try_simps mx_lock_again)

lemma guarded_busy_keep:
  "guarded P m pc \<Longrightarrow> lock_try m = (True, m') \<Longrightarrow> P y = P (pc t) \<Longrightarrow> guarded P m' (pc(t := y))"
  using guarded_busy guarded_keep by metis

lemma guarded_try:
  assumes "guarded P m pc" "lock_try m = (False, m')" "P y"
  shows "guarded P m' (pc(t := y))"
proof -
  from assms have "mx_free m" "{t. P (pc t)} = {}" "m' = m\<lparr>mx_lockFlag := 1\<rparr>"
    by (auto simp: guarded_def mx_free_def mx_held_def lock_try_simps)
  with assms(3) show ?thesis unfolding guarded_def points_upd by simp
qed

lemma guarded_unlock:
  assumes "guarded P m pc" "P (pc t)" "\<not> P y"
  shows "mutex_unlock m = Ret (m\<lparr>mx_lockFlag := 0\<rparr>)" "guarded P (m\<lparr>mx_lockFlag := 0\<rparr>) (pc(t := y))"
proof -
  from assms(1,2) have h: "mx_held m" "{t. P (pc t)} = {t}" by (auto simp: guarded_def set_eq_iff)
  from h(1) show "mutex_unlock m = Ret (m\<lparr>mx_lockFlag := 0\<rparr>)" by (rule mutex_unlock_held)
  from h assms(3) show "guarded P (m\<lparr>mx_lockFlag := 0\<rparr>) (pc(t := y))"
    unfolding guarded_def points_upd by simp
qed

section \<open>Any number of threads and one mutex\<close>

text \<open>
  Each thread runs \<open>mutex_lock(&m); ...; mutex_unlock(&m)\<close> any number of times. A step is one
  access to the shared mutex: the initialisation test on entry, one \<open>atomic_exchange\<close> of the spin
  loop, the unlock. \<open>ms_dead\<close> is set when an assertion fails, which ends the task.
\<close>

datatype mpc = M_Out | M_Spin | M_In

record msys =
  ms_mutex :: mutex
  ms_pc :: "i32 \<Rightarrow> mpc"
  ms_dead :: bool

inductive mstep :: "msys \<Rightarrow> i32 \<Rightarrow> msys \<Rightarrow> bool" where
  m_call: "\<lbrakk>\<not> ms_dead s; ms_pc s t = M_Out; mx_initializeFlag (ms_mutex s) = 1\<rbrakk>
    \<Longrightarrow> mstep s t (s\<lparr>ms_pc := (ms_pc s)(t := M_Spin)\<rparr>)"
| m_call_uninit: "\<lbrakk>\<not> ms_dead s; ms_pc s t = M_Out; mx_initializeFlag (ms_mutex s) \<noteq> 1\<rbrakk>
    \<Longrightarrow> mstep s t (s\<lparr>ms_dead := True\<rparr>)"
| m_try: "\<lbrakk>\<not> ms_dead s; ms_pc s t = M_Spin; lock_try (ms_mutex s) = (busy, m)\<rbrakk>
    \<Longrightarrow> mstep s t (s\<lparr>ms_mutex := m, ms_pc := (ms_pc s)(t := (if busy then M_Spin else M_In))\<rparr>)"
| m_unlock: "\<lbrakk>\<not> ms_dead s; ms_pc s t = M_In; mutex_unlock (ms_mutex s) = Ret m\<rbrakk>
    \<Longrightarrow> mstep s t (s\<lparr>ms_mutex := m, ms_pc := (ms_pc s)(t := M_Out)\<rparr>)"
| m_unlock_panic: "\<lbrakk>\<not> ms_dead s; ms_pc s t = M_In; mutex_unlock (ms_mutex s) = Panic\<rbrakk>
    \<Longrightarrow> mstep s t (s\<lparr>ms_dead := True\<rparr>)"

inductive_cases mstep_E: "mstep s t s'"

text \<open>The run starts when \<open>mutex_init\<close> has returned 0 and no thread is inside.\<close>

definition ms_start :: "msys \<Rightarrow> bool" where
  "ms_start s \<longleftrightarrow> mx_free (ms_mutex s) \<and> (\<forall>t. ms_pc s t = M_Out) \<and> \<not> ms_dead s"

inductive mreach :: "msys \<Rightarrow> bool" where
  mreach_start: "ms_start s \<Longrightarrow> mreach s"
| mreach_step: "mreach s \<Longrightarrow> mstep s t s' \<Longrightarrow> mreach s'"

definition ms_inv :: "msys \<Rightarrow> bool" where
  "ms_inv s \<longleftrightarrow> \<not> ms_dead s \<and> guarded (\<lambda>p. p = M_In) (ms_mutex s) (ms_pc s)"

lemma ms_inv_start: "ms_start s \<Longrightarrow> ms_inv s"
  by (simp add: ms_start_def ms_inv_def guarded_def)

lemma ms_inv_step: "mstep s t s' \<Longrightarrow> ms_inv s \<Longrightarrow> ms_inv s'"
proof (induction rule: mstep.induct)
  case (m_try s t busy m)
  then show ?case
    by (cases busy) (auto simp: ms_inv_def intro: guarded_try guarded_busy_keep)
next
  case (m_unlock s t m)
  then show ?case using guarded_unlock [of "\<lambda>p. p = M_In" "ms_mutex s" "ms_pc s" t M_Out]
    by (simp add: ms_inv_def)
next
  case (m_unlock_panic s t)
  then show ?case using guarded_unlock [of "\<lambda>p. p = M_In" "ms_mutex s" "ms_pc s" t M_Out]
    by (simp add: ms_inv_def)
qed (auto simp: ms_inv_def intro: guarded_keep dest: guarded_init)

lemma mreach_inv: "mreach s \<Longrightarrow> ms_inv s"
  by (induction rule: mreach.induct) (auto intro: ms_inv_start ms_inv_step)

text \<open>
  C6: in every reachable state of any number of threads that lock and unlock one mutex, at most one
  is between its \<open>mutex_lock\<close> and its \<open>mutex_unlock\<close>, \<open>lockFlag\<close> says whether there is one, and
  no assertion of mutex.c has failed.
\<close>

theorem mutex_mutual_exclusion:
  assumes "mreach s"
  shows "\<not> ms_dead s \<and> (\<forall>t u. ms_pc s t = M_In \<and> ms_pc s u = M_In \<longrightarrow> t = u)
    \<and> (mx_lockFlag (ms_mutex s) = 1 \<longleftrightarrow> (\<exists>t. ms_pc s t = M_In))"
proof -
  from assms have "ms_inv s" by (rule mreach_inv)
  then show ?thesis
    by (auto simp: ms_inv_def guarded_flag dest: guarded_unique)
qed

definition ms_demo :: msys where
  "ms_demo = \<lparr>ms_mutex = the (snd (mutex_init (Some \<lparr>mx_lockFlag = 7, mx_initializeFlag = 9\<rparr>))),
     ms_pc = (\<lambda>_. M_Out), ms_dead = False\<rparr>"

lemma ms_demo_start: "ms_start ms_demo"
  by (simp add: ms_start_def ms_demo_def mutex_init_def mx_free_def)

text \<open>The run in which thread 4 has taken the lock and thread 5 spins on it.\<close>

lemma ms_demo_run:
  "mreach (ms_demo\<lparr>ms_mutex := \<lparr>mx_lockFlag = 1, mx_initializeFlag = 1\<rparr>,
     ms_pc := (\<lambda>_. M_Out)(4 := M_In, 5 := M_Spin)\<rparr>)" (is "mreach ?s4")
proof -
  let ?s1 = "ms_demo\<lparr>ms_pc := (\<lambda>_. M_Out)(4 := M_Spin)\<rparr>"
  let ?s2 = "ms_demo\<lparr>ms_mutex := \<lparr>mx_lockFlag = 1, mx_initializeFlag = 1\<rparr>,
     ms_pc := (\<lambda>_. M_Out)(4 := M_In)\<rparr>"
  have "mstep ms_demo 4 ?s1"
    using m_call [of ms_demo 4] by (simp add: ms_demo_def mutex_init_def)
  then have 1: "mreach ?s1" by (rule mreach_step [OF mreach_start [OF ms_demo_start]])
  have "mstep ?s1 4 ?s2"
    using m_try [of ?s1 4 False] by (simp add: ms_demo_def mutex_init_def lock_try_simps)
  with 1 have 2: "mreach ?s2" by (rule mreach_step)
  have "mstep ?s2 5 ?s4"
    using m_call [of ?s2 5] by (simp add: ms_demo_def mutex_init_def)
  with 2 show ?thesis by (rule mreach_step)
qed

theorem mutex_mutual_exclusion_witness:
  "\<exists>s. mreach s \<and> ms_pc s 4 = M_In \<and> ms_pc s 5 = M_Spin \<and> mx_lockFlag (ms_mutex s) = 1"
  using mutex_mutual_exclusion [OF ms_demo_run] ms_demo_run by fastforce

text \<open>
  a caller of \<open>mutex_lock\<close> on an initialised mutex gets the lock exactly when, at entry or
  after some yield, the other threads have left the flag different from 1; otherwise it spins for as long as it
  is observed, and on an uninitialised mutex it panics.
\<close>

theorem mutex_lock_outcome:
  "mutex_lock env m =
     (if mx_initializeFlag m \<noteq> 1 then Panic
      else if ever_free env m then Ret (the_outcome (lock_spin env m)) else Hang)"
  using lock_spin_Ret_iff [of env m] lock_spin_Hang_iff [of env m]
  by (auto simp: mutex_lock_def)

lemma ms_inv_free_try:
  "ms_inv s \<Longrightarrow> \<forall>u. ms_pc s u \<noteq> M_In \<Longrightarrow> fst (lock_try (ms_mutex s)) = False"
  by (auto simp: ms_inv_def lock_try_simps guarded_flag)

text \<open>
  C22: no thread is ever stuck, and when nobody is inside, whichever spinning thread runs next
  gets the lock: the mutex is deadlock free.
\<close>

theorem mutex_progress:
  assumes "mreach s"
  shows "(\<exists>s'. mstep s t s') \<and>
    ((\<forall>u. ms_pc s u \<noteq> M_In) \<and> ms_pc s t = M_Spin \<longrightarrow> (\<forall>s'. mstep s t s' \<longrightarrow> ms_pc s' t = M_In))"
proof
  from assms have inv: "ms_inv s" by (rule mreach_inv)
  then have alive: "\<not> ms_dead s" by (simp add: ms_inv_def)
  show "\<exists>s'. mstep s t s'"
  proof (cases "ms_pc s t")
    case M_Out
    with alive show ?thesis by (meson m_call m_call_uninit)
  next
    case M_Spin
    with alive show ?thesis by (metis m_try surj_pair)
  next
    case M_In
    with inv have "mx_held (ms_mutex s)" by (auto simp: ms_inv_def dest: guarded_held)
    with alive M_In show ?thesis by (meson m_unlock mutex_unlock_held)
  qed
  show "(\<forall>u. ms_pc s u \<noteq> M_In) \<and> ms_pc s t = M_Spin \<longrightarrow> (\<forall>s'. mstep s t s' \<longrightarrow> ms_pc s' t = M_In)"
    using ms_inv_free_try [OF inv] by (auto elim!: mstep_E)
qed

theorem mutex_progress_witness: "\<exists>s'. mstep ms_demo 4 s'"
  using mutex_progress [OF mreach_start [OF ms_demo_start], of 4] by blast

end
