(* ===== verification/Linked_List.thy ===== *)
theory Linked_List
  imports Types
begin

text \<open>
  user/libthread/linked_list.c: the doubly linked list of the condition variables and of the
  thread table. New nodes go in at the head, \<open>list_dequeue\<close> takes the tail, so the list is a
  FIFO queue. The functions take the \<open>list_t\<close> and the heap by value and return both.
  \<open>malloc\<close> inside \<open>list_insert\<close> is represented by the address \<open>p\<close> it returned
  (0 when it failed).

  After the functions: the predicate \<open>list_rep\<close>, which relates the pointer structure to the
  list of its nodes, what each function does to that list, and the FIFO interface.
\<close>

section \<open>The functions\<close>

definition list_create :: "list_t \<Rightarrow> list_t" where
  "list_create l = l\<lparr>l_head := 0, l_tail := 0, l_count := 0\<rparr>"

text \<open>The loop reads \<open>temp->next\<close> after \<open>free(node)\<close>, through the freed pointer.\<close>

partial_function (option) list_destroy_loop :: "addr \<Rightarrow> heap \<Rightarrow> heap outcome option" where
  "list_destroy_loop node h =
     (if node = 0 then Some (Ret h)
      else case bnd (get_node h node) (\<lambda>nd.
             bnd (c_free (nd_thread_data nd) h) (\<lambda>h.
             bnd (upd_node node (\<lambda>n. n\<lparr>nd_thread_data := 0\<rparr>) h) (\<lambda>h.
             bnd (c_free node h) (\<lambda>h.
             bnd (get_node h node) (\<lambda>temp. Ret (nd_next temp, h))))))
        of Ret (nxt, h') \<Rightarrow> list_destroy_loop nxt h'
         | Panic \<Rightarrow> Some Panic | Fault \<Rightarrow> Some Fault | Hang \<Rightarrow> Some Hang)"

definition list_destroy :: "list_t \<Rightarrow> heap \<Rightarrow> (list_t \<times> heap) outcome" where
  "list_destroy l h =
     (case list_destroy_loop (l_head l) h of
        None \<Rightarrow> Hang
      | Some r \<Rightarrow> bnd r (\<lambda>h. Ret (l\<lparr>l_head := 0, l_tail := 0\<rparr>, h)))"

partial_function (option) list_find_loop :: "heap \<Rightarrow> addr \<Rightarrow> i32 \<Rightarrow> addr outcome option" where
  "list_find_loop h node tid =
     (if node = 0 then Some (Ret 0)
      else case get_node h node of
             Ret nd \<Rightarrow> if nd_threadID nd = tid then Some (Ret node)
                       else list_find_loop h (nd_next nd) tid
           | Panic \<Rightarrow> Some Panic | Fault \<Rightarrow> Some Fault | Hang \<Rightarrow> Some Hang)"

text \<open>The search ends with \<open>assert(node != NULL)\<close>.\<close>

definition list_find :: "list_t \<Rightarrow> i32 \<Rightarrow> heap \<Rightarrow> addr outcome" where
  "list_find l tid h =
     (case list_find_loop h (l_head l) tid of
        None \<Rightarrow> Hang
      | Some r \<Rightarrow> bnd r (\<lambda>node. c_assert (node \<noteq> 0) (Ret node)))"

definition list_insert ::
  "addr \<Rightarrow> addr \<Rightarrow> i32 \<Rightarrow> list_t \<Rightarrow> heap \<Rightarrow> (i32 \<times> list_t \<times> heap) outcome" where
  "list_insert p data tid l h =
     (let node = l_head l in
      if node = 0 then
        let l = l\<lparr>l_head := p\<rparr> in
        if l_head l = 0 then Ret (-1, l, h)
        else
          let l = l\<lparr>l_tail := l_head l\<rparr>;
              h = h(p \<mapsto> Node \<lparr>nd_next = 0, nd_prev = 0, nd_thread_data = data, nd_threadID = tid\<rparr>)
          in Ret (0, l\<lparr>l_count := l_count l + 1\<rparr>, h)
      else
        bnd (upd_node node (\<lambda>n. n\<lparr>nd_prev := p\<rparr>) h) (\<lambda>h.
        if p = 0 then Ret (-1, l, h)
        else
          let h = h(p \<mapsto> Node \<lparr>nd_next = node, nd_prev = 0, nd_thread_data = data, nd_threadID = tid\<rparr>)
          in Ret (0, l\<lparr>l_head := p, l_count := l_count l + 1\<rparr>, h)))"

definition list_dequeue :: "list_t \<Rightarrow> heap \<Rightarrow> (i32 \<times> addr \<times> list_t \<times> heap) outcome" where
  "list_dequeue l h =
     (if l_count l = 0 then Ret (-1, 0, l, h)
      else
        let node = l_tail l in
        bnd (get_node h node) (\<lambda>nd.
        let data = nd_thread_data nd in
        bnd (if nd_prev nd \<noteq> 0
             then upd_node (nd_prev nd) (\<lambda>n. n\<lparr>nd_next := nd_next nd\<rparr>) h
             else Ret h) (\<lambda>h.
        let l = (if l_head l = node then l\<lparr>l_head := nd_next nd\<rparr> else l);
            l = (if l_tail l = node then l\<lparr>l_tail := nd_prev nd\<rparr> else l);
            l = l\<lparr>l_count := l_count l - 1\<rparr>
        in bnd (c_free node h) (\<lambda>h. Ret (0, data, l, h)))))"

definition list_remove :: "addr \<Rightarrow> list_t \<Rightarrow> heap \<Rightarrow> (list_t \<times> heap) outcome" where
  "list_remove node l h =
     bnd (get_node h node) (\<lambda>nd.
     bnd (if nd_next nd \<noteq> 0
          then upd_node (nd_next nd) (\<lambda>n. n\<lparr>nd_prev := nd_prev nd\<rparr>) h
          else Ret h) (\<lambda>h.
     bnd (if nd_prev nd \<noteq> 0
          then upd_node (nd_prev nd) (\<lambda>n. n\<lparr>nd_next := nd_next nd\<rparr>) h
          else Ret h) (\<lambda>h.
     let l = (if l_head l = node then l\<lparr>l_head := nd_next nd\<rparr> else l);
         l = (if l_tail l = node then l\<lparr>l_tail := nd_prev nd\<rparr> else l);
         l = l\<lparr>l_count := l_count l - 1\<rparr>
     in bnd (c_free (nd_thread_data nd) h) (\<lambda>h.
        bnd (c_free node h) (\<lambda>h. Ret (l, h))))))"

section \<open>The pointer structure\<close>

text \<open>A node as the list sees it: its address, the data pointer and the thread ID it carries.\<close>

type_synonym entry = "addr \<times> addr \<times> i32"

abbreviation at :: "entry \<Rightarrow> addr" where "at \<equiv> fst"
abbreviation data_of :: "entry \<Rightarrow> addr" where "data_of e \<equiv> fst (snd e)"
abbreviation tid_of :: "entry \<Rightarrow> i32" where "tid_of e \<equiv> snd (snd e)"

text \<open>
  \<open>dseg h pr x es la nx\<close>: following \<open>next\<close> from \<open>x\<close> visits exactly the entries \<open>es\<close> and
  then reaches \<open>nx\<close>; the \<open>prev\<close> of the first node is \<open>pr\<close>, the others point back to
  their predecessor, and the last node visited is \<open>la\<close> (\<open>pr\<close> when there is none).
\<close>

primrec dseg :: "heap \<Rightarrow> addr \<Rightarrow> addr \<Rightarrow> entry list \<Rightarrow> addr \<Rightarrow> addr \<Rightarrow> bool" where
  "dseg h pr x [] la nx \<longleftrightarrow> x = nx \<and> la = pr"
| "dseg h pr x (e # es) la nx \<longleftrightarrow> x = at e \<and> x \<noteq> 0 \<and>
     (\<exists>nd. h x = Some (Node nd) \<and> nd_prev nd = pr \<and> nd_thread_data nd = data_of e \<and>
           nd_threadID nd = tid_of e \<and> dseg h x (nd_next nd) es la nx)"

definition list_rep :: "heap \<Rightarrow> list_t \<Rightarrow> entry list \<Rightarrow> bool" where
  "list_rep h l es \<longleftrightarrow> dseg h 0 (l_head l) es (l_tail l) 0 \<and> l_count l = of_nat (length es) \<and>
     length es < 2 ^ 32 \<and> distinct (map at es)"

lemma dseg_append:
  "dseg h pr x (es @ fs) la nx \<longleftrightarrow> (\<exists>m k. dseg h pr x es m k \<and> dseg h m k fs la nx)"
proof (induction es arbitrary: pr x)
  case Nil
  show ?case by simp
next
  case (Cons e es)
  show ?case by (simp only: append_Cons dseg.simps Cons.IH) blast
qed

lemma dseg_cong [frame_rules]:
  "(\<And>a. a \<in> at ` set es \<Longrightarrow> h' a = h a) \<Longrightarrow> dseg h' pr x es la nx = dseg h pr x es la nx"
proof (induction es arbitrary: pr x)
  case Nil
  show ?case by simp
next
  case (Cons e es)
  from Cons.prems have "h' (at e) = h (at e)" by simp
  moreover have "dseg h' pr x es la nx = dseg h pr x es la nx" for pr x
    using Cons by simp
  ultimately show ?case by (simp cong: conj_cong)
qed

lemma dseg_upd [simp, frame_rules]:
  "a \<notin> at ` set es \<Longrightarrow> dseg (h(a := v)) pr x es la nx = dseg h pr x es la nx"
  by (rule dseg_cong) (metis fun_upd_apply)

lemma dseg_alloc: "dseg h pr x es la nx \<Longrightarrow> e \<in> set es \<Longrightarrow> h (at e) \<noteq> None \<and> at e \<noteq> 0"
proof (induction es arbitrary: pr x)
  case (Cons f es)
  then show ?case by (cases "e = f") fastforce+
qed simp

lemma dseg_last: "dseg h pr x es la nx \<Longrightarrow> es \<noteq> [] \<Longrightarrow> la = at (last es)"
proof (induction es arbitrary: pr x)
  case (Cons f es)
  then show ?case by (cases "es = []") fastforce+
qed simp

text \<open>Changing the \<open>next\<close> of the last node moves the end of the segment.\<close>

lemma dseg_relink_last:
  assumes "dseg h pr x (es @ [e]) la nx" "distinct (map at (es @ [e]))" "h (at e) = Some (Node nd)"
  shows "dseg (h(at e \<mapsto> Node (nd\<lparr>nd_next := nx'\<rparr>))) pr x (es @ [e]) la nx'"
  using assms by (auto simp: dseg_append)

text \<open>Changing the \<open>prev\<close> of the first node changes what the segment starts from.\<close>

lemma dseg_relink_first:
  assumes "dseg h pr x (e # es) la nx" "distinct (map at (e # es))" "h (at e) = Some (Node nd)"
  shows "dseg (h(at e \<mapsto> Node (nd\<lparr>nd_prev := pr'\<rparr>))) pr' x (e # es) la nx"
  using assms by auto

lemma list_rep_cong [frame_rules]:
  "(\<And>a. a \<in> at ` set es \<Longrightarrow> h' a = h a) \<Longrightarrow> list_rep h' l es = list_rep h l es"
  unfolding list_rep_def using dseg_cong [of es h' h] by auto

text \<open>Distinct addresses other than NULL: a list never has more than \<open>2 ^ 32 - 1\<close> nodes.\<close>

lemma distinct_addrs_bound:
  assumes "distinct xs" "(0 :: addr) \<notin> set xs"
  shows "length xs < 2 ^ 32"
proof -
  have "length xs = card (set xs)" using assms(1) by (simp add: distinct_card)
  also have "\<dots> \<le> card (UNIV - {0 :: addr})" using assms(2) by (intro card_mono) auto
  also have "\<dots> < 2 ^ 32" by (simp add: card_word card_Diff_singleton)
  finally show ?thesis .
qed

lemma list_rep_room:
  assumes "list_rep h l es" "fresh h p"
  shows "p \<notin> at ` set es" "length es + 1 < 2 ^ 32"
proof -
  from assms have al: "h (at e) \<noteq> None \<and> at e \<noteq> 0" if "e \<in> set es" for e
    using that by (auto simp: list_rep_def dest: dseg_alloc)
  with freshD [OF assms(2)] show p: "p \<notin> at ` set es" by fastforce
  have "0 \<notin> at ` set es" using al by force
  with p freshD [OF assms(2)] assms(1) show "length es + 1 < 2 ^ 32"
    using distinct_addrs_bound [of "p # map at es"] by (simp add: list_rep_def)
qed

lemma list_rep_empty: "list_rep h (list_create l) []"
  by (simp add: list_rep_def list_create_def)

lemma list_rep_Nil_iff: "list_rep h l [] \<longleftrightarrow> l_head l = 0 \<and> l_tail l = 0 \<and> l_count l = 0"
  by (auto simp: list_rep_def)

lemma list_rep_head0: "list_rep h l es \<Longrightarrow> l_head l = 0 \<longleftrightarrow> es = []"
  by (cases es) (auto simp: list_rep_def)

lemma list_rep_count0: "list_rep h l es \<Longrightarrow> l_count l = 0 \<longleftrightarrow> es = []"
  by (auto simp: list_rep_def of_nat_eq_0_iff32)

section \<open>What the functions do to the list\<close>

lemma list_insert_rep:
  assumes rep: "list_rep h l es" and p: "fresh h p"
  shows "\<exists>l' h'. list_insert p d t l h = Ret (0, l', h') \<and> list_rep h' l' ((p, d, t) # es) \<and>
    (\<forall>a. a \<noteq> p \<and> a \<notin> at ` set es \<longrightarrow> h' a = h a)"
proof (cases es)
  case Nil
  with rep p show ?thesis
    by (auto simp: list_rep_Nil_iff list_insert_def Let_def list_rep_def dest: freshD)
next
  case (Cons e es')
  from rep Cons obtain nd where seg: "dseg h 0 (at e) (e # es') (l_tail l) 0" and
    nd: "h (at e) = Some (Node nd)" "at e \<noteq> 0" "l_head l = at e" and dist: "distinct (map at (e # es'))"
    by (auto simp: list_rep_def)
  note pnot = list_rep_room(1) [OF rep p] and len = list_rep_room(2) [OF rep p]
  let ?h1 = "h(at e \<mapsto> Node (nd\<lparr>nd_prev := p\<rparr>))"
  have "dseg ?h1 p (at e) (e # es') (l_tail l) 0"
    using dseg_relink_first [OF seg dist nd(1)] by simp
  then have "dseg (?h1(p \<mapsto> Node \<lparr>nd_next = at e, nd_prev = 0, nd_thread_data = d, nd_threadID = t\<rparr>))
      0 p ((p, d, t) # es) (l_tail l) 0"
    using pnot freshD [OF p] by (auto simp: Cons)
  with rep Cons p nd pnot len show ?thesis
    by (auto simp: list_insert_def Let_def outcome_simps list_rep_def dest: freshD)
qed

lemma list_insert_fail:
  assumes "list_rep h l es"
  shows "\<exists>l' h'. list_insert 0 d t l h = Ret (-1, l', h') \<and> list_rep h' l' es \<and>
    (\<forall>a. a \<notin> at ` set es \<longrightarrow> h' a = h a)"
proof (cases es)
  case Nil
  with assms show ?thesis by (auto simp: list_rep_Nil_iff list_insert_def)
next
  case (Cons e es')
  with assms obtain nd where nd: "h (at e) = Some (Node nd)" "l_head l = at e" "at e \<noteq> 0" "nd_prev nd = 0"
    by (auto simp: list_rep_def)
  then have "h(at e \<mapsto> Node (nd\<lparr>nd_prev := 0\<rparr>)) = h" by (cases nd) auto
  with nd assms show ?thesis by (auto simp: list_insert_def Let_def outcome_simps)
qed

lemma list_dequeue_empty: "list_rep h l [] \<Longrightarrow> list_dequeue l h = Ret (-1, 0, l, h)"
  by (simp add: list_rep_Nil_iff list_dequeue_def)

lemma list_rep_lastD:
  assumes "list_rep h l (es @ [e])"
  shows "l_tail l = at e" "at e \<noteq> 0"
    "\<exists>nd. h (at e) = Some (Node nd) \<and> nd_next nd = 0 \<and> nd_thread_data nd = data_of e \<and>
       nd_threadID nd = tid_of e \<and> nd_prev nd = (if es = [] then 0 else at (last es))"
  using assms by (auto simp: list_rep_def dseg_append dest: dseg_last)

lemma list_dequeue_rep:
  assumes rep: "list_rep h l (es @ [e])"
  shows "\<exists>l' h'. list_dequeue l h = Ret (0, data_of e, l', h') \<and> list_rep h' l' es \<and> h' (at e) = None \<and>
    (\<forall>a. a \<noteq> at e \<and> a \<notin> at ` set es \<longrightarrow> h' a = h a)"
proof -
  from list_rep_lastD [OF rep] obtain nd where tail: "l_tail l = at e" "at e \<noteq> 0" and
    nd: "h (at e) = Some (Node nd)" "nd_next nd = 0" "nd_thread_data nd = data_of e"
      "nd_prev nd = (if es = [] then 0 else at (last es))" by blast
  from rep have cnt: "l_count l \<noteq> 0" "l_count l - 1 = of_nat (length es)"
    using list_rep_count0 [OF rep] by (simp_all add: list_rep_def)
  show ?thesis
  proof (cases es rule: rev_cases)
    case Nil
    with rep tail nd cnt show ?thesis
      by (auto simp: list_dequeue_def Let_def outcome_simps list_rep_def)
  next
    case (snoc es' f)
    from rep snoc have seg: "dseg h 0 (l_head l) ((es' @ [f]) @ [e]) (at e) 0" and
      dist: "distinct (map at ((es' @ [f]) @ [e]))" by (simp_all add: list_rep_def tail)
    then obtain k where segf: "dseg h 0 (l_head l) (es' @ [f]) (at f) k"
      by (auto simp: dseg_append)
    then obtain ndf where ndf: "h (at f) = Some (Node ndf)" "at f \<noteq> 0"
      by (auto simp: dseg_append)
    from dist segf have "dseg (h(at f \<mapsto> Node (ndf\<lparr>nd_next := 0\<rparr>))) 0 (l_head l) (es' @ [f]) (at f) 0"
      by (intro dseg_relink_last) (simp_all add: ndf)
    then have "dseg (h(at f \<mapsto> Node (ndf\<lparr>nd_next := 0\<rparr>), at e := None)) 0 (l_head l) es (at f) 0"
      using dist by (subst dseg_upd) (auto simp: snoc)
    moreover have "l_head l \<noteq> at e"
      using segf dist by (cases es') auto
    ultimately show ?thesis
      using rep tail nd cnt ndf dist
      by (auto simp: list_dequeue_def Let_def outcome_simps list_rep_def snoc)
  qed
qed

text \<open>The two relinking statements of \<open>list_remove\<close>, on the part after and the part before.\<close>

lemma relink_next_part:
  assumes "dseg h pr x ys la 0" "distinct (map at ys)"
  shows "\<exists>h'. (if x \<noteq> 0 then upd_node x (\<lambda>n. n\<lparr>nd_prev := pr'\<rparr>) h else Ret h) = Ret h' \<and>
    dseg h' pr' x ys (if ys = [] then pr' else la) 0 \<and> (\<forall>a. a \<notin> at ` set ys \<longrightarrow> h' a = h a)"
proof (cases ys)
  case Nil
  with assms show ?thesis by auto
next
  case (Cons y ys')
  with assms obtain nd where nd: "h (at y) = Some (Node nd)" "x = at y" "at y \<noteq> 0" by auto
  with assms Cons have "dseg (h(at y \<mapsto> Node (nd\<lparr>nd_prev := pr'\<rparr>))) pr' (at y) ys la 0"
    using dseg_relink_first by metis
  with Cons nd show ?thesis by (auto simp: outcome_simps)
qed

lemma relink_prev_part:
  assumes "dseg h 0 x xs m k" "distinct (map at xs)"
  shows "\<exists>h'. (if m \<noteq> 0 then upd_node m (\<lambda>n. n\<lparr>nd_next := nx\<rparr>) h else Ret h) = Ret h' \<and>
    dseg h' 0 (if xs = [] then nx else x) xs m nx \<and> (\<forall>a. a \<notin> at ` set xs \<longrightarrow> h' a = h a)"
proof (cases xs rule: rev_cases)
  case Nil
  with assms show ?thesis by auto
next
  case (snoc xs' y)
  with assms obtain nd where nd: "h (at y) = Some (Node nd)" "m = at y" "at y \<noteq> 0"
    by (auto simp: dseg_append)
  with assms snoc have "dseg (h(at y \<mapsto> Node (nd\<lparr>nd_next := nx\<rparr>))) 0 x xs m nx"
    using dseg_relink_last by metis
  with snoc nd show ?thesis by (auto simp: outcome_simps)
qed

lemma list_remove_rep:
  assumes rep: "list_rep h l (xs @ e # ys)"
    and data: "data_of e = 0 \<or> h (data_of e) \<noteq> None \<and> data_of e \<notin> at ` set (xs @ e # ys)"
  shows "\<exists>l' h'. list_remove (at e) l h = Ret (l', h') \<and> list_rep h' l' (xs @ ys) \<and> h' (at e) = None \<and>
    (data_of e \<noteq> 0 \<longrightarrow> h' (data_of e) = None) \<and>
    (\<forall>a. a \<noteq> at e \<and> a \<noteq> data_of e \<and> a \<notin> at ` set (xs @ ys) \<longrightarrow> h' a = h a)"
proof -
  from rep obtain m nd where seg1: "dseg h 0 (l_head l) xs m (at e)" and
    nd: "h (at e) = Some (Node nd)" "nd_prev nd = m" "nd_thread_data nd = data_of e" "at e \<noteq> 0" and
    seg2: "dseg h (at e) (nd_next nd) ys (l_tail l) 0" and
    dist: "distinct (map at xs)" "distinct (map at ys)" "at e \<notin> at ` set xs" "at e \<notin> at ` set ys"
      "at ` set xs \<inter> at ` set ys = {}"
    by (auto simp: list_rep_def dseg_append)
  from relink_next_part [OF seg2 dist(2), of m] obtain h1 where
    h1: "(if nd_next nd \<noteq> 0 then upd_node (nd_next nd) (\<lambda>n. n\<lparr>nd_prev := m\<rparr>) h else Ret h) = Ret h1"
      "dseg h1 m (nd_next nd) ys (if ys = [] then m else l_tail l) 0" "\<forall>a. a \<notin> at ` set ys \<longrightarrow> h1 a = h a"
    by blast
  have "dseg h1 0 (l_head l) xs m (at e)"
    using seg1 h1(3) dist(5) by (subst dseg_cong [of _ _ h]) auto
  from relink_prev_part [OF this dist(1), of "nd_next nd"] obtain h2 where
    h2: "(if m \<noteq> 0 then upd_node m (\<lambda>n. n\<lparr>nd_next := nd_next nd\<rparr>) h1 else Ret h1) = Ret h2"
      "dseg h2 0 (if xs = [] then nd_next nd else l_head l) xs m (nd_next nd)"
      "\<forall>a. a \<notin> at ` set xs \<longrightarrow> h2 a = h1 a"
    by blast
  have "dseg h2 m (nd_next nd) ys (if ys = [] then m else l_tail l) 0"
    using h1(2) h2(3) dist(5) by (subst dseg_cong [of _ _ h1]) auto
  with h2(2) have whole: "dseg h2 0 (if xs = [] then nd_next nd else l_head l) (xs @ ys) (if ys = [] then m else l_tail l) 0"
    by (subst dseg_append) blast
  have head: "l_head l = at e \<longleftrightarrow> xs = []"
    using seg1 dist(3) by (cases xs) auto
  have tail: "l_tail l = at e \<longleftrightarrow> ys = []"
    using seg2 dist(4) dseg_last [OF seg2] by (cases "ys = []") (auto, metis image_eqI last_in_set)
  define l' where "l' = l\<lparr>l_head := if xs = [] then nd_next nd else l_head l,
    l_tail := if ys = [] then m else l_tail l, l_count := l_count l - 1\<rparr>"
  define h3 where "h3 = (if data_of e = 0 then h2 else h2(data_of e := None))"
  have same: "h2 a = h a" if "a \<notin> at ` set xs" "a \<notin> at ` set ys" for a
    using that h1(3) h2(3) by simp
  have same_d: "data_of e = 0 \<or> h2 (data_of e) \<noteq> None \<and> data_of e \<noteq> at e \<and>
      data_of e \<notin> at ` set xs \<and> data_of e \<notin> at ` set ys"
    using data same [of "data_of e"] by (auto simp: image_Un)
  then have free1: "c_free (data_of e) h2 = Ret h3"
    by (auto simp: c_free_def h3_def)
  have free2: "c_free (at e) h3 = Ret (h3(at e := None))"
    using same_d nd same [of "at e"] dist by (auto simp: c_free_def h3_def)
  have run: "list_remove (at e) l h = Ret (l', h3(at e := None))"
    using nd h1(1) h2(1) free1 free2 head tail
    by (auto simp: list_remove_def outcome_simps Let_def l'_def)
  have "dseg (h3(at e := None)) 0 (l_head l') (xs @ ys) (l_tail l') 0"
  proof (subst dseg_cong [of _ _ h2])
    show "(h3(at e := None)) a = h2 a" if "a \<in> at ` set (xs @ ys)" for a
    proof -
      from that have "a \<in> at ` set xs \<or> a \<in> at ` set ys" by (simp add: image_Un)
      with dist same_d have "a \<noteq> at e" "data_of e \<noteq> 0 \<Longrightarrow> a \<noteq> data_of e" by blast+
      then show ?thesis by (simp add: h3_def)
    qed
  qed (use whole in \<open>simp add: l'_def\<close>)
  moreover have "l_count l' = of_nat (length (xs @ ys))"
    using rep by (simp add: list_rep_def l'_def)
  ultimately have "list_rep (h3(at e := None)) l' (xs @ ys)"
    using rep by (auto simp: list_rep_def)
  moreover have "(h3(at e := None)) a = h a"
    if "a \<noteq> at e" "a \<noteq> data_of e" "a \<notin> at ` set (xs @ ys)" for a
    using that same [of a] by (simp add: h3_def image_Un)
  ultimately show ?thesis using run same_d by (auto simp: h3_def)
qed

lemma list_find_loop_eq:
  "dseg h pr x es la 0 \<Longrightarrow> list_find_loop h x tid =
     Some (Ret (case find (\<lambda>e. tid_of e = tid) es of None \<Rightarrow> 0 | Some e \<Rightarrow> at e))"
proof (induction es arbitrary: pr x)
  case Nil
  then show ?case by (simp add: list_find_loop.simps)
next
  case (Cons e es)
  then obtain nd where "h x = Some (Node nd)" "x = at e" "x \<noteq> 0" "nd_threadID nd = tid_of e"
    "dseg h x (nd_next nd) es la 0" by auto
  then show ?case
    by (subst list_find_loop.simps) (simp add: outcome_simps Cons.IH)
qed

text \<open>The search finds the first node with the ID, counted from the head, and panics when there is none.\<close>

lemma list_find_rep:
  assumes "list_rep h l es"
  shows "list_find l tid h =
    (case find (\<lambda>e. tid_of e = tid) es of None \<Rightarrow> Panic | Some e \<Rightarrow> Ret (at e))"
proof -
  from assms have seg: "dseg h 0 (l_head l) es (l_tail l) 0" by (simp add: list_rep_def)
  show ?thesis
  proof (cases "find (\<lambda>e. tid_of e = tid) es")
    case None
    with list_find_loop_eq [OF seg] show ?thesis by (simp add: list_find_def)
  next
    case (Some e)
    then have "e \<in> set es" by (auto simp: find_Some_iff)
    with seg have "at e \<noteq> 0" by (auto dest: dseg_alloc)
    with Some list_find_loop_eq [OF seg] show ?thesis by (simp add: list_find_def)
  qed
qed

lemma list_destroy_empty:
  "list_rep h l [] \<Longrightarrow> list_destroy l h = Ret (l, h)"
  by (cases l) (auto simp: list_destroy_def list_destroy_loop.simps list_rep_Nil_iff)

text \<open>On a list with nodes the first iteration reads the \<open>next\<close> field of the node it has just freed.\<close>

lemma list_destroy_nonempty:
  assumes "list_rep h l es" "es \<noteq> []"
  shows "list_destroy l h = Fault"
proof -
  from assms obtain nd where nd: "h (l_head l) = Some (Node nd)" "l_head l \<noteq> 0"
    "nd_thread_data nd = data_of (hd es)"
    by (cases es) (auto simp: list_rep_def)
  have "c_free (nd_thread_data nd) h = Fault \<or>
      (\<exists>h'. c_free (nd_thread_data nd) h = Ret h' \<and> (h' (l_head l) = None \<or> h' (l_head l) = h (l_head l)))"
    by (auto simp: c_free_def split: option.splits)
  with nd have "list_destroy_loop (l_head l) h = Some Fault"
    by (subst list_destroy_loop.simps)
       (auto simp: outcome_simps c_free_def [of "l_head l"] upd_node_def get_node_def)
  then show ?thesis by (simp add: list_destroy_def outcome_simps)
qed

section \<open>The FIFO interface\<close>

text \<open>
  What the condition variables rely on: elements come out in the order they went in. \<open>rep s q\<close>
  says that the state \<open>s\<close> holds the queue \<open>q\<close> (newest first), \<open>room r s\<close> that the resource
  \<open>r\<close> (the node that \<open>malloc\<close> gave) can be put into use.
\<close>

fun fifo_fill :: "('r \<Rightarrow> 'a \<Rightarrow> 's \<Rightarrow> 's outcome) \<Rightarrow> ('r \<times> 'a) list \<Rightarrow> 's \<Rightarrow> 's outcome" where
  "fifo_fill put [] s = Ret s"
| "fifo_fill put ((r, x) # xs) s = bnd (put r x s) (fifo_fill put xs)"

fun fifo_drain :: "('s \<Rightarrow> ('a \<times> 's) outcome) \<Rightarrow> nat \<Rightarrow> 's \<Rightarrow> ('a list \<times> 's) outcome" where
  "fifo_drain tk 0 s = Ret ([], s)"
| "fifo_drain tk (Suc n) s =
     bnd (tk s) (\<lambda>(x, s). bnd (fifo_drain tk n s) (\<lambda>(xs, s). Ret (x # xs, s)))"

locale fifo =
  fixes rep :: "'s \<Rightarrow> 'a list \<Rightarrow> bool"
    and room :: "'r \<Rightarrow> 's \<Rightarrow> bool"
    and put :: "'r \<Rightarrow> 'a \<Rightarrow> 's \<Rightarrow> 's outcome"
    and tk :: "'s \<Rightarrow> ('a \<times> 's) outcome"
  assumes put_rep: "rep s q \<Longrightarrow> room r s \<Longrightarrow> \<exists>s'. put r x s = Ret s' \<and> rep s' (x # q)"
    and put_room: "rep s q \<Longrightarrow> room r s \<Longrightarrow> room r' s \<Longrightarrow> r' \<noteq> r \<Longrightarrow> put r x s = Ret s' \<Longrightarrow> room r' s'"
    and tk_rep: "rep s (q @ [x]) \<Longrightarrow> \<exists>s'. tk s = Ret (x, s') \<and> rep s' q"
begin

lemma drain_all: "rep s q \<Longrightarrow> \<exists>s'. fifo_drain tk (length q) s = Ret (rev q, s') \<and> rep s' []"
proof (induction q arbitrary: s rule: rev_induct)
  case Nil
  then show ?case by simp
next
  case (snoc x q)
  from tk_rep [OF snoc.prems] obtain s1 where s1: "tk s = Ret (x, s1)" "rep s1 q" by blast
  from snoc.IH [OF s1(2)] s1(1) show ?case by (auto simp: outcome_simps)
qed

lemma fill_all:
  "rep s q \<Longrightarrow> \<forall>r \<in> fst ` set xs. room r s \<Longrightarrow> distinct (map fst xs) \<Longrightarrow>
   \<exists>s'. fifo_fill put xs s = Ret s' \<and> rep s' (rev (map snd xs) @ q)"
proof (induction xs arbitrary: s q)
  case Nil
  then show ?case by simp
next
  case (Cons e xs)
  obtain r x where e: "e = (r, x)" by (cases e)
  from Cons.prems e obtain s1 where s1: "put r x s = Ret s1" "rep s1 (x # q)"
    using put_rep [of s q r x] by auto
  with Cons.prems e have "\<forall>r' \<in> fst ` set xs. room r' s1"
    using put_room [of s q r _ x s1] by fastforce
  with Cons s1 e have "\<exists>s'. fifo_fill put xs s1 = Ret s' \<and> rep s' (rev (map snd xs) @ x # q)"
    by simp
  with s1 e show ?case by (auto simp: outcome_simps)
qed

text \<open>Filling and draining gives every element back, in the order of insertion.\<close>

lemma fill_drain:
  assumes "rep s []" "\<forall>r \<in> fst ` set xs. room r s" "distinct (map fst xs)"
  shows "\<exists>s'. bnd (fifo_fill put xs s) (fifo_drain tk (length xs)) = Ret (map snd xs, s') \<and> rep s' []"
proof -
  from assms obtain s1 where s1: "fifo_fill put xs s = Ret s1" "rep s1 (rev (map snd xs))"
    using fill_all [of s "[]" xs] by auto
  from drain_all [OF s1(2)] s1(1) show ?thesis by (auto simp: outcome_simps)
qed

end

text \<open>The linked list provides it: the queue holds pairs of a data pointer and a thread ID.\<close>

definition lq_rep :: "list_t \<times> heap \<Rightarrow> (addr \<times> i32) list \<Rightarrow> bool" where
  "lq_rep s q \<longleftrightarrow> (\<exists>es. list_rep (snd s) (fst s) es \<and> map snd es = q)"

definition lq_put :: "addr \<Rightarrow> addr \<times> i32 \<Rightarrow> list_t \<times> heap \<Rightarrow> (list_t \<times> heap) outcome" where
  "lq_put p x s = bnd (list_insert p (fst x) (snd x) (fst s) (snd s)) (\<lambda>(rc, s). Ret s)"

text \<open>Dequeue, with the ID the node carried (the callers read it from the data).\<close>

definition lq_take :: "list_t \<times> heap \<Rightarrow> ((addr \<times> i32) \<times> list_t \<times> heap) outcome" where
  "lq_take s = bnd (get_node (snd s) (l_tail (fst s))) (\<lambda>nd.
     bnd (list_dequeue (fst s) (snd s)) (\<lambda>(rc, d, s). Ret ((d, nd_threadID nd), s)))"

lemma lq_put_rep:
  assumes "lq_rep s q" "fresh (snd s) p"
  shows "\<exists>s'. lq_put p x s = Ret s' \<and> lq_rep s' (x # q)"
proof -
  from assms(1) obtain es where es: "list_rep (snd s) (fst s) es" "map snd es = q"
    by (auto simp: lq_rep_def)
  from list_insert_rep [OF es(1) assms(2), of "fst x" "snd x"] es show ?thesis
    by (fastforce simp: lq_put_def lq_rep_def outcome_simps)
qed

lemma lq_take_rep:
  assumes "lq_rep s (q @ [x])"
  shows "\<exists>s'. lq_take s = Ret (x, s') \<and> lq_rep s' q"
proof -
  from assms obtain es e where es: "list_rep (snd s) (fst s) (es @ [e])" "map snd es = q" "snd e = x"
    by (auto simp: lq_rep_def map_eq_append_conv)
  from list_rep_lastD [OF es(1)] list_dequeue_rep [OF es(1)] es(2,3) show ?thesis
    by (fastforce simp: lq_take_def lq_rep_def outcome_simps)
qed

lemma list_rep_head_alloc: "list_rep h l es \<Longrightarrow> l_head l \<noteq> 0 \<Longrightarrow> h (l_head l) \<noteq> None"
  by (cases es) (auto simp: list_rep_def)

lemma lq_put_room:
  assumes "lq_rep s q" "fresh (snd s) p" "fresh (snd s) p'" "p' \<noteq> p" "lq_put p x s = Ret s'"
  shows "fresh (snd s') p'"
proof -
  from assms(3) have p': "p' \<noteq> 0" "snd s p' = None" by (auto dest: freshD)
  have "l_head (fst s) \<noteq> 0 \<Longrightarrow> snd s (l_head (fst s)) \<noteq> None"
    using assms(1) list_rep_head_alloc by (auto simp: lq_rep_def)
  then show ?thesis
    using assms(4,5) p'
    by (auto simp: lq_put_def list_insert_def Let_def fresh_def outcome_simps upd_node_def split: if_splits)
qed

interpretation lq: fifo lq_rep "\<lambda>p s. fresh (snd s) p" lq_put lq_take
  by unfold_locales (fact lq_put_rep lq_put_room lq_take_rep)+

text \<open>
  insert any nodes into an empty list and dequeue as many times: \<open>list_dequeue\<close> hands the
  data pointers back in the order of insertion, and the list is empty again.
\<close>

theorem linked_list_fifo:
  assumes "list_rep h l []" "\<forall>p \<in> set (map fst xs). fresh h p" "distinct (map fst xs)"
  shows "\<exists>s'. bnd (fifo_fill lq_put xs (l, h)) (fifo_drain lq_take (length xs)) = Ret (map snd xs, s') \<and>
    list_rep (snd s') (fst s') []"
proof -
  have "lq_rep (l, h) []" using assms(1) by (simp add: lq_rep_def)
  with assms lq.fill_drain [of "(l, h)" xs] show ?thesis by (auto simp: lq_rep_def)
qed

theorem linked_list_fifo_witness:
  "\<exists>s'. bnd (fifo_fill lq_put [(16, 0, 1), (48, 80, 2), (32, 0, 3)] (list_create \<lparr>l_head = 9, l_tail = 9, l_count = 9\<rparr>, \<lambda>_. None))
     (fifo_drain lq_take 3) = Ret ([(0, 1), (80, 2), (0, 3)], s') \<and> list_rep (snd s') (fst s') []"
  using linked_list_fifo [OF list_rep_empty, of "[(16, 0, 1), (48, 80, 2), (32, 0, 3)]" "\<lambda>_. None"]
  by (simp add: fresh_def numeral_3_eq_3 del: fifo_fill.simps fifo_drain.simps)

text \<open>
  \<open>list_remove\<close> of any node of the list (first, last or between) takes out exactly that
  node: the others keep their order and their contents, the node and its data are freed, and no other
  object changes.
\<close>

theorem list_remove_correct:
  assumes "list_rep h l (xs @ e # ys)"
    and "data_of e = 0 \<or> h (data_of e) \<noteq> None \<and> data_of e \<notin> at ` set (xs @ e # ys)"
  shows "\<exists>l' h'. list_remove (at e) l h = Ret (l', h') \<and> list_rep h' l' (xs @ ys) \<and> h' (at e) = None \<and>
    (data_of e \<noteq> 0 \<longrightarrow> h' (data_of e) = None) \<and>
    (\<forall>a. a \<noteq> at e \<and> a \<noteq> data_of e \<and> a \<notin> at ` set (xs @ ys) \<longrightarrow> h' a = h a)"
  using assms by (rule list_remove_rep)

text \<open>A list of three nodes whose middle one is removed.\<close>

definition demo_heap :: heap where
  "demo_heap = (\<lambda>_. None)(
     16 \<mapsto> Node \<lparr>nd_next = 32, nd_prev = 0, nd_thread_data = 0, nd_threadID = 7\<rparr>,
     32 \<mapsto> Node \<lparr>nd_next = 48, nd_prev = 16, nd_thread_data = 64, nd_threadID = 8\<rparr>,
     48 \<mapsto> Node \<lparr>nd_next = 0, nd_prev = 32, nd_thread_data = 0, nd_threadID = 9\<rparr>,
     64 \<mapsto> TCond \<lparr>tc_waitFlag = 0, tc_threadID = 8\<rparr>)"

definition demo_list :: list_t where
  "demo_list = \<lparr>l_head = 16, l_tail = 48, l_count = 3\<rparr>"

lemma demo_list_rep: "list_rep demo_heap demo_list ([(16, 0, 7)] @ (32, 64, 8) # [(48, 0, 9)])"
  by (simp add: list_rep_def demo_heap_def demo_list_def)

theorem list_remove_correct_witness:
  "\<exists>l' h'. list_remove 32 demo_list demo_heap = Ret (l', h') \<and> list_rep h' l' [(16, 0, 7), (48, 0, 9)] \<and> h' 64 = None"
  using list_remove_correct [OF demo_list_rep] by (auto simp: demo_heap_def)

text \<open>
  \<open>list_find\<close> terminates on every list and returns the node nearest to the head that carries
  the ID; when there is none its assertion fails, so it never returns NULL.
\<close>

theorem list_find_correct:
  assumes "list_rep h l es"
  shows "list_find l tid h =
    (case find (\<lambda>e. tid_of e = tid) es of None \<Rightarrow> Panic | Some e \<Rightarrow> Ret (at e))"
  using assms by (rule list_find_rep)

theorem list_find_correct_witness:
  "list_find demo_list 9 demo_heap = Ret 48 \<and> list_find demo_list 5 demo_heap = Panic"
  using list_find_correct [OF demo_list_rep, of 9] list_find_correct [OF demo_list_rep, of 5] by simp

text \<open>
  on a list that still has nodes, \<open>list_destroy\<close> reads the \<open>next\<close> field of the node
  it has just freed: undefined behaviour in its first iteration. (Its callers only pass empty lists.)
\<close>

theorem list_destroy_use_after_free:
  assumes "list_rep h l es"
  shows "list_destroy l h = (if es = [] then Ret (l, h) else Fault)"
proof (cases "es = []")
  case True
  with assms show ?thesis by (simp add: list_destroy_empty)
next
  case False
  with assms show ?thesis by (simp add: list_destroy_nonempty)
qed

theorem list_destroy_use_after_free_witness: "list_destroy demo_list demo_heap = Fault"
  using list_destroy_use_after_free [OF demo_list_rep] by simp

end
