(* ===== verification/Cond.thy ===== *)
theory Cond
  imports Mutex Linked_List
begin

text \<open>
  user/libthread/cond.c: condition variables. A \<open>cond_t\<close> is a flag, a mutex and the list of
  waiting threads; each waiting thread has a \<open>thread_cond_t\<close> on the heap whose \<open>waitFlag\<close> a
  signal sets.

  The functions take the \<open>cond_t\<close> by value. \<open>cond_wait\<close> blocks in the middle, so it is split
  at its while loop: \<open>cond_wait_enter\<close> runs up to the loop, \<open>cond_wait_blocked\<close> is the loop's
  guard, \<open>cond_wait_exit\<close> is what follows the loop. The kernel's part (\<open>deschedule\<close> and
  \<open>make_runnable\<close>) is code outside the repository: the signalling functions return the thread IDs they
  pass to \<open>make_runnable\<close>, in order. The theory \<open>Cond_Machine\<close> interleaves the threads and the kernel.

  The tests \<open>cond == NULL\<close> of the code stand after \<open>mutex_lock(&cond->condMutex)\<close>, which
  has already dereferenced the pointer, so they cannot succeed; only \<open>cond_init\<close> really takes NULL.
\<close>

section \<open>The functions\<close>

definition cond_init :: "cond option \<Rightarrow> i32 \<times> cond option" where
  "cond_init cp =
     (case cp of
        None \<Rightarrow> (-1, None)
      | Some c \<Rightarrow>
          let c = c\<lparr>cd_initializeFlag := 1\<rparr> in
          (case mutex_init (Some (cd_condMutex c)) of (rc, mp) \<Rightarrow>
             let c = c\<lparr>cd_condMutex := the mp\<rparr> in
             if neg32 rc then (-1, Some c)
             else (0, Some (c\<lparr>cd_list := list_create (cd_list c)\<rparr>))))"

definition cond_destroy ::
  "(mutex \<Rightarrow> mutex) list \<Rightarrow> cond \<Rightarrow> heap \<Rightarrow> (cond \<times> heap) outcome" where
  "cond_destroy env c h =
     bnd (mutex_lock env (cd_condMutex c)) (\<lambda>m.
     let c = c\<lparr>cd_condMutex := m\<rparr> in
     if cd_initializeFlag c = 0 \<or> 0 < l_count (cd_list c)
     then bnd (mutex_unlock (cd_condMutex c)) (\<lambda>_. Panic)
     else
       let c = c\<lparr>cd_initializeFlag := 0\<rparr> in
       bnd (list_destroy (cd_list c) h) (\<lambda>(l, h).
       bnd (mutex_unlock (cd_condMutex c)) (\<lambda>m.
       bnd (mutex_destroy m) (\<lambda>m.
       Ret (c\<lparr>cd_list := l, cd_condMutex := m\<rparr>, h)))))"

text \<open>
  \<open>cond_wait\<close> with \<open>condMutex\<close> held: the checks, \<open>malloc\<close> of the record (which returned
  \<open>p1\<close>, written without a NULL check) and \<open>list_insert\<close> (whose \<open>malloc\<close> returned \<open>p2\<close>).
  \<open>mnull\<close> says that the \<open>mutex\<close> argument is NULL.
\<close>

definition cond_wait_body ::
  "addr \<Rightarrow> addr \<Rightarrow> i32 \<Rightarrow> bool \<Rightarrow> cond \<Rightarrow> heap \<Rightarrow> (cond \<times> heap) outcome" where
  "cond_wait_body p1 p2 tid mnull c h =
     (if cd_initializeFlag c = 0 \<or> mnull
      then bnd (mutex_unlock (cd_condMutex c)) (\<lambda>_. Panic)
      else if p1 = 0 then Fault
      else
        let h = h(p1 \<mapsto> TCond \<lparr>tc_waitFlag = 0, tc_threadID = tid\<rparr>) in
        bnd (list_insert p2 p1 tid (cd_list c) h) (\<lambda>(rc, l, h).
        if neg32 rc then bnd (mutex_unlock (cd_condMutex c)) (\<lambda>_. Panic)
        else Ret (c\<lparr>cd_list := l\<rparr>, h)))"

definition cond_wait_enter ::
  "(mutex \<Rightarrow> mutex) list \<Rightarrow> addr \<Rightarrow> addr \<Rightarrow> i32 \<Rightarrow> cond \<Rightarrow> mutex \<Rightarrow> heap
   \<Rightarrow> (cond \<times> mutex \<times> heap) outcome" where
  "cond_wait_enter env p1 p2 tid c m h =
     bnd (mutex_lock env (cd_condMutex c)) (\<lambda>cm.
     bnd (cond_wait_body p1 p2 tid False (c\<lparr>cd_condMutex := cm\<rparr>) h) (\<lambda>(c, h).
     bnd (mutex_unlock m) (\<lambda>m.
     bnd (mutex_unlock (cd_condMutex c)) (\<lambda>cm.
     Ret (c\<lparr>cd_condMutex := cm\<rparr>, m, h)))))"

text \<open>The guard \<open>!(conditionalData->waitFlag)\<close>: true while the thread has to wait.\<close>

definition cond_wait_blocked :: "addr \<Rightarrow> heap \<Rightarrow> bool outcome" where
  "cond_wait_blocked p1 h = bnd (get_tcond h p1) (\<lambda>tc. Ret (tc_waitFlag tc = 0))"

definition cond_wait_exit ::
  "(mutex \<Rightarrow> mutex) list \<Rightarrow> addr \<Rightarrow> mutex \<Rightarrow> heap \<Rightarrow> (mutex \<times> heap) outcome" where
  "cond_wait_exit env p1 m h =
     bnd (c_free p1 h) (\<lambda>h. bnd (mutex_lock env m) (\<lambda>m. Ret (m, h)))"

text \<open>The body \<open>cond_signal\<close> and \<open>cond_broadcast\<close> share: dequeue, then mark the record.\<close>

definition cond_take :: "cond \<Rightarrow> heap \<Rightarrow> (addr \<times> cond \<times> heap) outcome" where
  "cond_take c h =
     bnd (list_dequeue (cd_list c) h) (\<lambda>(rc, d, l, h).
     if neg32 rc then bnd (mutex_unlock (cd_condMutex c)) (\<lambda>_. Panic)
     else Ret (d, c\<lparr>cd_list := l\<rparr>, h))"

definition cond_mark :: "addr \<Rightarrow> heap \<Rightarrow> (i32 \<times> heap) outcome" where
  "cond_mark d h =
     bnd (get_tcond h d) (\<lambda>tc.
     bnd (upd_tcond d (\<lambda>n. n\<lparr>tc_waitFlag := 1\<rparr>) h) (\<lambda>h. Ret (tc_threadID tc, h)))"

definition cond_wake_one :: "cond \<Rightarrow> heap \<Rightarrow> (i32 \<times> cond \<times> heap) outcome" where
  "cond_wake_one c h =
     bnd (cond_take c h) (\<lambda>(d, c, h). bnd (cond_mark d h) (\<lambda>(tid, h). Ret (tid, c, h)))"

definition cond_signal ::
  "(mutex \<Rightarrow> mutex) list \<Rightarrow> cond \<Rightarrow> heap \<Rightarrow> (i32 list \<times> cond \<times> heap) outcome" where
  "cond_signal env c h =
     bnd (mutex_lock env (cd_condMutex c)) (\<lambda>cm.
     let c = c\<lparr>cd_condMutex := cm\<rparr> in
     if cd_initializeFlag c \<noteq> 1 then bnd (mutex_unlock (cd_condMutex c)) (\<lambda>_. Panic)
     else
       bnd (if l_count (cd_list c) \<noteq> 0
            then bnd (cond_wake_one c h) (\<lambda>(tid, c, h). Ret ([tid], c, h))
            else Ret ([], c, h)) (\<lambda>(tids, c, h).
       bnd (mutex_unlock (cd_condMutex c)) (\<lambda>cm. Ret (tids, c\<lparr>cd_condMutex := cm\<rparr>, h))))"

text \<open>The \<open>for\<close> loop of \<open>cond_broadcast\<close>, with the iterations left.\<close>

fun cond_wake_n :: "nat \<Rightarrow> cond \<Rightarrow> heap \<Rightarrow> (i32 list \<times> cond \<times> heap) outcome" where
  "cond_wake_n 0 c h = Ret ([], c, h)"
| "cond_wake_n (Suc n) c h =
     bnd (cond_wake_one c h) (\<lambda>(tid, c, h).
     bnd (cond_wake_n n c h) (\<lambda>(tids, c, h). Ret (tid # tids, c, h)))"

text \<open>\<open>int count\<close> is the \<open>size_t\<close> read as signed: a negative count runs no iteration.\<close>

definition broadcast_rounds :: "u32 \<Rightarrow> nat" where
  "broadcast_rounds count = (if neg32 count then 0 else unat count)"

definition cond_broadcast ::
  "(mutex \<Rightarrow> mutex) list \<Rightarrow> cond \<Rightarrow> heap \<Rightarrow> (i32 list \<times> cond \<times> heap) outcome" where
  "cond_broadcast env c h =
     bnd (mutex_lock env (cd_condMutex c)) (\<lambda>cm.
     let c = c\<lparr>cd_condMutex := cm\<rparr> in
     if cd_initializeFlag c = 0 then bnd (mutex_unlock (cd_condMutex c)) (\<lambda>_. Panic)
     else
       bnd (cond_wake_n (broadcast_rounds (l_count (cd_list c))) c h) (\<lambda>(tids, c, h).
       bnd (mutex_unlock (cd_condMutex c)) (\<lambda>cm. Ret (tids, c\<lparr>cd_condMutex := cm\<rparr>, h))))"

section \<open>What the functions do\<close>

text \<open>
  The waiting queue of a condition variable: the list holds the entries \<open>es\<close> (newest first),
  each entry's data is a record with \<open>waitFlag\<close> 0 and the entry's thread ID, and no two
  entries share a record.
\<close>

definition queue_rep :: "cond \<Rightarrow> heap \<Rightarrow> entry list \<Rightarrow> bool" where
  "queue_rep c h es \<longleftrightarrow> list_rep h (cd_list c) es \<and> distinct (map data_of es) \<and>
     (\<forall>e \<in> set es. data_of e \<noteq> 0 \<and>
        h (data_of e) = Some (TCond \<lparr>tc_waitFlag = 0, tc_threadID = tid_of e\<rparr>))"

definition cond_rep :: "cond \<Rightarrow> heap \<Rightarrow> entry list \<Rightarrow> bool" where
  "cond_rep c h es \<longleftrightarrow> cd_initializeFlag c = 1 \<and> mx_free (cd_condMutex c) \<and> queue_rep c h es"

lemma queue_rep_mutex [simp]: "queue_rep (c\<lparr>cd_condMutex := m\<rparr>) h es = queue_rep c h es"
  by (simp add: queue_rep_def)

lemma queue_rep_list: "queue_rep c h es \<Longrightarrow> list_rep h (cd_list c) es"
  by (simp add: queue_rep_def)

lemma list_rep_node: "list_rep h l es \<Longrightarrow> e \<in> set es \<Longrightarrow> \<exists>nd. h (at e) = Some (Node nd)"
proof -
  have "dseg h pr x es la nx \<Longrightarrow> e \<in> set es \<Longrightarrow> \<exists>nd. h (at e) = Some (Node nd)" for pr x la nx
    by (induction es arbitrary: pr x) auto
  then show "list_rep h l es \<Longrightarrow> e \<in> set es \<Longrightarrow> ?thesis" by (auto simp: list_rep_def)
qed

text \<open>Records and nodes are different objects.\<close>

lemma queue_rep_sep: "queue_rep c h es \<Longrightarrow> e \<in> set es \<Longrightarrow> f \<in> set es \<Longrightarrow> data_of e \<noteq> at f"
  using list_rep_node [of h "cd_list c" es f] by (auto simp: queue_rep_def)

lemma queue_rep_cong:
  assumes "\<And>e. e \<in> set es \<Longrightarrow> h' (at e) = h (at e) \<and> h' (data_of e) = h (data_of e)"
  shows "queue_rep c h' es = queue_rep c h es"
proof -
  have "list_rep h' (cd_list c) es = list_rep h (cd_list c) es"
    by (rule list_rep_cong) (use assms in blast)
  then show ?thesis by (simp add: queue_rep_def assms)
qed

lemma cond_init_rep: "\<exists>c'. cond_init (Some c) = (0, Some c') \<and> cond_rep c' h []"
  by (simp add: cond_init_def mutex_init_def cond_rep_def queue_rep_def mx_free_def list_rep_empty Let_def)

lemma cond_take_rep:
  assumes "queue_rep c h (es @ [e])"
  shows "\<exists>l h'. cond_take c h = Ret (data_of e, c\<lparr>cd_list := l\<rparr>, h') \<and> queue_rep (c\<lparr>cd_list := l\<rparr>) h' es \<and>
    h' (data_of e) = Some (TCond \<lparr>tc_waitFlag = 0, tc_threadID = tid_of e\<rparr>) \<and>
    (\<forall>a. a \<noteq> at e \<and> a \<notin> at ` set es \<longrightarrow> h' a = h a)"
proof -
  from list_dequeue_rep [OF queue_rep_list [OF assms]] obtain l h' where
    run: "list_dequeue (cd_list c) h = Ret (0, data_of e, l, h')" and rep: "list_rep h' l es" and
    fr: "\<forall>a. a \<noteq> at e \<and> a \<notin> at ` set es \<longrightarrow> h' a = h a" by blast
  have same: "h' (data_of f) = h (data_of f)" if "f \<in> set (es @ [e])" for f
  proof -
    have "data_of f \<noteq> at g" if "g \<in> set (es @ [e])" for g
      using queue_rep_sep [OF assms \<open>f \<in> _\<close> that] .
    then have "data_of f \<noteq> at e" "data_of f \<notin> at ` set es" by fastforce+
    with fr show ?thesis by blast
  qed
  then have "queue_rep (c\<lparr>cd_list := l\<rparr>) h' es"
    using assms rep by (simp add: queue_rep_def)
  moreover have "h' (data_of e) = Some (TCond \<lparr>tc_waitFlag = 0, tc_threadID = tid_of e\<rparr>)"
    using assms same [of e] by (simp add: queue_rep_def)
  ultimately show ?thesis using run fr by (auto simp: cond_take_def outcome_simps)
qed

lemma cond_mark_eq:
  "h d = Some (TCond tc) \<Longrightarrow> cond_mark d h = Ret (tc_threadID tc, h(d \<mapsto> TCond (tc\<lparr>tc_waitFlag := 1\<rparr>)))"
  by (simp add: cond_mark_def outcome_simps)

text \<open>Marking a record that is not in the queue leaves the queue alone.\<close>

lemma queue_rep_upd_other:
  assumes "queue_rep c h es" "d \<notin> data_of ` set es" "d \<notin> at ` set es"
  shows "queue_rep c (h(d := v)) es"
proof (subst queue_rep_cong [of es _ h])
  fix e assume "e \<in> set es"
  with assms(2,3) have "d \<noteq> at e" "d \<noteq> data_of e" by blast+
  then show "(h(d := v)) (at e) = h (at e) \<and> (h(d := v)) (data_of e) = h (data_of e)" by simp
qed (rule assms(1))

lemma cond_wake_one_rep:
  assumes "queue_rep c h (es @ [e])"
  shows "\<exists>l h'. cond_wake_one c h = Ret (tid_of e, c\<lparr>cd_list := l\<rparr>, h') \<and>
    queue_rep (c\<lparr>cd_list := l\<rparr>) h' es \<and>
    h' (data_of e) = Some (TCond \<lparr>tc_waitFlag = 1, tc_threadID = tid_of e\<rparr>) \<and>
    (\<forall>a. a \<noteq> at e \<and> a \<noteq> data_of e \<and> a \<notin> at ` set es \<longrightarrow> h' a = h a)"
proof -
  from cond_take_rep [OF assms] obtain l h1 where
    tk: "cond_take c h = Ret (data_of e, c\<lparr>cd_list := l\<rparr>, h1)" and q: "queue_rep (c\<lparr>cd_list := l\<rparr>) h1 es" and
    d: "h1 (data_of e) = Some (TCond \<lparr>tc_waitFlag = 0, tc_threadID = tid_of e\<rparr>)" and
    fr: "\<forall>a. a \<noteq> at e \<and> a \<notin> at ` set es \<longrightarrow> h1 a = h a" by blast
  let ?h2 = "h1(data_of e \<mapsto> TCond \<lparr>tc_waitFlag = 1, tc_threadID = tid_of e\<rparr>)"
  have "data_of e \<notin> data_of ` set es" using assms by (simp add: queue_rep_def)
  moreover have "data_of e \<notin> at ` set es"
    using queue_rep_sep [OF assms, of e] by fastforce
  ultimately have "queue_rep (c\<lparr>cd_list := l\<rparr>) ?h2 es" by (rule queue_rep_upd_other [OF q])
  with tk d fr cond_mark_eq [of h1 "data_of e"] show ?thesis
    by (auto simp: cond_wake_one_def outcome_simps)
qed

text \<open>What waking leaves behind: the records of the woken entries have their flag set.\<close>

definition woken :: "heap \<Rightarrow> entry list \<Rightarrow> bool" where
  "woken h es \<longleftrightarrow> (\<forall>e \<in> set es. h (data_of e) = Some (TCond \<lparr>tc_waitFlag = 1, tc_threadID = tid_of e\<rparr>))"

definition entry_addrs :: "entry list \<Rightarrow> addr set" where
  "entry_addrs es = at ` set es \<union> data_of ` set es"

lemma entry_addrs_simps [simp]:
  "entry_addrs [] = {}" "entry_addrs (e # es) = {at e, data_of e} \<union> entry_addrs es"
  "entry_addrs (es @ fs) = entry_addrs es \<union> entry_addrs fs"
  by (auto simp: entry_addrs_def)

lemma cond_wake_n_rep:
  "queue_rep c h es \<Longrightarrow> \<exists>l h'. cond_wake_n (length es) c h = Ret (map tid_of (rev es), c\<lparr>cd_list := l\<rparr>, h') \<and>
    queue_rep (c\<lparr>cd_list := l\<rparr>) h' [] \<and> woken h' es \<and> (\<forall>a. a \<notin> entry_addrs es \<longrightarrow> h' a = h a)"
proof (induction es arbitrary: c h rule: rev_induct)
  case Nil
  then show ?case by (auto simp: woken_def intro!: exI [of _ "cd_list c"])
next
  case (snoc e es)
  from cond_wake_one_rep [OF snoc.prems] obtain l h1 where
    w: "cond_wake_one c h = Ret (tid_of e, c\<lparr>cd_list := l\<rparr>, h1)" "queue_rep (c\<lparr>cd_list := l\<rparr>) h1 es" and
    d: "h1 (data_of e) = Some (TCond \<lparr>tc_waitFlag = 1, tc_threadID = tid_of e\<rparr>)" and
    fr: "\<forall>a. a \<noteq> at e \<and> a \<noteq> data_of e \<and> a \<notin> at ` set es \<longrightarrow> h1 a = h a" by blast
  from snoc.IH [OF w(2)] obtain l' h2 where
    r: "cond_wake_n (length es) (c\<lparr>cd_list := l\<rparr>) h1 = Ret (map tid_of (rev es), c\<lparr>cd_list := l'\<rparr>, h2)"
      "queue_rep (c\<lparr>cd_list := l'\<rparr>) h2 []" "woken h2 es" and
    fr2: "\<forall>a. a \<notin> entry_addrs es \<longrightarrow> h2 a = h1 a" by auto
  have "data_of e \<notin> entry_addrs es"
    using snoc.prems queue_rep_sep [OF snoc.prems, of e] by (fastforce simp: entry_addrs_def queue_rep_def)
  with d fr2 r(3) have "woken h2 (es @ [e])" by (auto simp: woken_def)
  moreover have "\<forall>a. a \<notin> entry_addrs (es @ [e]) \<longrightarrow> h2 a = h a"
    using fr fr2 by (auto simp: entry_addrs_def)
  ultimately show ?case using w r by (auto simp: outcome_simps)
qed

lemma cond_signal_rep:
  assumes "cond_rep c h (es @ [e])"
  shows "\<exists>c' h'. cond_signal env c h = Ret ([tid_of e], c', h') \<and> cond_rep c' h' es \<and> woken h' [e] \<and>
    (\<forall>a. a \<noteq> data_of e \<and> a \<noteq> at e \<and> a \<notin> at ` set es \<longrightarrow> h' a = h a)"
proof -
  from assms have c: "cd_initializeFlag c = 1" "mx_free (cd_condMutex c)" and q: "queue_rep c h (es @ [e])"
    by (simp_all add: cond_rep_def)
  let ?c1 = "c\<lparr>cd_condMutex := (cd_condMutex c)\<lparr>mx_lockFlag := 1\<rparr>\<rparr>"
  have "queue_rep ?c1 h (es @ [e])" using q by simp
  from cond_wake_one_rep [OF this] obtain l h' where
    w: "cond_wake_one ?c1 h = Ret (tid_of e, ?c1\<lparr>cd_list := l\<rparr>, h')" "queue_rep (?c1\<lparr>cd_list := l\<rparr>) h' es"
      "h' (data_of e) = Some (TCond \<lparr>tc_waitFlag = 1, tc_threadID = tid_of e\<rparr>)"
      "\<forall>a. a \<noteq> at e \<and> a \<noteq> data_of e \<and> a \<notin> at ` set es \<longrightarrow> h' a = h a" by blast
  have "l_count (cd_list c) \<noteq> 0"
    using list_rep_count0 [OF queue_rep_list [OF q]] by simp
  with c w show ?thesis
    by (auto simp: cond_signal_def outcome_simps Let_def cond_rep_def woken_def queue_rep_def)
qed

lemma cond_signal_none:
  assumes "cond_rep c h []"
  shows "cond_signal env c h = Ret ([], c, h)"
proof -
  from assms have c: "cd_initializeFlag c = 1" "mx_free (cd_condMutex c)" and q: "queue_rep c h []"
    by (simp_all add: cond_rep_def)
  have "l_count (cd_list c) = 0"
    using list_rep_count0 [OF queue_rep_list [OF q]] by simp
  with c show ?thesis
    by (simp add: cond_signal_def outcome_simps Let_def mx_lock_unlock)
qed

lemma broadcast_rounds_small: "n < 2 ^ 31 \<Longrightarrow> broadcast_rounds (of_nat n) = n"
  by (simp add: broadcast_rounds_def word_sless_alt sint_of_nat32 unat_of_nat)

lemma cond_broadcast_rep:
  assumes "cond_rep c h es" "length es < 2 ^ 31"
  shows "\<exists>c' h'. cond_broadcast env c h = Ret (map tid_of (rev es), c', h') \<and> cond_rep c' h' [] \<and>
    woken h' es \<and> (\<forall>a. a \<notin> entry_addrs es \<longrightarrow> h' a = h a)"
proof -
  from assms have c: "cd_initializeFlag c = 1" "mx_free (cd_condMutex c)" and q: "queue_rep c h es"
    by (simp_all add: cond_rep_def)
  let ?c1 = "c\<lparr>cd_condMutex := (cd_condMutex c)\<lparr>mx_lockFlag := 1\<rparr>\<rparr>"
  have "queue_rep ?c1 h es" using q by simp
  from cond_wake_n_rep [OF this] obtain l h' where
    w: "cond_wake_n (length es) ?c1 h = Ret (map tid_of (rev es), ?c1\<lparr>cd_list := l\<rparr>, h')"
      "queue_rep (?c1\<lparr>cd_list := l\<rparr>) h' []" "woken h' es" "\<forall>a. a \<notin> entry_addrs es \<longrightarrow> h' a = h a"
    by blast
  have "broadcast_rounds (l_count (cd_list c)) = length es"
    using queue_rep_list [OF q] assms(2) by (simp add: list_rep_def broadcast_rounds_small)
  with c w show ?thesis
    by (auto simp: cond_broadcast_def outcome_simps Let_def cond_rep_def queue_rep_def)
qed

lemma cond_wait_body_rep:
  assumes q: "queue_rep c h es" and init: "cd_initializeFlag c = 1"
    and f: "fresh h p1" "fresh h p2" "p1 \<noteq> p2"
  shows "\<exists>l h'. cond_wait_body p1 p2 tid False c h = Ret (c\<lparr>cd_list := l\<rparr>, h') \<and>
    queue_rep (c\<lparr>cd_list := l\<rparr>) h' ((p2, p1, tid) # es) \<and>
    (\<forall>a. a \<noteq> p1 \<and> a \<noteq> p2 \<and> a \<notin> at ` set es \<longrightarrow> h' a = h a)"
proof -
  let ?h1 = "h(p1 \<mapsto> TCond \<lparr>tc_waitFlag = 0, tc_threadID = tid\<rparr>)"
  have p1: "p1 \<notin> at ` set es" "p1 \<notin> data_of ` set es" "p2 \<notin> data_of ` set es"
    using q list_rep_node [OF queue_rep_list [OF q]] freshD [OF f(1)] freshD [OF f(2)]
    by (fastforce simp: queue_rep_def)+
  then have q1: "queue_rep c ?h1 es" by (intro queue_rep_upd_other [OF q])
  have "fresh ?h1 p2" using f by (auto simp: fresh_def)
  from list_insert_rep [OF queue_rep_list [OF q1] this, of p1 tid] obtain l h' where
    ins: "list_insert p2 p1 tid (cd_list c) ?h1 = Ret (0, l, h')" "list_rep h' l ((p2, p1, tid) # es)"
      "\<forall>a. a \<noteq> p2 \<and> a \<notin> at ` set es \<longrightarrow> h' a = ?h1 a" by blast
  have same: "h' (data_of e) = h (data_of e)" if "e \<in> set es" for e
  proof -
    have "data_of e \<notin> at ` set es" using queue_rep_sep [OF q that] by fastforce
    moreover have "data_of e \<noteq> p1" "data_of e \<noteq> p2" using p1 that by auto
    ultimately show ?thesis using ins(3) by simp
  qed
  have "h' p1 = Some (TCond \<lparr>tc_waitFlag = 0, tc_threadID = tid\<rparr>)"
    using ins(3) p1 f(3) by simp
  with ins(2) same q p1 freshD [OF f(1)] have "queue_rep (c\<lparr>cd_list := l\<rparr>) h' ((p2, p1, tid) # es)"
    by (simp add: queue_rep_def)
  with ins init freshD [OF f(1)] show ?thesis
    by (auto simp: cond_wait_body_def outcome_simps Let_def)
qed

lemma cond_wait_enter_rep:
  assumes c: "cond_rep c h es" and m: "mx_held m"
    and f: "fresh h p1" "fresh h p2" "p1 \<noteq> p2"
  shows "\<exists>c' h'. cond_wait_enter env p1 p2 tid c m h = Ret (c', m\<lparr>mx_lockFlag := 0\<rparr>, h') \<and>
    cond_rep c' h' ((p2, p1, tid) # es) \<and> (\<forall>a. a \<noteq> p1 \<and> a \<noteq> p2 \<and> a \<notin> at ` set es \<longrightarrow> h' a = h a)"
proof -
  from c have c': "cd_initializeFlag c = 1" "mx_free (cd_condMutex c)" and q: "queue_rep c h es"
    by (simp_all add: cond_rep_def)
  let ?c1 = "c\<lparr>cd_condMutex := (cd_condMutex c)\<lparr>mx_lockFlag := 1\<rparr>\<rparr>"
  have "queue_rep ?c1 h es" "cd_initializeFlag ?c1 = 1" using q c' by simp_all
  from cond_wait_body_rep [OF this f, of tid] obtain l h' where
    w: "cond_wait_body p1 p2 tid False ?c1 h = Ret (?c1\<lparr>cd_list := l\<rparr>, h')"
      "queue_rep (?c1\<lparr>cd_list := l\<rparr>) h' ((p2, p1, tid) # es)"
      "\<forall>a. a \<noteq> p1 \<and> a \<noteq> p2 \<and> a \<notin> at ` set es \<longrightarrow> h' a = h a" by blast
  with c' m show ?thesis
    by (auto simp: cond_wait_enter_def outcome_simps cond_rep_def queue_rep_def)
qed

text \<open>A destroyed condition variable had no waiter, so the freeing loop of \<open>list_destroy\<close> never runs.\<close>

lemma cond_destroy_idle:
  assumes "cond_rep c h []"
  shows "\<exists>c'. cond_destroy env c h = Ret (c', h) \<and> cd_initializeFlag c' = 0 \<and>
    mx_initializeFlag (cd_condMutex c') = 0"
proof -
  from assms have c: "cd_initializeFlag c = 1" "mx_free (cd_condMutex c)" and q: "queue_rep c h []"
    by (simp_all add: cond_rep_def)
  from queue_rep_list [OF q] have "l_count (cd_list c) = 0" "list_destroy (cd_list c) h = Ret (cd_list c, h)"
    using list_rep_count0 list_destroy_empty by blast+
  with c show ?thesis
    by (auto simp: cond_destroy_def outcome_simps Let_def mutex_destroy_def mx_free_def)
qed

lemma cond_destroy_busy:
  assumes "cond_rep c h es" "es \<noteq> []"
  shows "cond_destroy env c h = Panic"
proof -
  from assms have c: "cd_initializeFlag c = 1" "mx_free (cd_condMutex c)" and q: "queue_rep c h es"
    by (simp_all add: cond_rep_def)
  with assms(2) list_rep_count0 [OF queue_rep_list [OF q]] have "0 < l_count (cd_list c)"
    by (simp add: word_gt_0)
  with c show ?thesis by (simp add: cond_destroy_def outcome_simps Let_def)
qed

section \<open>The interface of a condition variable\<close>

text \<open>
  \<open>rep s q\<close>: the threads of \<open>q\<close> wait in state \<open>s\<close>, newest first, each with its record;
  \<open>set s d\<close>: the \<open>waitFlag\<close> of record \<open>d\<close> is 1.
\<close>

fun signal_times :: "('s \<Rightarrow> (i32 list \<times> 's) outcome) \<Rightarrow> nat \<Rightarrow> 's \<Rightarrow> (i32 list \<times> 's) outcome" where
  "signal_times sig 0 s = Ret ([], s)"
| "signal_times sig (Suc n) s =
     bnd (sig s) (\<lambda>(ts, s). bnd (signal_times sig n s) (\<lambda>(us, s). Ret (ts @ us, s)))"

locale condvar =
  fixes rep :: "'s \<Rightarrow> (addr \<times> i32) list \<Rightarrow> bool"
    and is_set :: "'s \<Rightarrow> addr \<Rightarrow> bool"
    and sig :: "'s \<Rightarrow> (i32 list \<times> 's) outcome"
    and bcast :: "'s \<Rightarrow> (i32 list \<times> 's) outcome"
    and cap :: nat
  assumes sig_rep: "rep s (q @ [w]) \<Longrightarrow> \<exists>s'. sig s = Ret ([snd w], s') \<and> rep s' q \<and> is_set s' (fst w)"
    and sig_none: "rep s [] \<Longrightarrow> sig s = Ret ([], s)"
    and sig_keeps: "rep s q \<Longrightarrow> is_set s d \<Longrightarrow> sig s = Ret (ts, s') \<Longrightarrow> is_set s' d"
    and bcast_rep: "rep s q \<Longrightarrow> length q < cap \<Longrightarrow>
      \<exists>s'. bcast s = Ret (map snd (rev q), s') \<and> rep s' [] \<and> (\<forall>w \<in> set q. is_set s' (fst w))"
begin

lemma signal_all:
  "rep s q \<Longrightarrow> \<exists>s'. signal_times sig (length q) s = Ret (map snd (rev q), s') \<and> rep s' [] \<and>
     (\<forall>w \<in> set q. is_set s' (fst w)) \<and> (\<forall>d. is_set s d \<longrightarrow> is_set s' d)"
proof (induction q arbitrary: s rule: rev_induct)
  case Nil
  then show ?case by simp
next
  case (snoc w q)
  from sig_rep [OF snoc.prems] obtain s1 where s1: "sig s = Ret ([snd w], s1)" "rep s1 q" "is_set s1 (fst w)"
    by blast
  from snoc.IH [OF s1(2)] obtain s2 where s2: "signal_times sig (length q) s1 = Ret (map snd (rev q), s2)"
    "rep s2 []" "\<forall>w \<in> set q. is_set s2 (fst w)" "\<forall>d. is_set s1 d \<longrightarrow> is_set s2 d" by blast
  from s1 s2 sig_keeps [OF snoc.prems _ s1(1)] show ?case by (auto simp: outcome_simps)
qed

lemma signal_extra: "rep s [] \<Longrightarrow> signal_times sig n s = Ret ([], s)"
  by (induction n) (simp_all add: sig_none outcome_simps)

text \<open>A broadcast wakes the threads that as many signals as there are waiters would wake.\<close>

lemma bcast_as_signals:
  assumes "rep s q" "length q < cap"
  shows "\<exists>s1 s2. bcast s = Ret (map snd (rev q), s1) \<and>
    signal_times sig (length q) s = Ret (map snd (rev q), s2) \<and> rep s1 [] \<and> rep s2 [] \<and>
    (\<forall>w \<in> set q. is_set s1 (fst w) \<and> is_set s2 (fst w))"
  using bcast_rep [OF assms] signal_all [OF assms(1)] by blast

end

definition cv_rep :: "cond \<times> heap \<Rightarrow> (addr \<times> i32) list \<Rightarrow> bool" where
  "cv_rep s q \<longleftrightarrow> (\<exists>es. cond_rep (fst s) (snd s) es \<and> map snd es = q)"

definition cv_set :: "cond \<times> heap \<Rightarrow> addr \<Rightarrow> bool" where
  "cv_set s d \<longleftrightarrow> (\<exists>tc. snd s d = Some (TCond tc) \<and> tc_waitFlag tc = 1)"

lemma cv_set_not_queued: "cond_rep c h es \<Longrightarrow> cv_set (c, h) d \<Longrightarrow> e \<in> set es \<Longrightarrow> d \<noteq> at e \<and> d \<noteq> data_of e"
  using list_rep_node [of h "cd_list c" es e]
  by (fastforce simp: cond_rep_def cv_set_def queue_rep_def)

lemma cv_sig_keeps:
  assumes "cv_rep s q" "cv_set s d" "(\<lambda>(c, h). cond_signal [] c h) s = Ret (ts, s')"
  shows "cv_set s' d"
proof -
  obtain c h where s: "s = (c, h)" by (cases s)
  from assms(1) s obtain es where es: "cond_rep c h es" by (auto simp: cv_rep_def)
  show ?thesis
  proof (cases es rule: rev_cases)
    case Nil
    with es assms s cond_signal_none [of c h "[]"] show ?thesis by auto
  next
    case (snoc es' e)
    have "\<forall>f \<in> set es. d \<noteq> at f \<and> d \<noteq> data_of f"
      using cv_set_not_queued [OF es] assms(2) s by blast
    with snoc have "d \<noteq> at e" "d \<noteq> data_of e" "d \<notin> at ` set es'" by auto
    with cond_signal_rep [of c h es' e "[]"] es snoc assms(2,3) s show ?thesis
      by (auto simp: cv_set_def)
  qed
qed

interpretation cv: condvar cv_rep cv_set "\<lambda>(c, h). cond_signal [] c h" "\<lambda>(c, h). cond_broadcast [] c h" "2 ^ 31"
proof unfold_locales
  fix s :: "cond \<times> heap" and q w
  assume "cv_rep s (q @ [w])"
  then obtain es e where "cond_rep (fst s) (snd s) (es @ [e])" "map snd es = q" "snd e = w"
    by (auto simp: cv_rep_def map_eq_append_conv)
  with cond_signal_rep [of "fst s" "snd s" es e "[]"]
  show "\<exists>s'. (\<lambda>(c, h). cond_signal [] c h) s = Ret ([snd w], s') \<and> cv_rep s' q \<and> cv_set s' (fst w)"
    by (fastforce simp: cv_rep_def cv_set_def woken_def split_beta)
next
  fix s :: "cond \<times> heap"
  assume "cv_rep s []"
  then show "(\<lambda>(c, h). cond_signal [] c h) s = Ret ([], s)"
    by (auto simp: cv_rep_def split_beta cond_signal_none)
next
  fix s :: "cond \<times> heap" and q
  assume "cv_rep s q" "length q < 2 ^ 31"
  then obtain es where "cond_rep (fst s) (snd s) es" "map snd es = q" "length es < 2 ^ 31"
    by (auto simp: cv_rep_def)
  with cond_broadcast_rep [of "fst s" "snd s" es "[]"]
  show "\<exists>s'. (\<lambda>(c, h). cond_broadcast [] c h) s = Ret (map snd (rev q), s') \<and> cv_rep s' [] \<and>
      (\<forall>w \<in> set q. cv_set s' (fst w))"
    by (fastforce simp: cv_rep_def cv_set_def woken_def split_beta rev_map)
qed (rule cv_sig_keeps)

section \<open>The contract of the condition variables\<close>

text \<open>Two threads wait: 7 came first (record 16), then 8 (record 64).\<close>

definition demo_cond :: cond where
  "demo_cond = \<lparr>cd_initializeFlag = 1, cd_condMutex = \<lparr>mx_lockFlag = 0, mx_initializeFlag = 1\<rparr>,
     cd_list = \<lparr>l_head = 80, l_tail = 32, l_count = 2\<rparr>\<rparr>"

definition demo_cond_heap :: heap where
  "demo_cond_heap = (\<lambda>_. None)(
     16 \<mapsto> TCond \<lparr>tc_waitFlag = 0, tc_threadID = 7\<rparr>,
     32 \<mapsto> Node \<lparr>nd_next = 0, nd_prev = 80, nd_thread_data = 16, nd_threadID = 7\<rparr>,
     64 \<mapsto> TCond \<lparr>tc_waitFlag = 0, tc_threadID = 8\<rparr>,
     80 \<mapsto> Node \<lparr>nd_next = 32, nd_prev = 0, nd_thread_data = 64, nd_threadID = 8\<rparr>)"

lemma demo_cond_rep: "cond_rep demo_cond demo_cond_heap [(80, 64, 8), (32, 16, 7)]"
  by (simp add: cond_rep_def queue_rep_def list_rep_def mx_free_def demo_cond_def demo_cond_heap_def)

text \<open>
  \<open>cond_signal\<close> wakes exactly the thread that has waited longest: its \<open>waitFlag\<close> is set and
  its ID goes to \<open>make_runnable\<close>; the others keep their places; with no waiter it does nothing.
\<close>

theorem cond_signal_longest_waiter:
  assumes "cond_rep c h es"
  shows "if es = [] then cond_signal env c h = Ret ([], c, h)
    else \<exists>c' h'. cond_signal env c h = Ret ([tid_of (last es)], c', h') \<and> cond_rep c' h' (butlast es) \<and>
      h' (data_of (last es)) = Some (TCond \<lparr>tc_waitFlag = 1, tc_threadID = tid_of (last es)\<rparr>)"
proof (cases es rule: rev_cases)
  case Nil
  with assms show ?thesis by (simp add: cond_signal_none)
next
  case (snoc es' e)
  with assms cond_signal_rep [of c h es' e env] show ?thesis by (fastforce simp: woken_def)
qed

theorem cond_signal_longest_waiter_witness:
  "\<exists>c' h'. cond_signal [] demo_cond demo_cond_heap = Ret ([7], c', h') \<and> cond_rep c' h' [(80, 64, 8)] \<and>
     h' 16 = Some (TCond \<lparr>tc_waitFlag = 1, tc_threadID = 7\<rparr>)"
  using cond_signal_longest_waiter [OF demo_cond_rep, of "[]"] by simp

text \<open>
  C21: \<open>cond_broadcast\<close> wakes every waiting thread, in the order they came, and is equivalent to as
  many calls of \<open>cond_signal\<close> as there are waiters. (The count is read as a signed int, hence the bound.)
\<close>

theorem cond_broadcast_as_signals:
  assumes "cond_rep c h es" "length es < 2 ^ 31"
  shows "\<exists>c1 h1 c2 h2. cond_broadcast [] c h = Ret (map tid_of (rev es), c1, h1) \<and>
    signal_times (\<lambda>(c, h). cond_signal [] c h) (length es) (c, h) = Ret (map tid_of (rev es), c2, h2) \<and>
    cond_rep c1 h1 [] \<and> cond_rep c2 h2 [] \<and>
    (\<forall>e \<in> set es. cv_set (c1, h1) (data_of e) \<and> cv_set (c2, h2) (data_of e))"
proof -
  have "cv_rep (c, h) (map snd es)" "length (map snd es) < 2 ^ 31"
    using assms by (auto simp: cv_rep_def)
  from cv.bcast_as_signals [OF this] show ?thesis
    by (auto simp: cv_rep_def rev_map comp_def)
qed

theorem cond_broadcast_as_signals_witness:
  "\<exists>c1 h1. cond_broadcast [] demo_cond demo_cond_heap = Ret ([7, 8], c1, h1) \<and> cond_rep c1 h1 [] \<and>
     cv_set (c1, h1) 16 \<and> cv_set (c1, h1) 64"
  using cond_broadcast_as_signals [OF demo_cond_rep] by auto

text \<open>
  \<open>cond_wait\<close> up to its while loop puts the caller at the end of the waiting queue with its
  \<open>waitFlag\<close> clear, gives the caller's mutex back and leaves \<open>condMutex\<close> free; the next
  \<open>cond_signal\<close>s wake the earlier waiters first.
\<close>

theorem cond_wait_enqueues:
  assumes "cond_rep c h es" "mx_held m" "fresh h p1" "fresh h p2" "p1 \<noteq> p2"
  shows "\<exists>c' h'. cond_wait_enter env p1 p2 tid c m h = Ret (c', m\<lparr>mx_lockFlag := 0\<rparr>, h') \<and>
    cond_rep c' h' ((p2, p1, tid) # es) \<and> cond_wait_blocked p1 h' = Ret True"
proof -
  from cond_wait_enter_rep [OF assms] obtain c' h' where
    r: "cond_wait_enter env p1 p2 tid c m h = Ret (c', m\<lparr>mx_lockFlag := 0\<rparr>, h')"
      "cond_rep c' h' ((p2, p1, tid) # es)" by blast
  then have "h' p1 = Some (TCond \<lparr>tc_waitFlag = 0, tc_threadID = tid\<rparr>)"
    by (simp add: cond_rep_def queue_rep_def)
  with r show ?thesis by (auto simp: cond_wait_blocked_def outcome_simps)
qed

theorem cond_wait_enqueues_witness:
  "\<exists>c' h'. cond_wait_enter [] 96 112 9 demo_cond \<lparr>mx_lockFlag = 1, mx_initializeFlag = 1\<rparr> demo_cond_heap =
      Ret (c', \<lparr>mx_lockFlag = 0, mx_initializeFlag = 1\<rparr>, h') \<and>
     cond_rep c' h' [(112, 96, 9), (80, 64, 8), (32, 16, 7)]"
  using cond_wait_enqueues [OF demo_cond_rep, of "\<lparr>mx_lockFlag = 1, mx_initializeFlag = 1\<rparr>" 96 112 "[]" 9]
  by (auto simp: mx_held_def fresh_def demo_cond_heap_def)

text \<open>
  \<open>cond_destroy\<close> refuses (by a failed assertion) a condition variable with waiting threads, and
  otherwise disables it together with its mutex; afterwards every operation on it panics.
\<close>

theorem cond_destroy_contract:
  assumes "cond_rep c h es"
  shows "if es \<noteq> [] then cond_destroy env c h = Panic
    else \<exists>c'. cond_destroy env c h = Ret (c', h) \<and>
      (\<forall>env h p1 p2 tid m. cond_signal env c' h = Panic \<and> cond_broadcast env c' h = Panic \<and>
         cond_destroy env c' h = Panic \<and> cond_wait_enter env p1 p2 tid c' m h = Panic)"
proof (cases "es = []")
  case True
  with cond_destroy_idle [of c h env] assms obtain c' where
    c': "cond_destroy env c h = Ret (c', h)" "mx_initializeFlag (cd_condMutex c') = 0" by auto
  then have "mutex_lock env (cd_condMutex c') = Panic" for env by (simp add: mutex_lock_uninit)
  then have "cond_signal env c' h = Panic \<and> cond_broadcast env c' h = Panic \<and>
      cond_destroy env c' h = Panic \<and> cond_wait_enter env p1 p2 tid c' m h = Panic" for env h p1 p2 tid m
    by (simp add: cond_signal_def cond_broadcast_def cond_destroy_def cond_wait_enter_def outcome_simps)
  with True c'(1) show ?thesis by auto
next
  case False
  with assms show ?thesis by (simp add: cond_destroy_busy)
qed

theorem cond_destroy_contract_witness: "cond_destroy [] demo_cond demo_cond_heap = Panic"
  using cond_destroy_contract [OF demo_cond_rep, of "[]"] by simp

end
