(* ===== verification/Kernel.thy ===== *)
theory Kernel
  imports Types
begin

text \<open>
  The Pebbles kernel is a binary: its source is not in the repository. The library uses it through
  the stubs of user/libsyscall/syscall.S, and the model takes it as the record \<open>'k kernel\<close> over an
  unknown kernel state \<open>'k\<close>. What the library relies on is the text of pebbles.pdf, section 4.4, stated
  as the predicate \<open>kernel_ok\<close>; \<open>demo_kernel\<close> is one kernel that satisfies it.
\<close>

record 'k kernel =
  k_suspended :: "'k \<Rightarrow> i32 \<Rightarrow> bool" \<comment> \<open>suspended by \<open>deschedule\<close>, not run by the scheduler\<close>
  k_deschedule :: "i32 \<Rightarrow> i32 \<Rightarrow> 'k \<Rightarrow> 'k" \<comment> \<open>the calling thread and the value found at \<open>reject\<close>\<close>
  k_make_runnable :: "i32 \<Rightarrow> 'k \<Rightarrow> i32 \<times> 'k"

text \<open>
  \<open>deschedule\<close>: a non-zero \<open>*reject\<close> returns at once; zero suspends the calling thread, and the
  test and the suspension are one atomic step. \<open>make_runnable(tid)\<close>: resumes \<open>tid\<close> and returns 0
  when it is suspended by \<open>deschedule\<close>, otherwise returns a negative code.
\<close>

definition kernel_ok :: "'k kernel \<Rightarrow> bool" where
  "kernel_ok K \<longleftrightarrow>
     (\<forall>t v k u. v \<noteq> 0 \<longrightarrow> k_suspended K (k_deschedule K t v k) u = k_suspended K k u) \<and>
     (\<forall>t k u. k_suspended K (k_deschedule K t 0 k) u = (u = t \<or> k_suspended K k u)) \<and>
     (\<forall>t k u. k_suspended K (snd (k_make_runnable K t k)) u = (k_suspended K k u \<and> u \<noteq> t)) \<and>
     (\<forall>t k. if k_suspended K k t then fst (k_make_runnable K t k) = 0
            else neg32 (fst (k_make_runnable K t k)))"

lemma kernel_ok_deschedule:
  "kernel_ok K \<Longrightarrow> k_suspended K (k_deschedule K t v k) u \<longleftrightarrow> k_suspended K k u \<or> (u = t \<and> v = 0)"
  unfolding kernel_ok_def by (cases "v = 0") metis+

lemma kernel_ok_make_runnable:
  "kernel_ok K \<Longrightarrow> k_suspended K (snd (k_make_runnable K t k)) u \<longleftrightarrow> k_suspended K k u \<and> u \<noteq> t"
  by (auto simp: kernel_ok_def)

definition demo_kernel :: "i32 list kernel" where
  "demo_kernel = \<lparr>k_suspended = (\<lambda>k t. t \<in> set k),
     k_deschedule = (\<lambda>t v k. if v = 0 then t # k else k),
     k_make_runnable = (\<lambda>t k. (if t \<in> set k then 0 else -1, removeAll t k))\<rparr>"

lemma demo_kernel_ok: "kernel_ok demo_kernel"
  by (simp add: kernel_ok_def demo_kernel_def)

text \<open>
  The calls of thread.c that manage memory and threads. \<open>new_pages\<close>, \<open>remove_pages\<close> and
  \<open>thread_fork\<close> return a negative code on failure; \<open>thread_fork\<close> gets the function, its argument and the top
  of the new stack. \<open>vm_gettid\<close> is the ID of the calling thread.
\<close>

record 'k vm =
  vm_new_pages :: "addr \<Rightarrow> u32 \<Rightarrow> 'k \<Rightarrow> i32 \<times> 'k"
  vm_remove_pages :: "addr \<Rightarrow> 'k \<Rightarrow> i32 \<times> 'k"
  vm_thread_fork :: "addr \<Rightarrow> addr \<Rightarrow> addr \<Rightarrow> 'k \<Rightarrow> i32 \<times> 'k"

text \<open>A kernel whose state is the list of mapped regions and the last thread ID handed out.\<close>

definition overlaps :: "addr \<times> u32 \<Rightarrow> addr \<times> u32 \<Rightarrow> bool" where
  "overlaps r q \<longleftrightarrow> uint (fst r) < uint (fst q) + uint (snd q) \<and> uint (fst q) < uint (fst r) + uint (snd r)"

definition demo_vm :: "((addr \<times> u32) list \<times> i32) vm" where
  "demo_vm = \<lparr>
     vm_new_pages = (\<lambda>a n k.
       if n = 0 \<or> n mod 4096 \<noteq> 0 \<or> a mod 4096 \<noteq> 0 \<or> list_ex (overlaps (a, n)) (fst k)
       then (-1, k) else (0, ((a, n) # fst k, snd k))),
     vm_remove_pages = (\<lambda>a k.
       if list_ex (\<lambda>r. fst r = a) (fst k) then (0, (filter (\<lambda>r. fst r \<noteq> a) (fst k), snd k)) else (-1, k)),
     vm_thread_fork = (\<lambda>f arg sp k. (snd k + 1, (fst k, snd k + 1)))\<rparr>"

text \<open>
  The documented behaviour of the memory calls. \<open>R k\<close> are the regions (base and length) that
  \<open>new_pages\<close> has mapped: it refuses an empty region and one that meets a mapped region;
  \<open>remove_pages\<close> takes the base of a mapped region and unmaps it; \<open>thread_fork\<close> leaves memory alone.
\<close>

definition vm_ok :: "'k vm \<Rightarrow> ('k \<Rightarrow> (addr \<times> u32) set) \<Rightarrow> bool" where
  "vm_ok K R \<longleftrightarrow>
     (\<forall>a n k. if neg32 (fst (vm_new_pages K a n k)) then R (snd (vm_new_pages K a n k)) = R k
        else n \<noteq> 0 \<and> (\<forall>r \<in> R k. \<not> overlaps (a, n) r) \<and> R (snd (vm_new_pages K a n k)) = insert (a, n) (R k)) \<and>
     (\<forall>a k. R (snd (vm_remove_pages K a k)) = {r \<in> R k. fst r \<noteq> a}) \<and>
     (\<forall>a n k. (a, n) \<in> R k \<longrightarrow> \<not> neg32 (fst (vm_remove_pages K a k))) \<and>
     (\<forall>f arg sp k. R (snd (vm_thread_fork K f arg sp k)) = R k)"

lemma vm_okD:
  assumes "vm_ok K R"
  shows "neg32 (fst (vm_new_pages K a n k)) \<Longrightarrow> R (snd (vm_new_pages K a n k)) = R k"
    "\<not> neg32 (fst (vm_new_pages K a n k)) \<Longrightarrow>
       n \<noteq> 0 \<and> (\<forall>r \<in> R k. \<not> overlaps (a, n) r) \<and> R (snd (vm_new_pages K a n k)) = insert (a, n) (R k)"
    "R (snd (vm_remove_pages K a k)) = {r \<in> R k. fst r \<noteq> a}"
    "(a, n) \<in> R k \<Longrightarrow> \<not> neg32 (fst (vm_remove_pages K a k))"
    "R (snd (vm_thread_fork K f arg sp k)) = R k"
  using assms unfolding vm_ok_def by (blast | metis)+

lemma demo_vm_ok: "vm_ok demo_vm (\<lambda>k. set (fst k))"
  unfolding vm_ok_def
  by (auto simp: demo_vm_def list_ex_iff intro: rev_bexI)

end
