(* ===== verification/Thread.thy ===== *)
theory Thread
  imports Cond Kernel
begin

text \<open>
  user/libthread/thread.c: creating, joining and ending threads. The globals of the file are the record
  \<open>thr\<close>; the table of threads is the linked list whose nodes carry the thread ID and point to a
  \<open>thread_t\<close> on the heap.

  The addresses \<open>malloc\<close> returned are arguments (0 when it failed), and so are the contents the
  new object had (\<open>t0\<close>) and the ID of the calling thread. \<open>thr_join\<close> is split where it blocks:
  \<open>thr_join_enter\<close> runs from the call to the end, or to the while loop of \<open>cond_wait\<close>;
  \<open>thr_join_exit\<close> runs after that loop. \<open>thr_exit\<close> is modelled up to \<open>vanish()\<close>, which does not return.
\<close>

section \<open>The functions\<close>

record thr =
  tl_list :: list_t
  tl_mutex :: mutex
  tl_malloc_mutex :: mutex
  tl_stack_size :: u32
  tl_top :: addr
  tl_heap :: heap

abbreviation unlock_return :: "i32 \<Rightarrow> thr \<Rightarrow> (i32 \<times> thr) outcome" where
  "unlock_return rc s \<equiv> bnd (mutex_unlock (tl_mutex s)) (\<lambda>m. Ret (rc, s\<lparr>tl_mutex := m\<rparr>))"

text \<open>\<open>((((int)top_stack_address - 1)/PAGE_SIZE_BYTES)+1)*PAGE_SIZE_BYTES\<close>, on a signed int.\<close>

definition align_top :: "addr \<Rightarrow> addr" where
  "align_top a = (sdiv32 (a - 1) 4096 + 1) * 4096"

text \<open>\<open>(((stack_size - 1)/PAGE_SIZE_BYTES)+1)*PAGE_SIZE_BYTES\<close>, on an unsigned int.\<close>

definition align_size :: "u32 \<Rightarrow> u32" where
  "align_size n = ((n - 1) div 4096 + 1) * 4096"

text \<open>\<open>a\<close> is the address of the local variable of that name, \<open>p\<close> and \<open>p2\<close> what the two calls
  of \<open>malloc\<close> returned.\<close>

definition thr_init ::
  "u32 \<Rightarrow> addr \<Rightarrow> i32 \<Rightarrow> addr \<Rightarrow> thread \<Rightarrow> addr \<Rightarrow> thr \<Rightarrow> (i32 \<times> thr) outcome" where
  "thr_init stack_size a tid p t0 p2 s =
     (if stack_size \<le> 0 then Ret (-1, s)
      else case mutex_init (Some (tl_mutex s)) of (rc, mp) \<Rightarrow>
        let s = s\<lparr>tl_mutex := the mp\<rparr> in
        if rc \<noteq> 0 then Ret (-1, s)
        else case mutex_init (Some (tl_malloc_mutex s)) of (rc, mp) \<Rightarrow>
          let s = s\<lparr>tl_malloc_mutex := the mp\<rparr> in
          if rc \<noteq> 0 then unlock_return (-1) s
          else if p = 0 then unlock_return (-1) s
          else
            let s = s\<lparr>tl_list := list_create (tl_list s), tl_top := align_top a,
                      tl_stack_size := align_size stack_size\<rparr> in
            case cond_init (Some (th_threadCond t0)) of (rc, cp) \<Rightarrow>
              let t = t0\<lparr>th_threadCond := the cp\<rparr>;
                  s = s\<lparr>tl_heap := (tl_heap s)(p \<mapsto> Thread t)\<rparr> in
              if rc \<noteq> 0
              then bnd (list_destroy (tl_list s) (tl_heap s)) (\<lambda>(l, h). Ret (-1, s\<lparr>tl_list := l, tl_heap := h\<rparr>))
              else
                let t = t\<lparr>th_exitFlag := 0, th_status := 0, th_threadID := tid, th_joinedFlag := 0,
                          th_stack_size := align_size stack_size, th_baseAddress := 0\<rparr>;
                    s = s\<lparr>tl_heap := (tl_heap s)(p \<mapsto> Thread t)\<rparr> in
                bnd (list_insert p2 p tid (tl_list s) (tl_heap s)) (\<lambda>(rc, l, h).
                let s = s\<lparr>tl_list := l, tl_heap := h\<rparr> in
                if neg32 rc
                then bnd (list_destroy (tl_list s) (tl_heap s)) (\<lambda>(l, h). Ret (-1, s\<lparr>tl_list := l, tl_heap := h\<rparr>))
                else Ret (0, s)))"

text \<open>The search for stack memory: downwards from the last stack in steps of the stack size, until
  \<open>new_pages\<close> accepts an address or the address is more than 2013255622 bytes below the start.\<close>

partial_function (option) find_stack ::
  "'k vm \<Rightarrow> u32 \<Rightarrow> addr \<Rightarrow> addr \<Rightarrow> 'k \<Rightarrow> (addr option \<times> 'k) option" where
  "find_stack K len start address k =
     (case vm_new_pages K address len k of (rc, k) \<Rightarrow>
        if neg32 rc then
          (let address = address - len in
           if address < start - 2013255622 then Some (None, k)
           else find_stack K len start address k)
        else Some (Some address, k))"

definition thr_create ::
  "'k vm \<Rightarrow> (mutex \<Rightarrow> mutex) list \<Rightarrow> addr \<Rightarrow> addr \<Rightarrow> addr \<Rightarrow> thread \<Rightarrow> addr \<Rightarrow> thr \<Rightarrow> 'k
   \<Rightarrow> (i32 \<times> thr \<times> 'k) outcome" where
  "thr_create K env func arg p t0 p2 s k =
     bnd (mutex_lock env (tl_mutex s)) (\<lambda>m.
     let s = s\<lparr>tl_mutex := m\<rparr> in
     if func = 0 then bnd (unlock_return (-1) s) (\<lambda>(rc, s). Ret (rc, s, k))
     else case find_stack K (tl_stack_size s) (tl_top s) (tl_top s) k of
       None \<Rightarrow> Hang
     | Some (None, k) \<Rightarrow> bnd (unlock_return (-1) s) (\<lambda>(rc, s). Ret (rc, s, k))
     | Some (Some address, k) \<Rightarrow>
       let s = s\<lparr>tl_top := address\<rparr> in
       if p = 0 then bnd (unlock_return (-1) s) (\<lambda>(rc, s). Ret (rc, s, k))
       else
         case cond_init (Some (th_threadCond t0)) of (rc, cp) \<Rightarrow>
         let child = t0\<lparr>th_threadCond := the cp\<rparr>;
             s = s\<lparr>tl_heap := (tl_heap s)(p \<mapsto> Thread child)\<rparr> in
         if rc \<noteq> 0
         then bnd (c_free p (tl_heap s)) (\<lambda>h.
              bnd (unlock_return (-1) (s\<lparr>tl_heap := h\<rparr>)) (\<lambda>(rc, s).
              Ret (rc, s, snd (vm_remove_pages K address k))))
         else case vm_thread_fork K func arg (address + tl_stack_size s) k of (cid, k) \<Rightarrow>
           if neg32 cid
           then bnd (cond_destroy [] (th_threadCond child) (tl_heap s)) (\<lambda>(c, h).
                bnd (upd_thread p (\<lambda>t. t\<lparr>th_threadCond := c\<rparr>) h) (\<lambda>h.
                bnd (c_free p h) (\<lambda>h.
                bnd (unlock_return (-1) (s\<lparr>tl_heap := h\<rparr>)) (\<lambda>(rc, s).
                Ret (rc, s, snd (vm_remove_pages K address k))))))
           else
             let child = child\<lparr>th_threadID := cid, th_status := 0, th_baseAddress := address,
                               th_stack_size := tl_stack_size s, th_exitFlag := 0, th_joinedFlag := 0\<rparr>;
                 s = s\<lparr>tl_heap := (tl_heap s)(p \<mapsto> Thread child)\<rparr> in
             bnd (list_insert p2 p cid (tl_list s) (tl_heap s)) (\<lambda>(rc, l, h).
             let s = s\<lparr>tl_list := l, tl_heap := h\<rparr> in
             if neg32 rc
             then bnd (cond_destroy [] (th_threadCond child) (tl_heap s)) (\<lambda>(c, h).
                  bnd (upd_thread p (\<lambda>t. t\<lparr>th_threadCond := c\<rparr>) h) (\<lambda>h.
                  bnd (c_free p h) (\<lambda>h.
                  bnd (unlock_return (-1) (s\<lparr>tl_heap := h\<rparr>)) (\<lambda>(rc, s).
                  Ret (rc, s, snd (vm_remove_pages K address k))))))
             else bnd (unlock_return cid s) (\<lambda>(rc, s). Ret (rc, s, k))))"

text \<open>
  The end of \<open>thr_join\<close>, with the mutex held. \<open>want\<close> says that the \<open>status\<close> pointer is not NULL; the
  value stored through it is the second component of the result.
\<close>

definition thr_join_finish ::
  "'k vm \<Rightarrow> bool \<Rightarrow> addr \<Rightarrow> addr \<Rightarrow> thr \<Rightarrow> 'k \<Rightarrow> (i32 \<times> addr option \<times> thr \<times> 'k) outcome" where
  "thr_join_finish K want node target s k =
     bnd (get_thread (tl_heap s) target) (\<lambda>t.
     let status = (if want then Some (th_status t) else None) in
     bnd (upd_thread target (\<lambda>t. t\<lparr>th_joinedFlag := 0, th_exitFlag := 1, th_threadID := -1\<rparr>) (tl_heap s)) (\<lambda>h.
     bnd (cond_destroy [] (th_threadCond t) h) (\<lambda>(c, h).
     bnd (upd_thread target (\<lambda>t. t\<lparr>th_threadCond := c\<rparr>) h) (\<lambda>h.
     let s = s\<lparr>tl_heap := h\<rparr>;
         (rc, k) = (if th_baseAddress t \<noteq> 0 then vm_remove_pages K (th_baseAddress t) k else (0, k)) in
     if neg32 rc
     then bnd (unlock_return (-1) s) (\<lambda>(rc, s). Ret (rc, status, s, k))
     else
       bnd (list_remove node (tl_list s) (tl_heap s)) (\<lambda>(l, h).
       bnd (unlock_return 0 (s\<lparr>tl_list := l, tl_heap := h\<rparr>)) (\<lambda>(rc, s). Ret (rc, status, s, k)))))))"

datatype 'a join = J_Return i32 "addr option" 'a | J_Wait addr addr addr 'a

definition thr_join_enter ::
  "'k vm \<Rightarrow> (mutex \<Rightarrow> mutex) list \<Rightarrow> i32 \<Rightarrow> bool \<Rightarrow> i32 \<Rightarrow> addr \<Rightarrow> addr \<Rightarrow> thr \<Rightarrow> 'k
   \<Rightarrow> (thr \<times> 'k) join outcome" where
  "thr_join_enter K env tid want self p1 p2 s k =
     bnd (mutex_lock env (tl_mutex s)) (\<lambda>m.
     let s = s\<lparr>tl_mutex := m\<rparr> in
     bnd (list_find (tl_list s) tid (tl_heap s)) (\<lambda>node.
     if node = 0 then bnd (unlock_return (-1) s) (\<lambda>(rc, s). Ret (J_Return rc None (s, k)))
     else
       bnd (get_node (tl_heap s) node) (\<lambda>nd.
       let target = nd_thread_data nd in
       bnd (get_thread (tl_heap s) target) (\<lambda>t.
       if th_joinedFlag t = 1 then bnd (unlock_return (-1) s) (\<lambda>(rc, s). Ret (J_Return rc None (s, k)))
       else if th_exitFlag t \<noteq> 1 then
         bnd (upd_thread target (\<lambda>t. t\<lparr>th_joinedFlag := 1\<rparr>) (tl_heap s)) (\<lambda>h.
         bnd (cond_wait_enter [] p1 p2 self (th_threadCond t) (tl_mutex s) h) (\<lambda>(c, m, h).
         bnd (upd_thread target (\<lambda>t. t\<lparr>th_threadCond := c\<rparr>) h) (\<lambda>h.
         Ret (J_Wait node target p1 (s\<lparr>tl_mutex := m, tl_heap := h\<rparr>, k)))))
       else
         bnd (thr_join_finish K want node target s k) (\<lambda>(rc, st, s, k). Ret (J_Return rc st (s, k)))))))"

definition thr_join_exit ::
  "'k vm \<Rightarrow> (mutex \<Rightarrow> mutex) list \<Rightarrow> bool \<Rightarrow> addr \<Rightarrow> addr \<Rightarrow> addr \<Rightarrow> thr \<Rightarrow> 'k
   \<Rightarrow> (i32 \<times> addr option \<times> thr \<times> 'k) outcome" where
  "thr_join_exit K env want node target p1 s k =
     bnd (cond_wait_exit env p1 (tl_mutex s) (tl_heap s)) (\<lambda>(m, h).
     thr_join_finish K want node target (s\<lparr>tl_mutex := m, tl_heap := h\<rparr>) k)"

text \<open>The threads \<open>cond_signal\<close> makes runnable are returned; then the caller calls \<open>vanish()\<close>.\<close>

definition thr_exit ::
  "(mutex \<Rightarrow> mutex) list \<Rightarrow> addr \<Rightarrow> i32 \<Rightarrow> thr \<Rightarrow> (i32 list \<times> thr) outcome" where
  "thr_exit env status tid s =
     bnd (mutex_lock env (tl_mutex s)) (\<lambda>m.
     let s = s\<lparr>tl_mutex := m\<rparr> in
     bnd (list_find (tl_list s) tid (tl_heap s)) (\<lambda>node.
     bnd (get_node (tl_heap s) node) (\<lambda>nd.
     let target = nd_thread_data nd in
     bnd (upd_thread target (\<lambda>t. t\<lparr>th_exitFlag := 1, th_status := status, th_joinedFlag := 0\<rparr>) (tl_heap s)) (\<lambda>h.
     bnd (get_thread h target) (\<lambda>t.
     bnd (cond_signal [] (th_threadCond t) h) (\<lambda>(ts, c, h).
     bnd (upd_thread target (\<lambda>t. t\<lparr>th_threadCond := c\<rparr>) h) (\<lambda>h.
     bnd (unlock_return 0 (s\<lparr>tl_heap := h\<rparr>)) (\<lambda>(rc, s). Ret (ts, s)))))))))"

definition thr_getid :: "i32 \<Rightarrow> i32" where
  "thr_getid gettid = gettid"

definition thr_yield :: "(i32 \<Rightarrow> 'k \<Rightarrow> i32 \<times> 'k) \<Rightarrow> i32 \<Rightarrow> 'k \<Rightarrow> i32 \<times> 'k" where
  "thr_yield yield tid k = yield tid k"

end
