(* ===== verification/Thread_Table.thy ===== *)
theory Thread_Table
  imports Thread
begin

text \<open>
  What the functions of thread.c do to the table of threads: the predicate \<open>table\<close> (the list of nodes,
  the \<open>thread_t\<close> of each, and the queue of the condition variable of each), the frame lemma for changes of one
  thread's part of it, and one lemma for each function. The properties of create, join and exit follow.
\<close>

section \<open>Stack geometry\<close>

lemma align_size_unat:
  assumes "0 < n" "n \<le> 0xfffff000"
  shows "unat (align_size n) = ((unat n - 1) div 4096 + 1) * 4096"
proof -
  have n: "unat (n - 1) = unat n - 1" "0 < unat n"
    using assms(1) by (simp_all add: unat_minus_one word_gt_0 unat_gt_0)
  have "unat n \<le> 0xfffff000" using assms(2) by (simp add: word_le_nat_alt)
  then have le: "(unat n - 1) div 4096 < 0xfffff" by (simp add: less_mult_imp_div_less)
  have d: "unat ((n - 1) div 4096) = (unat n - 1) div 4096" by (simp add: unat_div n)
  have "unat ((n - 1) div 4096 + 1) = (unat n - 1) div 4096 + 1"
    using le d by (subst unat_add_lem [THEN iffD1]) simp_all
  with le show ?thesis
    unfolding align_size_def by (subst unat_mult_lem [THEN iffD1]) simp_all
qed

lemma align_size_wrap:
  assumes "0xfffff000 < n"
  shows "align_size n = 0"
proof -
  have n: "0xfffff000 < unat n" "unat n < 2 ^ 32" using assms unsigned_less [of n] by (simp_all add: word_less_nat_alt)
  then have "unat (n - 1) = unat n - 1" by (intro unat_minus_one) auto
  moreover have "(unat n - 1) div 4096 = 0xfffff"
  proof -
    have "unat n - 1 = 0xfffff * 4096 + (unat n - 1 - 0xfffff000)" "unat n - 1 - 0xfffff000 < 4096"
      using n by simp_all
    then show ?thesis by (metis div_mult_self3 div_less add.right_neutral zero_neq_numeral)
  qed
  ultimately have "unat ((n - 1) div 4096) = unat (0xfffff :: u32)" by (simp add: unat_div)
  then have "(n - 1) div 4096 = 0xfffff" by (simp only: word_unat_eq_iff)
  then show ?thesis by (simp add: align_size_def)
qed

lemma align_top_sint:
  assumes "a \<noteq> 0x80000000"
  shows "align_top a = word_of_int (((sint a - 1) sdiv 4096 + 1) * 4096)"
proof -
  have "- (2 ^ 31) \<noteq> sint a"
  proof
    assume "- (2 ^ 31) = sint a"
    then have "sint a = sint (0x80000000 :: i32)" by simp
    with assms show False using signed_word_eqI by blast
  qed
  then have "sint (a - 1) = sint a - 1"
    using sint_ge [of a] sint_lt [of a] by (simp add: sint_word_ariths signed_take_bit_int_eq_self)
  then show ?thesis by (simp add: align_top_def sdiv32_def)
qed

lemma sdiv_neg: "x < 0 \<Longrightarrow> x sdiv 4096 = - ((- x) div (4096 :: int))"
  by (simp add: signed_divide_int_def)

lemma sdiv_pos: "0 \<le> x \<Longrightarrow> x sdiv 4096 = x div (4096 :: int)"
  by (simp add: signed_divide_int_def sgn_if)

text \<open>Stack addresses are in the upper half of memory, where the signed division rounds upwards.\<close>

lemma align_top_upper:
  assumes "0x80000000 < a" "a < 0xffffe000"
  shows "uint (align_top a) = (uint a + 8190) div 4096 * 4096"
proof -
  have u: "0x80000000 < uint a" "uint a < 0xffffe000" using assms by (simp_all add: word_less_alt)
  then have "\<not> 0 \<le> sint a" using sint_nonneg [of a] sint_lt [of a] by auto
  then have s: "sint a = uint a - 2 ^ 32" by (intro sint_neg) simp
  define q where "q = (4294967297 - uint a) div 4096"
  have q: "q * 4096 \<le> 4294967297 - uint a" "4294967297 - uint a < q * 4096 + 4096"
    unfolding q_def by linarith+
  have "a \<noteq> 0x80000000" using assms by auto
  from align_top_sint [OF this] have t: "align_top a = word_of_int ((1 - q) * 4096)"
    using u by (simp add: s sdiv_neg q_def)
  have "uint (align_top a) = ((1 - q) * 4096) mod 2 ^ 32"
    unfolding t by (simp only: uint_word_of_int) simp
  also have "\<dots> = ((1 - q) * 4096 + 2 ^ 32) mod 2 ^ 32" by (simp only: mod_add_self2)
  also have "\<dots> = (1 - q) * 4096 + 2 ^ 32"
    using q u by (intro mod_pos_pos_trivial) simp_all
  also have "\<dots> = (uint a + 8190) div 4096 * 4096"
  proof -
    have "(uint a + 8190) div 4096 = 1048577 - q" using q by linarith
    then show ?thesis by simp
  qed
  finally show ?thesis .
qed

text \<open>The search for stack memory ends when the stack size is not 0 and fits below the lower bound.\<close>

lemma find_stack_ends:
  assumes "0 < len" "unat len + 2013255622 \<le> unat start" "start - 2013255622 \<le> a" "a \<le> start"
  shows "\<exists>r k'. find_stack K len start a k = Some (r, k') \<and>
    (\<forall>p. r = Some p \<longrightarrow> start - 2013255622 \<le> p \<and> p \<le> start)"
  using assms(3,4)
proof (induction "unat a" arbitrary: a k rule: less_induct)
  case less
  obtain rc k1 where np: "vm_new_pages K a len k = (rc, k1)" by fastforce
  have lo: "unat (start - 2013255622) = unat start - 2013255622"
    using assms(2) by (subst unat_sub) (simp_all add: word_le_nat_alt)
  have "unat len \<le> unat a" using less.prems(1) assms(2) lo by (simp add: word_le_nat_alt)
  then have sub: "unat (a - len) = unat a - unat len" by (simp add: unat_sub word_le_nat_alt)
  show ?case
  proof (cases "neg32 rc")
    case False
    with np less.prems show ?thesis by (subst find_stack.simps) simp
  next
    case True
    show ?thesis
    proof (cases "a - len < start - 2013255622")
      case stop: True
      with True np show ?thesis by (subst find_stack.simps) simp
    next
      case False
      then have "start - 2013255622 \<le> a - len" by simp
      moreover have "unat (a - len) < unat a" using sub assms(1) \<open>unat len \<le> unat a\<close>
        by (simp add: word_less_nat_alt)
      moreover have "a - len \<le> start" using less.prems(2) sub by (simp add: word_le_nat_alt)
      ultimately show ?thesis using less.hyps [of "a - len" k1] True False np
        by (subst find_stack.simps) simp
    qed
  qed
qed

text \<open>With stack size 0 the address never changes, so a refused request is repeated for ever.\<close>

lemma find_stack_zero:
  fixes K :: "'k vm"
  assumes "\<And>k. neg32 (fst (vm_new_pages K start 0 k))" "2013255622 \<le> start"
  shows "find_stack K 0 start start k = None"
proof -
  have ge: "\<not> start < start - 2013255622"
    using assms(2) by (simp add: word_less_nat_alt word_le_nat_alt unat_sub)
  let ?P = "\<lambda>(K' :: 'k vm) (len :: u32) (s :: addr) (a :: addr) (k :: 'k) (r :: addr option \<times> 'k).
    K' = K \<longrightarrow> len = 0 \<longrightarrow> s = start \<longrightarrow> a = start \<longrightarrow> False"
  have False if "find_stack K 0 start start k = Some r" for r
  proof -
    have "?P K 0 start start k r"
    proof (rule find_stack.raw_induct [where P = ?P, OF _ that])
      fix f K' len s a k r
      assume ih: "\<And>K' len s a k r. f K' len s a k = Some r \<Longrightarrow> ?P K' len s a k r"
        and run: "(case vm_new_pages K' a len k of (rc, k) \<Rightarrow>
          if neg32 rc then (let a = a - len in if a < s - 2013255622 then Some (None, k) else f K' len s a k)
          else Some (Some a, k)) = Some r"
      show "?P K' len s a k r"
      proof (intro impI)
        assume eq: "K' = K" "len = 0" "s = start" "a = start"
        from run assms(1) [of k] ge have "f K 0 start start (snd (vm_new_pages K start 0 k)) = Some r"
          unfolding eq by (simp add: Let_def split: prod.splits)
        from ih [OF this] show False by blast
      qed
    qed
    then show False by blast
  qed
  then show ?thesis by (cases "find_stack K 0 start start k") auto
qed

section \<open>The table\<close>

text \<open>
  \<open>es\<close> are the entries of the list (newest thread first), \<open>qs tid\<close> is the waiting queue of the condition
  variable of thread \<open>tid\<close>. Nodes of the list and nodes of the queues are different objects, and so
  are the queues of different threads.
\<close>

definition apart :: "entry list \<Rightarrow> (i32 \<Rightarrow> entry list) \<Rightarrow> bool" where
  "apart es qs \<longleftrightarrow> (\<forall>e \<in> set es. \<forall>f \<in> set es. at e \<notin> at ` set (qs (tid_of f))) \<and>
     (\<forall>e \<in> set es. \<forall>f \<in> set es. e \<noteq> f \<longrightarrow>
        entry_addrs (qs (tid_of e)) \<inter> entry_addrs (qs (tid_of f)) = {})"

lemma apartD:
  assumes "apart es qs" "e \<in> set es" "f \<in> set es"
  shows "at e \<notin> at ` set (qs (tid_of f))"
    "e \<noteq> f \<Longrightarrow> a \<in> entry_addrs (qs (tid_of e)) \<Longrightarrow> a \<notin> entry_addrs (qs (tid_of f))"
  using assms unfolding apart_def by blast+

definition thread_at :: "heap \<Rightarrow> entry \<Rightarrow> entry list \<Rightarrow> bool" where
  "thread_at h e q \<longleftrightarrow> data_of e \<noteq> 0 \<and>
     (\<exists>t. h (data_of e) = Some (Thread t) \<and> th_threadID t = tid_of e \<and> cond_rep (th_threadCond t) h q)"

definition table :: "heap \<Rightarrow> list_t \<Rightarrow> entry list \<Rightarrow> (i32 \<Rightarrow> entry list) \<Rightarrow> bool" where
  "table h l es qs \<longleftrightarrow> list_rep h l es \<and> distinct (map tid_of es) \<and> distinct (map data_of es) \<and>
     apart es qs \<and> (\<forall>e \<in> set es. thread_at h e (qs (tid_of e)))"

lemma tableD:
  assumes "table h l es qs"
  shows "list_rep h l es" "distinct (map tid_of es)" "distinct (map data_of es)" "apart es qs"
    "e \<in> set es \<Longrightarrow> thread_at h e (qs (tid_of e))"
  using assms by (simp_all add: table_def)

lemma queue_rep_objects:
  assumes "queue_rep c h q" "a \<in> entry_addrs q"
  shows "(\<exists>nd. h a = Some (Node nd)) \<or> (\<exists>tc. h a = Some (TCond tc))"
proof -
  from assms(2) obtain e where e: "e \<in> set q" "a = at e \<or> a = data_of e" by (auto simp: entry_addrs_def)
  with list_rep_node [OF queue_rep_list [OF assms(1)], of e] assms(1) show ?thesis
    by (fastforce simp: queue_rep_def)
qed

lemma queue_rep_node:
  assumes "queue_rep c h q" "a \<in> entry_addrs q" "h a = Some (Node nd)"
  shows "a \<in> at ` set q"
proof (rule ccontr)
  assume n: "a \<notin> at ` set q"
  with assms(2) obtain e where "e \<in> set q" "a = data_of e" unfolding entry_addrs_def by blast
  with assms(1,3) show False by (auto simp: queue_rep_def)
qed

lemma entry_addrs_mem: "e \<in> set q \<Longrightarrow> at e \<in> entry_addrs q \<and> data_of e \<in> entry_addrs q"
  by (simp add: entry_addrs_def)

lemma thread_at_cong:
  assumes "thread_at h e q" "h' (data_of e) = h (data_of e)" "\<And>a. a \<in> entry_addrs q \<Longrightarrow> h' a = h a"
  shows "thread_at h' e q"
proof -
  from assms(1) obtain t where t: "data_of e \<noteq> 0" "h (data_of e) = Some (Thread t)" "th_threadID t = tid_of e"
    "cond_rep (th_threadCond t) h q" by (auto simp: thread_at_def)
  have "queue_rep (th_threadCond t) h' q = queue_rep (th_threadCond t) h q"
    by (rule queue_rep_cong) (use assms(3) entry_addrs_mem in blast)
  with t assms(2) show ?thesis by (auto simp: thread_at_def cond_rep_def)
qed

text \<open>
  The frame: a change confined to the thread of \<open>e\<close> (its \<open>thread_t\<close>, its queue) and to memory nobody used
  keeps the rest of the table.
\<close>

lemma table_change:
  assumes tab: "table h l es qs" and e: "e \<in> set es"
    and fr: "\<And>a. a \<noteq> data_of e \<Longrightarrow> a \<notin> entry_addrs (qs (tid_of e)) \<Longrightarrow> h a \<noteq> None \<Longrightarrow> h' a = h a"
    and new: "thread_at h' e q'"
    and ap: "\<And>a. a \<in> entry_addrs q' \<Longrightarrow> a \<in> entry_addrs (qs (tid_of e)) \<or> h a = None"
  shows "table h' l es (qs(tid_of e := q'))"
proof -
  note t = tableD [OF tab]
  have tid: "tid_of f \<noteq> tid_of e" if "f \<in> set es" "f \<noteq> e" for f
    using t(2) e that by (auto simp: distinct_map inj_on_def)
  have dat: "data_of f \<noteq> data_of e" if "f \<in> set es" "f \<noteq> e" for f
    using t(3) e that by (auto simp: distinct_map inj_on_def)
  have qrep: "\<exists>c. queue_rep c h (qs (tid_of f))" if "f \<in> set es" for f
    using t(5) [OF that] by (auto simp: thread_at_def cond_rep_def)
  have thr: "\<exists>x. h (data_of f) = Some (Thread x)" if "f \<in> set es" for f
    using t(5) [OF that] by (auto simp: thread_at_def)
  have node: "\<exists>nd. h (at f) = Some (Node nd)" if "f \<in> set es" for f
    using list_rep_node [OF t(1) that] .
  have used: "h a \<noteq> None" if "f \<in> set es" "a \<in> entry_addrs (qs (tid_of f))" for f a
    using qrep [OF that(1)] queue_rep_objects that(2) by fastforce
  have at_free: "at f \<notin> entry_addrs (qs (tid_of e))" if "f \<in> set es" for f
    using t(4) e that node [OF that] qrep [OF e] queue_rep_node unfolding apart_def by blast
  have same_at: "h' (at f) = h (at f)" if "f \<in> set es" for f
  proof -
    have "at f \<notin> entry_addrs (qs (tid_of e))" by (rule at_free [OF that])
    moreover have "at f \<noteq> data_of e" using node [OF that] thr [OF e] by auto
    ultimately show ?thesis using fr node [OF that] by auto
  qed
  have other: "thread_at h' f (qs (tid_of f))" if f: "f \<in> set es" "f \<noteq> e" for f
  proof (rule thread_at_cong [OF t(5) [OF f(1)]])
    have "data_of f \<notin> entry_addrs (qs (tid_of e))"
      using qrep [OF e] thr [OF f(1)] queue_rep_objects by fastforce
    then show "h' (data_of f) = h (data_of f)" using fr dat [OF f] thr [OF f(1)] by auto
  next
    fix a assume a: "a \<in> entry_addrs (qs (tid_of f))"
    then have "a \<noteq> data_of e" using qrep [OF f(1)] thr [OF e] queue_rep_objects by fastforce
    moreover have "a \<notin> entry_addrs (qs (tid_of e))" using apartD(2) [OF t(4) f(1) e f(2) a] .
    ultimately show "h' a = h a" using fr used [OF f(1) a] by blast
  qed
  have "list_rep h' l es"
    using t(1) same_at by (subst list_rep_cong [of es h' h]) auto
  moreover have "apart es (qs(tid_of e := q'))"
  proof -
    have fresh_q: "a \<notin> entry_addrs (qs (tid_of f))" if "f \<in> set es" "f \<noteq> e" "a \<in> entry_addrs q'" for a f
      using ap [OF that(3)] used [OF that(1)] apartD(2) [OF t(4) e that(1)] that(2) by blast
    have fresh_at: "at f \<notin> at ` set q'" if "f \<in> set es" for f
    proof
      assume "at f \<in> at ` set q'"
      then obtain w where w: "w \<in> set q'" "at f = at w" by blast
      then have "at f \<in> entry_addrs (qs (tid_of e)) \<or> h (at f) = None" using ap entry_addrs_mem by metis
      with at_free [OF that] node [OF that] show False by auto
    qed
    show ?thesis
      unfolding apart_def
    proof (intro conjI ballI impI)
      fix f g assume fg: "f \<in> set es" "g \<in> set es"
      show "at f \<notin> at ` set ((qs(tid_of e := q')) (tid_of g))"
        using fresh_at [OF fg(1)] t(4) fg by (auto simp: apart_def)
      assume ne: "f \<noteq> g"
      show "entry_addrs ((qs(tid_of e := q')) (tid_of f)) \<inter> entry_addrs ((qs(tid_of e := q')) (tid_of g)) = {}"
      proof (cases "f = e")
        case True
        with ne fg tid [of g] fresh_q [of g] show ?thesis by auto
      next
        case False
        show ?thesis
        proof (cases "g = e")
          case True
          with False fg tid [of f] fresh_q [of f] show ?thesis by auto
        next
          case g: False
          with False fg tid t(4) ne show ?thesis by (simp add: apart_def)
        qed
      qed
    qed
  qed
  moreover have "\<forall>f \<in> set es. thread_at h' f ((qs(tid_of e := q')) (tid_of f))"
    using new other tid by (metis fun_upd_apply)
  ultimately show ?thesis using t(2,3) by (simp add: table_def)
qed

section \<open>What the functions do to the table\<close>

lemma table_find:
  assumes "table h l es qs" "e \<in> set es"
  shows "list_find l (tid_of e) h = Ret (at e)" "at e \<noteq> 0"
    "\<exists>nd. get_node h (at e) = Ret nd \<and> nd_thread_data nd = data_of e"
proof -
  note t = tableD [OF assms(1)]
  have "find (\<lambda>f. tid_of f = tid_of e) es = Some e"
    using t(2) assms(2) by (induction es) (auto simp: image_iff)
  with list_find_rep [OF t(1), of "tid_of e"] show "list_find l (tid_of e) h = Ret (at e)" by simp
  show "at e \<noteq> 0" using dseg_alloc t(1) assms(2) by (fastforce simp: list_rep_def)
  have "dseg h pr x es la nx \<Longrightarrow> e \<in> set es \<Longrightarrow> \<exists>nd. h (at e) = Some (Node nd) \<and> nd_thread_data nd = data_of e"
    for pr x la nx by (induction es arbitrary: pr x) auto
  then show "\<exists>nd. get_node h (at e) = Ret nd \<and> nd_thread_data nd = data_of e"
    using t(1) assms(2) by (auto simp: list_rep_def)
qed

lemma table_unknown: "table h l es qs \<Longrightarrow> tid \<notin> tid_of ` set es \<Longrightarrow> list_find l tid h = Panic"
proof -
  assume a: "table h l es qs" "tid \<notin> tid_of ` set es"
  then have "find (\<lambda>f. tid_of f = tid) es = None" unfolding find_None_iff by blast
  with list_find_rep [OF tableD(1) [OF a(1)], of tid] show ?thesis by simp
qed

lemma data_not_queued:
  assumes "thread_at h e q"
  shows "data_of e \<notin> entry_addrs q"
proof -
  from assms obtain t where t: "h (data_of e) = Some (Thread t)" "cond_rep (th_threadCond t) h q"
    by (auto simp: thread_at_def)
  then show ?thesis using queue_rep_objects [of "th_threadCond t" h q "data_of e"]
    by (auto simp: cond_rep_def)
qed

text \<open>\<open>h(p := Thread t)\<close> leaves the queues alone.\<close>

lemma cond_rep_upd_thread:
  assumes "cond_rep c h q" "p \<notin> entry_addrs q"
  shows "cond_rep c (h(p := v)) q"
proof -
  have "queue_rep c (h(p := v)) q"
    using assms entry_addrs_mem [of _ q] by (intro queue_rep_upd_other) (auto simp: cond_rep_def entry_addrs_def)
  with assms(1) show ?thesis by (simp add: cond_rep_def)
qed

lemma thr_exit_rep:
  assumes tab: "table (tl_heap s) (tl_list s) es qs" and m: "mx_free (tl_mutex s)" and e: "e \<in> set es"
    and t: "tl_heap s (data_of e) = Some (Thread t)" and q: "qs (tid_of e) = q"
  shows "\<exists>c h. thr_exit env v (tid_of e) s = Ret ((if q = [] then [] else [tid_of (last q)]), s\<lparr>tl_heap := h\<rparr>) \<and>
    table h (tl_list s) es (qs(tid_of e := butlast q)) \<and>
    h (data_of e) = Some (Thread (t\<lparr>th_exitFlag := 1, th_status := v, th_joinedFlag := 0, th_threadCond := c\<rparr>)) \<and>
    (q \<noteq> [] \<longrightarrow> h (data_of (last q)) = Some (TCond \<lparr>tc_waitFlag = 1, tc_threadID = tid_of (last q)\<rparr>)) \<and>
    (\<forall>a. a \<noteq> data_of e \<and> a \<notin> entry_addrs q \<longrightarrow> h a = tl_heap s a)"
proof -
  note T = tableD(5) [OF tab e]
  note out = data_not_queued [OF T, unfolded q]
  let ?t = "t\<lparr>th_exitFlag := 1, th_status := v, th_joinedFlag := 0\<rparr>"
  let ?h1 = "(tl_heap s)(data_of e \<mapsto> Thread ?t)"
  from T t have c: "cond_rep (th_threadCond t) (tl_heap s) q" "th_threadID t = tid_of e" "data_of e \<noteq> 0"
    by (auto simp: thread_at_def q)
  from cond_rep_upd_thread [OF c(1) out] have c1: "cond_rep (th_threadCond t) ?h1 q" .
  have "\<exists>c' h2. cond_signal [] (th_threadCond t) ?h1 = Ret ((if q = [] then [] else [tid_of (last q)]), c', h2) \<and>
      cond_rep c' h2 (butlast q) \<and>
      (q \<noteq> [] \<longrightarrow> h2 (data_of (last q)) = Some (TCond \<lparr>tc_waitFlag = 1, tc_threadID = tid_of (last q)\<rparr>)) \<and>
      (\<forall>a. a \<notin> entry_addrs q \<longrightarrow> h2 a = ?h1 a)"
  proof (cases q rule: rev_cases)
    case Nil
    with c1 show ?thesis by (simp add: cond_signal_none)
  next
    case (snoc q' w)
    with c1 cond_signal_rep [of "th_threadCond t" ?h1 q' w "[]"] obtain c' h2 where
      w: "cond_signal [] (th_threadCond t) ?h1 = Ret ([tid_of w], c', h2)" "cond_rep c' h2 q'" "woken h2 [w]" and
      f: "\<forall>a. a \<noteq> data_of w \<and> a \<noteq> at w \<and> a \<notin> at ` set q' \<longrightarrow> h2 a = ?h1 a" by auto
    from f snoc have "\<forall>a. a \<notin> entry_addrs q \<longrightarrow> h2 a = ?h1 a" by (auto simp: entry_addrs_def)
    with w snoc show ?thesis by (auto simp: woken_def)
  qed
  then obtain c' h2 where sig: "cond_signal [] (th_threadCond t) ?h1 =
      Ret ((if q = [] then [] else [tid_of (last q)]), c', h2)" and c2: "cond_rep c' h2 (butlast q)" and
    wk: "q \<noteq> [] \<longrightarrow> h2 (data_of (last q)) = Some (TCond \<lparr>tc_waitFlag = 1, tc_threadID = tid_of (last q)\<rparr>)" and
    f2: "\<forall>a. a \<notin> entry_addrs q \<longrightarrow> h2 a = ?h1 a" by blast
  have sub: "entry_addrs (butlast q) \<subseteq> entry_addrs q"
    by (auto simp: entry_addrs_def dest: in_set_butlastD)
  let ?h3 = "h2(data_of e \<mapsto> Thread (?t\<lparr>th_threadCond := c'\<rparr>))"
  have "cond_rep c' ?h3 (butlast q)" using c2 out sub by (intro cond_rep_upd_thread) auto
  then have th: "thread_at ?h3 e (butlast q)" using c by (simp add: thread_at_def)
  have fr: "?h3 a = tl_heap s a" if "a \<noteq> data_of e" "a \<notin> entry_addrs q" for a using that f2 by simp
  have "table ?h3 (tl_list s) es (qs(tid_of e := butlast q))"
  proof (rule table_change [OF tab e _ th])
    fix a assume "a \<noteq> data_of e" "a \<notin> entry_addrs (qs (tid_of e))"
    with fr q show "?h3 a = tl_heap s a" by metis
  qed (use sub q in blast)
  moreover have "h2 (data_of e) = Some (Thread ?t)" using f2 out by simp
  moreover have "q \<noteq> [] \<Longrightarrow> data_of e \<noteq> data_of (last q)" using out entry_addrs_mem [of "last q" q] by auto
  ultimately show ?thesis
    using table_find [OF tab e] t sig wk fr mx_lock_unlock [OF m] m
    by (intro exI [of _ c'] exI [of _ ?h3])
       (cases s; auto simp: thr_exit_def outcome_simps Let_def)
qed

lemma thr_join_enter_waits:
  assumes tab: "table (tl_heap s) (tl_list s) es qs" and m: "mx_free (tl_mutex s)" and e: "e \<in> set es"
    and t: "tl_heap s (data_of e) = Some (Thread t)" "th_joinedFlag t \<noteq> 1" "th_exitFlag t \<noteq> 1"
    and q: "qs (tid_of e) = q" and p: "fresh (tl_heap s) p1" "fresh (tl_heap s) p2" "p1 \<noteq> p2"
  shows "\<exists>c h. thr_join_enter K env (tid_of e) want self p1 p2 s k =
      Ret (J_Wait (at e) (data_of e) p1 (s\<lparr>tl_heap := h\<rparr>, k)) \<and>
    table h (tl_list s) es (qs(tid_of e := (p2, p1, self) # q)) \<and>
    h (data_of e) = Some (Thread (t\<lparr>th_joinedFlag := 1, th_threadCond := c\<rparr>)) \<and>
    (\<forall>a. a \<noteq> data_of e \<and> a \<noteq> p1 \<and> a \<noteq> p2 \<and> a \<notin> entry_addrs q \<longrightarrow> h a = tl_heap s a)"
proof -
  note T = tableD(5) [OF tab e]
  note out = data_not_queued [OF T, unfolded q]
  let ?h1 = "(tl_heap s)(data_of e \<mapsto> Thread (t\<lparr>th_joinedFlag := 1\<rparr>))"
  from T t have c: "cond_rep (th_threadCond t) (tl_heap s) q" "th_threadID t = tid_of e" "data_of e \<noteq> 0"
    by (auto simp: thread_at_def q)
  have c1: "cond_rep (th_threadCond t) ?h1 q" by (rule cond_rep_upd_thread [OF c(1) out])
  have ne: "p1 \<noteq> data_of e" "p2 \<noteq> data_of e" using p t(1) by (auto simp: fresh_def)
  then have f1: "fresh ?h1 p1" "fresh ?h1 p2" using p by (auto simp: fresh_def)
  from cond_wait_enter_rep [OF c1 mx_free_lock [OF m] f1 p(3), of "[]" self] obtain c' h2 where
    w: "cond_wait_enter [] p1 p2 self (th_threadCond t) (tl_mutex s\<lparr>mx_lockFlag := 1\<rparr>) ?h1 =
        Ret (c', tl_mutex s, h2)" and
    c2: "cond_rep c' h2 ((p2, p1, self) # q)" and
    f2: "\<forall>a. a \<noteq> p1 \<and> a \<noteq> p2 \<and> a \<notin> at ` set q \<longrightarrow> h2 a = ?h1 a"
    using mx_lock_unlock [OF m] by auto
  let ?h3 = "h2(data_of e \<mapsto> Thread (t\<lparr>th_joinedFlag := 1, th_threadCond := c'\<rparr>))"
  have "data_of e \<notin> entry_addrs ((p2, p1, self) # q)" using ne out by auto
  then have c3: "cond_rep c' ?h3 ((p2, p1, self) # q)" using c2 by (intro cond_rep_upd_thread)
  then have th: "thread_at ?h3 e ((p2, p1, self) # q)" using c by (simp add: thread_at_def)
  have fr: "?h3 a = tl_heap s a" if "a \<noteq> data_of e" "a \<noteq> p1" "a \<noteq> p2" "a \<notin> entry_addrs q" for a
    using that f2 by (auto simp: entry_addrs_def)
  have "table ?h3 (tl_list s) es (qs(tid_of e := (p2, p1, self) # q))"
  proof (rule table_change [OF tab e _ th])
    fix a assume "a \<noteq> data_of e" "a \<notin> entry_addrs (qs (tid_of e))" "tl_heap s a \<noteq> None"
    with fr q p show "?h3 a = tl_heap s a" by (metis freshD)
  next
    fix a assume "a \<in> entry_addrs ((p2, p1, self) # q)"
    with q p show "a \<in> entry_addrs (qs (tid_of e)) \<or> tl_heap s a = None" by (auto dest: freshD)
  qed
  moreover have "h2 (data_of e) = Some (Thread (t\<lparr>th_joinedFlag := 1\<rparr>))"
    using f2 out ne by (auto simp: entry_addrs_def)
  ultimately show ?thesis
    using table_find [OF tab e] t w fr m
    by (intro exI [of _ c'] exI [of _ ?h3])
       (cases s; auto simp: thr_join_enter_def outcome_simps Let_def simp del: bnd_Ret_iff)
qed

lemma thr_join_enter_taken:
  assumes tab: "table (tl_heap s) (tl_list s) es qs" and m: "mx_free (tl_mutex s)" and e: "e \<in> set es"
    and t: "tl_heap s (data_of e) = Some (Thread t)" "th_joinedFlag t = 1"
  shows "thr_join_enter K env (tid_of e) want self p1 p2 s k = Ret (J_Return (-1) None (s, k))"
  using table_find [OF tab e] t mx_lock_unlock [OF m] m
  by (cases s) (auto simp: thr_join_enter_def outcome_simps Let_def)

lemma table_remove:
  assumes tab: "table h l (xs @ e # ys) qs" and q: "qs (tid_of e) = []"
    and lr: "list_rep h' l' (xs @ ys)"
    and fr: "\<And>a. a \<noteq> at e \<Longrightarrow> a \<noteq> data_of e \<Longrightarrow> a \<notin> at ` set (xs @ ys) \<Longrightarrow> h' a = h a"
  shows "table h' l' (xs @ ys) qs"
proof -
  note t = tableD [OF tab]
  have "thread_at h' f (qs (tid_of f))" if f: "f \<in> set (xs @ ys)" for f
  proof -
    have T: "thread_at h f (qs (tid_of f))" using t(5) f by auto
    then obtain x where x: "h (data_of f) = Some (Thread x)" "cond_rep (th_threadCond x) h (qs (tid_of f))"
      by (auto simp: thread_at_def)
    have node: "\<exists>nd. h (at g) = Some (Node nd)" if "g \<in> set (xs @ e # ys)" for g
      using list_rep_node [OF t(1) that] .
    have "data_of e \<notin> data_of ` set (xs @ ys)" using t(3) by (simp add: image_Un)
    with imageI [OF f, of data_of] have "data_of f \<noteq> data_of e" by metis
    moreover have "data_of f \<noteq> at g" if "g \<in> set (xs @ e # ys)" for g using node [OF that] x(1) by auto
    ultimately have "h' (data_of f) = h (data_of f)" using fr [of "data_of f"] by fastforce
    moreover have "h' a = h a" if a: "a \<in> entry_addrs (qs (tid_of f))" for a
    proof (rule fr)
      have nn: "a \<noteq> at g" if "g \<in> set (xs @ e # ys)" for g
      proof
        assume "a = at g"
        with node [OF that] obtain nd where "h a = Some (Node nd)" by blast
        with queue_rep_node [of "th_threadCond x" h "qs (tid_of f)" a nd] a x(2)
        have "at g \<in> at ` set (qs (tid_of f))" unfolding cond_rep_def \<open>a = at g\<close> by blast
        with apartD(1) [OF t(4) that, of f] f show False by auto
      qed
      then show "a \<noteq> at e" "a \<notin> at ` set (xs @ ys)" by fastforce+
      from t(5) [of e] obtain y where "h (data_of e) = Some (Thread y)" by (auto simp: thread_at_def)
      with queue_rep_objects [of "th_threadCond x" h "qs (tid_of f)" a] a x(2)
      show "a \<noteq> data_of e" by (auto simp: cond_rep_def)
    qed
    ultimately show ?thesis using thread_at_cong [OF T] by blast
  qed
  moreover have "apart (xs @ ys) qs" using t(4) unfolding apart_def by auto
  ultimately show ?thesis using t(2,3) lr by (auto simp: table_def)
qed

text \<open>A successful join: the status is read, the thread's stack, its \<open>thread_t\<close> and its node are freed.\<close>

lemma thr_join_finish_rep:
  assumes tab: "table (tl_heap s) (tl_list s) (xs @ e # ys) qs" and m: "mx_held (tl_mutex s)"
    and t: "tl_heap s (data_of e) = Some (Thread t)" and q: "qs (tid_of e) = []"
    and rp: "th_baseAddress t \<noteq> 0 \<Longrightarrow> \<not> neg32 (fst (vm_remove_pages K (th_baseAddress t) k))"
  shows "\<exists>l h. thr_join_finish K want (at e) (data_of e) s k =
      Ret (0, if want then Some (th_status t) else None,
           s\<lparr>tl_list := l, tl_heap := h, tl_mutex := (tl_mutex s)\<lparr>mx_lockFlag := 0\<rparr>\<rparr>,
           if th_baseAddress t \<noteq> 0 then snd (vm_remove_pages K (th_baseAddress t) k) else k) \<and>
    table h l (xs @ ys) qs \<and> h (at e) = None \<and> h (data_of e) = None \<and>
    (\<forall>a. a \<noteq> at e \<and> a \<noteq> data_of e \<and> a \<notin> at ` set (xs @ ys) \<longrightarrow> h a = tl_heap s a)"
proof -
  note T = tableD [OF tab]
  from T(5) [of e] t q have c: "cond_rep (th_threadCond t) (tl_heap s) []" "data_of e \<noteq> 0"
    by (auto simp: thread_at_def)
  let ?h1 = "(tl_heap s)(data_of e \<mapsto> Thread (t\<lparr>th_joinedFlag := 0, th_exitFlag := 1, th_threadID := -1\<rparr>))"
  have "cond_rep (th_threadCond t) ?h1 []" using c(1) by (intro cond_rep_upd_thread) simp_all
  from cond_destroy_idle [OF this, of "[]"] obtain c' where
    cd: "cond_destroy [] (th_threadCond t) ?h1 = Ret (c', ?h1)" by blast
  let ?h2 = "?h1(data_of e \<mapsto> Thread (t\<lparr>th_joinedFlag := 0, th_exitFlag := 1, th_threadID := -1, th_threadCond := c'\<rparr>))"
  have out: "data_of e \<notin> at ` set (xs @ e # ys)"
  proof
    assume "data_of e \<in> at ` set (xs @ e # ys)"
    with list_rep_node [OF T(1)] t show False by fastforce
  qed
  have "list_rep ?h2 (tl_list s) (xs @ e # ys)"
  proof (subst list_rep_cong [of _ _ "tl_heap s"])
    fix a assume "a \<in> at ` set (xs @ e # ys)"
    then have "a \<noteq> data_of e" using out by blast
    then show "?h2 a = tl_heap s a" by simp
  qed (rule T(1))
  from list_remove_rep [OF this] out obtain l h where
    lr: "list_remove (at e) (tl_list s) ?h2 = Ret (l, h)" "list_rep h l (xs @ ys)" "h (at e) = None" and
    gone: "h (data_of e) = None" and
    fr: "\<forall>a. a \<noteq> at e \<and> a \<noteq> data_of e \<and> a \<notin> at ` set (xs @ ys) \<longrightarrow> h a = ?h2 a"
    using c(2) by auto
  have fr': "h a = tl_heap s a" if "a \<noteq> at e" "a \<noteq> data_of e" "a \<notin> at ` set (xs @ ys)" for a
    using that fr by simp
  have "table h l (xs @ ys) qs" by (rule table_remove [OF tab q lr(2) fr'])
  moreover have "(case (if th_baseAddress t \<noteq> 0 then vm_remove_pages K (th_baseAddress t) k else (0, k)) of
      (rc, k) \<Rightarrow> neg32 rc) = False"
    using rp by (auto split: prod.splits)
  ultimately show ?thesis
    using t cd lr gone fr' m
    by (cases s) (auto simp: thr_join_finish_def outcome_simps Let_def split_beta)
qed

text \<open>A record whose flag is set is in no queue, so freeing it leaves the table alone.\<close>

lemma table_free_record:
  assumes tab: "table h l es qs" and p: "h p = Some (TCond tc)" "tc_waitFlag tc \<noteq> 0"
  shows "table (h(p := None)) l es qs"
proof -
  note t = tableD [OF tab]
  have "thread_at (h(p := None)) e (qs (tid_of e))" if "e \<in> set es" for e
  proof (rule thread_at_cong [OF t(5) [OF that]])
    from t(5) [OF that] obtain x where x: "h (data_of e) = Some (Thread x)" "cond_rep (th_threadCond x) h (qs (tid_of e))"
      by (auto simp: thread_at_def)
    with p(1) show "(h(p := None)) (data_of e) = h (data_of e)" by auto
    fix a assume a: "a \<in> entry_addrs (qs (tid_of e))"
    then obtain w where w: "w \<in> set (qs (tid_of e))" "a = at w \<or> a = data_of w"
      unfolding entry_addrs_def by blast
    have qr: "queue_rep (th_threadCond x) h (qs (tid_of e))" using x(2) by (simp add: cond_rep_def)
    from list_rep_node [OF queue_rep_list [OF qr] w(1)] p have "p \<noteq> at w" by auto
    moreover have "p \<noteq> data_of w" using qr w(1) p by (auto simp: queue_rep_def)
    ultimately have "a \<noteq> p" using w(2) by blast
    then show "(h(p := None)) a = h a" by simp
  qed
  moreover have "list_rep (h(p := None)) l es"
  proof (subst list_rep_cong [of _ _ h])
    fix a assume "a \<in> at ` set es"
    then have "a \<noteq> p" using list_rep_node [OF t(1)] p(1) by fastforce
    then show "(h(p := None)) a = h a" by simp
  qed (rule t(1))
  ultimately show ?thesis using t(2,3,4) by (simp add: table_def)
qed

lemma thr_join_exit_rep:
  assumes tab: "table (tl_heap s) (tl_list s) (xs @ e # ys) qs" and m: "mx_free (tl_mutex s)"
    and t: "tl_heap s (data_of e) = Some (Thread t)" and q: "qs (tid_of e) = []"
    and p: "tl_heap s p1 = Some (TCond tc)" "tc_waitFlag tc \<noteq> 0" "p1 \<noteq> 0"
    and rp: "th_baseAddress t \<noteq> 0 \<Longrightarrow> \<not> neg32 (fst (vm_remove_pages K (th_baseAddress t) k))"
  shows "\<exists>l h. thr_join_exit K env want (at e) (data_of e) p1 s k =
      Ret (0, if want then Some (th_status t) else None, s\<lparr>tl_list := l, tl_heap := h\<rparr>,
           if th_baseAddress t \<noteq> 0 then snd (vm_remove_pages K (th_baseAddress t) k) else k) \<and>
    table h l (xs @ ys) qs \<and> h (at e) = None \<and> h (data_of e) = None \<and> h p1 = None \<and>
    (\<forall>a. a \<noteq> at e \<and> a \<noteq> data_of e \<and> a \<noteq> p1 \<and> a \<notin> at ` set (xs @ ys) \<longrightarrow> h a = tl_heap s a)"
proof -
  let ?s = "s\<lparr>tl_mutex := (tl_mutex s)\<lparr>mx_lockFlag := 1\<rparr>, tl_heap := (tl_heap s)(p1 := None)\<rparr>"
  let ?k = "if th_baseAddress t \<noteq> 0 then snd (vm_remove_pages K (th_baseAddress t) k) else k"
  have "p1 \<noteq> data_of e" using t p(1) by auto
  then have t': "tl_heap ?s (data_of e) = Some (Thread t)" using t by simp
  have tab': "table (tl_heap ?s) (tl_list ?s) (xs @ e # ys) qs" using table_free_record [OF tab p(1,2)] by simp
  have m': "mx_held (tl_mutex ?s)" using m by simp
  from thr_join_finish_rep [OF tab' m' t' q rp, of want] obtain l h where
    r: "thr_join_finish K want (at e) (data_of e) ?s k =
        Ret (0, if want then Some (th_status t) else None, s\<lparr>tl_list := l, tl_heap := h\<rparr>, ?k)"
      "table h l (xs @ ys) qs" "h (at e) = None" "h (data_of e) = None" and
    fr: "\<forall>a. a \<noteq> at e \<and> a \<noteq> data_of e \<and> a \<notin> at ` set (xs @ ys) \<longrightarrow> h a = ((tl_heap s)(p1 := None)) a"
    using mx_lock_unlock [OF m] by (cases s) auto
  have "p1 \<notin> at ` set (xs @ e # ys)"
  proof
    assume "p1 \<in> at ` set (xs @ e # ys)"
    with list_rep_node [OF tableD(1) [OF tab]] p(1) show False by fastforce
  qed
  then have "p1 \<noteq> at e" "p1 \<notin> at ` set (xs @ ys)" by auto
  with fr \<open>p1 \<noteq> data_of e\<close> have "h p1 = None" by simp
  moreover have "thr_join_exit K env want (at e) (data_of e) p1 s k =
      Ret (0, if want then Some (th_status t) else None, s\<lparr>tl_list := l, tl_heap := h\<rparr>, ?k)"
    using p m r(1) by (simp add: thr_join_exit_def cond_wait_exit_def outcome_simps del: bnd_Ret_iff)
  ultimately show ?thesis using r fr
    by (intro exI [of _ l] exI [of _ h] conjI allI impI) auto
qed

text \<open>A join of a thread that has exited and has no joiner collects it at once.\<close>

lemma thr_join_enter_exited:
  assumes tab: "table (tl_heap s) (tl_list s) (xs @ e # ys) qs" and m: "mx_free (tl_mutex s)"
    and t: "tl_heap s (data_of e) = Some (Thread t)" "th_joinedFlag t \<noteq> 1" "th_exitFlag t = 1" and q: "qs (tid_of e) = []"
    and rp: "th_baseAddress t \<noteq> 0 \<Longrightarrow> \<not> neg32 (fst (vm_remove_pages K (th_baseAddress t) k))"
  shows "\<exists>l h. thr_join_enter K env (tid_of e) want self p1 p2 s k =
      Ret (J_Return 0 (if want then Some (th_status t) else None) (s\<lparr>tl_list := l, tl_heap := h\<rparr>,
           if th_baseAddress t \<noteq> 0 then snd (vm_remove_pages K (th_baseAddress t) k) else k)) \<and>
    table h l (xs @ ys) qs \<and> h (at e) = None \<and> h (data_of e) = None \<and>
    (\<forall>a. a \<noteq> at e \<and> a \<noteq> data_of e \<and> a \<notin> at ` set (xs @ ys) \<longrightarrow> h a = tl_heap s a)"
proof -
  let ?s = "s\<lparr>tl_mutex := (tl_mutex s)\<lparr>mx_lockFlag := 1\<rparr>\<rparr>"
  have e: "e \<in> set (xs @ e # ys)" by simp
  have s: "table (tl_heap ?s) (tl_list ?s) (xs @ e # ys) qs" "mx_held (tl_mutex ?s)"
    "tl_heap ?s (data_of e) = Some (Thread t)" using assms by simp_all
  from thr_join_finish_rep [OF s q rp, of want] obtain l h where
    f: "thr_join_finish K want (at e) (data_of e) ?s k =
        Ret (0, if want then Some (th_status t) else None, s\<lparr>tl_list := l, tl_heap := h\<rparr>,
           if th_baseAddress t \<noteq> 0 then snd (vm_remove_pages K (th_baseAddress t) k) else k)" and
    r: "table h l (xs @ ys) qs" "h (at e) = None" "h (data_of e) = None"
      "\<forall>a. a \<noteq> at e \<and> a \<noteq> data_of e \<and> a \<notin> at ` set (xs @ ys) \<longrightarrow> h a = tl_heap s a"
    using mx_lock_unlock [OF m] by (cases s) auto
  from f have "thr_join_enter K env (tid_of e) want self p1 p2 s k =
      Ret (J_Return 0 (if want then Some (th_status t) else None) (s\<lparr>tl_list := l, tl_heap := h\<rparr>,
           if th_baseAddress t \<noteq> 0 then snd (vm_remove_pages K (th_baseAddress t) k) else k))"
    using table_find [OF tab e] t m
    by (auto simp: thr_join_enter_def outcome_simps Let_def simp del: bnd_Ret_iff)
  with r show ?thesis by blast
qed

text \<open>New memory is outside everything the table uses.\<close>

lemma table_upd_fresh:
  assumes tab: "table h l es qs" and p: "h p = None"
  shows "table (h(p := v)) l es qs"
proof -
  note t = tableD [OF tab]
  have "thread_at (h(p := v)) e (qs (tid_of e))" if "e \<in> set es" for e
  proof (rule thread_at_cong [OF t(5) [OF that]])
    from t(5) [OF that] obtain x where x: "h (data_of e) = Some (Thread x)" "cond_rep (th_threadCond x) h (qs (tid_of e))"
      by (auto simp: thread_at_def)
    with p show "(h(p := v)) (data_of e) = h (data_of e)" by auto
    fix a assume "a \<in> entry_addrs (qs (tid_of e))"
    with queue_rep_objects [of "th_threadCond x" h "qs (tid_of e)" a] x(2) p
    show "(h(p := v)) a = h a" by (auto simp: cond_rep_def)
  qed
  moreover have "list_rep (h(p := v)) l es"
  proof (subst list_rep_cong [of _ _ h])
    fix a assume "a \<in> at ` set es"
    then have "a \<noteq> p" using list_rep_node [OF t(1)] p by fastforce
    then show "(h(p := v)) a = h a" by simp
  qed (rule t(1))
  ultimately show ?thesis using t(2,3,4) by (simp add: table_def)
qed

lemma table_insert:
  assumes tab: "table h l es qs" and p: "p \<noteq> 0" "h p = Some (Thread t)" "th_threadID t = tid" "cond_rep (th_threadCond t) h []"
    and new: "tid \<notin> tid_of ` set es" "p \<notin> data_of ` set es" and p2: "fresh h p2"
  shows "\<exists>l' h'. list_insert p2 p tid l h = Ret (0, l', h') \<and> table h' l' ((p2, p, tid) # es) (qs(tid := [])) \<and>
    (\<forall>a. a \<noteq> p2 \<and> a \<notin> at ` set es \<longrightarrow> h' a = h a)"
proof -
  note t = tableD [OF tab]
  from list_insert_rep [OF t(1) p2, of p tid] obtain l' h' where
    ins: "list_insert p2 p tid l h = Ret (0, l', h')" "list_rep h' l' ((p2, p, tid) # es)" and
    fr: "\<forall>a. a \<noteq> p2 \<and> a \<notin> at ` set es \<longrightarrow> h' a = h a" by blast
  have node: "\<exists>nd. h (at f) = Some (Node nd)" if "f \<in> set es" for f using list_rep_node [OF t(1) that] .
  have notat: "a \<notin> at ` set es" if "h a = Some (Thread x)" for a x
    using node that by fastforce
  have "p2 \<noteq> p" using p2 p(2) by (auto simp: fresh_def)
  then have same_p: "h' p = Some (Thread t)" using fr notat [OF p(2)] p(2) by simp
  have old: "thread_at h' e (qs (tid_of e))" if e: "e \<in> set es" for e
  proof (rule thread_at_cong [OF t(5) [OF e]])
    from t(5) [OF e] obtain x where x: "h (data_of e) = Some (Thread x)" "cond_rep (th_threadCond x) h (qs (tid_of e))"
      by (auto simp: thread_at_def)
    have "data_of e \<noteq> p2" using x(1) freshD [OF p2] by auto
    with fr notat [OF x(1)] show "h' (data_of e) = h (data_of e)" by blast
    fix a assume a: "a \<in> entry_addrs (qs (tid_of e))"
    have "a \<notin> at ` set es"
    proof
      assume "a \<in> at ` set es"
      then obtain f where f: "f \<in> set es" "a = at f" by blast
      with node obtain nd where "h a = Some (Node nd)" by blast
      with queue_rep_node [of "th_threadCond x" h "qs (tid_of e)" a nd] a x(2)
      have "a \<in> at ` set (qs (tid_of e))" by (simp add: cond_rep_def)
      with apartD(1) [OF t(4) f(1) e] f(2) show False by simp
    qed
    moreover have "a \<noteq> p2"
      using queue_rep_objects [of "th_threadCond x" h "qs (tid_of e)" a] a x(2) freshD [OF p2]
      by (auto simp: cond_rep_def)
    ultimately show "h' a = h a" using fr by simp
  qed
  have ne: "tid_of e \<noteq> tid" if "e \<in> set es" for e using new(1) imageI [OF that, of tid_of] by metis
  have "thread_at h' (p2, p, tid) []"
    using same_p p(1,3,4) by (simp add: thread_at_def cond_rep_def queue_rep_def list_rep_Nil_iff)
  moreover have "apart ((p2, p, tid) # es) (qs(tid := []))"
  proof -
    have p2q: "p2 \<notin> at ` set (qs (tid_of e))" if e: "e \<in> set es" for e
    proof
      assume "p2 \<in> at ` set (qs (tid_of e))"
      then have "p2 \<in> entry_addrs (qs (tid_of e))" by (auto simp: entry_addrs_def)
      with t(5) [OF e] queue_rep_objects freshD [OF p2] show False
        by (fastforce simp: thread_at_def cond_rep_def)
    qed
    show ?thesis unfolding apart_def using t(4) ne p2q by (auto simp: apart_def)
  qed
  ultimately have "table h' l' ((p2, p, tid) # es) (qs(tid := []))"
    using ins(2) old ne new t(2,3) by (simp add: table_def)
  with ins(1) fr show ?thesis by blast
qed

end
