(* ===== verification/Thread_Lifecycle.thy ===== *)
theory Thread_Lifecycle
  imports Thread_Table
begin

text \<open>
  The properties of thread.c: initialisation, creation with its error paths, and the meeting of
  \<open>thr_join\<close> and \<open>thr_exit\<close>, with the two ways in which joins go wrong.
\<close>

section \<open>Initialisation\<close>

lemma list_insert_fail_eq: "list_rep h l es \<Longrightarrow> list_insert 0 d t l h = Ret (-1, l, h)"
proof (cases es)
  case Nil
  assume "list_rep h l es"
  with Nil show ?thesis by (cases l) (simp add: list_rep_Nil_iff list_insert_def)
next
  case (Cons e es')
  assume "list_rep h l es"
  with Cons obtain nd where nd: "h (at e) = Some (Node nd)" "l_head l = at e" "at e \<noteq> 0" "nd_prev nd = 0"
    by (auto simp: list_rep_def)
  then have "h(at e \<mapsto> Node (nd\<lparr>nd_prev := 0\<rparr>)) = h" by (cases nd) auto
  with nd show ?thesis by (simp add: list_insert_def Let_def outcome_simps)
qed

lemma cond_init_eq:
  "cond_init (Some c) = (0, Some (c\<lparr>cd_initializeFlag := 1, cd_condMutex := \<lparr>mx_lockFlag = 0, mx_initializeFlag = 1\<rparr>,
     cd_list := \<lparr>l_head = 0, l_tail = 0, l_count = 0\<rparr>\<rparr>))"
  by (simp add: cond_init_def mutex_init_def list_create_def)

definition new_cond :: cond where
  "new_cond = \<lparr>cd_initializeFlag = 1, cd_condMutex = \<lparr>mx_lockFlag = 0, mx_initializeFlag = 1\<rparr>,
     cd_list = \<lparr>l_head = 0, l_tail = 0, l_count = 0\<rparr>\<rparr>"

lemma cond_init_new: "cond_init (Some c) = (0, Some new_cond)"
  by (cases c) (simp add: cond_init_eq new_cond_def)

lemma new_cond_rep: "cond_rep new_cond h []"
  by (simp add: new_cond_def cond_rep_def queue_rep_def mx_free_def list_rep_Nil_iff)

lemma thr_init_globals:
  assumes "thr_init n a tid p t0 p2 s = Ret (0, s')"
  shows "tl_stack_size s' = align_size n \<and> tl_top s' = align_top a \<and> mx_free (tl_mutex s')"
proof (cases "n = 0 \<or> p = 0")
  case True
  then have "thr_init n a tid p t0 p2 s = Panic \<or> thr_init n a tid p t0 p2 s = Ret (-1, s)"
    by (auto simp: thr_init_def mutex_init_def mutex_unlock_def)
  with assms show ?thesis by auto
next
  case False
  let ?h = "(tl_heap s)(p \<mapsto> Thread (t0\<lparr>th_threadCond := new_cond, th_exitFlag := 0, th_status := 0,
     th_threadID := tid, th_joinedFlag := 0, th_stack_size := align_size n, th_baseAddress := 0\<rparr>))"
  obtain rc l h where i: "list_insert p2 p tid (list_create (tl_list s)) ?h = Ret (rc, l, h)"
    by (cases "p2 = 0") (auto simp: list_insert_def list_create_def)
  show ?thesis
  proof (cases "neg32 rc")
    case True
    with assms False i show ?thesis
      by (cases "list_destroy l h") (auto simp: thr_init_def mutex_init_def cond_init_new Let_def)
  next
    case neg: False
    from assms have "s' = s\<lparr>tl_mutex := (tl_mutex s)\<lparr>mx_initializeFlag := 1, mx_lockFlag := 0\<rparr>,
        tl_malloc_mutex := (tl_malloc_mutex s)\<lparr>mx_initializeFlag := 1, mx_lockFlag := 0\<rparr>,
        tl_top := align_top a, tl_stack_size := align_size n, tl_list := l, tl_heap := h\<rparr>"
      using False neg i by (simp add: thr_init_def mutex_init_def cond_init_new Let_def)
    then show ?thesis by (simp add: mx_free_def)
  qed
qed

lemma thr_init_rep:
  assumes "0 < n" "fresh (tl_heap s) p" "fresh (tl_heap s) p2" "p \<noteq> p2"
  shows "\<exists>s' t. thr_init n a tid p t0 p2 s = Ret (0, s') \<and>
    table (tl_heap s') (tl_list s') [(p2, p, tid)] (\<lambda>_. []) \<and>
    mx_free (tl_mutex s') \<and> mx_free (tl_malloc_mutex s') \<and>
    tl_stack_size s' = align_size n \<and> tl_top s' = align_top a \<and> tl_heap s' p = Some (Thread t) \<and>
    th_exitFlag t = 0 \<and> th_joinedFlag t = 0 \<and> th_baseAddress t = 0"
proof -
  let ?t = "t0\<lparr>th_threadCond := new_cond, th_exitFlag := 0, th_status := 0, th_threadID := tid,
     th_joinedFlag := 0, th_stack_size := align_size n, th_baseAddress := 0\<rparr>"
  let ?h = "(tl_heap s)(p \<mapsto> Thread ?t)"
  let ?l = "list_create (tl_list s)"
  have e: "table ?h ?l [] (\<lambda>_. [])"
    by (simp add: table_def list_rep_empty apart_def)
  have p: "p \<noteq> 0" "?h p = Some (Thread ?t)" "th_threadID ?t = tid" "cond_rep (th_threadCond ?t) ?h []"
    using assms(2) new_cond_rep by (auto simp: fresh_def)
  have "fresh ?h p2" using assms(3,4) by (simp add: fresh_def)
  from table_insert [OF e p _ _ this] obtain l h where
    ins: "list_insert p2 p tid ?l ?h = Ret (0, l, h)" "table h l [(p2, p, tid)] ((\<lambda>_. [])(tid := []))" and
    fr: "\<forall>a. a \<noteq> p2 \<longrightarrow> h a = ?h a" by auto
  have "table h l [(p2, p, tid)] (\<lambda>_. [])" using ins(2) by (simp add: fun_upd_idem)
  moreover have "h p = Some (Thread ?t)" using fr assms(4) by simp
  ultimately show ?thesis using ins(1) assms(1) p(1)
    by (auto simp: thr_init_def mutex_init_def cond_init_new Let_def outcome_simps mx_free_def simp del: bnd_Ret_iff)
qed

text \<open>
  \<open>thr_init\<close> with memory available returns 0, unlocks nothing and leaves a table with the calling
  thread alone in it, both global mutexes free, the rounded stack size and the rounded stack top.
\<close>

theorem thr_init_ok:
  assumes "0 < n" "fresh (tl_heap s) p" "fresh (tl_heap s) p2" "p \<noteq> p2"
  shows "\<exists>s'. thr_init n a tid p t0 p2 s = Ret (0, s') \<and>
    table (tl_heap s') (tl_list s') [(p2, p, tid)] (\<lambda>_. []) \<and>
    mx_free (tl_mutex s') \<and> mx_free (tl_malloc_mutex s') \<and>
    tl_stack_size s' = align_size n \<and> tl_top s' = align_top a"
  using thr_init_rep [OF assms, of a tid t0] by blast

text \<open>
  when \<open>malloc\<close> fails, \<open>thr_init\<close> does not return its error code: it unlocks a mutex it never
  locked, whose assertion ends the task. When the second allocation fails it returns -1, and the first
  object stays allocated.
\<close>

theorem thr_init_out_of_memory:
  assumes "0 < n"
  shows "thr_init n a tid 0 t0 p2 s = Panic \<and>
    (fresh (tl_heap s) p \<longrightarrow> (\<exists>s'. thr_init n a tid p t0 0 s = Ret (-1, s') \<and> tl_heap s' p \<noteq> None))"
proof
  show "thr_init n a tid 0 t0 p2 s = Panic"
    using assms by (simp add: thr_init_def mutex_init_def mutex_unlock_def outcome_simps Let_def)
  show "fresh (tl_heap s) p \<longrightarrow> (\<exists>s'. thr_init n a tid p t0 0 s = Ret (-1, s') \<and> tl_heap s' p \<noteq> None)"
  proof
    assume "fresh (tl_heap s) p"
    then have "p \<noteq> 0" "n \<noteq> 0" using assms by (auto simp: fresh_def)
    moreover have "list_insert 0 p tid (list_create (tl_list s)) h = Ret (-1, list_create (tl_list s), h)" for h
      by (rule list_insert_fail_eq [OF list_rep_empty])
    moreover have "list_destroy (list_create (tl_list s)) h = Ret (list_create (tl_list s), h)" for h
      by (rule list_destroy_empty [OF list_rep_empty])
    ultimately show "\<exists>s'. thr_init n a tid p t0 0 s = Ret (-1, s') \<and> tl_heap s' p \<noteq> None"
      using assms by (simp add: thr_init_def mutex_init_def cond_init_new outcome_simps Let_def del: bnd_Ret_iff)
  qed
qed

text \<open>
  the two roundings of \<open>thr_init\<close>. The stack size becomes the least multiple of the page size
  that holds it, except above \<open>0xfffff000\<close>, where it wraps to 0; a stack address in the upper half
  of memory becomes a page boundary above it, at most 8190 bytes up.
\<close>

theorem thr_init_rounding:
  assumes "0 < n" "0x80000000 < a" "a < 0xffffe000"
  shows "(if n \<le> 0xfffff000
      then unat n \<le> unat (align_size n) \<and> unat (align_size n) < unat n + 4096 \<and> 4096 dvd unat (align_size n)
      else align_size n = 0) \<and>
    uint a < uint (align_top a) \<and> uint (align_top a) \<le> uint a + 8190 \<and> 4096 dvd uint (align_top a)"
proof
  have pos: "0 < unat n" using assms(1) by (simp add: unat_gt_0 word_gt_0)
  show "if n \<le> 0xfffff000
      then unat n \<le> unat (align_size n) \<and> unat (align_size n) < unat n + 4096 \<and> 4096 dvd unat (align_size n)
      else align_size n = 0"
  proof (cases "n \<le> 0xfffff000")
    case True
    have "(unat n - 1) div 4096 * 4096 \<le> unat n - 1" by simp
    moreover have "unat n - 1 < ((unat n - 1) div 4096 + 1) * 4096"
      using dividend_less_div_times [of 4096 "unat n - 1"] by simp
    ultimately have "(unat n - 1) div 4096 * 4096 \<le> unat n - 1" "unat n - 1 < ((unat n - 1) div 4096 + 1) * 4096"
      by blast+
    with True align_size_unat [OF assms(1) True] pos show ?thesis by auto
  next
    case False
    with align_size_wrap show ?thesis by simp
  qed
  have "(uint a + 8190) div 4096 * 4096 \<le> uint a + 8190" "uint a < (uint a + 8190) div 4096 * 4096"
    by linarith+
  with align_top_upper [OF assms(2,3)]
  show "uint a < uint (align_top a) \<and> uint (align_top a) \<le> uint a + 8190 \<and> 4096 dvd uint (align_top a)"
    by auto
qed

section \<open>Creation\<close>

lemma thr_create_start:
  assumes "mx_free (tl_mutex s)" "func \<noteq> 0"
    and "find_stack K (tl_stack_size s) (tl_top s) (tl_top s) k = Some (Some a, k1)" "p \<noteq> 0"
    and "vm_thread_fork K func arg (a + tl_stack_size s) k1 = (cid, k2)" "\<not> neg32 cid"
    and "list_insert p2 p cid (tl_list s) ((tl_heap s)(p \<mapsto> Thread (t0\<lparr>th_threadCond := new_cond, th_threadID := cid,
      th_status := 0, th_baseAddress := a, th_stack_size := tl_stack_size s, th_exitFlag := 0, th_joinedFlag := 0\<rparr>))) =
      Ret (0, l, h)"
  shows "thr_create K env func arg p t0 p2 s k = Ret (cid, s\<lparr>tl_top := a, tl_list := l, tl_heap := h\<rparr>, k2)"
  using assms mx_lock_unlock [OF assms(1)]
  by (cases s) (simp add: thr_create_def outcome_simps Let_def cond_init_new del: bnd_Ret_iff)

lemma thr_create_returns:
  assumes "table (tl_heap s) (tl_list s) es qs" "mx_free (tl_mutex s)" "func \<noteq> 0"
    and "find_stack K (tl_stack_size s) (tl_top s) (tl_top s) k = Some (Some a, k1)"
    and "vm_thread_fork K func arg (a + tl_stack_size s) k1 = (cid, k2)" "\<not> neg32 cid"
    and "fresh (tl_heap s) p" "fresh (tl_heap s) p2" "p \<noteq> p2"
  shows "\<exists>l h. thr_create K env func arg p t0 p2 s k = Ret (cid, s\<lparr>tl_top := a, tl_list := l, tl_heap := h\<rparr>, k2)"
proof -
  let ?h = "(tl_heap s)(p \<mapsto> Thread (t0\<lparr>th_threadCond := new_cond, th_threadID := cid,
      th_status := 0, th_baseAddress := a, th_stack_size := tl_stack_size s, th_exitFlag := 0, th_joinedFlag := 0\<rparr>))"
  have p: "p \<noteq> 0" "tl_heap s p = None" using assms(7) by (simp_all add: fresh_def)
  have "fresh ?h p2" using assms(8,9) by (simp add: fresh_def)
  from list_insert_rep [OF tableD(1) [OF table_upd_fresh [OF assms(1) p(2)]] this, of p cid] obtain l h where
    "list_insert p2 p cid (tl_list s) ?h = Ret (0, l, h)" by blast
  from thr_create_start [OF assms(2-4) p(1) assms(5,6) this] show ?thesis by blast
qed

lemma thr_create_rep:
  assumes "table (tl_heap s) (tl_list s) es qs" "mx_free (tl_mutex s)" "func \<noteq> 0"
    and "find_stack K (tl_stack_size s) (tl_top s) (tl_top s) k = Some (Some a, k1)"
    and "vm_thread_fork K func arg (a + tl_stack_size s) k1 = (cid, k2)" "\<not> neg32 cid" "cid \<notin> tid_of ` set es"
    and "fresh (tl_heap s) p" "fresh (tl_heap s) p2" "p \<noteq> p2"
  shows "\<exists>l h t. thr_create K env func arg p t0 p2 s k = Ret (cid, s\<lparr>tl_top := a, tl_list := l, tl_heap := h\<rparr>, k2) \<and>
    table h l ((p2, p, cid) # es) (qs(cid := [])) \<and> h p = Some (Thread t) \<and> th_threadID t = cid \<and>
    th_baseAddress t = a \<and> th_stack_size t = tl_stack_size s \<and> th_exitFlag t = 0 \<and> th_joinedFlag t = 0 \<and>
    (\<forall>b. b \<noteq> p \<and> b \<noteq> p2 \<and> b \<notin> at ` set es \<longrightarrow> h b = tl_heap s b)"
proof -
  let ?t = "t0\<lparr>th_threadCond := new_cond, th_threadID := cid, th_status := 0, th_baseAddress := a,
      th_stack_size := tl_stack_size s, th_exitFlag := 0, th_joinedFlag := 0\<rparr>"
  let ?h = "(tl_heap s)(p \<mapsto> Thread ?t)"
  have p: "p \<noteq> 0" "tl_heap s p = None" using assms(8) by (simp_all add: fresh_def)
  have tab: "table ?h (tl_list s) es qs" by (rule table_upd_fresh [OF assms(1) p(2)])
  have pd: "p \<notin> data_of ` set es"
  proof
    assume "p \<in> data_of ` set es"
    then obtain e where "e \<in> set es" "p = data_of e" by blast
    with tableD(5) [OF assms(1), of e] p(2) show False by (auto simp: thread_at_def)
  qed
  have "fresh ?h p2" using assms(9,10) by (simp add: fresh_def)
  from table_insert [OF tab p(1) _ _ _ assms(7) pd this, of ?t] new_cond_rep obtain l h where
    ins: "list_insert p2 p cid (tl_list s) ?h = Ret (0, l, h)" "table h l ((p2, p, cid) # es) (qs(cid := []))" and
    fr: "\<forall>a. a \<noteq> p2 \<and> a \<notin> at ` set es \<longrightarrow> h a = ?h a" by auto
  have "p \<notin> at ` set es"
  proof
    assume "p \<in> at ` set es"
    with list_rep_node [OF tableD(1) [OF assms(1)]] p(2) show False by fastforce
  qed
  with fr assms(10) have "h p = Some (Thread ?t)" by simp
  with thr_create_start [OF assms(2,3,4) p(1) assms(5,6) ins(1)] ins(2) fr show ?thesis
    by (intro exI [of _ l] exI [of _ h] exI [of _ ?t]) simp
qed


text \<open>The calls that fail before an entry is made.\<close>

lemma thr_create_undone:
  assumes "table (tl_heap s) (tl_list s) es qs" "mx_free (tl_mutex s)" "func \<noteq> 0"
    and "find_stack K (tl_stack_size s) (tl_top s) (tl_top s) k = Some (Some a, k1)"
    and "vm_thread_fork K func arg (a + tl_stack_size s) k1 = (cid, k2)" "fresh (tl_heap s) p" "neg32 cid \<or> p2 = 0"
  shows "thr_create K env func arg p t0 p2 s k = Ret (-1, s\<lparr>tl_top := a\<rparr>, snd (vm_remove_pages K a k2))"
proof -
  have p: "p \<noteq> 0" "tl_heap s p = None" using assms(6) by (simp_all add: fresh_def)
  have undo: "(tl_heap s)(p := None) = tl_heap s" using p(2) by auto
  have c: "cond_destroy [] new_cond h = Ret (new_cond\<lparr>cd_initializeFlag := 0,
      cd_condMutex := \<lparr>mx_lockFlag = 0, mx_initializeFlag = 0\<rparr>\<rparr>, h)" for h
    by (simp add: new_cond_def cond_destroy_def outcome_simps mx_free_def mx_held_def mutex_unlock_def
        mutex_destroy_def list_destroy_def list_destroy_loop.simps Let_def)
  have ins: "list_insert 0 p cid (tl_list s) ((tl_heap s)(p \<mapsto> v)) = Ret (-1, tl_list s, (tl_heap s)(p \<mapsto> v))" for v
    by (rule list_insert_fail_eq [OF tableD(1) [OF table_upd_fresh [OF assms(1) p(2)]]])
  show ?thesis
  proof (cases "neg32 cid")
    case True
    with assms(2-5) p(1) undo c mx_lock_unlock [OF assms(2)] show ?thesis
      by (cases s) (simp add: thr_create_def outcome_simps Let_def cond_init_new del: bnd_Ret_iff)
  next
    case False
    with assms(2-5,7) p(1) undo c ins mx_lock_unlock [OF assms(2)] show ?thesis
      by (cases s) (simp add: thr_create_def outcome_simps Let_def cond_init_new del: bnd_Ret_iff)
  qed
qed

lemma thr_create_early:
  assumes "mx_free (tl_mutex s)"
  shows "thr_create K env 0 arg p t0 p2 s k = Ret (-1, s, k)"
    "func \<noteq> 0 \<Longrightarrow> find_stack K (tl_stack_size s) (tl_top s) (tl_top s) k = Some (None, k1) \<Longrightarrow>
       thr_create K env func arg p t0 p2 s k = Ret (-1, s, k1)"
    "func \<noteq> 0 \<Longrightarrow> find_stack K (tl_stack_size s) (tl_top s) (tl_top s) k = Some (Some a, k1) \<Longrightarrow>
       thr_create K env func arg 0 t0 p2 s k = Ret (-1, s\<lparr>tl_top := a\<rparr>, k1)"
  using assms mx_lock_unlock [OF assms]
  by (cases s; simp add: thr_create_def outcome_simps Let_def del: bnd_Ret_iff)+

text \<open>
  C17: when \<open>thread_fork\<close> or the second allocation fails, \<open>thr_create\<close> returns -1 with the table and
  the heap exactly as before and the pages given back; only the search start has moved. When the first
  allocation fails it also returns -1, but the pages it had mapped stay mapped.
\<close>

theorem thr_create_rollback:
  assumes "table (tl_heap s) (tl_list s) es qs" "mx_free (tl_mutex s)" "func \<noteq> 0"
    and "find_stack K (tl_stack_size s) (tl_top s) (tl_top s) k = Some (Some a, k1)"
    and "vm_thread_fork K func arg (a + tl_stack_size s) k1 = (cid, k2)" "fresh (tl_heap s) p"
  shows "(neg32 cid \<or> p2 = 0 \<longrightarrow>
      thr_create K env func arg p t0 p2 s k = Ret (-1, s\<lparr>tl_top := a\<rparr>, snd (vm_remove_pages K a k2))) \<and>
    thr_create K env func arg 0 t0 p2 s k = Ret (-1, s\<lparr>tl_top := a\<rparr>, k1)"
  using thr_create_undone [OF assms] thr_create_early(3) [OF assms(2-4)] by blast

text \<open>
  C18: the search for stack memory terminates whatever the kernel answers, as long as the stack size is
  not 0 and the lower bound leaves room for one stack; the address it returns lies within the bound.
\<close>

theorem find_stack_terminates:
  assumes "0 < tl_stack_size s" "unat (tl_stack_size s) + 2013255622 \<le> unat (tl_top s)"
  shows "\<exists>r k'. find_stack K (tl_stack_size s) (tl_top s) (tl_top s) k = Some (r, k') \<and>
    (\<forall>p. r = Some p \<longrightarrow> tl_top s - 2013255622 \<le> p \<and> p \<le> tl_top s)"
proof -
  have "tl_top s - 2013255622 \<le> tl_top s"
    using assms(2) by (simp add: word_le_nat_alt unat_sub)
  from find_stack_ends [OF assms this order_refl] show ?thesis .
qed

text \<open>
  C20: \<open>thr_init\<close> accepts stack sizes above \<open>0xfffff000\<close> and records 0 for them; after that
  \<open>thr_create\<close> never returns, because the kernel refuses to map 0 bytes and the address of the search
  does not move.
\<close>

theorem thr_create_hangs_on_huge_stacks:
  assumes "0xfffff000 < n" "thr_init n a tid p t0 p2 s0 = Ret (0, s)" "func \<noteq> 0"
    and "2013255622 \<le> align_top a" "\<And>a k. neg32 (fst (vm_new_pages K a 0 k))"
  shows "thr_create K env func arg q t1 q2 s k = Hang"
proof -
  from thr_init_globals [OF assms(2)]
  have s: "tl_stack_size s = align_size n" "tl_top s = align_top a" "mx_free (tl_mutex s)" by simp_all
  have "find_stack K 0 (align_top a) (align_top a) k = None"
    by (rule find_stack_zero [OF assms(5,4)])
  with s align_size_wrap [OF assms(1)] assms(3) show ?thesis
    by (simp add: thr_create_def outcome_simps Let_def del: bnd_Ret_iff)
qed

section \<open>Join and exit\<close>

text \<open>What a join, an exit and the joiner's return do, each from the state the one before left.\<close>

lemma join_then_exit:
  assumes "table (tl_heap s) (tl_list s) (xs @ e # ys) qs" "mx_free (tl_mutex s)"
    and "tl_heap s (data_of e) = Some (Thread t)" "th_joinedFlag t \<noteq> 1" "th_exitFlag t \<noteq> 1" "qs (tid_of e) = []"
    and "fresh (tl_heap s) p1" "fresh (tl_heap s) p2" "p1 \<noteq> p2"
  shows "\<exists>s1 s2 t2. thr_join_enter K env (tid_of e) want self p1 p2 s k = Ret (J_Wait (at e) (data_of e) p1 (s1, k)) \<and>
    thr_exit env' v (tid_of e) s1 = Ret ([self], s2) \<and>
    cond_wait_blocked p1 (tl_heap s1) = Ret True \<and> cond_wait_blocked p1 (tl_heap s2) = Ret False \<and>
    table (tl_heap s2) (tl_list s2) (xs @ e # ys) (qs(tid_of e := [])) \<and> mx_free (tl_mutex s2) \<and>
    tl_heap s2 (data_of e) = Some (Thread t2) \<and> th_status t2 = v \<and> th_exitFlag t2 = 1 \<and> th_joinedFlag t2 = 0 \<and>
    th_baseAddress t2 = th_baseAddress t \<and>
    tl_heap s2 p1 = Some (TCond \<lparr>tc_waitFlag = 1, tc_threadID = self\<rparr>)"
proof -
  have e: "e \<in> set (xs @ e # ys)" by simp
  from thr_join_enter_waits [OF assms(1,2) e assms(3-9), of K env want self k] obtain c1 h1 where
    j: "thr_join_enter K env (tid_of e) want self p1 p2 s k =
        Ret (J_Wait (at e) (data_of e) p1 (s\<lparr>tl_heap := h1\<rparr>, k))" and
    tab1: "table h1 (tl_list s) (xs @ e # ys) (qs(tid_of e := [(p2, p1, self)]))" and
    t1: "h1 (data_of e) = Some (Thread (t\<lparr>th_joinedFlag := 1, th_threadCond := c1\<rparr>))" by auto
  let ?s1 = "s\<lparr>tl_heap := h1\<rparr>"
  from tableD(5) [OF tab1 e] have "h1 p1 = Some (TCond \<lparr>tc_waitFlag = 0, tc_threadID = self\<rparr>)"
    by (auto simp: thread_at_def cond_rep_def queue_rep_def)
  then have b1: "cond_wait_blocked p1 h1 = Ret True" by (simp add: cond_wait_blocked_def outcome_simps)
  have tab1': "table (tl_heap ?s1) (tl_list ?s1) (xs @ e # ys) (qs(tid_of e := [(p2, p1, self)]))" using tab1 by simp
  from thr_exit_rep [OF tab1' _ e, of _ "[(p2, p1, self)]" env' v] t1 assms(2) obtain c2 h2 where
    x: "thr_exit env' v (tid_of e) ?s1 = Ret ([self], s\<lparr>tl_heap := h2\<rparr>)" and
    tab2: "table h2 (tl_list s) (xs @ e # ys) (qs(tid_of e := []))" and
    t2: "h2 (data_of e) = Some (Thread (t\<lparr>th_joinedFlag := 1, th_threadCond := c1, th_exitFlag := 1,
      th_status := v, th_joinedFlag := 0, th_threadCond := c2\<rparr>))" and
    p: "h2 p1 = Some (TCond \<lparr>tc_waitFlag = 1, tc_threadID = self\<rparr>)" by auto
  have "cond_wait_blocked p1 h2 = Ret False" using p by (simp add: cond_wait_blocked_def outcome_simps)
  with j b1 x tab2 t2 p assms(2) show ?thesis
    by (intro exI [of _ ?s1] exI [of _ "s\<lparr>tl_heap := h2\<rparr>"] exI) auto
qed


text \<open>
  a thread can be joined once. While a joiner waits, a second \<open>thr_join\<close> of the same thread returns -1
  and changes nothing; joining an ID that is not in the table fails the assertion of \<open>list_find\<close>, so
  the error return of \<open>thr_join\<close> for it is never reached.
\<close>

theorem thr_join_refused:
  assumes "table (tl_heap s) (tl_list s) es qs" "mx_free (tl_mutex s)"
  shows "(e \<in> set es \<and> tl_heap s (data_of e) = Some (Thread t) \<and> th_joinedFlag t = 1 \<longrightarrow>
      thr_join_enter K env (tid_of e) want self p1 p2 s k = Ret (J_Return (-1) None (s, k))) \<and>
    (tid \<notin> tid_of ` set es \<longrightarrow> thr_join_enter K env tid want self p1 p2 s k = Panic)"
proof -
  have "thr_join_enter K env tid want self p1 p2 s k = Panic" if "tid \<notin> tid_of ` set es"
  proof -
    have "list_find (tl_list s) tid (tl_heap s) = Panic" by (rule table_unknown [OF assms(1) that])
    with assms(2) show ?thesis by (simp add: thr_join_enter_def outcome_simps del: bnd_Ret_iff)
  qed
  moreover have "thr_join_enter K env (tid_of e) want self p1 p2 s k = Ret (J_Return (-1) None (s, k))"
    if "e \<in> set es" "tl_heap s (data_of e) = Some (Thread t)" "th_joinedFlag t = 1"
    by (rule thr_join_enter_taken [OF assms that])
  ultimately show ?thesis by simp
qed

text \<open>
  C19: two joiners can meet. \<open>thr_exit\<close> clears \<open>joinedFlag\<close>, so between its wakeup and the joiner's return
  another thread may join the same ID: it finds the thread exited, takes the status and frees the
  \<open>thread_t\<close>; the first joiner then reads freed memory.
\<close>

theorem thr_join_second_joiner_frees:
  assumes "table (tl_heap s) (tl_list s) (xs @ e # ys) qs" "mx_free (tl_mutex s)"
    and "tl_heap s (data_of e) = Some (Thread t)" "th_joinedFlag t \<noteq> 1" "th_exitFlag t \<noteq> 1" "qs (tid_of e) = []"
    and "fresh (tl_heap s) p1" "fresh (tl_heap s) p2" "p1 \<noteq> p2"
    and "th_baseAddress t \<noteq> 0 \<longrightarrow> \<not> neg32 (fst (vm_remove_pages K (th_baseAddress t) k'))"
  shows "\<exists>s1 s2 s3 k3. thr_join_enter K env (tid_of e) True self p1 p2 s k = Ret (J_Wait (at e) (data_of e) p1 (s1, k)) \<and>
    thr_exit env' v (tid_of e) s1 = Ret ([self], s2) \<and>
    thr_join_enter K env2 (tid_of e) True other p3 p4 s2 k' = Ret (J_Return 0 (Some v) (s3, k3)) \<and>
    thr_join_exit K env'' True (at e) (data_of e) p1 s3 k3 = Fault"
proof -
  from join_then_exit [OF assms(1-9), of K env True self k env' v] obtain s1 s2 t2 where
    j: "thr_join_enter K env (tid_of e) True self p1 p2 s k = Ret (J_Wait (at e) (data_of e) p1 (s1, k))"
      "thr_exit env' v (tid_of e) s1 = Ret ([self], s2)" and
    s2: "table (tl_heap s2) (tl_list s2) (xs @ e # ys) (qs(tid_of e := []))" "mx_free (tl_mutex s2)"
      "tl_heap s2 (data_of e) = Some (Thread t2)" and
    t2: "th_status t2 = v" "th_exitFlag t2 = 1" "th_joinedFlag t2 = 0" "th_baseAddress t2 = th_baseAddress t" and
    p: "tl_heap s2 p1 = Some (TCond \<lparr>tc_waitFlag = 1, tc_threadID = self\<rparr>)" by blast
  let ?s = "s2\<lparr>tl_mutex := (tl_mutex s2)\<lparr>mx_lockFlag := 1\<rparr>\<rparr>"
  have e: "e \<in> set (xs @ e # ys)" by simp
  have rp: "th_baseAddress t2 \<noteq> 0 \<Longrightarrow> \<not> neg32 (fst (vm_remove_pages K (th_baseAddress t2) k'))" using assms(10) t2(4) by simp
  have "table (tl_heap ?s) (tl_list ?s) (xs @ e # ys) (qs(tid_of e := []))" "mx_held (tl_mutex ?s)"
    "tl_heap ?s (data_of e) = Some (Thread t2)" using s2 by simp_all
  from thr_join_finish_rep [OF this _ rp, of True] obtain l h k3 where
    f: "thr_join_finish K True (at e) (data_of e) ?s k' = Ret (0, Some v, s2\<lparr>tl_list := l, tl_heap := h\<rparr>, k3)" and
    gone: "h (data_of e) = None" and
    fr: "\<forall>a. a \<noteq> at e \<and> a \<noteq> data_of e \<and> a \<notin> at ` set (xs @ ys) \<longrightarrow> h a = tl_heap s2 a"
    using t2(1) mx_lock_unlock [OF s2(2)] by (cases s2) auto
  have j2: "thr_join_enter K env2 (tid_of e) True other p3 p4 s2 k' = Ret (J_Return 0 (Some v) (s2\<lparr>tl_list := l, tl_heap := h\<rparr>, k3))"
    using table_find [OF s2(1) e] s2 t2 f
    by (auto simp: thr_join_enter_def outcome_simps Let_def simp del: bnd_Ret_iff)
  have "p1 \<notin> at ` set (xs @ e # ys)"
  proof
    assume "p1 \<in> at ` set (xs @ e # ys)"
    with list_rep_node [OF tableD(1) [OF s2(1)]] p show False by fastforce
  qed
  moreover have "p1 \<noteq> data_of e" using p s2(3) by auto
  ultimately have "h p1 = Some (TCond \<lparr>tc_waitFlag = 1, tc_threadID = self\<rparr>)" using fr p by auto
  moreover have "p1 \<noteq> 0" using assms(7) by (simp add: fresh_def)
  ultimately have "thr_join_exit K env'' True (at e) (data_of e) p1 (s2\<lparr>tl_list := l, tl_heap := h\<rparr>) k3 = Fault"
    using s2(2) gone
    by (simp add: thr_join_exit_def cond_wait_exit_def thr_join_finish_def outcome_simps get_thread_def del: bnd_Ret_iff)
  with j j2 show ?thesis by blast
qed

section \<open>A small table\<close>

text \<open>The root thread 1 and a thread 2 with its stack at \<open>0xf0000000\<close>.\<close>

definition demo_thread :: "i32 \<Rightarrow> addr \<Rightarrow> thread" where
  "demo_thread tid base = \<lparr>th_threadID = tid, th_status = 0, th_baseAddress = base, th_exitFlag = 0,
     th_joinedFlag = 0, th_stack_size = 4096, th_threadCond = new_cond\<rparr>"

definition demo_thr :: thr where
  "demo_thr = \<lparr>tl_list = \<lparr>l_head = 64, l_tail = 32, l_count = 2\<rparr>,
     tl_mutex = \<lparr>mx_lockFlag = 0, mx_initializeFlag = 1\<rparr>,
     tl_malloc_mutex = \<lparr>mx_lockFlag = 0, mx_initializeFlag = 1\<rparr>,
     tl_stack_size = 4096, tl_top = 0xf0000000,
     tl_heap = (\<lambda>_. None)(16 \<mapsto> Thread (demo_thread 1 0),
       32 \<mapsto> Node \<lparr>nd_next = 0, nd_prev = 64, nd_thread_data = 16, nd_threadID = 1\<rparr>,
       48 \<mapsto> Thread (demo_thread 2 0xf0000000),
       64 \<mapsto> Node \<lparr>nd_next = 32, nd_prev = 0, nd_thread_data = 48, nd_threadID = 2\<rparr>)\<rparr>"

definition demo_k :: "(addr \<times> u32) list \<times> i32" where
  "demo_k = ([(0xf0000000, 4096)], 2)"

lemma demo_table: "table (tl_heap demo_thr) (tl_list demo_thr) ([] @ (64, 48, 2) # [(32, 16, 1)]) (\<lambda>_. [])"
  using new_cond_rep
  by (simp add: table_def apart_def thread_at_def list_rep_def demo_thr_def demo_thread_def)

lemma demo_mutex: "mx_free (tl_mutex demo_thr)"
  by (simp add: demo_thr_def mx_free_def)

theorem thr_init_ok_witness:
  "\<exists>s'. thr_init 4096 0xf0000f98 1 16 (demo_thread 9 9) 32 (demo_thr\<lparr>tl_heap := \<lambda>_. None\<rparr>) = Ret (0, s') \<and>
     table (tl_heap s') (tl_list s') [(32, 16, 1)] (\<lambda>_. [])"
  using thr_init_ok [of 4096 "demo_thr\<lparr>tl_heap := \<lambda>_. None\<rparr>" 16 32 "0xf0000f98" 1 "demo_thread 9 9"]
  by (auto simp: fresh_def)

theorem thr_init_out_of_memory_witness:
  "thr_init 4096 0xf0000f98 1 0 (demo_thread 9 9) 0 demo_thr = Panic \<and>
     (\<exists>s'. thr_init 4096 0xf0000f98 1 96 (demo_thread 9 9) 0 demo_thr = Ret (-1, s'))"
  using thr_init_out_of_memory [of 4096 "0xf0000f98" 1 "demo_thread 9 9" 0 demo_thr 96]
  by (auto simp: fresh_def demo_thr_def)

theorem thr_init_rounding_witness:
  "align_size 5000 = 8192 \<and> align_size 0xfffff001 = 0 \<and> uint (align_top 0xf1000f98) \<le> 0xf1000f98 + 8190"
proof -
  have "uint (align_top 0xf1000f98) \<le> 0xf1000f98 + 8190" "align_size 0xfffff001 = 0"
    using thr_init_rounding [of "0xfffff001" "0xf1000f98"] by simp_all
  moreover have "align_size 5000 = 8192" by (simp add: align_size_def)
  ultimately show ?thesis by simp
qed

lemma demo_find_stack:
  "find_stack demo_vm (tl_stack_size demo_thr) (tl_top demo_thr) (tl_top demo_thr) demo_k =
     Some (Some 0xeffff000, ([(0xeffff000, 4096), (0xf0000000, 4096)], 2))"
  by (simp add: demo_thr_def demo_k_def find_stack.simps demo_vm_def overlaps_def)


theorem thr_create_rollback_witness:
  "thr_create demo_vm [] 0x1000 0 80 (demo_thread 9 9) 0 demo_thr demo_k =
      Ret (-1, demo_thr\<lparr>tl_top := 0xeffff000\<rparr>, ([(0xf0000000, 4096)], 3))"
proof -
  have "vm_thread_fork demo_vm 0x1000 0 (0xeffff000 + tl_stack_size demo_thr) ([(0xeffff000, 4096), (0xf0000000, 4096)], 2) =
      (3, ([(0xeffff000, 4096), (0xf0000000, 4096)], 3))" by (simp add: demo_vm_def)
  from thr_create_rollback [OF demo_table demo_mutex _ demo_find_stack this, of 80 0 "[]" "demo_thread 9 9"]
  show ?thesis by (simp add: fresh_def demo_thr_def demo_vm_def)
qed

theorem find_stack_terminates_witness:
  "\<exists>r k'. find_stack demo_vm 4096 0xf0000000 0xf0000000 demo_k = Some (r, k')"
  using find_stack_terminates [of demo_thr demo_vm demo_k] by (auto simp: demo_thr_def)

theorem thr_create_hangs_on_huge_stacks_witness:
  "\<exists>s. thr_init 0xffffffff 0xf0000f98 1 16 (demo_thread 9 9) 32 (demo_thr\<lparr>tl_heap := \<lambda>_. None\<rparr>) = Ret (0, s) \<and>
     thr_create demo_vm [] 0x1000 0 80 (demo_thread 9 9) 96 s demo_k = Hang"
proof -
  have "\<exists>s. thr_init 0xffffffff 0xf0000f98 1 16 (demo_thread 9 9) 32 (demo_thr\<lparr>tl_heap := \<lambda>_. None\<rparr>) = Ret (0, s)"
    by (simp add: thr_init_def mutex_init_def cond_init_new list_insert_def list_create_def Let_def)
  then obtain s where s: "thr_init 0xffffffff 0xf0000f98 1 16 (demo_thread 9 9) 32 (demo_thr\<lparr>tl_heap := \<lambda>_. None\<rparr>) = Ret (0, s)"
    by blast
  have "align_top 0xf0000f98 = 0xf0002000" by (simp add: align_top_def sdiv32_def)
  with thr_create_hangs_on_huge_stacks [OF _ s, of "0x1000" demo_vm "[]" 0 80 "demo_thread 9 9" 96 demo_k] s
  show ?thesis by (auto simp: demo_vm_def)
qed


theorem thr_join_refused_witness:
  "thr_join_enter demo_vm [] 7 True 1 80 96 demo_thr demo_k = Panic"
  using thr_join_refused [OF demo_table demo_mutex, of "(64, 48, 2)" "demo_thread 2 0" demo_vm "[]" True 1 80 96 demo_k 7]
  by simp

theorem thr_join_second_joiner_frees_witness:
  "\<exists>s1 s2 s3 k3. thr_join_enter demo_vm [] 2 True 1 80 96 demo_thr demo_k = Ret (J_Wait 64 48 80 (s1, demo_k)) \<and>
     thr_exit [] 77 2 s1 = Ret ([1], s2) \<and>
     thr_join_enter demo_vm [] 2 True 3 112 128 s2 demo_k = Ret (J_Return 0 (Some 77) (s3, k3)) \<and>
     thr_join_exit demo_vm [] True 64 48 80 s3 k3 = Fault"
  using thr_join_second_joiner_frees [OF demo_table demo_mutex, of "demo_thread 2 0xf0000000" 80 96 demo_vm demo_k "[]" 1 demo_k "[]" 77 "[]" 3 112 128 "[]"]
  by (simp add: fresh_def demo_thr_def demo_thread_def demo_vm_def demo_k_def)

end
