(* ===== verification/Thread_Machine.thy ===== *)
theory Thread_Machine
  imports Thread_Lifecycle
begin

text \<open>
  Any number of threads that create, join and end one another. Every function of thread.c does its work with
  \<open>thread_list_mutex\<close> held, so a step of this machine is one critical section: \<open>thr_create\<close>,
  \<open>thr_exit\<close>, \<open>thr_join\<close> up to its end or to the while loop of \<open>cond_wait\<close>, and what \<open>thr_join\<close> does after
  that loop. (What happens inside \<open>cond_wait\<close> is the subject of \<open>Cond_Machine\<close>.) The state adds to the globals of
  thread.c and the kernel's state where each thread is, and a log of the joins that returned.

  Two disciplines of the callers are guards. A join of a thread whose joiner has been woken and not yet
  returned is left out: \<open>thr_join_second_joiner_frees\<close> shows what it does. So is a
  join of an ID that is not in the table, which panics (\<open>thr_join_refused\<close>).
\<close>

section \<open>Steps\<close>

datatype tpc = T_None | T_Run | T_Join addr addr addr bool i32 | T_Exited i32

record 'k tsys =
  ts_thr :: thr
  ts_k :: 'k
  ts_pc :: "i32 \<Rightarrow> tpc"
  ts_log :: "(i32 \<times> i32 \<times> i32 option) list" \<comment> \<open>thread joined, returned code, stored status\<close>

definition exited :: "tpc \<Rightarrow> bool" where
  "exited c = (case c of T_Exited v \<Rightarrow> True | _ \<Rightarrow> False)"

definition joins :: "(i32 \<Rightarrow> tpc) \<Rightarrow> i32 \<Rightarrow> i32 \<Rightarrow> bool" where
  "joins pc u c \<longleftrightarrow> (\<exists>n d p w. pc u = T_Join n d p w c)"

definition collected :: "(i32 \<times> i32 \<times> i32 option) list \<Rightarrow> i32 set" where
  "collected log = fst ` {x \<in> set log. fst (snd x) = 0}"

text \<open>The guard of a join of \<open>c\<close>: \<open>c\<close> is in the table, and not between its exit and its joiner's return.\<close>

definition may_join :: "'k tsys \<Rightarrow> i32 \<Rightarrow> bool" where
  "may_join s c \<longleftrightarrow> ts_pc s c \<noteq> T_None \<and> c \<notin> collected (ts_log s) \<and>
     \<not> (exited (ts_pc s c) \<and> (\<exists>u. joins (ts_pc s) u c))"

text \<open>
  In \<open>t_create\<close> the first \<open>malloc\<close> may fail (\<open>p = 0\<close>); the kernel hands out an ID once.
\<close>

inductive tstep :: "'k vm \<Rightarrow> i32 \<Rightarrow> 'k tsys \<Rightarrow> 'k tsys \<Rightarrow> bool" for K :: "'k vm" and t :: i32 where
  t_create: "\<lbrakk>ts_pc s t = T_Run; p = 0 \<or> fresh (tl_heap (ts_thr s)) p; fresh (tl_heap (ts_thr s)) p2; p \<noteq> p2;
      thr_create K [] func arg p t0 p2 (ts_thr s) (ts_k s) = Ret (rc, s1, k1);
      \<not> neg32 rc \<Longrightarrow> ts_pc s rc = T_None\<rbrakk>
    \<Longrightarrow> tstep K t s (s\<lparr>ts_thr := s1, ts_k := k1,
          ts_pc := if neg32 rc then ts_pc s else (ts_pc s)(rc := T_Run)\<rparr>)"
| t_exit: "\<lbrakk>ts_pc s t = T_Run; thr_exit [] v t (ts_thr s) = Ret (ws, s1)\<rbrakk>
    \<Longrightarrow> tstep K t s (s\<lparr>ts_thr := s1, ts_pc := (ts_pc s)(t := T_Exited v)\<rparr>)"
| t_join_wait: "\<lbrakk>ts_pc s t = T_Run; may_join s c;
      fresh (tl_heap (ts_thr s)) p1; fresh (tl_heap (ts_thr s)) p2; p1 \<noteq> p2;
      thr_join_enter K [] c want t p1 p2 (ts_thr s) (ts_k s) = Ret (J_Wait n d p (s1, k1))\<rbrakk>
    \<Longrightarrow> tstep K t s (s\<lparr>ts_thr := s1, ts_k := k1, ts_pc := (ts_pc s)(t := T_Join n d p want c)\<rparr>)"
| t_join_return: "\<lbrakk>ts_pc s t = T_Run; may_join s c;
      fresh (tl_heap (ts_thr s)) p1; fresh (tl_heap (ts_thr s)) p2; p1 \<noteq> p2;
      thr_join_enter K [] c want t p1 p2 (ts_thr s) (ts_k s) = Ret (J_Return rc st (s1, k1))\<rbrakk>
    \<Longrightarrow> tstep K t s (s\<lparr>ts_thr := s1, ts_k := k1, ts_log := (c, rc, st) # ts_log s\<rparr>)"
| t_join_done: "\<lbrakk>ts_pc s t = T_Join n d p want c; cond_wait_blocked p (tl_heap (ts_thr s)) = Ret False;
      thr_join_exit K [] want n d p (ts_thr s) (ts_k s) = Ret (rc, st, s1, k1)\<rbrakk>
    \<Longrightarrow> tstep K t s (s\<lparr>ts_thr := s1, ts_k := k1, ts_pc := (ts_pc s)(t := T_Run),
          ts_log := (c, rc, st) # ts_log s\<rparr>)"

text \<open>The start: \<open>thr_init\<close> has returned 0 in the root thread.\<close>

definition ts_start :: "'k tsys \<Rightarrow> bool" where
  "ts_start s \<longleftrightarrow> (\<exists>n a root p t0 p2 s0. 0 < n \<and> fresh (tl_heap s0) p \<and> fresh (tl_heap s0) p2 \<and> p \<noteq> p2 \<and>
     thr_init n a root p t0 p2 s0 = Ret (0, ts_thr s) \<and> ts_pc s = (\<lambda>_. T_None)(root := T_Run) \<and> ts_log s = [])"

inductive treach :: "'k vm \<Rightarrow> 'k tsys \<Rightarrow> bool" for K :: "'k vm" where
  treach_start: "ts_start s \<Longrightarrow> treach K s"
| treach_step: "treach K s \<Longrightarrow> tstep K t s s' \<Longrightarrow> treach K s'"

section \<open>The invariant\<close>

text \<open>
  What the record of a thread says: exited with its status and nobody queued, or running with nobody queued, or
  running with exactly one joiner queued, and the flags to match. \<open>Rk\<close> are the regions mapped.
\<close>

definition queued :: "(i32 \<Rightarrow> tpc) \<Rightarrow> entry \<Rightarrow> entry list \<Rightarrow> bool" where
  "queued pc e q \<longleftrightarrow> (\<exists>p2 p u w. q = [(p2, p, u)] \<and> pc u = T_Join (at e) (data_of e) p w (tid_of e))"

definition thread_inv :: "(i32 \<Rightarrow> tpc) \<Rightarrow> (addr \<times> u32) set \<Rightarrow> entry \<Rightarrow> thread \<Rightarrow> entry list \<Rightarrow> bool" where
  "thread_inv pc Rk e t q \<longleftrightarrow>
     (case pc (tid_of e) of
        T_Exited v \<Rightarrow> th_exitFlag t = 1 \<and> th_status t = v \<and> th_joinedFlag t \<noteq> 1 \<and> q = []
      | _ \<Rightarrow> th_exitFlag t \<noteq> 1 \<and>
          (th_joinedFlag t \<noteq> 1 \<and> q = [] \<or> th_joinedFlag t = 1 \<and> queued pc e q)) \<and>
     (th_baseAddress t \<noteq> 0 \<longrightarrow> th_stack_size t \<noteq> 0 \<and> (th_baseAddress t, th_stack_size t) \<in> Rk)"

definition threads_inv :: "heap \<Rightarrow> (i32 \<Rightarrow> tpc) \<Rightarrow> (addr \<times> u32) set \<Rightarrow> entry list \<Rightarrow> (i32 \<Rightarrow> entry list) \<Rightarrow> bool" where
  "threads_inv h pc Rk es qs \<longleftrightarrow>
     (\<forall>e \<in> set es. \<exists>t. h (data_of e) = Some (Thread t) \<and> thread_inv pc Rk e t (qs (tid_of e)))"

definition joiners_inv :: "heap \<Rightarrow> (i32 \<Rightarrow> tpc) \<Rightarrow> entry list \<Rightarrow> (i32 \<Rightarrow> entry list) \<Rightarrow> bool" where
  "joiners_inv h pc es qs \<longleftrightarrow>
     (\<forall>u n d p w c. pc u = T_Join n d p w c \<longrightarrow> p \<noteq> 0 \<and> (n, d, c) \<in> set es \<and>
        (exited (pc c) \<longrightarrow> h p = Some (TCond \<lparr>tc_waitFlag = 1, tc_threadID = u\<rparr>)) \<and>
        (\<not> exited (pc c) \<longrightarrow> (\<exists>p2. qs c = [(p2, p, u)]))) \<and>
     (\<forall>u u' c. joins pc u c \<longrightarrow> joins pc u' c \<longrightarrow> u = u')"

definition stack_of :: "heap \<Rightarrow> entry \<Rightarrow> addr \<times> u32" where
  "stack_of h e = (case h (data_of e) of Some (Thread t) \<Rightarrow> (th_baseAddress t, th_stack_size t) | _ \<Rightarrow> (0, 0))"

definition stacks_inv :: "heap \<Rightarrow> entry list \<Rightarrow> bool" where
  "stacks_inv h es \<longleftrightarrow> (\<forall>e \<in> set es. \<forall>f \<in> set es. e \<noteq> f \<longrightarrow> fst (stack_of h e) \<noteq> 0 \<longrightarrow> fst (stack_of h f) \<noteq> 0 \<longrightarrow>
     \<not> overlaps (stack_of h e) (stack_of h f))"

definition log_inv :: "(i32 \<Rightarrow> tpc) \<Rightarrow> (i32 \<times> i32 \<times> i32 option) list \<Rightarrow> bool" where
  "log_inv pc log \<longleftrightarrow>
     (\<forall>(c, rc, st) \<in> set log. rc = 0 \<and> (\<exists>v. pc c = T_Exited v \<and> (st = None \<or> st = Some v)) \<or> rc = -1 \<and> st = None) \<and>
     distinct (map fst (filter (\<lambda>x. fst (snd x) = 0) log))"

definition tinv :: "('k \<Rightarrow> (addr \<times> u32) set) \<Rightarrow> 'k tsys \<Rightarrow> entry list \<Rightarrow> (i32 \<Rightarrow> entry list) \<Rightarrow> bool" where
  "tinv R s es qs \<longleftrightarrow>
     table (tl_heap (ts_thr s)) (tl_list (ts_thr s)) es qs \<and> mx_free (tl_mutex (ts_thr s)) \<and>
     tid_of ` set es = {c. ts_pc s c \<noteq> T_None} - collected (ts_log s) \<and>
     threads_inv (tl_heap (ts_thr s)) (ts_pc s) (R (ts_k s)) es qs \<and>
     joiners_inv (tl_heap (ts_thr s)) (ts_pc s) es qs \<and>
     stacks_inv (tl_heap (ts_thr s)) es \<and> log_inv (ts_pc s) (ts_log s)"

section \<open>Frames\<close>

lemma table_thread:
  assumes "table h l es qs" "f \<in> set es"
  shows "\<exists>x. h (data_of f) = Some (Thread x)"
  using tableD(5) [OF assms] by (auto simp: thread_at_def)

lemma table_queue:
  assumes "table h l es qs" "e \<in> set es"
  shows "\<exists>c. queue_rep c h (qs (tid_of e))"
  using tableD(5) [OF assms] by (auto simp: thread_at_def cond_rep_def)

lemma table_tid: "table h l es qs \<Longrightarrow> e \<in> set es \<Longrightarrow> f \<in> set es \<Longrightarrow> tid_of e = tid_of f \<Longrightarrow> e = f"
  using tableD(2) by (auto simp: distinct_map inj_on_def)

text \<open>The record of a thread is in no queue, is no node, and belongs to one thread.\<close>

lemma table_thread_apart:
  assumes "table h l es qs" "f \<in> set es"
  shows "e \<in> set es \<Longrightarrow> f \<noteq> e \<Longrightarrow> data_of f \<noteq> data_of e" "e \<in> set es \<Longrightarrow> data_of f \<notin> entry_addrs (qs (tid_of e))"
    "data_of f \<notin> at ` set es"
proof -
  from table_thread [OF assms] obtain x where x: "h (data_of f) = Some (Thread x)" by blast
  show "data_of f \<noteq> data_of e" if "e \<in> set es" "f \<noteq> e"
    using tableD(3) [OF assms(1)] assms(2) that by (auto simp: distinct_map inj_on_def)
  show "data_of f \<notin> entry_addrs (qs (tid_of e))" if "e \<in> set es"
    using table_queue [OF assms(1) that] queue_rep_objects x by fastforce
  show "data_of f \<notin> at ` set es"
    using list_rep_node [OF tableD(1) [OF assms(1)]] x by fastforce
qed

text \<open>A woken joiner's record is in no queue either.\<close>

lemma table_woken_apart:
  assumes "table h l es qs" "h p = Some (TCond \<lparr>tc_waitFlag = 1, tc_threadID = u\<rparr>)"
  shows "e \<in> set es \<Longrightarrow> p \<noteq> data_of e" "e \<in> set es \<Longrightarrow> p \<notin> entry_addrs (qs (tid_of e))" "p \<notin> at ` set es"
proof -
  show "p \<noteq> data_of e" if "e \<in> set es" using table_thread [OF assms(1) that] assms(2) by auto
  show "p \<notin> entry_addrs (qs (tid_of e))" if e: "e \<in> set es"
  proof
    assume "p \<in> entry_addrs (qs (tid_of e))"
    then obtain x where x: "x \<in> set (qs (tid_of e))" "p = at x \<or> p = data_of x" by (auto simp: entry_addrs_def)
    from table_queue [OF assms(1) e] obtain c where c: "queue_rep c h (qs (tid_of e))" by blast
    from list_rep_node [OF queue_rep_list [OF c] x(1)] assms(2) x(2) have "p = data_of x" by auto
    with c x(1) assms(2) show False by (auto simp: queue_rep_def)
  qed
  show "p \<notin> at ` set es" using list_rep_node [OF tableD(1) [OF assms(1)]] assms(2) by fastforce
qed

text \<open>What a change of one thread's part of the heap leaves alone.\<close>

definition only_thread :: "heap \<Rightarrow> heap \<Rightarrow> entry \<Rightarrow> entry list \<Rightarrow> bool" where
  "only_thread h h' e q \<longleftrightarrow> (\<forall>a. a \<noteq> data_of e \<and> a \<notin> entry_addrs q \<and> h a \<noteq> None \<longrightarrow> h' a = h a)"

lemma only_thread_kept:
  assumes "table h l es qs" "e \<in> set es" "only_thread h h' e (qs (tid_of e))"
  shows "f \<in> set es \<Longrightarrow> f \<noteq> e \<Longrightarrow> h' (data_of f) = h (data_of f)"
    "h p = Some (TCond \<lparr>tc_waitFlag = 1, tc_threadID = u\<rparr>) \<Longrightarrow> h' p = h p"
proof -
  show "h' (data_of f) = h (data_of f)" if f: "f \<in> set es" "f \<noteq> e"
    using table_thread_apart(1,2) [OF assms(1) f(1) assms(2)] table_thread [OF assms(1) f(1)] f(2)
      assms(3) [unfolded only_thread_def, rule_format, of "data_of f"] by fastforce
  show "h' p = h p" if p: "h p = Some (TCond \<lparr>tc_waitFlag = 1, tc_threadID = u\<rparr>)"
    using table_woken_apart(1,2) [OF assms(1) p assms(2)] p assms(3) [unfolded only_thread_def, rule_format, of p] by simp
qed

lemma stacks_inv_cong: "stacks_inv h es \<Longrightarrow> (\<And>e. e \<in> set es \<Longrightarrow> stack_of h' e = stack_of h e) \<Longrightarrow> stacks_inv h' es"
  unfolding stacks_inv_def by simp

lemma exited_iff: "exited x \<longleftrightarrow> (\<exists>v. x = T_Exited v)"
  by (simp add: exited_def split: tpc.split)

lemma log_inv_collected: "log_inv pc log \<Longrightarrow> c \<in> collected log \<Longrightarrow> exited (pc c)"
  unfolding log_inv_def collected_def exited_iff by fastforce

lemma tinvD:
  assumes "tinv R s es qs"
  shows "table (tl_heap (ts_thr s)) (tl_list (ts_thr s)) es qs" "mx_free (tl_mutex (ts_thr s))"
    "tid_of ` set es = {c. ts_pc s c \<noteq> T_None} - collected (ts_log s)"
    "threads_inv (tl_heap (ts_thr s)) (ts_pc s) (R (ts_k s)) es qs"
    "joiners_inv (tl_heap (ts_thr s)) (ts_pc s) es qs"
    "stacks_inv (tl_heap (ts_thr s)) es" "log_inv (ts_pc s) (ts_log s)"
  using assms by (simp_all add: tinv_def)

lemma threads_invD:
  "threads_inv h pc Rk es qs \<Longrightarrow> e \<in> set es \<Longrightarrow> \<exists>t. h (data_of e) = Some (Thread t) \<and> thread_inv pc Rk e t (qs (tid_of e))"
  by (simp add: threads_inv_def)

text \<open>Threads that have not been collected have an entry.\<close>

lemma tinv_entry:
  assumes "tinv R s es qs" "ts_pc s c \<noteq> T_None" "c \<notin> collected (ts_log s)"
  shows "\<exists>e \<in> set es. tid_of e = c"
proof -
  from assms have "c \<in> tid_of ` set es" using tinvD(3) [OF assms(1)] by simp
  then show ?thesis by auto
qed

lemma tinv_running:
  assumes "tinv R s es qs" "ts_pc s t = T_Run"
  shows "\<exists>e \<in> set es. tid_of e = t"
  using tinv_entry [OF assms(1), of t] log_inv_collected [OF tinvD(7) [OF assms(1)], of t] assms(2)
  by (auto simp: exited_iff)

text \<open>The invariant of a thread only reads its own position and its joiner's.\<close>

lemma queued_other: "queued pc f q \<Longrightarrow> pc t = T_Run \<or> pc t = T_None \<Longrightarrow> queued (pc(t := y)) f q"
  unfolding queued_def by (metis fun_upd_other tpc.distinct(1,3,7))

lemma thread_inv_other:
  assumes "thread_inv pc Rk f x q" "pc t = T_Run \<or> pc t = T_None" "tid_of f \<noteq> t \<or> pc t = T_Run \<and> \<not> exited y"
  shows "thread_inv (pc(t := y)) Rk f x q"
  using assms queued_other [of pc f q t y] by (auto simp: thread_inv_def exited_def split: tpc.splits)

lemma threads_inv_change:
  assumes tab: "table h l es qs" and inv: "threads_inv h pc Rk es qs" and e: "e \<in> set es"
    and only: "only_thread h h' e (qs (tid_of e))" and pc: "pc t = T_Run"
    and t: "t = tid_of e \<or> \<not> exited y"
    and new: "h' (data_of e) = Some (Thread x)" "thread_inv (pc(t := y)) Rk e x q"
  shows "threads_inv h' (pc(t := y)) Rk es (qs(tid_of e := q))"
  unfolding threads_inv_def
proof
  fix f assume f: "f \<in> set es"
  show "\<exists>x. h' (data_of f) = Some (Thread x) \<and> thread_inv (pc(t := y)) Rk f x ((qs(tid_of e := q)) (tid_of f))"
  proof (cases "f = e")
    case True
    with new show ?thesis by simp
  next
    case False
    then have ne: "tid_of f \<noteq> tid_of e" using table_tid [OF tab f e] by metis
    from threads_invD [OF inv f] obtain z where
      z: "h (data_of f) = Some (Thread z)" "thread_inv pc Rk f z (qs (tid_of f))" by blast
    have "tid_of f \<noteq> t \<or> pc t = T_Run \<and> \<not> exited y" using t ne pc by metis
    with thread_inv_other [OF z(2), of t y] pc have "thread_inv (pc(t := y)) Rk f z (qs (tid_of f))" by blast
    with z(1) only_thread_kept(1) [OF tab e only f False] ne show ?thesis by simp
  qed
qed

lemma stacks_inv_change:
  assumes tab: "table h l es qs" and inv: "stacks_inv h es" and e: "e \<in> set es"
    and only: "only_thread h h' e (qs (tid_of e))" and same: "stack_of h' e = stack_of h e"
  shows "stacks_inv h' es"
proof (rule stacks_inv_cong [OF inv])
  fix f assume f: "f \<in> set es"
  show "stack_of h' f = stack_of h f"
    using only_thread_kept(1) [OF tab e only f] same by (cases "f = e") (simp_all add: stack_of_def)
qed

lemma log_inv_mono:
  assumes "log_inv pc log" "\<And>c v. pc c = T_Exited v \<Longrightarrow> pc' c = T_Exited v"
  shows "log_inv pc' log"
  using assms unfolding log_inv_def by fast

lemma joiners_invD:
  assumes "joiners_inv h pc es qs" "pc u = T_Join n d p w c"
  shows "p \<noteq> 0" "(n, d, c) \<in> set es"
    "exited (pc c) \<Longrightarrow> h p = Some (TCond \<lparr>tc_waitFlag = 1, tc_threadID = u\<rparr>)"
    "\<not> exited (pc c) \<Longrightarrow> \<exists>p2. qs c = [(p2, p, u)]"
    "joins pc u' c \<Longrightarrow> u' = u"
proof -
  have "joins pc u c" using assms(2) by (auto simp: joins_def)
  with assms show "p \<noteq> 0" "(n, d, c) \<in> set es"
    "exited (pc c) \<Longrightarrow> h p = Some (TCond \<lparr>tc_waitFlag = 1, tc_threadID = u\<rparr>)"
    "\<not> exited (pc c) \<Longrightarrow> \<exists>p2. qs c = [(p2, p, u)]" "joins pc u' c \<Longrightarrow> u' = u"
    unfolding joiners_inv_def by blast+
qed

section \<open>Every step keeps the invariant\<close>

text \<open>An exit wakes the joiner that was queued.\<close>

lemma joiners_inv_exit:
  assumes inv: "joiners_inv h pc es qs" and pc: "pc t = T_Run"
    and kept: "\<And>p u. h p = Some (TCond \<lparr>tc_waitFlag = 1, tc_threadID = u\<rparr>) \<Longrightarrow> h' p = h p"
    and woken: "qs t \<noteq> [] \<longrightarrow> h' (data_of (last (qs t))) = Some (TCond \<lparr>tc_waitFlag = 1, tc_threadID = tid_of (last (qs t))\<rparr>)"
  shows "joiners_inv h' (pc(t := T_Exited v)) es (qs(t := []))"
  unfolding joiners_inv_def
proof (intro conjI allI impI)
  fix u n d p w c assume "(pc(t := T_Exited v)) u = T_Join n d p w c"
  then have u: "pc u = T_Join n d p w c" by (simp split: if_splits)
  note U = joiners_invD [OF inv u]
  show "p \<noteq> 0" "(n, d, c) \<in> set es" by (rule U)+
  show "h' p = Some (TCond \<lparr>tc_waitFlag = 1, tc_threadID = u\<rparr>)" if "exited ((pc(t := T_Exited v)) c)"
  proof (cases "c = t")
    case True
    with U(4) pc woken show ?thesis by (auto simp: exited_iff)
  next
    case False
    with U(3) kept that show ?thesis by simp
  qed
  show "\<exists>p2. (qs(t := [])) c = [(p2, p, u)]" if "\<not> exited ((pc(t := T_Exited v)) c)"
    using U(4) that by (cases "c = t") (auto simp: exited_iff)
next
  fix u u' c assume "joins (pc(t := T_Exited v)) u c" "joins (pc(t := T_Exited v)) u' c"
  then have "joins pc u c" "joins pc u' c" by (auto simp: joins_def split: if_splits)
  with inv show "u = u'" unfolding joiners_inv_def by blast
qed

lemma tinv_exit:
  assumes inv: "tinv R s es qs" and pc: "ts_pc s t = T_Run"
  shows "\<exists>ws s1. thr_exit [] v t (ts_thr s) = Ret (ws, s1) \<and>
    tinv R (s\<lparr>ts_thr := s1, ts_pc := (ts_pc s)(t := T_Exited v)\<rparr>) es (qs(t := []))"
proof -
  let ?h = "tl_heap (ts_thr s)"
  let ?pc = "(ts_pc s)(t := T_Exited v)"
  note I = tinvD [OF inv]
  from tinv_running [OF inv pc] obtain e where e: "e \<in> set es" "tid_of e = t" by blast
  from threads_invD [OF I(4) e(1)] obtain x where
    x: "?h (data_of e) = Some (Thread x)" "thread_inv (ts_pc s) (R (ts_k s)) e x (qs t)" by (auto simp: e(2))
  from x(2) pc e(2) have q: "qs t = [] \<or> queued (ts_pc s) e (qs t)" by (auto simp: thread_inv_def)
  from thr_exit_rep [OF I(1,2) e(1) x(1) refl, of "[]" v] obtain c h where
    run: "thr_exit [] v t (ts_thr s) = Ret (if qs t = [] then [] else [tid_of (last (qs t))], (ts_thr s)\<lparr>tl_heap := h\<rparr>)" and
    tab: "table h (tl_list (ts_thr s)) es (qs(t := butlast (qs t)))" and
    y: "h (data_of e) = Some (Thread (x\<lparr>th_exitFlag := 1, th_status := v, th_joinedFlag := 0, th_threadCond := c\<rparr>))" and
    w: "qs t \<noteq> [] \<longrightarrow> h (data_of (last (qs t))) = Some (TCond \<lparr>tc_waitFlag = 1, tc_threadID = tid_of (last (qs t))\<rparr>)" and
    fr: "\<forall>a. a \<noteq> data_of e \<and> a \<notin> entry_addrs (qs t) \<longrightarrow> h a = ?h a" unfolding e(2) by blast
  have only: "only_thread ?h h e (qs (tid_of e))" using fr e(2) by (simp add: only_thread_def)
  have tab': "table h (tl_list (ts_thr s)) es (qs(t := []))" using tab q by (auto simp: queued_def)
  have "thread_inv ?pc (R (ts_k s)) e (x\<lparr>th_exitFlag := 1, th_status := v, th_joinedFlag := 0, th_threadCond := c\<rparr>) []"
    using x(2) e(2) by (simp add: thread_inv_def)
  from threads_inv_change [OF I(1,4) e(1) only pc _ y this]
  have "threads_inv h ?pc (R (ts_k s)) es (qs(t := []))" using e(2) by simp
  moreover have "joiners_inv h ?pc es (qs(t := []))"
    by (rule joiners_inv_exit [OF I(5) pc only_thread_kept(2) [OF I(1) e(1) only] w])
  moreover have "stacks_inv h es"
    using stacks_inv_change [OF I(1,6) e(1) only] x(1) y by (simp add: stack_of_def)
  moreover have "log_inv ?pc (ts_log s)" using pc by (intro log_inv_mono [OF I(7)]) auto
  moreover have "tid_of ` set es = {c. ?pc c \<noteq> T_None} - collected (ts_log s)" using I(3) pc by auto
  ultimately show ?thesis using run tab' I(2) by (simp add: tinv_def)
qed

text \<open>A join of a running thread that nobody has joined queues the caller.\<close>

lemma joiners_inv_wait:
  assumes inv: "joiners_inv h pc es qs" and pc: "pc t = T_Run" and e: "e \<in> set es"
    and kept: "\<And>p u. h p = Some (TCond \<lparr>tc_waitFlag = 1, tc_threadID = u\<rparr>) \<Longrightarrow> h' p = h p"
    and q: "qs (tid_of e) = []" "\<not> exited (pc (tid_of e))" and p1: "p1 \<noteq> 0"
  shows "joiners_inv h' (pc(t := T_Join (at e) (data_of e) p1 want (tid_of e))) es (qs(tid_of e := [(p2, p1, t)]))"
    (is "joiners_inv h' ?pc es ?qs")
proof -
  have ex: "exited (?pc c) = exited (pc c)" for c using pc by (simp add: exited_def)
  have none: "\<not> joins pc u (tid_of e)" for u
    using joiners_invD(4) [OF inv] q by (fastforce simp: joins_def)
  have "p \<noteq> 0 \<and> (n, d, c) \<in> set es \<and> (exited (pc c) \<longrightarrow> h' p = Some (TCond \<lparr>tc_waitFlag = 1, tc_threadID = u\<rparr>)) \<and>
      (\<not> exited (pc c) \<longrightarrow> (\<exists>p2. ?qs c = [(p2, p, u)]))" if a: "?pc u = T_Join n d p w c" for u n d p w c
  proof (cases "u = t")
    case True
    with a e p1 q(2) show ?thesis by auto
  next
    case False
    with a have u: "pc u = T_Join n d p w c" by simp
    with none [of u] have "c \<noteq> tid_of e" by (auto simp: joins_def)
    with joiners_invD(1-4) [OF inv u] kept show ?thesis by simp
  qed
  moreover have "u = u'" if j: "joins ?pc u c" "joins ?pc u' c" for u u' c
  proof -
    have old: "joins ?pc v c \<Longrightarrow> joins pc v c \<or> v = t \<and> c = tid_of e" for v by (auto simp: joins_def split: if_splits)
    from old [OF j(1)] old [OF j(2)] none inv show ?thesis unfolding joiners_inv_def by blast
  qed
  ultimately show ?thesis unfolding joiners_inv_def ex by blast
qed

lemma tinv_join_wait:
  assumes inv: "tinv R s es qs" and pc: "ts_pc s t = T_Run" and e: "e \<in> set es" "\<not> exited (ts_pc s (tid_of e))"
    and x: "tl_heap (ts_thr s) (data_of e) = Some (Thread x)" "th_joinedFlag x \<noteq> 1"
    and p: "fresh (tl_heap (ts_thr s)) p1" "fresh (tl_heap (ts_thr s)) p2" "p1 \<noteq> p2"
  shows "\<exists>s1. thr_join_enter K [] (tid_of e) want t p1 p2 (ts_thr s) (ts_k s) =
      Ret (J_Wait (at e) (data_of e) p1 (s1, ts_k s)) \<and>
    tinv R (s\<lparr>ts_thr := s1, ts_pc := (ts_pc s)(t := T_Join (at e) (data_of e) p1 want (tid_of e))\<rparr>)
      es (qs(tid_of e := [(p2, p1, t)]))"
proof -
  let ?h = "tl_heap (ts_thr s)"
  let ?pc = "(ts_pc s)(t := T_Join (at e) (data_of e) p1 want (tid_of e))"
  let ?qs = "qs(tid_of e := [(p2, p1, t)])"
  note I = tinvD [OF inv]
  have xi: "thread_inv (ts_pc s) (R (ts_k s)) e x (qs (tid_of e))" using threads_invD [OF I(4) e(1)] x(1) by auto
  with e(2) x(2) have flags: "th_exitFlag x \<noteq> 1" "qs (tid_of e) = []"
    by (auto simp: thread_inv_def exited_def split: tpc.splits)
  from thr_join_enter_waits [OF I(1,2) e(1) x flags(1) refl p, of K "[]" want t "ts_k s"] flags(2) obtain c h where
    run: "thr_join_enter K [] (tid_of e) want t p1 p2 (ts_thr s) (ts_k s) =
        Ret (J_Wait (at e) (data_of e) p1 ((ts_thr s)\<lparr>tl_heap := h\<rparr>, ts_k s))" and
    tab: "table h (tl_list (ts_thr s)) es ?qs" and
    y: "h (data_of e) = Some (Thread (x\<lparr>th_joinedFlag := 1, th_threadCond := c\<rparr>))" and
    fr: "\<forall>a. a \<noteq> data_of e \<and> a \<noteq> p1 \<and> a \<noteq> p2 \<longrightarrow> h a = ?h a" by auto
  have only: "only_thread ?h h e (qs (tid_of e))"
    using fr p unfolding only_thread_def fresh_def by metis
  have "thread_inv ?pc (R (ts_k s)) e (x\<lparr>th_joinedFlag := 1, th_threadCond := c\<rparr>) [(p2, p1, t)]"
    using xi e(2) flags by (auto simp: thread_inv_def queued_def exited_def split: tpc.splits)
  moreover have "\<not> exited (T_Join (at e) (data_of e) p1 want (tid_of e))" by (simp add: exited_def)
  ultimately have "threads_inv h ?pc (R (ts_k s)) es ?qs"
    using threads_inv_change [OF I(1,4) e(1) only pc _ y] by blast
  moreover have "joiners_inv h ?pc es ?qs"
    using joiners_inv_wait [OF I(5) pc e(1) only_thread_kept(2) [OF I(1) e(1) only] flags(2) e(2)] p(1)
    by (simp add: fresh_def)
  moreover have "stacks_inv h es"
    using stacks_inv_change [OF I(1,6) e(1) only] x(1) y by (simp add: stack_of_def)
  moreover have "log_inv ?pc (ts_log s)" using pc by (intro log_inv_mono [OF I(7)]) auto
  moreover have "tid_of ` set es = {c. ?pc c \<noteq> T_None} - collected (ts_log s)" using I(3) pc by auto
  ultimately show ?thesis using run tab I(2) by (simp add: tinv_def)
qed

text \<open>A second join of it is refused.\<close>

lemma log_inv_refused: "log_inv pc log \<Longrightarrow> log_inv pc ((c, -1, None) # log)"
  by (simp add: log_inv_def)

lemma collected_simps [simp]:
  "collected [] = {}" "collected ((c, 0, st) # log) = insert c (collected log)"
  "collected ((c, -1, st) # log) = collected log"
  by (force simp: collected_def)+

lemma tinv_join_refused:
  assumes inv: "tinv R s es qs" and e: "e \<in> set es"
    and x: "tl_heap (ts_thr s) (data_of e) = Some (Thread x)" "th_joinedFlag x = 1"
  shows "thr_join_enter K [] (tid_of e) want t p1 p2 (ts_thr s) (ts_k s) = Ret (J_Return (-1) None (ts_thr s, ts_k s)) \<and>
    tinv R (s\<lparr>ts_log := (tid_of e, -1, None) # ts_log s\<rparr>) es qs"
  using thr_join_enter_taken [OF tinvD(1,2) [OF inv] e x] inv log_inv_refused
  by (simp add: tinv_def)

text \<open>A join that collects the thread of \<open>e\<close>. \<open>D\<close> holds the record the joiner had waited with, if it had.\<close>

lemma overlaps_same: "n \<noteq> 0 \<Longrightarrow> m \<noteq> 0 \<Longrightarrow> overlaps (a, n) (a, m)"
  using uint_0_iff [of n] uint_0_iff [of m] unsigned_greater_eq [of n] unsigned_greater_eq [of m]
  by (simp add: overlaps_def order_less_le)

lemma stacks_inv_base:
  assumes "stacks_inv h es" "e \<in> set es" "f \<in> set es" "e \<noteq> f"
    and "h (data_of e) = Some (Thread x)" "thread_inv pc Rk e x q" "th_baseAddress x \<noteq> 0"
    and "h (data_of f) = Some (Thread z)" "thread_inv pc Rk f z q'" "th_baseAddress z \<noteq> 0"
  shows "th_baseAddress z \<noteq> th_baseAddress x"
proof
  assume eq: "th_baseAddress z = th_baseAddress x"
  have "\<not> overlaps (stack_of h e) (stack_of h f)"
    using assms(1) [unfolded stacks_inv_def, rule_format, OF assms(2-4)] assms(5,7,8,10) by (simp add: stack_of_def)
  moreover have "th_stack_size x \<noteq> 0" "th_stack_size z \<noteq> 0" using assms by (simp_all add: thread_inv_def)
  ultimately show False using assms(5,8) eq overlaps_same by (simp add: stack_of_def)
qed

lemma log_inv_collect:
  assumes "log_inv pc log" "pc c = T_Exited v" "c \<notin> collected log" "st = None \<or> st = Some v"
  shows "log_inv pc ((c, 0, st) # log)"
  using assms by (auto simp: log_inv_def collected_def)

lemma table_split_out: "table h l (xs @ e # ys) qs \<Longrightarrow> f \<in> set (xs @ ys) \<Longrightarrow> f \<in> set (xs @ e # ys) \<and> f \<noteq> e \<and> tid_of f \<noteq> tid_of e"
  using tableD(2) [of h l "xs @ e # ys" qs] by (auto simp: image_iff)

lemma joiners_inv_collect:
  assumes inv: "joiners_inv h pc (xs @ e # ys) qs"
    and t: "pc t = T_Run \<or> (\<exists>n d p w. pc t = T_Join n d p w (tid_of e))"
    and only: "\<And>u. joins pc u (tid_of e) \<Longrightarrow> u = t"
    and kept: "\<And>p u. h p = Some (TCond \<lparr>tc_waitFlag = 1, tc_threadID = u\<rparr>) \<Longrightarrow> u \<noteq> t \<Longrightarrow> h' p = h p"
  shows "joiners_inv h' (pc(t := T_Run)) (xs @ ys) qs"
  unfolding joiners_inv_def
proof (intro conjI allI impI)
  fix u n d p w c assume "(pc(t := T_Run)) u = T_Join n d p w c"
  then have u: "pc u = T_Join n d p w c" "u \<noteq> t" by (simp_all split: if_splits)
  then have c: "c \<noteq> tid_of e" using only [of u] by (auto simp: joins_def)
  have ex: "exited ((pc(t := T_Run)) c) = exited (pc c)" using t by (auto simp: exited_def)
  note U = joiners_invD [OF inv u(1)]
  show "p \<noteq> 0" by (rule U)
  show "(n, d, c) \<in> set (xs @ ys)" using U(2) c by auto
  show "h' p = Some (TCond \<lparr>tc_waitFlag = 1, tc_threadID = u\<rparr>)" if "exited ((pc(t := T_Run)) c)"
    using U(3) kept u(2) that ex by simp
  show "\<exists>p2. qs c = [(p2, p, u)]" if "\<not> exited ((pc(t := T_Run)) c)" using U(4) that ex by simp
next
  fix u u' c assume "joins (pc(t := T_Run)) u c" "joins (pc(t := T_Run)) u' c"
  then have "joins pc u c" "joins pc u' c" by (auto simp: joins_def split: if_splits)
  with inv show "u = u'" unfolding joiners_inv_def by blast
qed

lemma thread_inv_collect:
  assumes inv: "thread_inv pc Rk f x q" and ne: "tid_of f \<noteq> tid_of e"
    and t: "pc t = T_Run \<or> (\<exists>n d p w. pc t = T_Join n d p w (tid_of e))"
    and R: "\<And>r. r \<in> Rk \<Longrightarrow> r = (th_baseAddress x, th_stack_size x) \<Longrightarrow> fst r \<noteq> 0 \<Longrightarrow> r \<in> Rk'"
  shows "thread_inv (pc(t := T_Run)) Rk' f x q"
proof -
  have "queued (pc(t := T_Run)) f q" if a: "queued pc f q"
  proof -
    from a obtain p2 p u w where u: "q = [(p2, p, u)]" "pc u = T_Join (at f) (data_of f) p w (tid_of f)"
      unfolding queued_def by blast
    with t ne have "u \<noteq> t" by auto
    with u show ?thesis unfolding queued_def by auto
  qed
  with inv t R show ?thesis by (auto simp: thread_inv_def split: tpc.splits)
qed

lemma tinv_collect:
  assumes inv: "tinv R s (xs @ e # ys) qs" and ex: "ts_pc s (tid_of e) = T_Exited v"
    and x: "tl_heap (ts_thr s) (data_of e) = Some (Thread x)"
    and t: "ts_pc s t = T_Run \<or> (\<exists>n d p w. ts_pc s t = T_Join n d p w (tid_of e))"
    and noj: "\<And>u. joins (ts_pc s) u (tid_of e) \<Longrightarrow> u = t"
    and tab: "table h l (xs @ ys) qs"
    and fr: "\<forall>a. a \<noteq> at e \<and> a \<noteq> data_of e \<and> a \<notin> D \<and> a \<notin> at ` set (xs @ ys) \<longrightarrow> h a = tl_heap (ts_thr s) a"
    and D: "\<And>a. a \<in> D \<Longrightarrow> tl_heap (ts_thr s) a = Some (TCond \<lparr>tc_waitFlag = 1, tc_threadID = t\<rparr>)"
    and k: "\<And>r. r \<in> R (ts_k s) \<Longrightarrow> th_baseAddress x = 0 \<or> fst r \<noteq> th_baseAddress x \<Longrightarrow> r \<in> R k1"
    and st: "st = None \<or> st = Some v"
  shows "tinv R (s\<lparr>ts_thr := (ts_thr s)\<lparr>tl_list := l, tl_heap := h\<rparr>, ts_k := k1, ts_pc := (ts_pc s)(t := T_Run),
      ts_log := (tid_of e, 0, st) # ts_log s\<rparr>) (xs @ ys) qs"
proof -
  let ?h = "tl_heap (ts_thr s)"
  let ?pc = "(ts_pc s)(t := T_Run)"
  note I = tinvD [OF inv]
  have e: "e \<in> set (xs @ e # ys)" by simp
  note out = table_split_out [OF I(1)]
  have data: "h (data_of f) = ?h (data_of f)" if f: "f \<in> set (xs @ ys)" for f
  proof -
    from out [OF f] have F: "f \<in> set (xs @ e # ys)" "f \<noteq> e" by blast+
    note A = table_thread_apart [OF I(1) F(1)]
    have "data_of f \<notin> D"
      using D [of "data_of f"] table_thread [OF I(1) F(1)] by auto
    with fr [rule_format, of "data_of f"] A(1) [OF e F(2)] A(3) show ?thesis by auto
  qed
  have threads: "threads_inv h ?pc (R k1) (xs @ ys) qs"
    unfolding threads_inv_def
  proof
    fix f assume f: "f \<in> set (xs @ ys)"
    note F = out [OF f]
    from threads_invD [OF I(4), of f] F obtain z where
      z: "?h (data_of f) = Some (Thread z)" "thread_inv (ts_pc s) (R (ts_k s)) f z (qs (tid_of f))" by blast
    from threads_invD [OF I(4) e] x have xi: "thread_inv (ts_pc s) (R (ts_k s)) e x (qs (tid_of e))" by auto
    have "r \<in> R k1" if r: "r \<in> R (ts_k s)" "r = (th_baseAddress z, th_stack_size z)" "fst r \<noteq> 0" for r
    proof (rule k [OF r(1)])
      have "th_baseAddress z \<noteq> th_baseAddress x" if "th_baseAddress x \<noteq> 0"
        using stacks_inv_base [OF I(6) e _ _ x xi that z] F r(2,3) by auto
      with r(2) show "th_baseAddress x = 0 \<or> fst r \<noteq> th_baseAddress x" by auto
    qed
    from thread_inv_collect [OF z(2) _ t this] F have "thread_inv ?pc (R k1) f z (qs (tid_of f))" by blast
    with z(1) data [OF f] show "\<exists>z. h (data_of f) = Some (Thread z) \<and> thread_inv ?pc (R k1) f z (qs (tid_of f))"
      by simp
  qed
  have kept: "h p = ?h p" if p: "?h p = Some (TCond \<lparr>tc_waitFlag = 1, tc_threadID = u\<rparr>)" "u \<noteq> t" for p u
  proof -
    note A = table_woken_apart [OF I(1) p(1)]
    have "p \<notin> D" using D [of p] p by auto
    with fr [rule_format, of p] A(1) [OF e] A(3) show ?thesis by auto
  qed
  have joiners: "joiners_inv h ?pc (xs @ ys) qs" by (rule joiners_inv_collect [OF I(5) t noj kept])
  have "stack_of h f = stack_of ?h f" if "f \<in> set (xs @ ys)" for f using data [OF that] by (simp add: stack_of_def)
  then have stacks: "stacks_inv h (xs @ ys)" using I(6) out unfolding stacks_inv_def by simp
  have "tid_of e \<notin> collected (ts_log s)" using I(3) e by auto
  then have log: "log_inv ?pc ((tid_of e, 0, st) # ts_log s)"
    using t ex st by (intro log_inv_mono [OF log_inv_collect [OF I(7) ex]]) auto
  have "tid_of ` set (xs @ ys) = tid_of ` set (xs @ e # ys) - {tid_of e}" using out by auto
  then have "tid_of ` set (xs @ ys) = {c. ?pc c \<noteq> T_None} - collected ((tid_of e, 0, st) # ts_log s)"
    using I(3) t by auto
  with tab I(2) threads joiners stacks log show ?thesis by (simp add: tinv_def)
qed

lemma tinv_remove_ok:
  assumes K: "vm_ok K R" and inv: "tinv R s es qs" and e: "e \<in> set es" "tl_heap (ts_thr s) (data_of e) = Some (Thread x)"
  shows "th_baseAddress x \<noteq> 0 \<Longrightarrow> \<not> neg32 (fst (vm_remove_pages K (th_baseAddress x) (ts_k s)))"
  using threads_invD [OF tinvD(4) [OF inv] e(1)] e(2) vm_okD(4) [OF K] by (auto simp: thread_inv_def)

lemma tinv_join_collect:
  assumes K: "vm_ok K R" and inv: "tinv R s es qs" and pc: "ts_pc s t = T_Run"
    and e: "e \<in> set es" "ts_pc s (tid_of e) = T_Exited v" "\<not> (\<exists>u. joins (ts_pc s) u (tid_of e))"
  shows "\<exists>s1 k1 es' st. thr_join_enter K [] (tid_of e) want t p1 p2 (ts_thr s) (ts_k s) = Ret (J_Return 0 st (s1, k1)) \<and>
    tinv R (s\<lparr>ts_thr := s1, ts_k := k1, ts_log := (tid_of e, 0, st) # ts_log s\<rparr>) es' qs"
proof -
  note I = tinvD [OF inv]
  obtain xs ys where es: "es = xs @ e # ys" using split_list [OF e(1)] by blast
  from threads_invD [OF I(4) e(1)] obtain x where
    x: "tl_heap (ts_thr s) (data_of e) = Some (Thread x)" "thread_inv (ts_pc s) (R (ts_k s)) e x (qs (tid_of e))" by blast
  let ?k1 = "if th_baseAddress x \<noteq> 0 then snd (vm_remove_pages K (th_baseAddress x) (ts_k s)) else ts_k s"
  from x(2) e(2) have X: "th_joinedFlag x \<noteq> 1" "th_exitFlag x = 1" "th_status x = v" "qs (tid_of e) = []"
    by (simp_all add: thread_inv_def)
  from thr_join_enter_exited [OF I(1) [unfolded es] I(2) x(1) X(1,2,4) tinv_remove_ok [OF K inv e(1) x(1)],
      of "[]" want t p1 p2] obtain l h where
    run: "thr_join_enter K [] (tid_of e) want t p1 p2 (ts_thr s) (ts_k s) =
        Ret (J_Return 0 (if want then Some v else None) ((ts_thr s)\<lparr>tl_list := l, tl_heap := h\<rparr>, ?k1))" and
    tab: "table h l (xs @ ys) qs" and
    fr: "\<forall>a. a \<noteq> at e \<and> a \<noteq> data_of e \<and> a \<notin> {} \<and> a \<notin> at ` set (xs @ ys) \<longrightarrow> h a = tl_heap (ts_thr s) a"
    using X(3) by auto
  have "tinv R (s\<lparr>ts_thr := (ts_thr s)\<lparr>tl_list := l, tl_heap := h\<rparr>, ts_k := ?k1, ts_pc := (ts_pc s)(t := T_Run),
      ts_log := (tid_of e, 0, if want then Some v else None) # ts_log s\<rparr>) (xs @ ys) qs"
  proof (rule tinv_collect [OF inv [unfolded es] e(2) x(1) _ _ tab fr])
    show "r \<in> R ?k1" if "r \<in> R (ts_k s)" "th_baseAddress x = 0 \<or> fst r \<noteq> th_baseAddress x" for r
      using that vm_okD(3) [OF K] by auto
  qed (use pc e(3) in auto)
  moreover have "(ts_pc s)(t := T_Run) = ts_pc s" using pc by (simp add: fun_upd_idem)
  ultimately have "tinv R (s\<lparr>ts_thr := (ts_thr s)\<lparr>tl_list := l, tl_heap := h\<rparr>, ts_k := ?k1,
      ts_log := (tid_of e, 0, if want then Some v else None) # ts_log s\<rparr>) (xs @ ys) qs" by simp
  with run show ?thesis by blast
qed

lemma tinv_join_done:
  assumes K: "vm_ok K R" and inv: "tinv R s es qs" and pc: "ts_pc s t = T_Join n d p want c" "ts_pc s c = T_Exited v"
  shows "\<exists>s1 k1 es'. thr_join_exit K [] want n d p (ts_thr s) (ts_k s) = Ret (0, if want then Some v else None, s1, k1) \<and>
    tinv R (s\<lparr>ts_thr := s1, ts_k := k1, ts_pc := (ts_pc s)(t := T_Run),
      ts_log := (c, 0, if want then Some v else None) # ts_log s\<rparr>) es' qs"
proof -
  note I = tinvD [OF inv]
  note J = joiners_invD [OF I(5) pc(1)]
  let ?e = "(n, d, c)"
  have P: "tl_heap (ts_thr s) p = Some (TCond \<lparr>tc_waitFlag = 1, tc_threadID = t\<rparr>)" using J(3) pc(2) by (simp add: exited_def)
  obtain xs ys where es: "es = xs @ ?e # ys" using split_list [OF J(2)] by blast
  from threads_invD [OF I(4) J(2)] obtain x where
    x: "tl_heap (ts_thr s) (data_of ?e) = Some (Thread x)" "thread_inv (ts_pc s) (R (ts_k s)) ?e x (qs (tid_of ?e))" by blast
  let ?k1 = "if th_baseAddress x \<noteq> 0 then snd (vm_remove_pages K (th_baseAddress x) (ts_k s)) else ts_k s"
  from x(2) pc(2) have X: "th_status x = v" "qs (tid_of ?e) = []" by (simp_all add: thread_inv_def)
  from thr_join_exit_rep [OF I(1) [unfolded es] I(2) x(1) X(2) P _ J(1) tinv_remove_ok [OF K inv J(2) x(1)],
      of "[]" want] obtain l h where
    run: "thr_join_exit K [] want n d p (ts_thr s) (ts_k s) =
        Ret (0, if want then Some v else None, (ts_thr s)\<lparr>tl_list := l, tl_heap := h\<rparr>, ?k1)" and
    tab: "table h l (xs @ ys) qs" and
    fr: "\<forall>a. a \<noteq> at ?e \<and> a \<noteq> data_of ?e \<and> a \<notin> {p} \<and> a \<notin> at ` set (xs @ ys) \<longrightarrow> h a = tl_heap (ts_thr s) a"
    using X(1) by auto
  have ex: "ts_pc s (tid_of ?e) = T_Exited v" using pc(2) by simp
  have "tinv R (s\<lparr>ts_thr := (ts_thr s)\<lparr>tl_list := l, tl_heap := h\<rparr>, ts_k := ?k1, ts_pc := (ts_pc s)(t := T_Run),
      ts_log := (tid_of ?e, 0, if want then Some v else None) # ts_log s\<rparr>) (xs @ ys) qs"
  proof (rule tinv_collect [OF inv [unfolded es] ex x(1) _ _ tab fr])
    show "r \<in> R ?k1" if "r \<in> R (ts_k s)" "th_baseAddress x = 0 \<or> fst r \<noteq> th_baseAddress x" for r
      using that vm_okD(3) [OF K] by auto
    show "u = t" if "joins (ts_pc s) u (tid_of ?e)" for u using J(5) that by simp
  qed (use pc P in auto)
  with run show ?thesis by auto
qed

text \<open>The search for stack memory maps one region that meets no other, or none.\<close>

lemma find_stack_regions:
  fixes K :: "'k vm"
  assumes K: "vm_ok K R" and run: "find_stack K len start a k = Some (r, k')"
  shows "case r of None \<Rightarrow> R k' = R k
    | Some b \<Rightarrow> len \<noteq> 0 \<and> (\<forall>q \<in> R k. \<not> overlaps (b, len) q) \<and> R k' = insert (b, len) (R k)"
proof -
  let ?Q = "\<lambda>(len :: u32) (k :: 'k) (r, k'). case r of None \<Rightarrow> R k' = R k
    | Some b \<Rightarrow> len \<noteq> 0 \<and> (\<forall>q \<in> R k. \<not> overlaps (b, len) q) \<and> R k' = insert (b, len) (R k)"
  let ?P = "\<lambda>(K' :: 'k vm) (len :: u32) (s :: addr) (a :: addr) (k :: 'k) (r :: addr option \<times> 'k).
    K' = K \<longrightarrow> ?Q len k r"
  have "?P K len start a k (r, k')"
  proof (rule find_stack.raw_induct [where P = ?P, OF _ run])
    fix f K' len s a k r
    assume ih: "\<And>K' len s a k r. f K' len s a k = Some r \<Longrightarrow> ?P K' len s a k r"
      and eq: "(case vm_new_pages K' a len k of (rc, k) \<Rightarrow>
        if neg32 rc then (let a = a - len in if a < s - 2013255622 then Some (None, k) else f K' len s a k)
        else Some (Some a, k)) = Some r"
    show "?P K' len s a k r"
    proof
      assume [simp]: "K' = K"
      obtain rc k1 where np: "vm_new_pages K a len k = (rc, k1)" by fastforce
      show "?Q len k r"
      proof (cases "neg32 rc")
        case True
        then have same: "R k1 = R k" using vm_okD(1) [OF K, of a len k] np by simp
        show ?thesis
        proof (cases "a - len < s - 2013255622")
          case True
          with eq np \<open>neg32 rc\<close> same show ?thesis by (auto simp: Let_def)
        next
          case False
          with eq np True have "f K len s (a - len) k1 = Some r" by (simp add: Let_def)
          from ih [OF this] show ?thesis unfolding same by simp
        qed
      next
        case False
        then show ?thesis using vm_okD(2) [OF K, of a len k] eq np by auto
      qed
    qed
  qed
  then show ?thesis by simp
qed

lemma overlaps_sym: "overlaps r q \<longleftrightarrow> overlaps q r"
  by (auto simp: overlaps_def)

text \<open>Only the kernel and the start of the search changed, and every stack is still mapped.\<close>

lemma tinv_kernel:
  assumes inv: "tinv R s es qs" and k: "\<And>r. r \<in> R (ts_k s) \<Longrightarrow> snd r \<noteq> 0 \<Longrightarrow> r \<in> R k1"
  shows "tinv R (s\<lparr>ts_thr := (ts_thr s)\<lparr>tl_top := a\<rparr>, ts_k := k1\<rparr>) es qs"
proof -
  note I = tinvD [OF inv]
  have "thread_inv (ts_pc s) (R k1) e x q" if "thread_inv (ts_pc s) (R (ts_k s)) e x q" for e x q
    using that k unfolding thread_inv_def by auto
  then have "threads_inv (tl_heap (ts_thr s)) (ts_pc s) (R k1) es qs"
    using I(4) unfolding threads_inv_def by blast
  with inv show ?thesis by (simp add: tinv_def)
qed

lemma joiners_inv_create:
  assumes inv: "joiners_inv h pc es qs" and pc: "pc c = T_None" and new: "\<And>e. e \<in> set es \<Longrightarrow> tid_of e \<noteq> c"
    and kept: "\<And>p u. h p = Some (TCond \<lparr>tc_waitFlag = 1, tc_threadID = u\<rparr>) \<Longrightarrow> h' p = h p"
  shows "joiners_inv h' (pc(c := T_Run)) (e # es) (qs(c := []))"
  unfolding joiners_inv_def
proof (intro conjI allI impI)
  fix u n d p w c' assume "(pc(c := T_Run)) u = T_Join n d p w c'"
  then have u: "pc u = T_Join n d p w c'" by (simp split: if_splits)
  note U = joiners_invD [OF inv u]
  have ne: "c' \<noteq> c" using new [OF U(2)] by simp
  show "p \<noteq> 0" by (rule U)
  show "(n, d, c') \<in> set (e # es)" using U(2) by simp
  show "h' p = Some (TCond \<lparr>tc_waitFlag = 1, tc_threadID = u\<rparr>)" if "exited ((pc(c := T_Run)) c')"
    using U(3) kept that ne by simp
  show "\<exists>p2. (qs(c := [])) c' = [(p2, p, u)]" if "\<not> exited ((pc(c := T_Run)) c')" using U(4) that ne by simp
next
  fix u u' c' assume "joins (pc(c := T_Run)) u c'" "joins (pc(c := T_Run)) u' c'"
  then have "joins pc u c'" "joins pc u' c'" by (auto simp: joins_def split: if_splits)
  with inv show "u = u'" unfolding joiners_inv_def by blast
qed

lemma tinv_created:
  assumes K: "vm_ok K R" and inv: "tinv R s es qs" and pc: "ts_pc s c = T_None"
    and tab: "table h l ((p2, p, c) # es) (qs(c := []))"
    and p: "fresh (tl_heap (ts_thr s)) p" "fresh (tl_heap (ts_thr s)) p2"
    and fr: "\<forall>b. b \<noteq> p \<and> b \<noteq> p2 \<and> b \<notin> at ` set es \<longrightarrow> h b = tl_heap (ts_thr s) b"
    and x: "h p = Some (Thread x)" "th_exitFlag x = 0" "th_joinedFlag x = 0" "th_baseAddress x = a" "th_stack_size x = n"
    and n: "n \<noteq> 0" "\<forall>q \<in> R (ts_k s). \<not> overlaps (a, n) q" "R k1 = insert (a, n) (R (ts_k s))"
  shows "tinv R (s\<lparr>ts_thr := (ts_thr s)\<lparr>tl_top := a, tl_list := l, tl_heap := h\<rparr>, ts_k := k1,
      ts_pc := (ts_pc s)(c := T_Run)\<rparr>) ((p2, p, c) # es) (qs(c := []))"
proof -
  let ?h = "tl_heap (ts_thr s)"
  let ?pc = "(ts_pc s)(c := T_Run)"
  note I = tinvD [OF inv]
  have tid: "tid_of f \<noteq> c" if "f \<in> set es" for f
    using I(3) pc imageI [OF that, of tid_of] by auto
  have data: "h (data_of f) = ?h (data_of f)" if f: "f \<in> set es" for f
  proof -
    from table_thread [OF I(1) f] p have "data_of f \<noteq> p" "data_of f \<noteq> p2" by (auto simp: fresh_def)
    with fr [rule_format, of "data_of f"] table_thread_apart(3) [OF I(1) f] show ?thesis by blast
  qed
  have kept: "h b = ?h b" if b: "?h b = Some (TCond \<lparr>tc_waitFlag = 1, tc_threadID = u\<rparr>)" for b u
  proof -
    from b p have "b \<noteq> p" "b \<noteq> p2" by (auto simp: fresh_def)
    with fr [rule_format, of b] table_woken_apart(3) [OF I(1) b] show ?thesis by blast
  qed
  have "threads_inv h ?pc (R k1) ((p2, p, c) # es) (qs(c := []))"
    unfolding threads_inv_def
  proof
    fix f assume f: "f \<in> set ((p2, p, c) # es)"
    show "\<exists>z. h (data_of f) = Some (Thread z) \<and> thread_inv ?pc (R k1) f z ((qs(c := [])) (tid_of f))"
    proof (cases "f \<in> set es")
      case True
      from threads_invD [OF I(4) True] obtain z where
        z: "?h (data_of f) = Some (Thread z)" "thread_inv (ts_pc s) (R (ts_k s)) f z (qs (tid_of f))" by blast
      have "thread_inv ?pc (R (ts_k s)) f z (qs (tid_of f))" using thread_inv_other [OF z(2)] pc tid [OF True] by blast
      then have "thread_inv ?pc (R k1) f z (qs (tid_of f))" using n(3) by (auto simp: thread_inv_def)
      with z(1) data [OF True] tid [OF True] show ?thesis by simp
    next
      case False
      with f x n show ?thesis by (simp add: thread_inv_def)
    qed
  qed
  moreover have "joiners_inv h ?pc ((p2, p, c) # es) (qs(c := []))"
    by (rule joiners_inv_create [OF I(5) pc tid kept])
  moreover have "stacks_inv h ((p2, p, c) # es)"
  proof -
    have old: "\<not> overlaps (a, n) (stack_of h f)" if "f \<in> set es" "fst (stack_of h f) \<noteq> 0" for f
      using threads_invD [OF I(4) that(1)] data [OF that(1)] that(2) n(2) by (auto simp: stack_of_def thread_inv_def)
    have new: "stack_of h (p2, p, c) = (a, n)" using x by (simp add: stack_of_def)
    have "stacks_inv h es" using data by (intro stacks_inv_cong [OF I(6)]) (simp add: stack_of_def)
    with old new overlaps_sym show ?thesis unfolding stacks_inv_def by simp
  qed
  moreover have "log_inv ?pc (ts_log s)" using pc by (intro log_inv_mono [OF I(7)]) auto
  moreover have "c \<notin> collected (ts_log s)" using log_inv_collected [OF I(7), of c] pc by (auto simp: exited_iff)
  then have "tid_of ` set ((p2, p, c) # es) = {c. ?pc c \<noteq> T_None} - collected (ts_log s)"
    using I(3) pc by auto
  ultimately show ?thesis using tab I(2) by (simp add: tinv_def)
qed

text \<open>A call of \<open>thr_create\<close> either fails, with every stack still mapped, or has passed every step.\<close>

lemma thr_create_outcome:
  assumes K: "vm_ok K R" and tab: "table (tl_heap s) (tl_list s) es qs" and m: "mx_free (tl_mutex s)"
    and p: "p = 0 \<or> fresh (tl_heap s) p" "fresh (tl_heap s) p2" "p \<noteq> p2"
    and run: "thr_create K [] func arg p t0 p2 s k = Ret (rc, s1, k1)"
  shows "rc = -1 \<and> (\<exists>a. s1 = s\<lparr>tl_top := a\<rparr>) \<and> (\<forall>r \<in> R k. snd r \<noteq> 0 \<longrightarrow> r \<in> R k1) \<or>
    (\<exists>a k2. func \<noteq> 0 \<and> p \<noteq> 0 \<and> find_stack K (tl_stack_size s) (tl_top s) (tl_top s) k = Some (Some a, k2) \<and>
       vm_thread_fork K func arg (a + tl_stack_size s) k2 = (rc, k1) \<and> \<not> neg32 rc)"
proof -
  let ?find = "find_stack K (tl_stack_size s) (tl_top s) (tl_top s) k"
  consider "func = 0" | "?find = None" "func \<noteq> 0" | k2 where "?find = Some (None, k2)" "func \<noteq> 0"
    | a k2 where "?find = Some (Some a, k2)" "func \<noteq> 0" by (cases ?find) fastforce+
  then show ?thesis
  proof cases
    case 1
    have "s\<lparr>tl_top := tl_top s\<rparr> = s" by simp
    with thr_create_early(1) [OF m, of K "[]" arg p t0 p2 k] run 1 show ?thesis by (auto intro: exI [of _ "tl_top s"])
  next
    case 2
    with run m show ?thesis by (simp add: thr_create_def outcome_simps Let_def)
  next
    case (3 k2)
    have "s\<lparr>tl_top := tl_top s\<rparr> = s" by simp
    with thr_create_early(2) [OF m 3(2,1)] run find_stack_regions [OF K 3(1)] show ?thesis
      by (auto intro: exI [of _ "tl_top s"])
  next
    case (4 a k2)
    note reg = find_stack_regions [OF K 4(1), simplified]
    obtain c k3 where fork: "vm_thread_fork K func arg (a + tl_stack_size s) k2 = (c, k3)" by fastforce
    have k3: "R k3 = R k2" using vm_okD(5) [OF K, of func arg _ k2] fork by (metis snd_conv)
    consider "p = 0" | "fresh (tl_heap s) p" "neg32 c" | "fresh (tl_heap s) p" "\<not> neg32 c" using p(1) by blast
    then show ?thesis
    proof cases
      case 1
      with thr_create_early(3) [OF m 4(2,1)] run reg show ?thesis by auto
    next
      case 2
      have "r \<in> R (snd (vm_remove_pages K a k3))" if "r \<in> R k" "snd r \<noteq> 0" for r
        using that reg k3 vm_okD(3) [OF K] overlaps_same [of "tl_stack_size s" "snd r" a] by (cases r) auto
      with thr_create_undone [OF tab m 4(2,1) fork 2(1) disjI1 [OF 2(2)]] run show ?thesis by auto
    next
      case 3
      from thr_create_returns [OF tab m 4(2,1) fork 3(2,1) p(2,3), of "[]" t0] run have "rc = c \<and> k1 = k3" by auto
      with 4 fork 3 show ?thesis by (auto simp: fresh_def)
    qed
  qed
qed

lemma tinv_create:
  assumes K: "vm_ok K R" and inv: "tinv R s es qs"
    and p: "p = 0 \<or> fresh (tl_heap (ts_thr s)) p" "fresh (tl_heap (ts_thr s)) p2" "p \<noteq> p2"
    and run: "thr_create K [] func arg p t0 p2 (ts_thr s) (ts_k s) = Ret (rc, s1, k1)"
    and new: "\<not> neg32 rc \<Longrightarrow> ts_pc s rc = T_None"
  shows "\<exists>es' qs'. tinv R (s\<lparr>ts_thr := s1, ts_k := k1,
    ts_pc := if neg32 rc then ts_pc s else (ts_pc s)(rc := T_Run)\<rparr>) es' qs'"
  using thr_create_outcome [OF K tinvD(1,2) [OF inv] p run]
proof (elim disjE exE conjE)
  fix a assume "rc = -1" "s1 = (ts_thr s)\<lparr>tl_top := a\<rparr>" "\<forall>r \<in> R (ts_k s). snd r \<noteq> 0 \<longrightarrow> r \<in> R k1"
  with tinv_kernel [OF inv, of k1 a] show ?thesis by auto
next
  fix a k2
  assume func: "func \<noteq> 0" "p \<noteq> 0"
    and f: "find_stack K (tl_stack_size (ts_thr s)) (tl_top (ts_thr s)) (tl_top (ts_thr s)) (ts_k s) = Some (Some a, k2)"
    and fork: "vm_thread_fork K func arg (a + tl_stack_size (ts_thr s)) k2 = (rc, k1)" "\<not> neg32 rc"
  note I = tinvD [OF inv]
  have p': "fresh (tl_heap (ts_thr s)) p" using p(1) func(2) by blast
  have "rc \<notin> tid_of ` set es" using I(3) new [OF fork(2)] by auto
  from thr_create_rep [OF I(1,2) func(1) f fork this p' p(2,3), of "[]" t0] run obtain l h x where
    c: "s1 = (ts_thr s)\<lparr>tl_top := a, tl_list := l, tl_heap := h\<rparr>" "table h l ((p2, p, rc) # es) (qs(rc := []))"
      "\<forall>b. b \<noteq> p \<and> b \<noteq> p2 \<and> b \<notin> at ` set es \<longrightarrow> h b = tl_heap (ts_thr s) b" and
    x: "h p = Some (Thread x)" "th_exitFlag x = 0" "th_joinedFlag x = 0" "th_baseAddress x = a"
      "th_stack_size x = tl_stack_size (ts_thr s)" by auto
  have "R k1 = R k2" using vm_okD(5) [OF K, of func arg _ k2] fork(1) by (metis snd_conv)
  with find_stack_regions [OF K f, simplified]
    tinv_created [OF K inv new [OF fork(2)] c(2) p' p(2) c(3) x, of k1] c(1) fork(2)
  show ?thesis by auto
qed

lemma tinv_join:
  assumes K: "vm_ok K R" and inv: "tinv R s es qs" and pc: "ts_pc s t = T_Run" and c: "may_join s c"
    and p: "fresh (tl_heap (ts_thr s)) p1" "fresh (tl_heap (ts_thr s)) p2" "p1 \<noteq> p2"
  shows "(\<exists>n d s1 es' qs'. thr_join_enter K [] c want t p1 p2 (ts_thr s) (ts_k s) = Ret (J_Wait n d p1 (s1, ts_k s)) \<and>
      tinv R (s\<lparr>ts_thr := s1, ts_pc := (ts_pc s)(t := T_Join n d p1 want c)\<rparr>) es' qs') \<or>
    (\<exists>rc st s1 k1 es' qs'. thr_join_enter K [] c want t p1 p2 (ts_thr s) (ts_k s) = Ret (J_Return rc st (s1, k1)) \<and>
      tinv R (s\<lparr>ts_thr := s1, ts_k := k1, ts_log := (c, rc, st) # ts_log s\<rparr>) es' qs')"
proof -
  from c tinv_entry [OF inv, of c] obtain e where e: "e \<in> set es" "tid_of e = c" by (auto simp: may_join_def)
  from threads_invD [OF tinvD(4) [OF inv] e(1)] obtain x where x: "tl_heap (ts_thr s) (data_of e) = Some (Thread x)"
    by blast
  consider v where "ts_pc s c = T_Exited v" "\<not> (\<exists>u. joins (ts_pc s) u c)"
    | "\<not> exited (ts_pc s c)" "th_joinedFlag x = 1" | "\<not> exited (ts_pc s c)" "th_joinedFlag x \<noteq> 1"
    using c by (auto simp: may_join_def exited_iff)
  then show ?thesis
  proof cases
    case (1 v)
    with tinv_join_collect [OF K inv pc e(1), of v want p1 p2] e(2) show ?thesis by blast
  next
    case 2
    have "s\<lparr>ts_thr := ts_thr s, ts_k := ts_k s, ts_log := l\<rparr> = s\<lparr>ts_log := l\<rparr>" for l by simp
    with tinv_join_refused [OF inv e(1) x 2(2), of K want t p1 p2] e(2) show ?thesis by metis
  next
    case 3
    with tinv_join_wait [OF inv pc e(1) _ x _ p, of K want] e(2) show ?thesis by blast
  qed
qed

lemma tinv_start:
  assumes "ts_start s"
  shows "\<exists>es qs. tinv R s es qs"
proof -
  from assms obtain n a root p t0 p2 s0 where
    f: "0 < n" "fresh (tl_heap s0) p" "fresh (tl_heap s0) p2" "p \<noteq> p2" and
    run: "thr_init n a root p t0 p2 s0 = Ret (0, ts_thr s)" and
    pc: "ts_pc s = (\<lambda>_. T_None)(root := T_Run)" and log: "ts_log s = []" unfolding ts_start_def by blast
  from thr_init_rep [OF f, of a root t0] run obtain t where
    tab: "table (tl_heap (ts_thr s)) (tl_list (ts_thr s)) [(p2, p, root)] (\<lambda>_. [])" "mx_free (tl_mutex (ts_thr s))" and
    t: "tl_heap (ts_thr s) p = Some (Thread t)" "th_exitFlag t = 0" "th_joinedFlag t = 0" "th_baseAddress t = 0" by auto
  have "threads_inv (tl_heap (ts_thr s)) (ts_pc s) (R (ts_k s)) [(p2, p, root)] (\<lambda>_. [])"
    using t pc by (simp add: threads_inv_def thread_inv_def)
  moreover have "joiners_inv (tl_heap (ts_thr s)) (ts_pc s) [(p2, p, root)] (\<lambda>_. [])"
    using pc by (simp add: joiners_inv_def joins_def)
  moreover have "stacks_inv (tl_heap (ts_thr s)) [(p2, p, root)]" by (simp add: stacks_inv_def)
  moreover have "log_inv (ts_pc s) (ts_log s)" by (simp add: log log_inv_def)
  moreover have "tid_of ` set [(p2, p, root)] = {c. ts_pc s c \<noteq> T_None} - collected (ts_log s)" by (auto simp: pc log)
  ultimately have "tinv R s [(p2, p, root)] (\<lambda>_. [])" using tab by (simp add: tinv_def)
  then show ?thesis by blast
qed

lemma joiner_blocked:
  assumes inv: "tinv R s es qs" and pc: "ts_pc s t = T_Join n d p w c"
  shows "cond_wait_blocked p (tl_heap (ts_thr s)) = Ret (\<not> exited (ts_pc s c))"
proof -
  note I = tinvD [OF inv]
  note J = joiners_invD [OF I(5) pc]
  show ?thesis
  proof (cases "exited (ts_pc s c)")
    case True
    with J(3) show ?thesis by (simp add: cond_wait_blocked_def outcome_simps)
  next
    case False
    with J(4) obtain p2 where "qs c = [(p2, p, t)]" by blast
    with tableD(5) [OF I(1) J(2)] have "tl_heap (ts_thr s) p = Some (TCond \<lparr>tc_waitFlag = 0, tc_threadID = t\<rparr>)"
      by (auto simp: thread_at_def cond_rep_def queue_rep_def)
    with False show ?thesis by (simp add: cond_wait_blocked_def outcome_simps)
  qed
qed

inductive_cases tstepE: "tstep K t s s'"

lemma tinv_step:
  assumes K: "vm_ok K R" and step: "tstep K t s s'" and inv: "tinv R s es qs"
  shows "\<exists>es' qs'. tinv R s' es' qs'"
  using step
proof (rule tstepE)
  fix p p2 func arg t0 rc s1 k1
  assume "s' = s\<lparr>ts_thr := s1, ts_k := k1, ts_pc := if neg32 rc then ts_pc s else (ts_pc s)(rc := T_Run)\<rparr>"
    "p = 0 \<or> fresh (tl_heap (ts_thr s)) p" "fresh (tl_heap (ts_thr s)) p2" "p \<noteq> p2"
    "thr_create K [] func arg p t0 p2 (ts_thr s) (ts_k s) = Ret (rc, s1, k1)" "\<not> neg32 rc \<Longrightarrow> ts_pc s rc = T_None"
  then show ?thesis using tinv_create [OF K inv] by blast
next
  fix v ws s1
  assume "s' = s\<lparr>ts_thr := s1, ts_pc := (ts_pc s)(t := T_Exited v)\<rparr>" "ts_pc s t = T_Run"
    "thr_exit [] v t (ts_thr s) = Ret (ws, s1)"
  then show ?thesis using tinv_exit [OF inv, of t v] by auto
next
  fix c p1 p2 want n d p s1 k1
  assume s': "s' = s\<lparr>ts_thr := s1, ts_k := k1, ts_pc := (ts_pc s)(t := T_Join n d p want c)\<rparr>"
    and "ts_pc s t = T_Run" "may_join s c" "fresh (tl_heap (ts_thr s)) p1" "fresh (tl_heap (ts_thr s)) p2" "p1 \<noteq> p2"
    "thr_join_enter K [] c want t p1 p2 (ts_thr s) (ts_k s) = Ret (J_Wait n d p (s1, k1))"
  then have "\<exists>es' qs'. k1 = ts_k s \<and> tinv R (s\<lparr>ts_thr := s1, ts_pc := (ts_pc s)(t := T_Join n d p want c)\<rparr>) es' qs'"
    using tinv_join [OF K inv, of t c p1 p2 want] by auto
  then show ?thesis using s' by auto
next
  fix c p1 p2 want rc st s1 k1
  assume "s' = s\<lparr>ts_thr := s1, ts_k := k1, ts_log := (c, rc, st) # ts_log s\<rparr>" "ts_pc s t = T_Run" "may_join s c"
    "fresh (tl_heap (ts_thr s)) p1" "fresh (tl_heap (ts_thr s)) p2" "p1 \<noteq> p2"
    "thr_join_enter K [] c want t p1 p2 (ts_thr s) (ts_k s) = Ret (J_Return rc st (s1, k1))"
  then show ?thesis using tinv_join [OF K inv, of t c p1 p2 want] by auto
next
  fix n d p want c rc st s1 k1
  assume s': "s' = s\<lparr>ts_thr := s1, ts_k := k1, ts_pc := (ts_pc s)(t := T_Run), ts_log := (c, rc, st) # ts_log s\<rparr>"
    and pc: "ts_pc s t = T_Join n d p want c" and b: "cond_wait_blocked p (tl_heap (ts_thr s)) = Ret False"
    and run: "thr_join_exit K [] want n d p (ts_thr s) (ts_k s) = Ret (rc, st, s1, k1)"
  from b joiner_blocked [OF inv pc] obtain v where "ts_pc s c = T_Exited v" by (auto simp: exited_iff)
  from tinv_join_done [OF K inv pc this] run obtain es' where
    "rc = 0" "st = (if want then Some v else None)" "tinv R (s\<lparr>ts_thr := s1, ts_k := k1, ts_pc := (ts_pc s)(t := T_Run),
      ts_log := (c, 0, if want then Some v else None) # ts_log s\<rparr>) es' qs" by auto
  then show ?thesis unfolding s' by blast
qed

lemma treach_inv: "treach K s \<Longrightarrow> vm_ok K R \<Longrightarrow> \<exists>es qs. tinv R s es qs"
proof (induction rule: treach.induct)
  case (treach_start s)
  then show ?case using tinv_start by blast
next
  case (treach_step s t s')
  then show ?case using tinv_step by blast
qed

section \<open>What the callers can rely on\<close>

text \<open>Under the invariant a call of \<open>thr_create\<close> returns as soon as its search for stack memory ends.\<close>

lemma thr_create_total:
  assumes tab: "table (tl_heap s) (tl_list s) es qs" and m: "mx_free (tl_mutex s)"
    and p: "p = 0 \<or> fresh (tl_heap s) p" "fresh (tl_heap s) p2" "p \<noteq> p2"
    and find: "find_stack K (tl_stack_size s) (tl_top s) (tl_top s) k \<noteq> None"
  shows "\<exists>r. thr_create K [] func arg p t0 p2 s k = Ret r"
proof -
  let ?find = "find_stack K (tl_stack_size s) (tl_top s) (tl_top s) k"
  consider "func = 0" | k2 where "?find = Some (None, k2)" "func \<noteq> 0"
    | a k2 where "?find = Some (Some a, k2)" "func \<noteq> 0" using find by (cases ?find) fastforce+
  then show ?thesis
  proof cases
    case 1
    with thr_create_early(1) [OF m, of K "[]" arg p t0 p2 k] show ?thesis by simp
  next
    case (2 k2)
    with thr_create_early(2) [OF m 2(2,1), of "[]" arg p t0 p2] show ?thesis by simp
  next
    case (3 a k2)
    obtain c k3 where fork: "vm_thread_fork K func arg (a + tl_stack_size s) k2 = (c, k3)" by fastforce
    consider "p = 0" | "fresh (tl_heap s) p" "neg32 c" | "fresh (tl_heap s) p" "\<not> neg32 c" using p(1) by blast
    then show ?thesis
    proof cases
      case 1
      with thr_create_early(3) [OF m 3(2,1), of "[]" arg t0 p2] show ?thesis by simp
    next
      case 2
      with thr_create_undone [OF tab m 3(2,1) fork 2(1) disjI1 [OF 2(2)], of "[]" t0 p2] show ?thesis by simp
    next
      case c: 3
      from thr_create_returns [OF tab m 3(2,1) fork c(2,1) p(2,3), of "[]" t0] show ?thesis by blast
    qed
  qed
qed





section \<open>A run\<close>

text \<open>
  The root thread 1 starts the library and creates thread 2; it joins 2 and blocks; 2 exits with status 77;
  1 returns.
\<close>

definition td_thr :: "addr \<Rightarrow> u32 \<Rightarrow> addr \<Rightarrow> heap \<Rightarrow> thr" where
  "td_thr p n a h = \<lparr>tl_list = \<lparr>l_head = p, l_tail = 32, l_count = n\<rparr>,
     tl_mutex = \<lparr>mx_lockFlag = 0, mx_initializeFlag = 1\<rparr>,
     tl_malloc_mutex = \<lparr>mx_lockFlag = 0, mx_initializeFlag = 1\<rparr>,
     tl_stack_size = 4096, tl_top = a, tl_heap = h\<rparr>"

definition td_root :: obj where
  "td_root = Thread (demo_thread 1 0)"

definition td_child :: "i32 \<Rightarrow> i32 \<Rightarrow> i32 \<Rightarrow> cond \<Rightarrow> obj" where
  "td_child st ex jn c = Thread \<lparr>th_threadID = 2, th_status = st, th_baseAddress = 0xf0002000, th_exitFlag = ex,
     th_joinedFlag = jn, th_stack_size = 4096, th_threadCond = c\<rparr>"

definition td_node :: "addr \<Rightarrow> addr \<Rightarrow> addr \<Rightarrow> i32 \<Rightarrow> obj" where
  "td_node nx pr d t = Node \<lparr>nd_next = nx, nd_prev = pr, nd_thread_data = d, nd_threadID = t\<rparr>"

definition td_h0 :: heap where
  "td_h0 = (\<lambda>_. None)(16 \<mapsto> td_root, 32 \<mapsto> td_node 0 0 16 1)"

definition td_h1 :: "obj \<Rightarrow> heap" where
  "td_h1 c = (\<lambda>_. None)(16 \<mapsto> td_root, 32 \<mapsto> td_node 0 64 16 1, 64 \<mapsto> td_node 32 0 48 2, 48 \<mapsto> c)"

definition td_h2 :: heap where
  "td_h2 = (td_h1 (td_child 0 0 1 (new_cond\<lparr>cd_list := \<lparr>l_head = 96, l_tail = 96, l_count = 1\<rparr>\<rparr>)))
     (80 \<mapsto> TCond \<lparr>tc_waitFlag = 0, tc_threadID = 1\<rparr>, 96 \<mapsto> td_node 0 0 80 1)"

definition td_h3 :: heap where
  "td_h3 = (td_h1 (td_child 77 1 0 new_cond))(80 \<mapsto> TCond \<lparr>tc_waitFlag = 1, tc_threadID = 1\<rparr>)"

lemmas td_defs = td_thr_def td_root_def td_child_def td_node_def demo_thread_def td_h0_def td_h1_def td_h2_def td_h3_def
lemmas td_run = mutex_init_def cond_init_new list_insert_def list_create_def Let_def outcome_simps mx_free_def
  mutex_unlock_def new_cond_def

lemma td_init:
  "thr_init 4096 0xf0000f98 1 16 (demo_thread 9 9) 32 (td_thr 7 7 7 (\<lambda>_. None)) = Ret (0, td_thr 32 1 0xf0002000 td_h0)"
  by (simp add: thr_init_def td_defs td_run align_top_def align_size_def sdiv32_def)

lemma td_create:
  "thr_create demo_vm [] 0x1000 0 48 (demo_thread 9 9) 64 (td_thr 32 1 0xf0002000 td_h0) ([], 1) =
     Ret (2, td_thr 64 2 0xf0002000 (td_h1 (td_child 0 0 0 new_cond)), ([(0xf0002000, 4096)], 2))"
  by (simp add: thr_create_def td_defs td_run find_stack.simps demo_vm_def word_sless_alt) (auto simp: fun_eq_iff)

lemma td_join:
  "thr_join_enter demo_vm [] 2 True 1 80 96 (td_thr 64 2 0xf0002000 (td_h1 (td_child 0 0 0 new_cond))) k =
     Ret (J_Wait 64 48 80 (td_thr 64 2 0xf0002000 td_h2, k))"
  by (simp add: thr_join_enter_def list_find_def list_find_loop.simps td_defs td_run cond_wait_enter_def
      cond_wait_body_def del: bnd_Ret_iff) (auto simp: fun_eq_iff)

lemma td_exit: "thr_exit [] 77 2 (td_thr 64 2 0xf0002000 td_h2) = Ret ([1], td_thr 64 2 0xf0002000 td_h3)"
  by (simp add: thr_exit_def list_find_def list_find_loop.simps td_defs td_run cond_signal_def cond_wake_one_def
      cond_take_def cond_mark_def list_dequeue_def del: bnd_Ret_iff) (auto simp: fun_eq_iff)

definition td_state :: "thr \<Rightarrow> (addr \<times> u32) list \<times> i32 \<Rightarrow> tpc \<Rightarrow> tpc \<Rightarrow> ((addr \<times> u32) list \<times> i32) tsys" where
  "td_state s k r c = \<lparr>ts_thr = s, ts_k = k, ts_pc = (\<lambda>_. T_None)(1 := r, 2 := c), ts_log = []\<rparr>"

lemma td_state_simps [simp]:
  "ts_thr (td_state s k r c) = s" "ts_k (td_state s k r c) = k" "ts_log (td_state s k r c) = []"
  "ts_pc (td_state s k r c) = (\<lambda>_. T_None)(1 := r, 2 := c)"
  by (simp_all add: td_state_def)

definition td_s1 :: "((addr \<times> u32) list \<times> i32) tsys" where
  "td_s1 = td_state (td_thr 64 2 0xf0002000 (td_h1 (td_child 0 0 0 new_cond))) ([(0xf0002000, 4096)], 2) T_Run T_Run"

definition td_sys :: "tpc \<Rightarrow> tpc \<Rightarrow> ((addr \<times> u32) list \<times> i32) tsys" where
  "td_sys r c = td_state (td_thr 64 2 0xf0002000 (case c of T_Run \<Rightarrow> td_h2 | _ \<Rightarrow> td_h3)) ([(0xf0002000, 4096)], 2) r c"

lemma td_reach_create: "treach demo_vm td_s1"
proof -
  let ?t1 = "td_thr 64 2 0xf0002000 (td_h1 (td_child 0 0 0 new_cond))"
  let ?s0 = "td_state (td_thr 32 1 0xf0002000 td_h0) ([], 1) T_Run T_None"
  have "ts_start ?s0"
    unfolding ts_start_def
    using td_init by (intro exI [of _ 4096] exI [of _ "0xf0000f98"] exI [of _ 1] exI [of _ 16] exI [of _ "demo_thread 9 9"]
        exI [of _ 32] exI [of _ "td_thr 7 7 7 (\<lambda>_. None)"]) (simp add: fresh_def td_thr_def fun_upd_idem)
  then have 0: "treach demo_vm ?s0" by (rule treach_start)
  have "\<not> neg32 (2 :: i32)" by (simp add: word_sless_alt)
  with t_create [of ?s0 1 48 64 demo_vm "0x1000" 0 "demo_thread 9 9" 2 ?t1 "([(0xf0002000, 4096)], 2)"] td_create
  have "tstep demo_vm 1 ?s0 td_s1" by (simp add: fresh_def td_thr_def td_h0_def td_s1_def td_state_def)
  then show ?thesis by (rule treach_step [OF 0])
qed

lemma td_reach_join: "treach demo_vm (td_sys (T_Join 64 48 80 True 2) T_Run)"
proof -
  have "may_join td_s1 2" by (simp add: may_join_def exited_def td_s1_def)
  with t_join_wait [of td_s1 1 2 80 96 demo_vm True 64 48 80 "td_thr 64 2 0xf0002000 td_h2" "([(0xf0002000, 4096)], 2)"] td_join
  have "tstep demo_vm 1 td_s1 (td_sys (T_Join 64 48 80 True 2) T_Run)"
    by (simp add: td_s1_def td_sys_def td_state_def fresh_def td_thr_def td_h1_def fun_upd_twist)
  then show ?thesis by (rule treach_step [OF td_reach_create])
qed

lemma td_reach_exit: "treach demo_vm (td_sys (T_Join 64 48 80 True 2) (T_Exited 77))"
proof -
  have "tstep demo_vm 2 (td_sys (T_Join 64 48 80 True 2) T_Run) (td_sys (T_Join 64 48 80 True 2) (T_Exited 77))"
    using t_exit [of "td_sys (T_Join 64 48 80 True 2) T_Run" 2 77 "[1]" "td_thr 64 2 0xf0002000 td_h3" demo_vm] td_exit
    by (simp add: td_sys_def td_state_def)
  then show ?thesis by (rule treach_step [OF td_reach_join])
qed

lemma td_reach_done: "\<exists>s. treach demo_vm s \<and> ts_log s = [(2, 0, Some 77)]"
proof -
  let ?s = "td_sys (T_Join 64 48 80 True 2) (T_Exited 77)"
  have pc: "ts_pc ?s 1 = T_Join 64 48 80 True 2" "ts_pc ?s 2 = T_Exited 77" by (simp_all add: td_sys_def)
  from treach_inv [OF td_reach_exit demo_vm_ok] obtain es qs where inv: "tinv (\<lambda>k. set (fst k)) ?s es qs" by blast
  from tinv_join_done [OF demo_vm_ok inv pc] obtain s1 k1 where
    "thr_join_exit demo_vm [] True 64 48 80 (ts_thr ?s) (ts_k ?s) = Ret (0, Some 77, s1, k1)" by auto
  from t_join_done [OF pc(1) _ this] joiner_blocked [OF inv pc(1)] pc(2) treach_step [OF td_reach_exit]
  show ?thesis by (fastforce simp: td_sys_def exited_def)
qed





end
