(* ===== verification/Cond_Machine.thy ===== *)
theory Cond_Machine
  imports Cond Kernel
begin

text \<open>
  Any number of threads that use one condition variable \<open>c\<close> with one mutex \<open>m\<close>: each locks
  \<open>m\<close>, then waits, signals, broadcasts or unlocks, and signals and broadcasts may also be sent
  without holding \<open>m\<close>. A step is one access to state that other threads can touch at that point: one
  \<open>atomic_exchange\<close> of a lock loop, one unlock, the dequeue, the write of \<open>waitFlag\<close>, each system call.
  What runs with \<open>condMutex\<close> held and touches only the list is one step.

  The point of the machine is the window of \<open>cond_wait\<close> between the unlocks and \<open>deschedule\<close>: a
  signal may fall anywhere into it.
\<close>

section \<open>Program points and steps\<close>

text \<open>The flag of the signalling points says whether the caller holds \<open>m\<close>; the number of
  \<open>K_\<close> points is the iterations of the wake-up loop that are left after the current one.\<close>

datatype cpc =
  C_Out | C_LockM | C_Own
| W_LockC | W_Body | W_UnlockM addr | W_UnlockC addr | W_Test addr | W_Desch addr | W_Free addr | W_Relock
| S_LockC bool | S_Check bool | B_LockC bool | B_Check bool
| K_Loop nat bool | K_Mark nat addr bool | K_Wake nat i32 bool | K_Unlock bool

record 'k csys =
  cs_m :: mutex
  cs_c :: cond
  cs_h :: heap
  cs_k :: 'k
  cs_pc :: "i32 \<Rightarrow> cpc"

abbreviation goto :: "'k csys \<Rightarrow> i32 \<Rightarrow> cpc \<Rightarrow> 'k csys" where
  "goto s t p \<equiv> s\<lparr>cs_pc := (cs_pc s)(t := p)\<rparr>"

abbreviation cs_cm :: "'k csys \<Rightarrow> mutex" where
  "cs_cm s \<equiv> cd_condMutex (cs_c s)"

abbreviation set_cm :: "'k csys \<Rightarrow> mutex \<Rightarrow> 'k csys" where
  "set_cm s m \<equiv> s\<lparr>cs_c := (cs_c s)\<lparr>cd_condMutex := m\<rparr>\<rparr>"

text \<open>Where a successful \<open>mutex_lock(&condMutex)\<close> continues.\<close>

fun after_lock_c :: "cpc \<Rightarrow> cpc option" where
  "after_lock_c W_LockC = Some W_Body"
| "after_lock_c (S_LockC b) = Some (S_Check b)"
| "after_lock_c (B_LockC b) = Some (B_Check b)"
| "after_lock_c _ = None"

text \<open>Where a successful \<open>mutex_lock(&m)\<close> continues: the caller's own call, and the end of
  \<open>cond_wait\<close>.\<close>

definition lock_m_pc :: "cpc \<Rightarrow> bool" where
  "lock_m_pc p \<longleftrightarrow> p = C_LockM \<or> p = W_Relock"

definition caller :: "bool \<Rightarrow> cpc" where
  "caller b = (if b then C_Own else C_Out)"

text \<open>
  A thread runs when the kernel has not suspended it (only \<open>w_test\<close> can meet a suspended thread).
  The two \<open>malloc\<close> calls of \<open>cond_wait\<close> succeed in this machine (\<open>fresh\<close>). A rule applies only
  when the call it makes returns; \<open>c_fails\<close> below names the states where it would not.
\<close>

inductive cstep :: "'k kernel \<Rightarrow> i32 \<Rightarrow> 'k csys \<Rightarrow> 'k csys \<Rightarrow> bool"
  for K :: "'k kernel" and t :: i32 where
  c_lock: "cs_pc s t = C_Out \<Longrightarrow> cstep K t s (goto s t C_LockM)"
| c_lock_m: "\<lbrakk>lock_m_pc (cs_pc s t); lock_try (cs_m s) = (busy, m)\<rbrakk>
    \<Longrightarrow> cstep K t s (goto (s\<lparr>cs_m := m\<rparr>) t (if busy then cs_pc s t else C_Own))"
| c_unlock: "\<lbrakk>cs_pc s t = C_Own; mutex_unlock (cs_m s) = Ret m\<rbrakk>
    \<Longrightarrow> cstep K t s (goto (s\<lparr>cs_m := m\<rparr>) t C_Out)"
| c_wait: "cs_pc s t = C_Own \<Longrightarrow> cstep K t s (goto s t W_LockC)"
| c_signal: "cs_pc s t = caller b \<Longrightarrow> cstep K t s (goto s t (S_LockC b))"
| c_broadcast: "cs_pc s t = caller b \<Longrightarrow> cstep K t s (goto s t (B_LockC b))"
| c_lock_c: "\<lbrakk>after_lock_c (cs_pc s t) = Some p; lock_try (cs_cm s) = (busy, m)\<rbrakk>
    \<Longrightarrow> cstep K t s (goto (set_cm s m) t (if busy then cs_pc s t else p))"
| w_body: "\<lbrakk>cs_pc s t = W_Body; fresh (cs_h s) p1; fresh (cs_h s) p2; p1 \<noteq> p2;
      cond_wait_body p1 p2 t False (cs_c s) (cs_h s) = Ret (c, h)\<rbrakk>
    \<Longrightarrow> cstep K t s (goto (s\<lparr>cs_c := c, cs_h := h\<rparr>) t (W_UnlockM p1))"
| w_unlock_m: "\<lbrakk>cs_pc s t = W_UnlockM d; mutex_unlock (cs_m s) = Ret m\<rbrakk>
    \<Longrightarrow> cstep K t s (goto (s\<lparr>cs_m := m\<rparr>) t (W_UnlockC d))"
| w_unlock_c: "\<lbrakk>cs_pc s t = W_UnlockC d; mutex_unlock (cs_cm s) = Ret m\<rbrakk>
    \<Longrightarrow> cstep K t s (goto (set_cm s m) t (W_Test d))"
| w_test: "\<lbrakk>cs_pc s t = W_Test d; \<not> k_suspended K (cs_k s) t; cond_wait_blocked d (cs_h s) = Ret b\<rbrakk>
    \<Longrightarrow> cstep K t s (goto s t (if b then W_Desch d else W_Free d))"
| w_deschedule: "\<lbrakk>cs_pc s t = W_Desch d; get_tcond (cs_h s) d = Ret tc\<rbrakk>
    \<Longrightarrow> cstep K t s (goto (s\<lparr>cs_k := k_deschedule K t (tc_waitFlag tc) (cs_k s)\<rparr>) t (W_Test d))"
| w_free: "\<lbrakk>cs_pc s t = W_Free d; c_free d (cs_h s) = Ret h\<rbrakk>
    \<Longrightarrow> cstep K t s (goto (s\<lparr>cs_h := h\<rparr>) t W_Relock)"
| s_check: "\<lbrakk>cs_pc s t = S_Check b; cd_initializeFlag (cs_c s) = 1\<rbrakk>
    \<Longrightarrow> cstep K t s (goto s t (if l_count (cd_list (cs_c s)) \<noteq> 0 then K_Loop 1 b else K_Unlock b))"
| b_check: "\<lbrakk>cs_pc s t = B_Check b; cd_initializeFlag (cs_c s) \<noteq> 0\<rbrakk>
    \<Longrightarrow> cstep K t s (goto s t (K_Loop (broadcast_rounds (l_count (cd_list (cs_c s)))) b))"
| k_take: "\<lbrakk>cs_pc s t = K_Loop (Suc n) b; cond_take (cs_c s) (cs_h s) = Ret (d, c, h)\<rbrakk>
    \<Longrightarrow> cstep K t s (goto (s\<lparr>cs_c := c, cs_h := h\<rparr>) t (K_Mark n d b))"
| k_mark: "\<lbrakk>cs_pc s t = K_Mark n d b; cond_mark d (cs_h s) = Ret (u, h)\<rbrakk>
    \<Longrightarrow> cstep K t s (goto (s\<lparr>cs_h := h\<rparr>) t (K_Wake n u b))"
| k_wake: "cs_pc s t = K_Wake n u b
    \<Longrightarrow> cstep K t s (goto (s\<lparr>cs_k := snd (k_make_runnable K u (cs_k s))\<rparr>) t (K_Loop n b))"
| k_done: "cs_pc s t = K_Loop 0 b \<Longrightarrow> cstep K t s (goto s t (K_Unlock b))"
| k_unlock: "\<lbrakk>cs_pc s t = K_Unlock b; mutex_unlock (cs_cm s) = Ret m\<rbrakk>
    \<Longrightarrow> cstep K t s (goto (set_cm s m) t (caller b))"

text \<open>The calls whose failure would end the task.\<close>

definition c_fails :: "i32 \<Rightarrow> 'k csys \<Rightarrow> bool" where
  "c_fails t s =
     (case cs_pc s t of
        C_Own \<Rightarrow> \<not> mx_held (cs_m s)
      | W_Body \<Rightarrow> cd_initializeFlag (cs_c s) = 0
      | W_UnlockM d \<Rightarrow> mutex_unlock (cs_m s) = Panic
      | W_UnlockC d \<Rightarrow> mutex_unlock (cs_cm s) = Panic
      | W_Test d \<Rightarrow> cond_wait_blocked d (cs_h s) = Fault
      | W_Desch d \<Rightarrow> get_tcond (cs_h s) d = Fault
      | W_Free d \<Rightarrow> c_free d (cs_h s) = Fault
      | S_Check b \<Rightarrow> cd_initializeFlag (cs_c s) \<noteq> 1
      | B_Check b \<Rightarrow> cd_initializeFlag (cs_c s) = 0
      | K_Loop n b \<Rightarrow> n \<noteq> 0 \<and> (\<forall>r. cond_take (cs_c s) (cs_h s) \<noteq> Ret r)
      | K_Mark n d b \<Rightarrow> (\<forall>r. cond_mark d (cs_h s) \<noteq> Ret r)
      | K_Unlock b \<Rightarrow> mutex_unlock (cs_cm s) = Panic
      | _ \<Rightarrow> False)"

section \<open>What a program point says\<close>

text \<open>The record of a thread in \<open>cond_wait\<close>, from its insertion to its \<open>free\<close>.\<close>

fun rec_pc :: "cpc \<Rightarrow> addr option" where
  "rec_pc (W_UnlockM d) = Some d"
| "rec_pc (W_UnlockC d) = Some d"
| "rec_pc (W_Test d) = Some d"
| "rec_pc (W_Desch d) = Some d"
| "rec_pc (W_Free d) = Some d"
| "rec_pc _ = None"

text \<open>The record a signaller has dequeued and not yet marked.\<close>

fun mark_pc :: "cpc \<Rightarrow> addr option" where
  "mark_pc (K_Mark n d b) = Some d"
| "mark_pc _ = None"

text \<open>The thread a signaller has marked and not yet resumed.\<close>

fun wake_pc :: "cpc \<Rightarrow> i32 option" where
  "wake_pc (K_Wake n u b) = Some u"
| "wake_pc _ = None"

text \<open>The dequeues a signaller has still to do.\<close>

fun left_pc :: "cpc \<Rightarrow> nat" where
  "left_pc (K_Loop n b) = n"
| "left_pc (K_Mark n d b) = n"
| "left_pc (K_Wake n u b) = n"
| "left_pc _ = 0"

text \<open>The points at which a thread holds \<open>condMutex\<close>, and those at which it holds \<open>m\<close>.\<close>

fun holds_c :: "cpc \<Rightarrow> bool" where
  "holds_c W_Body = True"
| "holds_c (W_UnlockM d) = True"
| "holds_c (W_UnlockC d) = True"
| "holds_c (S_Check b) = True"
| "holds_c (B_Check b) = True"
| "holds_c (K_Loop n b) = True"
| "holds_c (K_Mark n d b) = True"
| "holds_c (K_Wake n u b) = True"
| "holds_c (K_Unlock b) = True"
| "holds_c _ = False"

fun holds_m :: "cpc \<Rightarrow> bool" where
  "holds_m C_Own = True"
| "holds_m W_LockC = True"
| "holds_m W_Body = True"
| "holds_m (W_UnlockM d) = True"
| "holds_m (S_LockC b) = b"
| "holds_m (S_Check b) = b"
| "holds_m (B_LockC b) = b"
| "holds_m (B_Check b) = b"
| "holds_m (K_Loop n b) = b"
| "holds_m (K_Mark n d b) = b"
| "holds_m (K_Wake n u b) = b"
| "holds_m (K_Unlock b) = b"
| "holds_m _ = False"

section \<open>The invariant\<close>

definition flag_at :: "heap \<Rightarrow> addr \<Rightarrow> i32 \<Rightarrow> i32 \<Rightarrow> bool" where
  "flag_at h d v t \<longleftrightarrow> h d = Some (TCond \<lparr>tc_waitFlag = v, tc_threadID = t\<rparr>)"

text \<open>
  Every waiting thread owns its record; the record is unset only while it is queued or held by a
  signaller that is about to set it; a suspended thread is one whose record is unset, or one that a
  signaller is about to resume.
\<close>

definition qinv :: "'k kernel \<Rightarrow> cond \<Rightarrow> heap \<Rightarrow> 'k \<Rightarrow> (i32 \<Rightarrow> cpc) \<Rightarrow> entry list \<Rightarrow> bool" where
  "qinv K c h k pc es \<longleftrightarrow>
     queue_rep c h es \<and>
     (\<forall>e \<in> set es. rec_pc (pc (tid_of e)) = Some (data_of e)) \<and>
     (\<forall>t d. rec_pc (pc t) = Some d \<longrightarrow> d \<noteq> 0 \<and>
        (flag_at h d 1 t \<or> flag_at h d 0 t \<and> (d \<in> data_of ` set es \<or> (\<exists>u. mark_pc (pc u) = Some d)))) \<and>
     (\<forall>u d. mark_pc (pc u) = Some d \<longrightarrow>
        d \<notin> data_of ` set es \<and> (\<exists>t. rec_pc (pc t) = Some d \<and> flag_at h d 0 t)) \<and>
     (\<forall>t. left_pc (pc t) \<le> length es) \<and>
     (\<forall>t. k_suspended K k t \<longrightarrow>
        (\<exists>d. pc t = W_Test d \<and> (flag_at h d 0 t \<or> (\<exists>u. wake_pc (pc u) = Some t)))) \<and>
     (\<forall>t d. pc t = W_Free d \<longrightarrow> flag_at h d 1 t)"

definition cs_inv :: "'k kernel \<Rightarrow> 'k csys \<Rightarrow> bool" where
  "cs_inv K s \<longleftrightarrow> cd_initializeFlag (cs_c s) = 1 \<and> guarded holds_c (cs_cm s) (cs_pc s) \<and>
     guarded holds_m (cs_m s) (cs_pc s) \<and> (\<exists>es. qinv K (cs_c s) (cs_h s) (cs_k s) (cs_pc s) es)"

lemma qinv_mutex [simp]: "qinv K (c\<lparr>cd_condMutex := m\<rparr>) h k pc es = qinv K c h k pc es"
  by (simp add: qinv_def)

text \<open>A step that moves one thread between points that say the same keeps the queue invariant.\<close>

lemma qinv_goto:
  assumes "qinv K c h k pc es"
    and "rec_pc y = rec_pc (pc t)" "mark_pc y = mark_pc (pc t)" "wake_pc y = wake_pc (pc t)"
    and "left_pc y \<le> length es" "\<not> k_suspended K k t" "\<And>d. y = W_Free d \<Longrightarrow> flag_at h d 1 t"
  shows "qinv K c h k (pc(t := y)) es"
proof -
  have r: "rec_pc ((pc(t := y)) u) = rec_pc (pc u)" "mark_pc ((pc(t := y)) u) = mark_pc (pc u)"
    "wake_pc ((pc(t := y)) u) = wake_pc (pc u)" for u
    using assms(2-4) by simp_all
  show ?thesis
    using assms(1,5-7) unfolding qinv_def r by (auto simp: fun_upd_def)
qed

lemma qinvD:
  assumes "qinv K c h k pc es"
  shows "queue_rep c h es" "e \<in> set es \<Longrightarrow> rec_pc (pc (tid_of e)) = Some (data_of e)"
    "rec_pc (pc t) = Some d \<Longrightarrow> d \<noteq> 0 \<and>
        (flag_at h d 1 t \<or> flag_at h d 0 t \<and> (d \<in> data_of ` set es \<or> (\<exists>u. mark_pc (pc u) = Some d)))"
    "mark_pc (pc u) = Some d \<Longrightarrow>
        d \<notin> data_of ` set es \<and> (\<exists>t. rec_pc (pc t) = Some d \<and> flag_at h d 0 t)"
    "left_pc (pc t) \<le> length es"
    "k_suspended K k t \<Longrightarrow> \<exists>d. pc t = W_Test d \<and> (flag_at h d 0 t \<or> (\<exists>u. wake_pc (pc u) = Some t))"
    "pc t = W_Free d \<Longrightarrow> flag_at h d 1 t"
  using assms unfolding qinv_def by blast+

lemma flag_not_node: "queue_rep c h es \<Longrightarrow> flag_at h d v t \<Longrightarrow> d \<notin> at ` set es"
  using list_rep_node [of h "cd_list c" es] by (fastforce simp: flag_at_def queue_rep_def)

lemma flag_not_fresh: "flag_at h d v t \<Longrightarrow> fresh h p \<Longrightarrow> d \<noteq> p"
  by (auto simp: flag_at_def fresh_def)

lemma flag_at_fun: "flag_at h d v t \<Longrightarrow> flag_at h d w u \<Longrightarrow> v = w \<and> t = u"
  by (simp add: flag_at_def)

lemma qinv_body:
  assumes q: "qinv K c h k pc es" and pc: "pc t = W_Body" and init: "cd_initializeFlag c = 1"
    and f: "fresh h p1" "fresh h p2" "p1 \<noteq> p2"
    and run: "cond_wait_body p1 p2 t False c h = Ret (c', h')"
  shows "cd_initializeFlag c' = 1 \<and> cd_condMutex c' = cd_condMutex c \<and>
    qinv K c' h' k (pc(t := W_UnlockM p1)) ((p2, p1, t) # es)"
proof -
  have rep: "queue_rep c h es" using q by (simp add: qinv_def)
  from cond_wait_body_rep [OF rep init f, of t] run obtain l where c': "c' = c\<lparr>cd_list := l\<rparr>" and
    rep': "queue_rep c' h' ((p2, p1, t) # es)" and
    fr: "\<forall>a. a \<noteq> p1 \<and> a \<noteq> p2 \<and> a \<notin> at ` set es \<longrightarrow> h' a = h a" by auto
  have keep: "flag_at h' d v u" if "flag_at h d v u" for d v u
    using that fr flag_not_node [OF rep that] flag_not_fresh [OF that] f(1,2)
    by (auto simp: flag_at_def)
  have new: "flag_at h' p1 0 t" "p1 \<noteq> 0" "p1 \<notin> data_of ` set es"
    using rep' freshD [OF f(1)] by (auto simp: flag_at_def queue_rep_def)
  have qd: "\<forall>e\<in>set es. rec_pc (pc (tid_of e)) = Some (data_of e)" using q by (simp add: qinv_def)
  then have notin: "t \<notin> tid_of ` set es" using pc by fastforce
  have 1: "\<forall>e\<in>set ((p2, p1, t) # es). rec_pc ((pc(t := W_UnlockM p1)) (tid_of e)) = Some (data_of e)"
    using qd notin by auto
  have 2: "\<forall>u d. rec_pc ((pc(t := W_UnlockM p1)) u) = Some d \<longrightarrow> d \<noteq> 0 \<and>
        (flag_at h' d 1 u \<or> flag_at h' d 0 u \<and>
          (d \<in> data_of ` set ((p2, p1, t) # es) \<or> (\<exists>v. mark_pc ((pc(t := W_UnlockM p1)) v) = Some d)))"
  proof (intro allI impI)
    fix u d assume r: "rec_pc ((pc(t := W_UnlockM p1)) u) = Some d"
    show "d \<noteq> 0 \<and> (flag_at h' d 1 u \<or> flag_at h' d 0 u \<and>
          (d \<in> data_of ` set ((p2, p1, t) # es) \<or> (\<exists>v. mark_pc ((pc(t := W_UnlockM p1)) v) = Some d)))"
    proof (cases "u = t")
      case True
      with r new show ?thesis by auto
    next
      case False
      with r qinvD(3) [OF q, of u d] have "d \<noteq> 0 \<and> (flag_at h d 1 u \<or> flag_at h d 0 u \<and>
          (d \<in> data_of ` set es \<or> (\<exists>v. mark_pc (pc v) = Some d)))"
        by simp
      moreover have "mark_pc (pc v) = Some d \<Longrightarrow> mark_pc ((pc(t := W_UnlockM p1)) v) = Some d" for v
        using pc by auto
      ultimately show ?thesis using keep by (simp del: fun_upd_apply) blast
    qed
  qed
  have 3: "\<forall>u d. mark_pc ((pc(t := W_UnlockM p1)) u) = Some d \<longrightarrow> d \<notin> data_of ` set ((p2, p1, t) # es) \<and>
      (\<exists>v. rec_pc ((pc(t := W_UnlockM p1)) v) = Some d \<and> flag_at h' d 0 v)"
  proof (intro allI impI)
    fix u d assume "mark_pc ((pc(t := W_UnlockM p1)) u) = Some d"
    then have "mark_pc (pc u) = Some d" by (auto split: if_splits)
    with qinvD(4) [OF q] obtain v where v: "d \<notin> data_of ` set es" "rec_pc (pc v) = Some d" "flag_at h d 0 v"
      by blast
    then have "d \<noteq> p1" "v \<noteq> t" using flag_not_fresh f(1) pc by auto
    with v keep show "d \<notin> data_of ` set ((p2, p1, t) # es) \<and>
      (\<exists>v. rec_pc ((pc(t := W_UnlockM p1)) v) = Some d \<and> flag_at h' d 0 v)" by auto
  qed
  have 4: "\<forall>u. left_pc ((pc(t := W_UnlockM p1)) u) \<le> length ((p2, p1, t) # es)"
    using q by (auto simp: qinv_def le_Suc_eq)
  have 5: "\<forall>u. k_suspended K k u \<longrightarrow> (\<exists>d. (pc(t := W_UnlockM p1)) u = W_Test d \<and>
      (flag_at h' d 0 u \<or> (\<exists>v. wake_pc ((pc(t := W_UnlockM p1)) v) = Some u)))"
  proof (intro allI impI)
    fix u assume "k_suspended K k u"
    with qinvD(6) [OF q] obtain d where d: "pc u = W_Test d" "flag_at h d 0 u \<or> (\<exists>v. wake_pc (pc v) = Some u)"
      by blast
    moreover have "wake_pc (pc v) = Some u \<Longrightarrow> wake_pc ((pc(t := W_UnlockM p1)) v) = Some u" for v
      using pc by auto
    moreover have "u \<noteq> t" using d pc by auto
    ultimately show "\<exists>d. (pc(t := W_UnlockM p1)) u = W_Test d \<and>
      (flag_at h' d 0 u \<or> (\<exists>v. wake_pc ((pc(t := W_UnlockM p1)) v) = Some u))"
      using keep by (metis fun_upd_other)
  qed
  have 6: "\<forall>u d. (pc(t := W_UnlockM p1)) u = W_Free d \<longrightarrow> flag_at h' d 1 u"
    using q keep by (auto simp: qinv_def)
  from rep' 1 2 3 4 5 6 have "qinv K c' h' k (pc(t := W_UnlockM p1)) ((p2, p1, t) # es)"
    unfolding qinv_def by blast
  with c' init show ?thesis by simp
qed

lemma qinvI:
  assumes "queue_rep c h es" "\<And>e. e \<in> set es \<Longrightarrow> rec_pc (pc (tid_of e)) = Some (data_of e)"
    and "\<And>t d. rec_pc (pc t) = Some d \<Longrightarrow> d \<noteq> 0 \<and>
        (flag_at h d 1 t \<or> flag_at h d 0 t \<and> (d \<in> data_of ` set es \<or> (\<exists>u. mark_pc (pc u) = Some d)))"
    and "\<And>u d. mark_pc (pc u) = Some d \<Longrightarrow>
        d \<notin> data_of ` set es \<and> (\<exists>t. rec_pc (pc t) = Some d \<and> flag_at h d 0 t)"
    and "\<And>t. left_pc (pc t) \<le> length es"
    and "\<And>t. k_suspended K k t \<Longrightarrow>
        \<exists>d. pc t = W_Test d \<and> (flag_at h d 0 t \<or> (\<exists>u. wake_pc (pc u) = Some t))"
    and "\<And>t d. pc t = W_Free d \<Longrightarrow> flag_at h d 1 t"
  shows "qinv K c h k pc es"
  using assms unfolding qinv_def by blast

lemma qinv_queued_flag: "qinv K c h k pc es \<Longrightarrow> e \<in> set es \<Longrightarrow> flag_at h (data_of e) 0 (tid_of e)"
  using qinvD(1) [of K c h k pc es] by (simp add: queue_rep_def flag_at_def)

text \<open>No other thread is counting dequeues while one holds \<open>condMutex\<close>.\<close>

lemma left_alone:
  "guarded holds_c m pc \<Longrightarrow> holds_c (pc t) \<Longrightarrow> u \<noteq> t \<Longrightarrow> left_pc (pc u) = 0"
  using guarded_unique [of holds_c m pc t u] by (cases "pc u") auto

lemma mark_alone:
  "guarded holds_c m pc \<Longrightarrow> holds_c (pc t) \<Longrightarrow> mark_pc (pc u) = Some d \<Longrightarrow> u = t"
  using guarded_unique [of holds_c m pc t u] by (cases "pc u") auto

lemma wake_alone:
  "guarded holds_c m pc \<Longrightarrow> holds_c (pc t) \<Longrightarrow> wake_pc (pc u) = Some d \<Longrightarrow> u = t"
  using guarded_unique [of holds_c m pc t u] by (cases "pc u") auto

lemma qinv_take:
  assumes q: "qinv K c h k pc es" and pc: "pc t = K_Loop (Suc n) b" and g: "guarded holds_c m pc"
  shows "\<exists>d l h' es'. cond_take c h = Ret (d, c\<lparr>cd_list := l\<rparr>, h') \<and>
    qinv K (c\<lparr>cd_list := l\<rparr>) h' k (pc(t := K_Mark n d b)) es'"
proof -
  have "es \<noteq> []" using qinvD(5) [OF q, of t] pc by auto
  then obtain es' e where es: "es = es' @ [e]" by (cases es rule: rev_cases) auto
  have rep: "queue_rep c h (es' @ [e])" using qinvD(1) [OF q] es by simp
  from cond_take_rep [OF rep] obtain l h' where
    run: "cond_take c h = Ret (data_of e, c\<lparr>cd_list := l\<rparr>, h')" and
    rep': "queue_rep (c\<lparr>cd_list := l\<rparr>) h' es'" and
    fr: "\<forall>a. a \<noteq> at e \<and> a \<notin> at ` set es' \<longrightarrow> h' a = h a" by blast
  have keep: "flag_at h' d v u" if "flag_at h d v u" for d v u
    using that fr flag_not_node [OF rep that] by (auto simp: flag_at_def)
  have out: "data_of e \<notin> data_of ` set es'" using rep by (auto simp: queue_rep_def)
  have own: "rec_pc (pc (tid_of e)) = Some (data_of e)" "flag_at h (data_of e) 0 (tid_of e)"
    using qinvD(2) [OF q, of e] qinv_queued_flag [OF q, of e] es by auto
  have nm: "mark_pc (pc u) \<noteq> Some d" for u d
    using mark_alone [OF g, of t u d] pc by auto
  let ?pc = "pc(t := K_Mark n (data_of e) b)"
  have rec: "rec_pc (?pc u) = rec_pc (pc u)" for u using pc by simp
  have mk: "mark_pc (?pc t) = Some (data_of e)" by simp
  have "qinv K (c\<lparr>cd_list := l\<rparr>) h' k ?pc es'"
  proof (rule qinvI, unfold rec)
    fix u d assume "rec_pc (pc u) = Some d"
    from qinvD(3) [OF q this] nm es keep mk
    show "d \<noteq> 0 \<and> (flag_at h' d 1 u \<or> flag_at h' d 0 u \<and>
        (d \<in> data_of ` set es' \<or> (\<exists>u. mark_pc (?pc u) = Some d)))" by auto
  next
    fix u d assume "mark_pc (?pc u) = Some d"
    with nm have d: "d = data_of e" by (auto split: if_splits)
    have "flag_at h' (data_of e) 0 (tid_of e)" using own(2) by (rule keep)
    with out own(1) show "d \<notin> data_of ` set es' \<and> (\<exists>v. rec_pc (pc v) = Some d \<and> flag_at h' d 0 v)"
      unfolding d by blast
  next
    fix u show "left_pc (?pc u) \<le> length es'"
      using qinvD(5) [OF q, of t] left_alone [OF g, of t u] pc es by auto
  next
    fix u assume "k_suspended K k u"
    from qinvD(6) [OF q this] pc wake_alone [OF g, of t _ u] keep
    show "\<exists>d. ?pc u = W_Test d \<and> (flag_at h' d 0 u \<or> (\<exists>v. wake_pc (?pc v) = Some u))"
      by fastforce
  next
    fix u d assume "?pc u = W_Free d"
    then show "flag_at h' d 1 u" using qinvD(7) [OF q] keep by (auto split: if_splits)
  qed (use rep' qinvD(2) [OF q] es in auto)
  with run show ?thesis by blast
qed

lemma qinv_mark:
  assumes q: "qinv K c h k pc es" and pc: "pc t = K_Mark n d b" and g: "guarded holds_c m pc"
  shows "\<exists>u. cond_mark d h = Ret (u, h(d \<mapsto> TCond \<lparr>tc_waitFlag = 1, tc_threadID = u\<rparr>)) \<and>
    rec_pc (pc u) = Some d \<and>
    qinv K c (h(d \<mapsto> TCond \<lparr>tc_waitFlag = 1, tc_threadID = u\<rparr>)) k (pc(t := K_Wake n u b)) es"
proof -
  from qinvD(4) [OF q, of t d] pc obtain u where
    u: "d \<notin> data_of ` set es" "rec_pc (pc u) = Some d" "flag_at h d 0 u" by auto
  let ?h = "h(d \<mapsto> TCond \<lparr>tc_waitFlag = 1, tc_threadID = u\<rparr>)"
  let ?pc = "pc(t := K_Wake n u b)"
  have run: "cond_mark d h = Ret (u, ?h)"
    using u(3) by (simp add: flag_at_def cond_mark_eq)
  have rec: "rec_pc (?pc v) = rec_pc (pc v)" for v using pc by simp
  have rep: "queue_rep c ?h es"
    using queue_rep_upd_other [OF qinvD(1) [OF q] u(1)] flag_not_node [OF qinvD(1) [OF q] u(3)] by blast
  have at_d: "flag_at ?h d 1 u" by (simp add: flag_at_def)
  have keep: "flag_at ?h a v w" if "flag_at h a v w" "a \<noteq> d" for a v w
    using that by (simp add: flag_at_def)
  have nm: "mark_pc (?pc v) \<noteq> Some a" for v a
    using mark_alone [OF g, of t v a] pc by auto
  have own: "w = u" if "flag_at h d v w" for v w using that u(3) flag_at_fun by blast
  have "qinv K c ?h k ?pc es"
  proof (rule qinvI, unfold rec)
    fix v a assume r: "rec_pc (pc v) = Some a"
    note * = qinvD(3) [OF q r]
    show "a \<noteq> 0 \<and> (flag_at ?h a 1 v \<or> flag_at ?h a 0 v \<and>
        (a \<in> data_of ` set es \<or> (\<exists>w. mark_pc (?pc w) = Some a)))"
    proof (cases "a = d")
      case True
      with * own at_d show ?thesis by blast
    next
      case False
      moreover have "mark_pc (pc w) = Some a \<Longrightarrow> a = d" for w
        using mark_alone [OF g, of t w a] pc by auto
      ultimately show ?thesis using * keep by blast
    qed
  next
    fix v show "left_pc (?pc v) \<le> length es" using qinvD(5) [OF q, of v] pc by auto
  next
    fix v assume "k_suspended K k v"
    from qinvD(6) [OF q this] obtain a where
      a: "pc v = W_Test a" "flag_at h a 0 v \<or> (\<exists>w. wake_pc (pc w) = Some v)" by blast
    have "wake_pc (pc w) \<noteq> Some v" for w using wake_alone [OF g, of t w v] pc by auto
    with a have "flag_at h a 0 v" by blast
    then have "flag_at ?h a 0 v \<or> wake_pc (?pc t) = Some v"
      using keep own by (cases "a = d") auto
    with a(1) pc show "\<exists>a. ?pc v = W_Test a \<and> (flag_at ?h a 0 v \<or> (\<exists>w. wake_pc (?pc w) = Some v))"
      by fastforce
  next
    fix v a assume "?pc v = W_Free a"
    then have "flag_at h a 1 v" using qinvD(7) [OF q] by (auto split: if_splits)
    then show "flag_at ?h a 1 v" using keep own at_d by (cases "a = d") auto
  qed (use rep nm qinvD(2) [OF q] in auto)
  with run u(2) show ?thesis by blast
qed

lemma qinv_free:
  assumes q: "qinv K c h k pc es" and pc: "pc t = W_Free d"
  shows "c_free d h = Ret (h(d := None)) \<and> qinv K c (h(d := None)) k (pc(t := W_Relock)) es"
proof
  have set1: "flag_at h d 1 t" and nz: "d \<noteq> 0"
    using qinvD(7) [OF q pc] qinvD(3) [OF q, of t d] pc by auto
  then show "c_free d h = Ret (h(d := None))" by (auto simp: flag_at_def outcome_simps)
  have own: "v = 1 \<and> w = t" if "flag_at h d v w" for v w using that set1 flag_at_fun by blast
  have keep: "flag_at (h(d := None)) a v w" if "flag_at h a v w" "a \<noteq> d" for a v w
    using that by (simp add: flag_at_def)
  have out: "d \<notin> data_of ` set es"
    using qinv_queued_flag [OF q] own by fastforce
  have nott: "tid_of e \<noteq> t" if "e \<in> set es" for e
    using qinvD(2) [OF q that] out that pc by auto
  let ?pc = "pc(t := W_Relock)"
  have mk: "mark_pc (?pc u) = mark_pc (pc u)" "wake_pc (?pc u) = wake_pc (pc u)" for u using pc by simp_all
  show "qinv K c (h(d := None)) k ?pc es"
  proof (rule qinvI, unfold mk)
    show "queue_rep c (h(d := None)) es"
      using queue_rep_upd_other [OF qinvD(1) [OF q] out] flag_not_node [OF qinvD(1) [OF q] set1] by blast
  next
    fix u a assume "rec_pc (?pc u) = Some a"
    then have ut: "rec_pc (pc u) = Some a" "u \<noteq> t" by (auto split: if_splits)
    note * = qinvD(3) [OF q ut(1)]
    then have "a \<noteq> d" using own ut(2) by blast
    with * keep show "a \<noteq> 0 \<and> (flag_at (h(d := None)) a 1 u \<or> flag_at (h(d := None)) a 0 u \<and>
        (a \<in> data_of ` set es \<or> (\<exists>w. mark_pc (pc w) = Some a)))" by blast
  next
    fix u a assume "mark_pc (pc u) = Some a"
    from qinvD(4) [OF q this] obtain v where
      v: "a \<notin> data_of ` set es" "rec_pc (pc v) = Some a" "flag_at h a 0 v" by blast
    then have "a \<noteq> d" using own by fastforce
    with v(2) pc have "v \<noteq> t" by auto
    with v keep \<open>a \<noteq> d\<close>
    show "a \<notin> data_of ` set es \<and> (\<exists>v. rec_pc (?pc v) = Some a \<and> flag_at (h(d := None)) a 0 v)"
      by (metis fun_upd_other)
  next
    fix u show "left_pc (?pc u) \<le> length es" using qinvD(5) [OF q, of u] by auto
  next
    fix u assume "k_suspended K k u"
    from qinvD(6) [OF q this] obtain a where
      a: "pc u = W_Test a" "flag_at h a 0 u \<or> (\<exists>v. wake_pc (pc v) = Some u)" by blast
    then have "u \<noteq> t" "flag_at h a 0 u \<Longrightarrow> a \<noteq> d" using pc own by fastforce+
    with a keep show "\<exists>a. ?pc u = W_Test a \<and> (flag_at (h(d := None)) a 0 u \<or> (\<exists>v. wake_pc (pc v) = Some u))"
      by fastforce
  next
    fix u a assume "?pc u = W_Free a"
    then have "flag_at h a 1 u" "u \<noteq> t" using qinvD(7) [OF q] by (auto split: if_splits)
    moreover from this have "a \<noteq> d" using own by blast
    ultimately show "flag_at (h(d := None)) a 1 u" using keep by blast
  qed (use qinvD(2) [OF q] nott in auto)
qed

lemma qinv_deschedule:
  assumes q: "qinv K c h k pc es" and pc: "pc t = W_Desch d" and K: "kernel_ok K"
  shows "\<exists>tc. get_tcond h d = Ret tc \<and>
    qinv K c h (k_deschedule K t (tc_waitFlag tc) k) (pc(t := W_Test d)) es"
proof -
  from qinvD(3) [OF q, of t d] pc obtain v where v: "flag_at h d v t" by auto
  let ?pc = "pc(t := W_Test d)"
  have mk: "mark_pc (?pc u) = mark_pc (pc u)" "wake_pc (?pc u) = wake_pc (pc u)"
    "rec_pc (?pc u) = rec_pc (pc u)" for u using pc by simp_all
  have "qinv K c h (k_deschedule K t v k) ?pc es"
  proof (rule qinvI, unfold mk kernel_ok_deschedule [OF K])
    fix u show "left_pc (?pc u) \<le> length es" using qinvD(5) [OF q, of u] by auto
  next
    fix u assume "k_suspended K k u \<or> u = t \<and> v = 0"
    then show "\<exists>a. ?pc u = W_Test a \<and> (flag_at h a 0 u \<or> (\<exists>w. wake_pc (pc w) = Some u))"
      using qinvD(6) [OF q, of u] pc v by auto
  next
    fix u a assume "?pc u = W_Free a"
    then show "flag_at h a 1 u" using qinvD(7) [OF q] by (auto split: if_splits)
  qed (use qinvD(1-4) [OF q] in blast)+
  moreover have "get_tcond h d = Ret \<lparr>tc_waitFlag = v, tc_threadID = t\<rparr>"
    using v by (simp add: flag_at_def)
  ultimately show ?thesis by (metis thread_cond.select_convs(1))
qed

lemma qinv_wake:
  assumes q: "qinv K c h k pc es" and pc: "pc t = K_Wake n u b" and K: "kernel_ok K"
    and g: "guarded holds_c m pc"
  shows "qinv K c h (snd (k_make_runnable K u k)) (pc(t := K_Loop n b)) es"
proof -
  let ?pc = "pc(t := K_Loop n b)"
  have mk: "mark_pc (?pc u) = mark_pc (pc u)" "rec_pc (?pc u) = rec_pc (pc u)"
    "left_pc (?pc u) = left_pc (pc u)" for u using pc by simp_all
  show ?thesis
  proof (rule qinvI, unfold mk kernel_ok_make_runnable [OF K])
    fix v assume s: "k_suspended K k v \<and> v \<noteq> u"
    have "wake_pc (pc w) \<noteq> Some v" for w using wake_alone [OF g, of t w v] pc s by auto
    with s qinvD(6) [OF q, of v] pc
    show "\<exists>a. ?pc v = W_Test a \<and> (flag_at h a 0 v \<or> (\<exists>w. wake_pc (?pc w) = Some v))" by auto
  next
    fix u a assume "?pc u = W_Free a"
    then show "flag_at h a 1 u" using qinvD(7) [OF q] by (auto split: if_splits)
  qed (use qinvD(1-5) [OF q] in blast)+
qed

section \<open>Every step keeps the invariant\<close>

lemma cs_inv_suspended: "cs_inv K s \<Longrightarrow> k_suspended K (cs_k s) t \<Longrightarrow> \<exists>d. cs_pc s t = W_Test d"
  using qinvD(6) by (fastforce simp: cs_inv_def)

text \<open>A step that at most takes or releases a mutex and touches nothing else.\<close>

lemma cs_inv_move:
  assumes "cs_inv K s" and "\<And>d. cs_pc s t \<noteq> W_Test d"
    and "guarded holds_c cm ((cs_pc s)(t := y))" "guarded holds_m m ((cs_pc s)(t := y))"
    and "rec_pc y = rec_pc (cs_pc s t)" "mark_pc y = mark_pc (cs_pc s t)" "wake_pc y = wake_pc (cs_pc s t)"
    and "left_pc y = 0" "\<And>d. y \<noteq> W_Free d"
  shows "cs_inv K (goto (set_cm (s\<lparr>cs_m := m\<rparr>) cm) t y)"
proof -
  from assms(1) obtain es where es: "qinv K (cs_c s) (cs_h s) (cs_k s) (cs_pc s) es" by (auto simp: cs_inv_def)
  have "\<not> k_suspended K (cs_k s) t" using cs_inv_suspended [OF assms(1)] assms(2) by blast
  with assms(5-9) have "qinv K (cs_c s) (cs_h s) (cs_k s) ((cs_pc s)(t := y)) es"
    by (intro qinv_goto [OF es]) auto
  with assms(1,3,4) show ?thesis by (auto simp: cs_inv_def)
qed

lemma cs_inv_guards: "cs_inv K s \<Longrightarrow> guarded holds_c (cs_cm s) (cs_pc s) \<and> guarded holds_m (cs_m s) (cs_pc s)"
  by (simp add: cs_inv_def)

lemma set_cm_same: "set_cm s (cs_cm s) = s"
  by (cases s) simp

lemma set_m_same: "s\<lparr>cs_m := cs_m s\<rparr> = s"
  by (cases s) simp

lemma cs_inv_goto_m:
  assumes "cs_inv K s" "\<And>d. cs_pc s t \<noteq> W_Test d"
    and "holds_c y = holds_c (cs_pc s t)" "guarded holds_m m ((cs_pc s)(t := y))"
    and "rec_pc y = rec_pc (cs_pc s t)" "mark_pc y = mark_pc (cs_pc s t)" "wake_pc y = wake_pc (cs_pc s t)"
    and "left_pc y = 0" "\<And>d. y \<noteq> W_Free d"
  shows "cs_inv K (goto (s\<lparr>cs_m := m\<rparr>) t y)"
proof -
  have "guarded holds_c (cs_cm s) ((cs_pc s)(t := y))"
    using cs_inv_guards [OF assms(1)] assms(3) by (intro guarded_keep) auto
  from cs_inv_move [OF assms(1,2) this assms(4-9)] set_cm_same [of "s\<lparr>cs_m := m\<rparr>"]
  show ?thesis by (simp del: fun_upd_apply)
qed

lemma cs_inv_goto_c:
  assumes "cs_inv K s" "\<And>d. cs_pc s t \<noteq> W_Test d"
    and "guarded holds_c m ((cs_pc s)(t := y))" "holds_m y = holds_m (cs_pc s t)"
    and "rec_pc y = rec_pc (cs_pc s t)" "mark_pc y = mark_pc (cs_pc s t)" "wake_pc y = wake_pc (cs_pc s t)"
    and "left_pc y = 0" "\<And>d. y \<noteq> W_Free d"
  shows "cs_inv K (goto (set_cm s m) t y)"
proof -
  have "guarded holds_m (cs_m s) ((cs_pc s)(t := y))"
    using cs_inv_guards [OF assms(1)] assms(4) by (intro guarded_keep) auto
  from cs_inv_move [OF assms(1,2,3) this assms(5-9)] show ?thesis
    by (simp add: set_m_same del: fun_upd_apply)
qed

lemma cs_inv_goto:
  assumes "cs_inv K s" "\<And>d. cs_pc s t \<noteq> W_Test d"
    and "holds_c y = holds_c (cs_pc s t)" "holds_m y = holds_m (cs_pc s t)"
    and "rec_pc y = rec_pc (cs_pc s t)" "mark_pc y = mark_pc (cs_pc s t)" "wake_pc y = wake_pc (cs_pc s t)"
    and "left_pc y = 0" "\<And>d. y \<noteq> W_Free d"
  shows "cs_inv K (goto s t y)"
proof -
  have "guarded holds_m (cs_m s) ((cs_pc s)(t := y))"
    using cs_inv_guards [OF assms(1)] assms(4) by (intro guarded_keep) auto
  from cs_inv_goto_m [OF assms(1-3) this assms(5-9)] show ?thesis
    by (simp add: set_m_same del: fun_upd_apply)
qed

lemma after_lock_c_points:
  "after_lock_c p = Some y \<Longrightarrow> holds_c y \<and> \<not> holds_c p \<and> holds_m y = holds_m p \<and> rec_pc y = None \<and>
    rec_pc p = None \<and> mark_pc y = None \<and> mark_pc p = None \<and> wake_pc y = None \<and> wake_pc p = None \<and>
    left_pc y = 0 \<and> left_pc p = 0 \<and> (\<forall>d. y \<noteq> W_Free d \<and> p \<noteq> W_Test d \<and> p \<noteq> W_Free d)"
  by (cases p) auto

lemma lock_m_points:
  "lock_m_pc p \<Longrightarrow> \<not> holds_m p \<and> \<not> holds_c p \<and> rec_pc p = None \<and> mark_pc p = None \<and> wake_pc p = None \<and>
    left_pc p = 0 \<and> (\<forall>d. p \<noteq> W_Test d \<and> p \<noteq> W_Free d)"
  by (auto simp: lock_m_pc_def)

lemma caller_points [simp]:
  "holds_m (caller b) = b" "\<not> holds_c (caller b)" "rec_pc (caller b) = None" "mark_pc (caller b) = None"
  "wake_pc (caller b) = None" "left_pc (caller b) = 0" "caller b \<noteq> W_Free d" "caller b \<noteq> W_Test d"
  by (simp_all add: caller_def)

lemma broadcast_rounds_le: "broadcast_rounds (of_nat n) \<le> n"
  by (simp add: broadcast_rounds_def unat_of_nat)

lemma cs_inv_lock_m:
  assumes i: "cs_inv K s" and p: "lock_m_pc (cs_pc s t)" and l: "lock_try (cs_m s) = (busy, m)"
  shows "cs_inv K (goto (s\<lparr>cs_m := m\<rparr>) t (if busy then cs_pc s t else C_Own))"
proof -
  note g = cs_inv_guards [OF i] and pts = lock_m_points [OF p]
  have "guarded holds_m m ((cs_pc s)(t := (if busy then cs_pc s t else C_Own)))"
    using g l pts by (cases busy) (auto intro: guarded_try dest: guarded_busy simp del: fun_upd_apply)
  moreover have "guarded holds_c (cs_cm s) ((cs_pc s)(t := (if busy then cs_pc s t else C_Own)))"
    using g pts by (intro guarded_keep) auto
  ultimately show ?thesis using i pts by (intro cs_inv_goto_m) (auto simp del: fun_upd_apply)
qed

lemma cs_inv_lock_c:
  assumes i: "cs_inv K s" and p: "after_lock_c (cs_pc s t) = Some y" and l: "lock_try (cs_cm s) = (busy, m)"
  shows "cs_inv K (goto (set_cm s m) t (if busy then cs_pc s t else y))"
proof -
  note g = cs_inv_guards [OF i] and pts = after_lock_c_points [OF p]
  have "guarded holds_c m ((cs_pc s)(t := (if busy then cs_pc s t else y)))"
    using g l pts by (cases busy) (auto intro: guarded_try dest: guarded_busy simp del: fun_upd_apply)
  moreover have "guarded holds_m (cs_m s) ((cs_pc s)(t := (if busy then cs_pc s t else y)))"
    using g pts by (intro guarded_keep) auto
  ultimately show ?thesis using i pts by (intro cs_inv_goto_c) (auto simp del: fun_upd_apply)
qed

lemma cs_inv_unlock_m:
  assumes i: "cs_inv K s" and p: "holds_m (cs_pc s t)" "\<not> holds_m y" and l: "mutex_unlock (cs_m s) = Ret m"
    and e: "\<And>d. cs_pc s t \<noteq> W_Test d" "holds_c y = holds_c (cs_pc s t)"
      "rec_pc y = rec_pc (cs_pc s t)" "mark_pc y = mark_pc (cs_pc s t)" "wake_pc y = wake_pc (cs_pc s t)"
      "left_pc y = 0" "\<And>d. y \<noteq> W_Free d"
  shows "cs_inv K (goto (s\<lparr>cs_m := m\<rparr>) t y)"
proof -
  note g = cs_inv_guards [OF i]
  with guarded_unlock [of holds_m "cs_m s" "cs_pc s" t y] p l
  have "guarded holds_m m ((cs_pc s)(t := y))" by (simp del: fun_upd_apply)
  moreover have "guarded holds_c (cs_cm s) ((cs_pc s)(t := y))" using g e by (intro guarded_keep) auto
  ultimately show ?thesis using cs_inv_goto_m [OF i e(1,2) _ e(3-7)] by blast
qed

lemma cs_inv_unlock_c:
  assumes i: "cs_inv K s" and p: "holds_c (cs_pc s t)" "\<not> holds_c y" and l: "mutex_unlock (cs_cm s) = Ret m"
    and e: "\<And>d. cs_pc s t \<noteq> W_Test d" "holds_m y = holds_m (cs_pc s t)"
      "rec_pc y = rec_pc (cs_pc s t)" "mark_pc y = mark_pc (cs_pc s t)" "wake_pc y = wake_pc (cs_pc s t)"
      "left_pc y = 0" "\<And>d. y \<noteq> W_Free d"
  shows "cs_inv K (goto (set_cm s m) t y)"
proof -
  note g = cs_inv_guards [OF i]
  with guarded_unlock [of holds_c "cs_cm s" "cs_pc s" t y] p l
  have "guarded holds_c m ((cs_pc s)(t := y))" by (simp del: fun_upd_apply)
  moreover have "guarded holds_m (cs_m s) ((cs_pc s)(t := y))" using g e by (intro guarded_keep) auto
  ultimately show ?thesis using cs_inv_goto_c [OF i e(1) _ e(2-7)] by blast
qed

text \<open>A step that changes the queue, a record or the kernel.\<close>

lemma cs_inv_queue:
  assumes "cs_inv K s" "holds_c y = holds_c (cs_pc s t)" "holds_m y = holds_m (cs_pc s t)"
    and "cd_initializeFlag c = 1" "cd_condMutex c = cs_cm s" "qinv K c h k ((cs_pc s)(t := y)) es"
  shows "cs_inv K (goto (s\<lparr>cs_c := c, cs_h := h, cs_k := k\<rparr>) t y)"
  using assms by (auto simp: cs_inv_def intro: guarded_keep)

lemma cs_inv_queueE:
  assumes "cs_inv K s"
  obtains es where "cd_initializeFlag (cs_c s) = 1" "guarded holds_c (cs_cm s) (cs_pc s)"
    "guarded holds_m (cs_m s) (cs_pc s)" "qinv K (cs_c s) (cs_h s) (cs_k s) (cs_pc s) es"
  using assms by (auto simp: cs_inv_def)

lemma cs_same: "s\<lparr>cs_c := cs_c s\<rparr> = s" "s\<lparr>cs_h := cs_h s\<rparr> = s" "s\<lparr>cs_k := cs_k s\<rparr> = s"
  by (cases s, simp)+

text \<open>A thread that has read a non-zero \<open>waitFlag\<close> leaves the loop.\<close>

lemma cs_inv_test:
  assumes i: "cs_inv K s" and pc: "cs_pc s t = W_Test d" and run: "\<not> k_suspended K (cs_k s) t"
    and b: "cond_wait_blocked d (cs_h s) = Ret b"
  shows "cs_inv K (goto s t (if b then W_Desch d else W_Free d))"
proof -
  from i obtain es where q: "qinv K (cs_c s) (cs_h s) (cs_k s) (cs_pc s) es"
    and g: "guarded holds_c (cs_cm s) (cs_pc s)" "guarded holds_m (cs_m s) (cs_pc s)"
    and init: "cd_initializeFlag (cs_c s) = 1" by (rule cs_inv_queueE)
  let ?y = "if b then W_Desch d else W_Free d"
  have "\<not> b \<Longrightarrow> flag_at (cs_h s) d 1 t"
    using qinvD(3) [OF q, of t d] pc b by (auto simp: cond_wait_blocked_def flag_at_def outcome_simps)
  then have "qinv K (cs_c s) (cs_h s) (cs_k s) ((cs_pc s)(t := ?y)) es"
    using pc run by (intro qinv_goto [OF q]) (auto split: if_splits)
  moreover have "guarded holds_c (cs_cm s) ((cs_pc s)(t := ?y))" "guarded holds_m (cs_m s) ((cs_pc s)(t := ?y))"
    using pc by (auto intro!: guarded_keep g simp del: fun_upd_apply)
  ultimately show ?thesis using init by (auto simp: cs_inv_def simp del: fun_upd_apply)
qed

text \<open>The number of dequeues a signaller plans never exceeds the number of waiters.\<close>

lemma cs_inv_plan:
  assumes i: "cs_inv K s" and pc: "cs_pc s t = S_Check b \<or> cs_pc s t = B_Check b"
    and n: "n \<le> broadcast_rounds (l_count (cd_list (cs_c s))) \<or> n = 1 \<and> l_count (cd_list (cs_c s)) \<noteq> 0"
  shows "cs_inv K (goto s t (K_Loop n b))"
proof -
  from i obtain es where q: "qinv K (cs_c s) (cs_h s) (cs_k s) (cs_pc s) es"
    and g: "guarded holds_c (cs_cm s) (cs_pc s)" "guarded holds_m (cs_m s) (cs_pc s)"
    and init: "cd_initializeFlag (cs_c s) = 1" by (rule cs_inv_queueE)
  note rep = queue_rep_list [OF qinvD(1) [OF q]]
  have "l_count (cd_list (cs_c s)) = of_nat (length es)" using rep by (simp add: list_rep_def)
  then have "n \<le> length es"
    using n broadcast_rounds_le [of "length es"] list_rep_count0 [OF rep] by (cases es) auto
  moreover have "\<not> k_suspended K (cs_k s) t" using cs_inv_suspended [OF i, of t] pc by auto
  ultimately have "qinv K (cs_c s) (cs_h s) (cs_k s) ((cs_pc s)(t := K_Loop n b)) es"
    using pc by (intro qinv_goto [OF q]) auto
  moreover have "guarded holds_c (cs_cm s) ((cs_pc s)(t := K_Loop n b))"
    "guarded holds_m (cs_m s) ((cs_pc s)(t := K_Loop n b))"
    using pc by (auto intro!: guarded_keep g simp del: fun_upd_apply)
  ultimately show ?thesis using init by (auto simp: cs_inv_def simp del: fun_upd_apply)
qed

lemma cs_inv_step:
  assumes "cstep K t s s'" and K: "kernel_ok K" and inv: "cs_inv K s"
  shows "cs_inv K s'"
  using assms(1)
proof cases
  case (c_lock_m busy m)
  then show ?thesis using cs_inv_lock_m [OF inv] by simp
next
  case (c_lock_c p busy m)
  then show ?thesis using cs_inv_lock_c [OF inv] by simp
next
  case (c_unlock m)
  then show ?thesis using cs_inv_unlock_m [OF inv, of t C_Out m] by simp
next
  case (w_unlock_m d m)
  then show ?thesis using cs_inv_unlock_m [OF inv, of t "W_UnlockC d" m] by simp
next
  case (w_unlock_c d m)
  then show ?thesis using cs_inv_unlock_c [OF inv, of t "W_Test d" m] by simp
next
  case (k_unlock b m)
  then show ?thesis using cs_inv_unlock_c [OF inv, of t "caller b" m] by simp
next
  case (w_test d b)
  then show ?thesis using cs_inv_test [OF inv] by simp
next
  case (s_check b)
  show ?thesis
  proof (cases "l_count (cd_list (cs_c s)) = 0")
    case True
    with s_check show ?thesis using cs_inv_goto [OF inv, of t "K_Unlock b"] by simp
  next
    case False
    with s_check show ?thesis using cs_inv_plan [OF inv, of t b 1] by simp
  qed
next
  case (b_check b)
  then show ?thesis using cs_inv_plan [OF inv, of t b] by simp
next
  case (w_body p1 p2 c h)
  from inv obtain es where "qinv K (cs_c s) (cs_h s) (cs_k s) (cs_pc s) es" "cd_initializeFlag (cs_c s) = 1"
    by (rule cs_inv_queueE)
  from qinv_body [OF this(1) _ this(2), of t p1 p2 c h] w_body
  show ?thesis using cs_inv_queue [OF inv, of "W_UnlockM p1" t c h "cs_k s" "(p2, p1, t) # es"]
    by (simp add: cs_same del: fun_upd_apply)
next
  case (w_deschedule d tc)
  from inv obtain es where "qinv K (cs_c s) (cs_h s) (cs_k s) (cs_pc s) es" "cd_initializeFlag (cs_c s) = 1"
    by (rule cs_inv_queueE)
  with qinv_deschedule [OF this(1), of t d] K w_deschedule
  show ?thesis using cs_inv_queue [OF inv, of "W_Test d" t "cs_c s" "cs_h s" _ es]
    by (simp add: cs_same del: fun_upd_apply)
next
  case (w_free d h)
  from inv obtain es where "qinv K (cs_c s) (cs_h s) (cs_k s) (cs_pc s) es" "cd_initializeFlag (cs_c s) = 1"
    by (rule cs_inv_queueE)
  with qinv_free [OF this(1), of t d] w_free
  show ?thesis using cs_inv_queue [OF inv, of W_Relock t "cs_c s" h "cs_k s" es]
    by (simp add: cs_same del: fun_upd_apply)
next
  case (k_take n b d c h)
  from inv obtain es where "qinv K (cs_c s) (cs_h s) (cs_k s) (cs_pc s) es"
    "guarded holds_c (cs_cm s) (cs_pc s)" "cd_initializeFlag (cs_c s) = 1"
    by (rule cs_inv_queueE)
  with qinv_take [OF this(1) _ this(2), of t n b] k_take
  show ?thesis using cs_inv_queue [OF inv, of "K_Mark n d b" t c h "cs_k s"]
    by (auto simp: cs_same simp del: fun_upd_apply)
next
  case (k_mark n d b u h)
  from inv obtain es where "qinv K (cs_c s) (cs_h s) (cs_k s) (cs_pc s) es"
    "guarded holds_c (cs_cm s) (cs_pc s)" "cd_initializeFlag (cs_c s) = 1"
    by (rule cs_inv_queueE)
  with qinv_mark [OF this(1) _ this(2), of t n d b] k_mark
  show ?thesis using cs_inv_queue [OF inv, of "K_Wake n u b" t "cs_c s" h "cs_k s" es]
    by (auto simp: cs_same simp del: fun_upd_apply)
next
  case (k_wake n u b)
  from inv obtain es where "qinv K (cs_c s) (cs_h s) (cs_k s) (cs_pc s) es"
    "guarded holds_c (cs_cm s) (cs_pc s)" "cd_initializeFlag (cs_c s) = 1"
    by (rule cs_inv_queueE)
  with qinv_wake [OF this(1) _ K this(2), of t n u b] k_wake
  show ?thesis using cs_inv_queue [OF inv, of "K_Loop n b" t "cs_c s" "cs_h s" _ es]
    by (simp add: cs_same del: fun_upd_apply)
next
  case c_lock
  then show ?thesis using cs_inv_goto [OF inv, of t C_LockM] by simp
next
  case c_wait
  then show ?thesis using cs_inv_goto [OF inv, of t W_LockC] by simp
next
  case (c_signal b)
  then show ?thesis using cs_inv_goto [OF inv, of t "S_LockC b"] by simp
next
  case (c_broadcast b)
  then show ?thesis using cs_inv_goto [OF inv, of t "B_LockC b"] by simp
next
  case (k_done b)
  then show ?thesis using cs_inv_goto [OF inv, of t "K_Unlock b"] by simp
qed

section \<open>Reachable states\<close>

definition cs_start :: "'k kernel \<Rightarrow> 'k csys \<Rightarrow> bool" where
  "cs_start K s \<longleftrightarrow> (\<exists>c. cond_init (Some c) = (0, Some (cs_c s))) \<and> mx_free (cs_m s) \<and>
     (\<forall>t. cs_pc s t = C_Out) \<and> (\<forall>t. \<not> k_suspended K (cs_k s) t)"

inductive creach :: "'k kernel \<Rightarrow> 'k csys \<Rightarrow> bool" for K :: "'k kernel" where
  creach_start: "cs_start K s \<Longrightarrow> creach K s"
| creach_step: "creach K s \<Longrightarrow> cstep K t s s' \<Longrightarrow> creach K s'"

lemma cs_inv_start: "cs_start K s \<Longrightarrow> cs_inv K s"
proof -
  assume a: "cs_start K s"
  then obtain c where c: "cond_init (Some c) = (0, Some (cs_c s))" by (auto simp: cs_start_def)
  with cond_init_rep [of c "cs_h s"] have "cond_rep (cs_c s) (cs_h s) []" by auto
  with a show ?thesis
    by (auto simp: cs_start_def cs_inv_def cond_rep_def guarded_def qinv_def intro!: exI [of _ "[]"])
qed

lemma creach_inv: "creach K s \<Longrightarrow> kernel_ok K \<Longrightarrow> cs_inv K s"
  by (induction rule: creach.induct) (auto intro: cs_inv_start cs_inv_step)

lemma cs_inv_no_failure:
  assumes "cs_inv K s" "kernel_ok K"
  shows "\<not> c_fails t s"
proof -
  from assms(1) obtain es where q: "qinv K (cs_c s) (cs_h s) (cs_k s) (cs_pc s) es"
    and gc: "guarded holds_c (cs_cm s) (cs_pc s)" and gm: "guarded holds_m (cs_m s) (cs_pc s)"
    and init: "cd_initializeFlag (cs_c s) = 1" by (rule cs_inv_queueE)
  have hc: "mutex_unlock (cs_cm s) \<noteq> Panic" if "holds_c (cs_pc s t)"
    using mutex_unlock_held [OF guarded_held [of holds_c, OF gc that]] by simp
  have hm: "mx_held (cs_m s)" if "holds_m (cs_pc s t)"
    using guarded_held [of holds_m, OF gm that] .
  have rec: "\<exists>v. get_tcond (cs_h s) d = Ret v" if "rec_pc (cs_pc s t) = Some d" for d
    using qinvD(3) [OF q that] by (auto simp: flag_at_def)
  show ?thesis
  proof (cases "cs_pc s t")
    case (W_UnlockM d)
    with hm show ?thesis by (simp add: c_fails_def mutex_unlock_held)
  next
    case (W_Test d)
    with rec show ?thesis by (auto simp: c_fails_def cond_wait_blocked_def get_tcond_eq)
  next
    case (W_Desch d)
    with rec show ?thesis by (auto simp: c_fails_def get_tcond_eq)
  next
    case (W_Free d)
    with qinv_free [OF q] show ?thesis by (simp add: c_fails_def)
  next
    case (K_Loop n b)
    with qinv_take [OF q _ gc, of t] show ?thesis by (cases n) (auto simp: c_fails_def)
  next
    case (K_Mark n d b)
    with qinv_mark [OF q _ gc, of t] show ?thesis by (auto simp: c_fails_def)
  qed (use init hc hm in \<open>auto simp: c_fails_def\<close>)
qed


text \<open>
  C1: no wakeup is lost. A thread that the kernel keeps suspended in \<open>cond_wait\<close> either has a
  signaller that is about to resume it, or its record is unset; and then the record is queued, or
  a signaller has just dequeued it. So when nobody is inside a signal or broadcast, every suspended
  thread is in the waiting queue, where the next signals find it.
\<close>

theorem cond_no_lost_wakeup:
  assumes "creach K s" "kernel_ok K" "k_suspended K (cs_k s) t"
  shows "\<exists>es d. queue_rep (cs_c s) (cs_h s) es \<and> cs_pc s t = W_Test d \<and>
    ((\<exists>u. wake_pc (cs_pc s u) = Some t) \<or>
     flag_at (cs_h s) d 0 t \<and> ((\<exists>p. (p, d, t) \<in> set es) \<or> (\<exists>u. mark_pc (cs_pc s u) = Some d)))"
proof -
  from creach_inv [OF assms(1,2)] obtain es where q: "qinv K (cs_c s) (cs_h s) (cs_k s) (cs_pc s) es"
    by (rule cs_inv_queueE)
  from qinvD(6) [OF q assms(3)] obtain d where
    d: "cs_pc s t = W_Test d" "flag_at (cs_h s) d 0 t \<or> (\<exists>u. wake_pc (cs_pc s u) = Some t)" by blast
  have "\<exists>p. (p, d, t) \<in> set es" if "flag_at (cs_h s) d 0 t" and m: "d \<in> data_of ` set es"
  proof -
    from m obtain e where e: "e \<in> set es" "d = data_of e" by blast
    with qinv_queued_flag [OF q e(1)] that(1) have "tid_of e = t" by (metis flag_at_fun)
    with e show ?thesis by (metis prod.collapse)
  qed
  moreover have "flag_at (cs_h s) d 0 t \<Longrightarrow> d \<in> data_of ` set es \<or> (\<exists>u. mark_pc (cs_pc s u) = Some d)"
    using qinvD(3) [OF q, of t d] d flag_at_fun [of "cs_h s" d 0 t 1 t] by auto
  ultimately show ?thesis using d qinvD(1) [OF q] by blast
qed

text \<open>
  C8: \<open>cond_wait\<close> returns only to a signalled thread. A thread past the while loop has its
  \<open>waitFlag\<close> set and its record is out of the queue; a thread whose record is still queued cannot
  leave the loop; and at most one thread at a time is outside \<open>cond_wait\<close> with \<open>m\<close> held.
\<close>

theorem cond_wait_needs_signal:
  assumes "creach K s" "kernel_ok K"
  shows "(\<forall>t d. cs_pc s t = W_Free d \<longrightarrow> flag_at (cs_h s) d 1 t \<and>
      (\<exists>es. queue_rep (cs_c s) (cs_h s) es \<and> d \<notin> data_of ` set es)) \<and>
    (\<forall>t u. holds_m (cs_pc s t) \<and> holds_m (cs_pc s u) \<longrightarrow> t = u)"
proof -
  from creach_inv [OF assms(1,2)] obtain es where q: "qinv K (cs_c s) (cs_h s) (cs_k s) (cs_pc s) es"
    and g: "guarded holds_m (cs_m s) (cs_pc s)" by (rule cs_inv_queueE)
  have "d \<notin> data_of ` set es" if "flag_at (cs_h s) d 1 t" for t d
    using qinv_queued_flag [OF q] flag_at_fun that by fastforce
  with qinvD(1,7) [OF q] guarded_unique [of holds_m, OF g] show ?thesis by blast
qed

text \<open>Progress of a thread that is about to unlock, and of one inside a signal or broadcast.\<close>

lemma progress_unlock:
  assumes "guarded holds_c (cs_cm s) (cs_pc s)" "guarded holds_m (cs_m s) (cs_pc s)"
    and "cs_pc s t = C_Own \<or> (\<exists>d. cs_pc s t = W_UnlockM d) \<or> (\<exists>d. cs_pc s t = W_UnlockC d) \<or> (\<exists>b. cs_pc s t = K_Unlock b)"
  shows "\<exists>s'. cstep K t s s'"
proof -
  have uc: "\<exists>m. mutex_unlock (cs_cm s) = Ret m" if "holds_c (cs_pc s t)"
    using mutex_unlock_held [OF guarded_held [of holds_c, OF assms(1) that]] by blast
  have um: "\<exists>m. mutex_unlock (cs_m s) = Ret m" if "holds_m (cs_pc s t)"
    using mutex_unlock_held [OF guarded_held [of holds_m, OF assms(2) that]] by blast
  from assms(3) show ?thesis
  proof (elim disjE exE)
    assume "cs_pc s t = C_Own"
    with um show ?thesis using c_unlock by fastforce
  next
    fix d assume "cs_pc s t = W_UnlockM d"
    with um show ?thesis using w_unlock_m by fastforce
  next
    fix d assume "cs_pc s t = W_UnlockC d"
    with uc show ?thesis using w_unlock_c by fastforce
  next
    fix b assume "cs_pc s t = K_Unlock b"
    with uc show ?thesis using k_unlock by fastforce
  qed
qed

lemma progress_signal:
  assumes q: "qinv K (cs_c s) (cs_h s) (cs_k s) (cs_pc s) es" and gc: "guarded holds_c (cs_cm s) (cs_pc s)"
    and init: "cd_initializeFlag (cs_c s) = 1"
    and "(\<exists>n b. cs_pc s t = K_Loop n b) \<or> (\<exists>n d b. cs_pc s t = K_Mark n d b) \<or> (\<exists>b. cs_pc s t = S_Check b) \<or>
      (\<exists>b. cs_pc s t = B_Check b) \<or> (\<exists>n u b. cs_pc s t = K_Wake n u b)"
  shows "\<exists>s'. cstep K t s s'"
  using assms(4)
proof (elim disjE exE)
  fix n b assume "cs_pc s t = K_Loop n b"
  then show ?thesis using qinv_take [OF q _ gc, of t] k_take k_done by (cases n) blast+
next
  fix n d b assume "cs_pc s t = K_Mark n d b"
  then show ?thesis using qinv_mark [OF q _ gc, of t] k_mark by blast
next
  fix b assume "cs_pc s t = S_Check b"
  then show ?thesis using s_check init by blast
next
  fix b assume "cs_pc s t = B_Check b"
  moreover have "cd_initializeFlag (cs_c s) \<noteq> 0" using init by simp
  ultimately show ?thesis using b_check by blast
next
  fix n u b assume "cs_pc s t = K_Wake n u b"
  then show ?thesis using k_wake by blast
qed


section \<open>A run\<close>

text \<open>Thread 4 locks \<open>m\<close>, calls \<open>cond_wait\<close> and is suspended by \<open>deschedule\<close>.\<close>

definition cs_demo :: "i32 list csys" where
  "cs_demo = \<lparr>cs_m = \<lparr>mx_lockFlag = 0, mx_initializeFlag = 1\<rparr>,
     cs_c = \<lparr>cd_initializeFlag = 1, cd_condMutex = \<lparr>mx_lockFlag = 0, mx_initializeFlag = 1\<rparr>,
             cd_list = \<lparr>l_head = 0, l_tail = 0, l_count = 0\<rparr>\<rparr>,
     cs_h = (\<lambda>_. None), cs_k = [], cs_pc = (\<lambda>_. C_Out)\<rparr>"

definition cs_demo_waiting :: "cpc \<Rightarrow> i32 list \<Rightarrow> i32 list csys" where
  "cs_demo_waiting p k = cs_demo\<lparr>
     cs_c := (cs_c cs_demo)\<lparr>cd_list := \<lparr>l_head = 32, l_tail = 32, l_count = 1\<rparr>\<rparr>,
     cs_h := (\<lambda>_. None)(16 \<mapsto> TCond \<lparr>tc_waitFlag = 0, tc_threadID = 4\<rparr>,
       32 \<mapsto> Node \<lparr>nd_next = 0, nd_prev = 0, nd_thread_data = 16, nd_threadID = 4\<rparr>),
     cs_k := k, cs_pc := (\<lambda>_. C_Out)(4 := p)\<rparr>"

lemma cs_demo_start: "cs_start demo_kernel cs_demo"
proof -
  have "cond_init (Some \<lparr>cd_initializeFlag = 5, cd_condMutex = \<lparr>mx_lockFlag = 7, mx_initializeFlag = 7\<rparr>,
      cd_list = \<lparr>l_head = 1, l_tail = 1, l_count = 1\<rparr>\<rparr>) = (0, Some (cs_c cs_demo))"
    by (simp add: cond_init_def mutex_init_def list_create_def cs_demo_def)
  then show ?thesis
    by (auto simp: cs_start_def cs_demo_def mx_free_def demo_kernel_def)
qed

lemma creach_via: "creach K s \<Longrightarrow> cstep K t s s1 \<Longrightarrow> s1 = s' \<Longrightarrow> creach K s'"
  using creach_step by metis

lemma cs_demo_run: "creach demo_kernel (cs_demo_waiting (W_Test 16) [4])"
proof -
  let ?l = "\<lparr>mx_lockFlag = 1, mx_initializeFlag = 1\<rparr>"
  let ?p = "\<lambda>p. (\<lambda>_. C_Out)(4 := p)"
  let ?c1 = "(cs_c cs_demo)\<lparr>cd_condMutex := ?l\<rparr>"
  have 1: "creach demo_kernel (cs_demo\<lparr>cs_pc := ?p C_LockM\<rparr>)"
    using creach_start [OF cs_demo_start]
    by (rule creach_via [OF _ c_lock [of _ 4]]) (simp_all add: cs_demo_def)
  have 2: "creach demo_kernel (cs_demo\<lparr>cs_m := ?l, cs_pc := ?p C_Own\<rparr>)"
    using 1 by (rule creach_via [OF _ c_lock_m [where t = 4 and busy = False]])
      (simp_all add: cs_demo_def lock_m_pc_def lock_try_simps)
  have 3: "creach demo_kernel (cs_demo\<lparr>cs_m := ?l, cs_pc := ?p W_LockC\<rparr>)"
    using 2 by (rule creach_via [OF _ c_wait [of _ 4]]) simp_all
  have 4: "creach demo_kernel (cs_demo\<lparr>cs_m := ?l, cs_c := ?c1, cs_pc := ?p W_Body\<rparr>)"
    using 3 by (rule creach_via [OF _ c_lock_c [where t = 4 and busy = False]]) (simp_all add: cs_demo_def lock_try_simps)
  have 5: "creach demo_kernel ((cs_demo_waiting (W_UnlockM 16) [])\<lparr>cs_m := ?l,
      cs_c := (cs_c (cs_demo_waiting (W_UnlockM 16) []))\<lparr>cd_condMutex := ?l\<rparr>\<rparr>)"
    using 4 by (rule creach_via [OF _ w_body [of _ 4 16 32]])
      (simp_all add: cs_demo_def cs_demo_waiting_def fresh_def cond_wait_body_def list_insert_def Let_def outcome_simps)
  have 6: "creach demo_kernel ((cs_demo_waiting (W_UnlockC 16) [])\<lparr>
      cs_c := (cs_c (cs_demo_waiting (W_UnlockM 16) []))\<lparr>cd_condMutex := ?l\<rparr>\<rparr>)"
    using 5 by (rule creach_via [OF _ w_unlock_m [of _ 4 16]])
      (simp_all add: cs_demo_def cs_demo_waiting_def mutex_unlock_def)
  have 7: "creach demo_kernel (cs_demo_waiting (W_Test 16) [])"
    using 6 by (rule creach_via [OF _ w_unlock_c [of _ 4 16]])
      (simp_all add: cs_demo_def cs_demo_waiting_def mutex_unlock_def)
  have 8: "creach demo_kernel (cs_demo_waiting (W_Desch 16) [])"
    using 7 by (rule creach_via [OF _ w_test [of _ 4 16 _ True]])
      (simp_all add: cs_demo_def cs_demo_waiting_def demo_kernel_def cond_wait_blocked_def outcome_simps)
  show ?thesis
    using 8 by (rule creach_via [OF _ w_deschedule [of _ 4 16 "\<lparr>tc_waitFlag = 0, tc_threadID = 4\<rparr>"]])
      (simp_all add: cs_demo_def cs_demo_waiting_def demo_kernel_def)
qed


theorem cond_no_lost_wakeup_witness:
  "\<exists>es p. queue_rep (cs_c (cs_demo_waiting (W_Test 16) [4])) (cs_h (cs_demo_waiting (W_Test 16) [4])) es \<and>
     (p, 16, 4) \<in> set es"
  using cond_no_lost_wakeup [OF cs_demo_run demo_kernel_ok, of 4]
  by (auto simp: cs_demo_waiting_def demo_kernel_def split: if_splits)

text \<open>Thread 5 signals; thread 4 sees its flag and leaves the loop.\<close>

definition cs_demo_woken :: "cpc \<Rightarrow> i32 \<Rightarrow> cpc \<Rightarrow> i32 list \<Rightarrow> i32 list csys" where
  "cs_demo_woken p4 v p5 k = cs_demo\<lparr>
     cs_c := (cs_c cs_demo)\<lparr>cd_condMutex := \<lparr>mx_lockFlag = 1, mx_initializeFlag = 1\<rparr>\<rparr>,
     cs_h := (\<lambda>_. None)(16 \<mapsto> TCond \<lparr>tc_waitFlag = v, tc_threadID = 4\<rparr>),
     cs_k := k, cs_pc := (\<lambda>_. C_Out)(4 := p4, 5 := p5)\<rparr>"

lemma cs_demo_woken_run: "creach demo_kernel (cs_demo_woken (W_Free 16) 1 (K_Loop 0 False) [])"
proof -
  let ?l = "\<lparr>mx_lockFlag = 1, mx_initializeFlag = 1\<rparr>"
  let ?w = "cs_demo_waiting (W_Test 16) [4]"
  let ?p = "\<lambda>p. (\<lambda>_. C_Out)(4 := W_Test 16, 5 := p)"
  have 1: "creach demo_kernel (?w\<lparr>cs_pc := ?p (S_LockC False)\<rparr>)"
    using cs_demo_run
    by (rule creach_via [OF _ c_signal [of _ 5 False]]) (simp_all add: cs_demo_waiting_def caller_def)
  have 2: "creach demo_kernel (?w\<lparr>cs_c := (cs_c ?w)\<lparr>cd_condMutex := ?l\<rparr>, cs_pc := ?p (S_Check False)\<rparr>)"
    using 1 by (rule creach_via [OF _ c_lock_c [where t = 5 and busy = False]])
      (simp_all add: cs_demo_def cs_demo_waiting_def lock_try_simps)
  have 3: "creach demo_kernel (?w\<lparr>cs_c := (cs_c ?w)\<lparr>cd_condMutex := ?l\<rparr>, cs_pc := ?p (K_Loop 1 False)\<rparr>)"
    using 2 by (rule creach_via [OF _ s_check [where t = 5 and b = False]])
      (simp_all add: cs_demo_def cs_demo_waiting_def)
  have 4: "creach demo_kernel (cs_demo_woken (W_Test 16) 0 (K_Mark 0 16 False) [4])"
    using 3 by (rule creach_via [OF _ k_take [where t = 5 and b = False and n = 0 and d = 16 and
        c = "(cs_c cs_demo)\<lparr>cd_condMutex := ?l\<rparr>" and
        h = "(\<lambda>_. None)(16 \<mapsto> TCond \<lparr>tc_waitFlag = 0, tc_threadID = 4\<rparr>)"]])
      (simp_all add: cs_demo_def cs_demo_waiting_def cs_demo_woken_def cond_take_def list_dequeue_def
        outcome_simps Let_def fun_upd_twist)
  have 5: "creach demo_kernel (cs_demo_woken (W_Test 16) 1 (K_Wake 0 4 False) [4])"
    using 4 by (rule creach_via [OF _ k_mark [where t = 5 and b = False and n = 0 and d = 16 and u = 4 and
        h = "(\<lambda>_. None)(16 \<mapsto> TCond \<lparr>tc_waitFlag = 1, tc_threadID = 4\<rparr>)"]])
      (simp_all add: cs_demo_woken_def cond_mark_def outcome_simps)
  have 6: "creach demo_kernel (cs_demo_woken (W_Test 16) 1 (K_Loop 0 False) [])"
    using 5 by (rule creach_via [OF _ k_wake [where t = 5 and b = False and n = 0 and u = 4]])
      (simp_all add: cs_demo_woken_def demo_kernel_def)
  show ?thesis
    using 6 by (rule creach_via [OF _ w_test [where t = 4 and d = 16 and b = False]])
      (simp_all add: cs_demo_woken_def demo_kernel_def cond_wait_blocked_def outcome_simps fun_upd_twist)
qed

theorem cond_wait_needs_signal_witness:
  "\<exists>s. creach demo_kernel s \<and> cs_pc s 4 = W_Free 16 \<and> flag_at (cs_h s) 16 1 4 \<and>
     (\<exists>es. queue_rep (cs_c s) (cs_h s) es \<and> 16 \<notin> data_of ` set es)"
proof -
  let ?s = "cs_demo_woken (W_Free 16) 1 (K_Loop 0 False) []"
  have "cs_pc ?s 4 = W_Free 16" by (simp add: cs_demo_woken_def)
  with cond_wait_needs_signal [OF cs_demo_woken_run demo_kernel_ok] cs_demo_woken_run show ?thesis by blast
qed


end
