(* ===== verification/Sem.thy ===== *)
theory Sem
  imports Cond
begin

text \<open>
  user/libthread/sem.c: counting semaphores from a mutex and a condition variable. The counter may be
  negative: then its absolute value is the number of threads in the waiting queue.

  As \<open>cond_wait\<close>, \<open>sem_wait\<close> is split where it blocks: \<open>sem_wait_enter\<close> runs from the call until the
  thread has either passed or is about to enter the while loop of \<open>cond_wait\<close>; \<open>sem_wait_exit\<close> runs
  after that loop. The \<open>sem == NULL\<close> tests behind \<open>mutex_lock(&sem->semMutex)\<close> cannot succeed.
  The first environment of each function is for \<open>semMutex\<close>, the second for the condition variable.
\<close>

section \<open>The functions\<close>

definition sem_init :: "sem option \<Rightarrow> i32 \<Rightarrow> i32 \<times> sem option" where
  "sem_init sp count =
     (case sp of
        None \<Rightarrow> (-1, None)
      | Some s \<Rightarrow>
          (case mutex_init (Some (sm_semMutex s)) of (rc, mp) \<Rightarrow>
             let s = s\<lparr>sm_semMutex := the mp\<rparr> in
             if neg32 rc then (-1, Some s)
             else
               (case cond_init (Some (sm_semCond s)) of (rc, cp) \<Rightarrow>
                  let s = s\<lparr>sm_semCond := the cp\<rparr> in
                  if neg32 rc then (-1, Some s)
                  else (0, Some (s\<lparr>sm_initializeFlag := 1, sm_semaphore := count\<rparr>)))))"

definition sem_destroy ::
  "(mutex \<Rightarrow> mutex) list \<Rightarrow> (mutex \<Rightarrow> mutex) list \<Rightarrow> sem \<Rightarrow> heap \<Rightarrow> (sem \<times> heap) outcome" where
  "sem_destroy env cenv s h =
     bnd (mutex_lock env (sm_semMutex s)) (\<lambda>m.
     let s = s\<lparr>sm_semMutex := m\<rparr> in
     if sm_initializeFlag s \<noteq> 1
     then bnd (mutex_unlock (sm_semMutex s)) (\<lambda>_. Panic)
     else
       let s = s\<lparr>sm_initializeFlag := 0\<rparr> in
       bnd (cond_destroy cenv (sm_semCond s) h) (\<lambda>(c, h).
       bnd (mutex_unlock (sm_semMutex s)) (\<lambda>m.
       bnd (mutex_destroy m) (\<lambda>m.
       Ret (s\<lparr>sm_semCond := c, sm_semMutex := m\<rparr>, h)))))"

text \<open>The result is the record to wait on, or \<open>None\<close> when \<open>sem_wait\<close> has returned.\<close>

definition sem_wait_enter ::
  "(mutex \<Rightarrow> mutex) list \<Rightarrow> (mutex \<Rightarrow> mutex) list \<Rightarrow> addr \<Rightarrow> addr \<Rightarrow> i32 \<Rightarrow> sem \<Rightarrow> heap
   \<Rightarrow> (addr option \<times> sem \<times> heap) outcome" where
  "sem_wait_enter env cenv p1 p2 tid s h =
     bnd (mutex_lock env (sm_semMutex s)) (\<lambda>m.
     let s = s\<lparr>sm_semMutex := m\<rparr> in
     if sm_initializeFlag s \<noteq> 1
     then bnd (mutex_unlock (sm_semMutex s)) (\<lambda>_. Panic)
     else
       let s = s\<lparr>sm_semaphore := sm_semaphore s - 1\<rparr> in
       if neg32 (sm_semaphore s)
       then bnd (cond_wait_enter cenv p1 p2 tid (sm_semCond s) (sm_semMutex s) h) (\<lambda>(c, m, h).
            Ret (Some p1, s\<lparr>sm_semCond := c, sm_semMutex := m\<rparr>, h))
       else bnd (mutex_unlock (sm_semMutex s)) (\<lambda>m. Ret (None, s\<lparr>sm_semMutex := m\<rparr>, h)))"

definition sem_wait_exit ::
  "(mutex \<Rightarrow> mutex) list \<Rightarrow> addr \<Rightarrow> sem \<Rightarrow> heap \<Rightarrow> (sem \<times> heap) outcome" where
  "sem_wait_exit env p1 s h =
     bnd (cond_wait_exit env p1 (sm_semMutex s) h) (\<lambda>(m, h).
     bnd (mutex_unlock m) (\<lambda>m. Ret (s\<lparr>sm_semMutex := m\<rparr>, h)))"

definition sem_signal ::
  "(mutex \<Rightarrow> mutex) list \<Rightarrow> (mutex \<Rightarrow> mutex) list \<Rightarrow> sem \<Rightarrow> heap
   \<Rightarrow> (i32 list \<times> sem \<times> heap) outcome" where
  "sem_signal env cenv s h =
     bnd (mutex_lock env (sm_semMutex s)) (\<lambda>m.
     let s = s\<lparr>sm_semMutex := m\<rparr> in
     if sm_initializeFlag s \<noteq> 1
     then bnd (mutex_unlock (sm_semMutex s)) (\<lambda>_. Panic)
     else
       bnd (if neg32 (sm_semaphore s)
            then bnd (cond_signal cenv (sm_semCond s) h) (\<lambda>(ts, c, h). Ret (ts, s\<lparr>sm_semCond := c\<rparr>, h))
            else Ret ([], s, h)) (\<lambda>(ts, s, h).
       let s = s\<lparr>sm_semaphore := sm_semaphore s + 1\<rparr> in
       bnd (mutex_unlock (sm_semMutex s)) (\<lambda>m. Ret (ts, s\<lparr>sm_semMutex := m\<rparr>, h))))"

section \<open>What the functions do\<close>

definition sem_rep :: "sem \<Rightarrow> heap \<Rightarrow> entry list \<Rightarrow> bool" where
  "sem_rep s h es \<longleftrightarrow> sm_initializeFlag s = 1 \<and> mx_free (sm_semMutex s) \<and> cond_rep (sm_semCond s) h es"

abbreviation value_of :: "sem \<Rightarrow> int" where
  "value_of s \<equiv> sint (sm_semaphore s)"

lemma sem_init_rep:
  "\<exists>s'. sem_init (Some s) count = (0, Some s') \<and> sem_rep s' h [] \<and> sm_semaphore s' = count"
proof -
  from cond_init_rep [of "sm_semCond s" h] obtain c where
    c: "cond_init (Some (sm_semCond s)) = (0, Some c)" "cond_rep c h []" by blast
  then show ?thesis
    by (simp add: sem_init_def mutex_init_def sem_rep_def mx_free_def Let_def)
qed

text \<open>Every queued thread uses two addresses, so fewer than \<open>2 ^ 31\<close> threads can wait.\<close>

lemma queue_rep_bound:
  assumes "queue_rep c h es"
  shows "length es < 2 ^ 31"
proof -
  have rep: "list_rep h (cd_list c) es" using assms by (rule queue_rep_list)
  have "distinct (map at es @ map data_of es)"
    using assms rep queue_rep_sep [OF assms] by (fastforce simp: queue_rep_def list_rep_def)
  moreover have "0 \<notin> set (map at es @ map data_of es)"
    using assms rep dseg_alloc [of h 0 "l_head (cd_list c)" es "l_tail (cd_list c)" 0]
    by (fastforce simp: queue_rep_def list_rep_def)
  ultimately have "length (map at es @ map data_of es) < 2 ^ 32" by (rule distinct_addrs_bound)
  then show ?thesis by simp
qed

lemma neg32_sint: "neg32 x \<longleftrightarrow> sint x < 0"
  by (simp add: word_sless_alt)

lemma sint_dec: "- (2 ^ 31) < sint (x :: i32) \<Longrightarrow> sint (x - 1) = sint x - 1"
  using sint_lt [of x] by (simp add: sint_word_ariths signed_take_bit_int_eq_self)

lemma sint_inc: "sint (x :: i32) + 1 < 2 ^ 31 \<Longrightarrow> sint (x + 1) = sint x + 1"
  using sint_ge [of x] by (simp add: sint_word_ariths signed_take_bit_int_eq_self)

lemma sem_wait_pass:
  assumes "sem_rep s h es" "\<not> neg32 (sm_semaphore s - 1)"
  shows "sem_wait_enter env cenv p1 p2 tid s h = Ret (None, s\<lparr>sm_semaphore := sm_semaphore s - 1\<rparr>, h)"
  using assms mx_lock_unlock [of "sm_semMutex s"]
  by (cases s) (simp add: sem_wait_enter_def sem_rep_def outcome_simps Let_def)

lemma sem_wait_block:
  assumes "sem_rep s h es" "neg32 (sm_semaphore s - 1)" "fresh h p1" "fresh h p2" "p1 \<noteq> p2"
  shows "\<exists>c h'. sem_wait_enter env cenv p1 p2 tid s h =
      Ret (Some p1, s\<lparr>sm_semaphore := sm_semaphore s - 1, sm_semCond := c\<rparr>, h') \<and>
    sem_rep (s\<lparr>sm_semaphore := sm_semaphore s - 1, sm_semCond := c\<rparr>) h' ((p2, p1, tid) # es) \<and>
    (\<forall>a. a \<noteq> p1 \<and> a \<noteq> p2 \<and> a \<notin> at ` set es \<longrightarrow> h' a = h a)"
proof -
  from assms(1) have s: "sm_initializeFlag s = 1" "mx_free (sm_semMutex s)" "cond_rep (sm_semCond s) h es"
    by (simp_all add: sem_rep_def)
  from cond_wait_enter_rep [OF s(3) mx_free_lock [OF s(2)] assms(3-5), of cenv tid] obtain c h' where
    c: "cond_wait_enter cenv p1 p2 tid (sm_semCond s) (sm_semMutex s\<lparr>mx_lockFlag := 1\<rparr>) h =
        Ret (c, sm_semMutex s\<lparr>mx_lockFlag := 0\<rparr>, h')" "cond_rep c h' ((p2, p1, tid) # es)"
      "\<forall>a. a \<noteq> p1 \<and> a \<noteq> p2 \<and> a \<notin> at ` set es \<longrightarrow> h' a = h a"
    by auto
  with s assms(2) mx_lock_unlock [OF s(2)] show ?thesis
    by (cases s) (auto simp: sem_wait_enter_def sem_rep_def outcome_simps Let_def)
qed

lemma sem_wait_exit_rep:
  assumes "sem_rep s h es" "h p1 = Some x" "p1 \<noteq> 0"
  shows "sem_wait_exit env p1 s h = Ret (s, h(p1 := None))"
  using assms mx_lock_unlock [of "sm_semMutex s"]
  by (cases s) (simp add: sem_wait_exit_def cond_wait_exit_def sem_rep_def outcome_simps)

lemma sem_signal_wakes:
  assumes "sem_rep s h (es @ [e])" "neg32 (sm_semaphore s)"
  shows "\<exists>c h'. sem_signal env cenv s h =
      Ret ([tid_of e], s\<lparr>sm_semaphore := sm_semaphore s + 1, sm_semCond := c\<rparr>, h') \<and>
    sem_rep (s\<lparr>sm_semaphore := sm_semaphore s + 1, sm_semCond := c\<rparr>) h' es \<and> woken h' [e] \<and>
    (\<forall>a. a \<noteq> data_of e \<and> a \<noteq> at e \<and> a \<notin> at ` set es \<longrightarrow> h' a = h a)"
proof -
  from assms(1) have s: "sm_initializeFlag s = 1" "mx_free (sm_semMutex s)" "cond_rep (sm_semCond s) h (es @ [e])"
    by (simp_all add: sem_rep_def)
  from cond_signal_rep [OF s(3), of cenv] obtain c h' where
    c: "cond_signal cenv (sm_semCond s) h = Ret ([tid_of e], c, h')" "cond_rep c h' es" "woken h' [e]"
      "\<forall>a. a \<noteq> data_of e \<and> a \<noteq> at e \<and> a \<notin> at ` set es \<longrightarrow> h' a = h a" by blast
  with s assms(2) mx_lock_unlock [OF s(2)] show ?thesis
    by (cases s) (auto simp: sem_signal_def sem_rep_def outcome_simps Let_def)
qed

lemma sem_signal_idle:
  assumes "sem_rep s h es" "\<not> neg32 (sm_semaphore s)"
  shows "sem_signal env cenv s h = Ret ([], s\<lparr>sm_semaphore := sm_semaphore s + 1\<rparr>, h)"
  using assms mx_lock_unlock [of "sm_semMutex s"]
  by (cases s) (simp add: sem_signal_def sem_rep_def outcome_simps Let_def)

end
