(* ===== verification/Sem_Machine.thy ===== *)
theory Sem_Machine
  imports Sem
begin

text \<open>
  Any number of threads that use one semaphore. A step is one critical section of sem.c under
  \<open>semMutex\<close>: the decrement of \<open>sem_wait\<close> with the enqueueing of the caller, the return of a woken
  thread, one \<open>sem_signal\<close>. (What happens between the mutex operations and the kernel calls inside
  \<open>cond_wait\<close> is the subject of \<open>Cond_Machine\<close>.) The counters of the state record what the callers
  see: \<open>ss_waits\<close> calls of \<open>sem_wait\<close>, \<open>ss_passed\<close> returns from it, \<open>ss_signals\<close> calls of \<open>sem_signal\<close>.
\<close>

section \<open>Steps\<close>

datatype spc = S_Out | S_Blocked addr

record ssys =
  ss_sem :: sem
  ss_heap :: heap
  ss_pc :: "i32 \<Rightarrow> spc"
  ss_waits :: nat
  ss_passed :: nat
  ss_signals :: nat

inductive sstep :: "i32 \<Rightarrow> ssys \<Rightarrow> ssys \<Rightarrow> bool" for t :: i32 where
  s_pass: "\<lbrakk>ss_pc s t = S_Out; fresh (ss_heap s) p1; fresh (ss_heap s) p2; p1 \<noteq> p2;
      sem_wait_enter [] [] p1 p2 t (ss_sem s) (ss_heap s) = Ret (None, sm, h)\<rbrakk>
    \<Longrightarrow> sstep t s (s\<lparr>ss_sem := sm, ss_heap := h, ss_waits := Suc (ss_waits s), ss_passed := Suc (ss_passed s)\<rparr>)"
| s_block: "\<lbrakk>ss_pc s t = S_Out; fresh (ss_heap s) p1; fresh (ss_heap s) p2; p1 \<noteq> p2;
      sem_wait_enter [] [] p1 p2 t (ss_sem s) (ss_heap s) = Ret (Some d, sm, h)\<rbrakk>
    \<Longrightarrow> sstep t s (s\<lparr>ss_sem := sm, ss_heap := h, ss_waits := Suc (ss_waits s),
          ss_pc := (ss_pc s)(t := S_Blocked d)\<rparr>)"
| s_return: "\<lbrakk>ss_pc s t = S_Blocked d; cond_wait_blocked d (ss_heap s) = Ret False;
      sem_wait_exit [] d (ss_sem s) (ss_heap s) = Ret (sm, h)\<rbrakk>
    \<Longrightarrow> sstep t s (s\<lparr>ss_sem := sm, ss_heap := h, ss_passed := Suc (ss_passed s),
          ss_pc := (ss_pc s)(t := S_Out)\<rparr>)"
| s_signal: "\<lbrakk>ss_pc s t = S_Out; sem_signal [] [] (ss_sem s) (ss_heap s) = Ret (ts, sm, h)\<rbrakk>
    \<Longrightarrow> sstep t s (s\<lparr>ss_sem := sm, ss_heap := h, ss_signals := Suc (ss_signals s)\<rparr>)"

definition ss_start :: "i32 \<Rightarrow> ssys \<Rightarrow> bool" where
  "ss_start count s \<longleftrightarrow> (\<exists>s0. sem_init (Some s0) count = (0, Some (ss_sem s))) \<and> (\<forall>t. ss_pc s t = S_Out) \<and>
     ss_waits s = 0 \<and> ss_passed s = 0 \<and> ss_signals s = 0"

inductive sreach :: "i32 \<Rightarrow> ssys \<Rightarrow> bool" for count :: i32 where
  sreach_start: "ss_start count s \<Longrightarrow> sreach count s"
| sreach_step: "sreach count s \<Longrightarrow> sstep t s s' \<Longrightarrow> sreach count s'"

section \<open>The invariant\<close>

definition blocked :: "ssys \<Rightarrow> i32 set" where
  "blocked s = {t. ss_pc s t \<noteq> S_Out}"

text \<open>
  With \<open>i\<close> the initial value: the counter is \<open>i + signals - waits\<close>; when it is negative exactly that
  many threads are queued; each thread inside \<open>sem_wait\<close> owns a record, set unless it is queued.
\<close>

definition ss_queue :: "heap \<Rightarrow> (i32 \<Rightarrow> spc) \<Rightarrow> entry list \<Rightarrow> bool" where
  "ss_queue h pc es \<longleftrightarrow> (\<forall>e \<in> set es. pc (tid_of e) = S_Blocked (data_of e)) \<and>
     (\<forall>t d. pc t = S_Blocked d \<longrightarrow> d \<noteq> 0 \<and>
        (h d = Some (TCond \<lparr>tc_waitFlag = 1, tc_threadID = t\<rparr>) \<or>
         h d = Some (TCond \<lparr>tc_waitFlag = 0, tc_threadID = t\<rparr>) \<and> d \<in> data_of ` set es))"

definition ss_inv :: "int \<Rightarrow> ssys \<Rightarrow> entry list \<Rightarrow> bool" where
  "ss_inv i s es \<longleftrightarrow> sem_rep (ss_sem s) (ss_heap s) es \<and> ss_queue (ss_heap s) (ss_pc s) es \<and>
     value_of (ss_sem s) = i + int (ss_signals s) - int (ss_waits s) \<and>
     length es = nat (- value_of (ss_sem s)) \<and>
     ss_passed s + card (blocked s) = ss_waits s"

lemma sem_rep_queue: "sem_rep s h es \<Longrightarrow> queue_rep (sm_semCond s) h es"
  by (simp add: sem_rep_def cond_rep_def)

lemma blocked_finite: "finite (blocked s)"
  by (rule finite_subset [OF subset_UNIV]) simp

lemma card_blocked_add: "ss_pc s t = S_Out \<Longrightarrow>
    card {u. ((ss_pc s)(t := S_Blocked d)) u \<noteq> S_Out} = Suc (card (blocked s))"
proof -
  assume "ss_pc s t = S_Out"
  then have "{u. ((ss_pc s)(t := S_Blocked d)) u \<noteq> S_Out} = insert t (blocked s)" "t \<notin> blocked s"
    by (auto simp: blocked_def)
  with blocked_finite [of s] show ?thesis by simp
qed

lemma card_blocked_remove: "ss_pc s t = S_Blocked d \<Longrightarrow>
    Suc (card {u. ((ss_pc s)(t := S_Out)) u \<noteq> S_Out}) = card (blocked s)"
proof -
  assume "ss_pc s t = S_Blocked d"
  then have "{u. ((ss_pc s)(t := S_Out)) u \<noteq> S_Out} = blocked s - {t}" "t \<in> blocked s"
    by (auto simp: blocked_def)
  with card_Suc_Diff1 [OF blocked_finite [of s]] show ?thesis by metis
qed

lemma ss_inv_start: "ss_start count s \<Longrightarrow> 0 \<le> sint count \<Longrightarrow> ss_inv (sint count) s []"
proof -
  assume a: "ss_start count s" "0 \<le> sint count"
  then obtain s0 where "sem_init (Some s0) count = (0, Some (ss_sem s))" by (auto simp: ss_start_def)
  with sem_init_rep [of s0 count "ss_heap s"]
  have "sem_rep (ss_sem s) (ss_heap s) []" "sm_semaphore (ss_sem s) = count" by auto
  with a show ?thesis by (auto simp: ss_start_def ss_inv_def ss_queue_def blocked_def)
qed

text \<open>Records of threads inside \<open>sem_wait\<close> are neither nodes nor new memory.\<close>

lemma ss_queue_record:
  assumes "ss_queue h pc es" "pc t = S_Blocked d"
  shows "\<exists>v. h d = Some (TCond \<lparr>tc_waitFlag = v, tc_threadID = t\<rparr>)"
  using assms unfolding ss_queue_def by blast

lemma ss_record_not_node:
  "queue_rep c h es \<Longrightarrow> h d = Some (TCond x) \<Longrightarrow> d \<notin> at ` set es"
  using list_rep_node [of h "cd_list c" es] by (fastforce simp: queue_rep_def)

lemma ss_queue_block:
  assumes q: "ss_queue h pc es" and pc: "pc t = S_Out" and rep: "queue_rep c h es"
    and rep': "queue_rep c' h' ((p2, p1, t) # es)" and f: "fresh h p1" "fresh h p2"
    and fr: "\<forall>a. a \<noteq> p1 \<and> a \<noteq> p2 \<and> a \<notin> at ` set es \<longrightarrow> h' a = h a"
  shows "ss_queue h' (pc(t := S_Blocked p1)) ((p2, p1, t) # es)"
proof -
  have same: "h' d = h d" if "pc u = S_Blocked d" for u d
  proof -
    from ss_queue_record [OF q that] obtain x where x: "h d = Some (TCond x)" by blast
    with freshD [OF f(1)] freshD [OF f(2)] have "d \<noteq> p1" "d \<noteq> p2" by auto
    with ss_record_not_node [OF rep x] fr show ?thesis by blast
  qed
  have new: "h' p1 = Some (TCond \<lparr>tc_waitFlag = 0, tc_threadID = t\<rparr>)" "p1 \<noteq> 0"
    using rep' by (simp_all add: queue_rep_def)
  have old: "\<forall>e \<in> set es. tid_of e \<noteq> t" using q pc by (fastforce simp: ss_queue_def)
  show ?thesis unfolding ss_queue_def
  proof (intro conjI allI impI)
    show "\<forall>e \<in> set ((p2, p1, t) # es). (pc(t := S_Blocked p1)) (tid_of e) = S_Blocked (data_of e)"
      using q old by (auto simp: ss_queue_def)
  next
    fix u d assume u: "(pc(t := S_Blocked p1)) u = S_Blocked d"
    show "d \<noteq> 0" using u q new by (auto simp: ss_queue_def split: if_splits)
    show "h' d = Some (TCond \<lparr>tc_waitFlag = 1, tc_threadID = u\<rparr>) \<or>
      h' d = Some (TCond \<lparr>tc_waitFlag = 0, tc_threadID = u\<rparr>) \<and> d \<in> data_of ` set ((p2, p1, t) # es)"
    proof (cases "u = t")
      case True
      with u new show ?thesis by simp
    next
      case False
      with u have "pc u = S_Blocked d" by simp
      with same q show ?thesis by (auto simp: ss_queue_def)
    qed
  qed
qed

lemma ss_queue_wake:
  assumes q: "ss_queue h pc (es @ [e])" and rep: "queue_rep c h (es @ [e])"
    and w: "h' (data_of e) = Some (TCond \<lparr>tc_waitFlag = 1, tc_threadID = tid_of e\<rparr>)"
    and fr: "\<forall>a. a \<noteq> data_of e \<and> a \<noteq> at e \<and> a \<notin> at ` set es \<longrightarrow> h' a = h a"
  shows "ss_queue h' pc es"
proof -
  have same: "h' d = h d" if "pc u = S_Blocked d" "d \<noteq> data_of e" for u d
  proof -
    from ss_queue_record [OF q that(1)] obtain x where x: "h d = Some (TCond x)" by blast
    with ss_record_not_node [OF rep x] fr that(2) show ?thesis by auto
  qed
  have own: "u = tid_of e" if "pc u = S_Blocked (data_of e)" for u
    using ss_queue_record [OF q that] rep by (auto simp: queue_rep_def)
  show ?thesis unfolding ss_queue_def
  proof (intro conjI allI impI)
    show "\<forall>e \<in> set es. pc (tid_of e) = S_Blocked (data_of e)" using q by (auto simp: ss_queue_def)
  next
    fix u d assume u: "pc u = S_Blocked d"
    show "d \<noteq> 0" using u q by (auto simp: ss_queue_def)
    show "h' d = Some (TCond \<lparr>tc_waitFlag = 1, tc_threadID = u\<rparr>) \<or>
      h' d = Some (TCond \<lparr>tc_waitFlag = 0, tc_threadID = u\<rparr>) \<and> d \<in> data_of ` set es"
    proof (cases "d = data_of e")
      case True
      with w own u show ?thesis by simp
    next
      case False
      with same [OF u] q u show ?thesis by (auto simp: ss_queue_def)
    qed
  qed
qed

lemma ss_queue_return:
  assumes q: "ss_queue h pc es" and pc: "pc t = S_Blocked d" and out: "d \<notin> data_of ` set es"
  shows "ss_queue (h(d := None)) (pc(t := S_Out)) es"
proof -
  have own: "u = t" if "pc u = S_Blocked d" for u
    using ss_queue_record [OF q that] ss_queue_record [OF q pc] by auto
  have "tid_of e \<noteq> t" if "e \<in> set es" for e
    using q pc out that by (force simp: ss_queue_def)
  with q own show ?thesis by (auto simp: ss_queue_def)
qed

lemma ss_inv_value:
  assumes "ss_inv i s es"
  shows "value_of (ss_sem s) > - (2 ^ 31)" "sint (sm_semaphore (ss_sem s) - 1) = value_of (ss_sem s) - 1"
    "neg32 (sm_semaphore (ss_sem s) - 1) \<longleftrightarrow> value_of (ss_sem s) \<le> 0"
    "neg32 (sm_semaphore (ss_sem s)) \<longleftrightarrow> value_of (ss_sem s) < 0"
proof -
  from assms have "sem_rep (ss_sem s) (ss_heap s) es" "length es = nat (- value_of (ss_sem s))"
    by (simp_all add: ss_inv_def)
  with queue_rep_bound [OF sem_rep_queue] have "nat (- value_of (ss_sem s)) < 2 ^ 31" by metis
  then show *: "value_of (ss_sem s) > - (2 ^ 31)" by simp
  from sint_dec [OF this] show **: "sint (sm_semaphore (ss_sem s) - 1) = value_of (ss_sem s) - 1" .
  from ** show "neg32 (sm_semaphore (ss_sem s) - 1) \<longleftrightarrow> value_of (ss_sem s) \<le> 0"
    unfolding neg32_sint by linarith
  show "neg32 (sm_semaphore (ss_sem s)) \<longleftrightarrow> value_of (ss_sem s) < 0" by (rule neg32_sint)
qed

lemma sem_rep_value [simp]: "sem_rep (s\<lparr>sm_semaphore := v\<rparr>) h es = sem_rep s h es"
  by (simp add: sem_rep_def)

lemma ss_inv_pass:
  assumes i: "ss_inv i s es" and f: "fresh (ss_heap s) p1" "fresh (ss_heap s) p2" "p1 \<noteq> p2"
    and run: "sem_wait_enter [] [] p1 p2 t (ss_sem s) (ss_heap s) = Ret (None, sm, h)"
  shows "ss_inv i (s\<lparr>ss_sem := sm, ss_heap := h, ss_waits := Suc (ss_waits s), ss_passed := Suc (ss_passed s)\<rparr>) es"
proof -
  from i have rep: "sem_rep (ss_sem s) (ss_heap s) es" by (simp add: ss_inv_def)
  have "\<not> neg32 (sm_semaphore (ss_sem s) - 1)"
  proof
    assume "neg32 (sm_semaphore (ss_sem s) - 1)"
    from sem_wait_block [OF rep this f, of "[]" "[]" t] run show False by auto
  qed
  with sem_wait_pass [OF rep this, of "[]" "[]" p1 p2 t] run ss_inv_value [OF i] i rep
  show ?thesis by (auto simp: ss_inv_def blocked_def)
qed

lemma ss_inv_block:
  assumes i: "ss_inv i s es" and f: "fresh (ss_heap s) p1" "fresh (ss_heap s) p2" "p1 \<noteq> p2"
    and pc: "ss_pc s t = S_Out"
    and run: "sem_wait_enter [] [] p1 p2 t (ss_sem s) (ss_heap s) = Ret (Some d, sm, h)"
  shows "ss_inv i (s\<lparr>ss_sem := sm, ss_heap := h, ss_waits := Suc (ss_waits s),
    ss_pc := (ss_pc s)(t := S_Blocked d)\<rparr>) ((p2, p1, t) # es)"
proof -
  from i have rep: "sem_rep (ss_sem s) (ss_heap s) es" and q: "ss_queue (ss_heap s) (ss_pc s) es"
    by (simp_all add: ss_inv_def)
  have n: "neg32 (sm_semaphore (ss_sem s) - 1)"
    using sem_wait_pass [OF rep, of "[]" "[]" p1 p2 t] run by (cases "neg32 (sm_semaphore (ss_sem s) - 1)") auto
  from sem_wait_block [OF rep n f, of "[]" "[]" t] run obtain c where
    d: "d = p1" and sm: "sm = (ss_sem s)\<lparr>sm_semaphore := sm_semaphore (ss_sem s) - 1, sm_semCond := c\<rparr>" and
    rep': "sem_rep sm h ((p2, p1, t) # es)" and
    fr: "\<forall>a. a \<noteq> p1 \<and> a \<noteq> p2 \<and> a \<notin> at ` set es \<longrightarrow> h a = ss_heap s a" by auto
  have v: "value_of sm = value_of (ss_sem s) - 1" "value_of (ss_sem s) \<le> 0"
    using ss_inv_value [OF i] n sm by simp_all
  have q': "ss_queue h ((ss_pc s)(t := S_Blocked p1)) ((p2, p1, t) # es)"
    by (rule ss_queue_block [OF q pc sem_rep_queue [OF rep] sem_rep_queue [OF rep'] f(1,2) fr])
  have "length ((p2, p1, t) # es) = nat (- value_of sm)" using i v by (simp add: ss_inv_def Suc_nat_eq_nat_zadd1)
  with rep' q' v i card_blocked_add [OF pc, of p1] show ?thesis
    by (simp add: ss_inv_def d blocked_def del: fun_upd_apply)
qed

lemma ss_inv_return:
  assumes i: "ss_inv i s es" and pc: "ss_pc s t = S_Blocked d"
    and b: "cond_wait_blocked d (ss_heap s) = Ret False"
    and run: "sem_wait_exit [] d (ss_sem s) (ss_heap s) = Ret (sm, h)"
  shows "ss_inv i (s\<lparr>ss_sem := sm, ss_heap := h, ss_passed := Suc (ss_passed s),
    ss_pc := (ss_pc s)(t := S_Out)\<rparr>) es"
proof -
  from i have rep: "sem_rep (ss_sem s) (ss_heap s) es" and q: "ss_queue (ss_heap s) (ss_pc s) es"
    by (simp_all add: ss_inv_def)
  from ss_queue_record [OF q pc] b obtain v where
    v: "ss_heap s d = Some (TCond \<lparr>tc_waitFlag = v, tc_threadID = t\<rparr>)" "v \<noteq> 0"
    by (auto simp: cond_wait_blocked_def outcome_simps)
  then have out: "d \<notin> data_of ` set es"
    using sem_rep_queue [OF rep] by (auto simp: queue_rep_def)
  have nz: "d \<noteq> 0" using q pc by (auto simp: ss_queue_def)
  from sem_wait_exit_rep [OF rep v(1) nz, of "[]"] run have r: "sm = ss_sem s" "h = (ss_heap s)(d := None)"
    by auto
  have "queue_rep (sm_semCond (ss_sem s)) h es"
    unfolding r by (rule queue_rep_upd_other [OF sem_rep_queue [OF rep] out ss_record_not_node [OF sem_rep_queue [OF rep] v(1)]])
  then have "sem_rep sm h es" using rep r by (simp add: sem_rep_def cond_rep_def)
  with ss_queue_return [OF q pc out] i card_blocked_remove [OF pc] show ?thesis
    by (simp add: ss_inv_def blocked_def r del: fun_upd_apply)
qed

lemma ss_inv_signal:
  assumes i: "ss_inv i s es" and up: "value_of (ss_sem s) + 1 < 2 ^ 31"
    and run: "sem_signal [] [] (ss_sem s) (ss_heap s) = Ret (ts, sm, h)"
  shows "\<exists>es'. ss_inv i (s\<lparr>ss_sem := sm, ss_heap := h, ss_signals := Suc (ss_signals s)\<rparr>) es'"
proof -
  from i have rep: "sem_rep (ss_sem s) (ss_heap s) es" and q: "ss_queue (ss_heap s) (ss_pc s) es"
    by (simp_all add: ss_inv_def)
  note inc = sint_inc [OF up]
  show ?thesis
  proof (cases "neg32 (sm_semaphore (ss_sem s))")
    case False
    with sem_signal_idle [OF rep False, of "[]" "[]"] run inc i rep ss_inv_value(4) [OF i] q
    show ?thesis by (auto simp: ss_inv_def blocked_def intro!: exI [of _ es])
  next
    case True
    with i ss_inv_value(4) [OF i] have "es \<noteq> []" by (auto simp: ss_inv_def)
    then obtain es' e where es: "es = es' @ [e]" by (cases es rule: rev_cases) auto
    from sem_signal_wakes [of "ss_sem s" "ss_heap s" es' e "[]" "[]"] rep es True run obtain c where
      sm: "sm = (ss_sem s)\<lparr>sm_semaphore := sm_semaphore (ss_sem s) + 1, sm_semCond := c\<rparr>" and
      rep': "sem_rep sm h es'" and w: "woken h [e]" and
      fr: "\<forall>a. a \<noteq> data_of e \<and> a \<noteq> at e \<and> a \<notin> at ` set es' \<longrightarrow> h a = ss_heap s a" by auto
    have "ss_queue h (ss_pc s) es'"
      using ss_queue_wake [of "ss_heap s" "ss_pc s" es' e "sm_semCond (ss_sem s)" h] q sem_rep_queue [OF rep] es w fr
      by (simp add: woken_def)
    moreover have "length es' = nat (- value_of sm)"
    proof -
      have "Suc (length es') = nat (- value_of (ss_sem s))" using i es by (simp add: ss_inv_def)
      moreover have "value_of sm = value_of (ss_sem s) + 1" using inc sm by simp
      ultimately show ?thesis by linarith
    qed
    ultimately show ?thesis using rep' i inc sm
      by (auto simp: ss_inv_def blocked_def intro!: exI [of _ es'])
  qed
qed

lemma sstep_signals: "sstep t s s' \<Longrightarrow> ss_signals s \<le> ss_signals s'"
  by (auto elim: sstep.cases)

lemma ss_inv_step:
  assumes "sstep t s s'" "ss_inv i s es" "i + int (ss_signals s') < 2 ^ 31"
  shows "\<exists>es'. ss_inv i s' es'"
  using assms(1)
proof cases
  case (s_pass p1 p2 sm h)
  then show ?thesis using ss_inv_pass [OF assms(2)] by blast
next
  case (s_block p1 p2 d sm h)
  then show ?thesis using ss_inv_block [OF assms(2)] by blast
next
  case (s_return d sm h)
  then show ?thesis using ss_inv_return [OF assms(2)] by blast
next
  case (s_signal ts sm h)
  have "value_of (ss_sem s) = i + int (ss_signals s) - int (ss_waits s)" using assms(2) by (simp add: ss_inv_def)
  with s_signal assms(3) have "value_of (ss_sem s) + 1 < 2 ^ 31" by simp
  with s_signal show ?thesis using ss_inv_signal [OF assms(2)] by blast
qed

lemma sreach_inv:
  "sreach count s \<Longrightarrow> 0 \<le> sint count \<Longrightarrow> sint count + int (ss_signals s) < 2 ^ 31 \<Longrightarrow> \<exists>es. ss_inv (sint count) s es"
proof (induction rule: sreach.induct)
  case (sreach_start s)
  then show ?case using ss_inv_start by blast
next
  case (sreach_step s t s')
  with sstep_signals [OF sreach_step.hyps(2)] obtain es where "ss_inv (sint count) s es" by force
  with sreach_step ss_inv_step show ?case by blast
qed

text \<open>
  C5: a semaphore started with \<open>count\<close> never lets more threads through than it has permits: the number
  of returned \<open>sem_wait\<close> calls is at most \<open>count\<close> plus the number of \<open>sem_signal\<close> calls. The
  counter is exactly \<open>count + signals - waits\<close>, and never wraps below zero.
\<close>

theorem sem_permits:
  assumes "sreach count s" "0 \<le> sint count" "sint count + int (ss_signals s) < 2 ^ 31"
  shows "int (ss_passed s) \<le> sint count + int (ss_signals s) \<and>
    value_of (ss_sem s) = sint count + int (ss_signals s) - int (ss_waits s)"
proof -
  from sreach_inv [OF assms] obtain es where inv: "ss_inv (sint count) s es" by blast
  then have q: "ss_queue (ss_heap s) (ss_pc s) es" "queue_rep (sm_semCond (ss_sem s)) (ss_heap s) es"
    by (auto simp: ss_inv_def dest: sem_rep_queue)
  have "inj_on tid_of (set es)"
  proof (rule inj_onI)
    fix e f assume ef: "e \<in> set es" "f \<in> set es" "tid_of e = tid_of f"
    with q(1) have "S_Blocked (data_of e) = S_Blocked (data_of f)" unfolding ss_queue_def by metis
    then have "data_of e = data_of f" by simp
    moreover have "inj_on data_of (set es)" using q(2) by (simp add: queue_rep_def distinct_map)
    ultimately show "e = f" using ef by (simp add: inj_on_def)
  qed
  moreover have "distinct es" using q(2) by (auto simp: queue_rep_def distinct_map)
  ultimately have "length es = card (tid_of ` set es)" by (simp add: card_image distinct_card)
  also have "\<dots> \<le> card (blocked s)"
    using q(1) by (intro card_mono [OF blocked_finite]) (auto simp: blocked_def ss_queue_def)
  finally have "length es \<le> card (blocked s)" .
  moreover from inv have "length es = nat (- value_of (ss_sem s))"
    "value_of (ss_sem s) = sint count + int (ss_signals s) - int (ss_waits s)"
    "ss_passed s + card (blocked s) = ss_waits s" by (simp_all add: ss_inv_def)
  ultimately show ?thesis by linarith
qed

text \<open>
  C9: no permit is lost. When the counter is not negative nobody is left waiting: every
  thread inside \<open>sem_wait\<close> has its record set and can return; when it is negative, exactly that many
  threads are in the queue.
\<close>

theorem sem_no_lost_permit:
  assumes "sreach count s" "0 \<le> sint count" "sint count + int (ss_signals s) < 2 ^ 31"
  shows "\<exists>es. queue_rep (sm_semCond (ss_sem s)) (ss_heap s) es \<and>
    int (length es) = max 0 (- value_of (ss_sem s)) \<and>
    (\<forall>t d. ss_pc s t = S_Blocked d \<longrightarrow>
       (\<exists>s'. d \<notin> data_of ` set es \<and> sstep t s s' \<and> ss_pc s' t = S_Out \<and> ss_passed s' = Suc (ss_passed s)) \<or>
       d \<in> data_of ` set es)"
proof -
  from sreach_inv [OF assms] obtain es where inv: "ss_inv (sint count) s es" by blast
  then have q: "ss_queue (ss_heap s) (ss_pc s) es" "queue_rep (sm_semCond (ss_sem s)) (ss_heap s) es"
    and rep: "sem_rep (ss_sem s) (ss_heap s) es" and len: "int (length es) = max 0 (- value_of (ss_sem s))"
    by (auto simp: ss_inv_def dest: sem_rep_queue)
  have "\<exists>s'. sstep t s s' \<and> ss_pc s' t = S_Out \<and> ss_passed s' = Suc (ss_passed s)"
    if pc: "ss_pc s t = S_Blocked d" and out: "d \<notin> data_of ` set es" for t d
  proof -
    from q(1) pc out have d: "d \<noteq> 0" "ss_heap s d = Some (TCond \<lparr>tc_waitFlag = 1, tc_threadID = t\<rparr>)"
      by (auto simp: ss_queue_def)
    then have "cond_wait_blocked d (ss_heap s) = Ret False" by (simp add: cond_wait_blocked_def outcome_simps)
    from s_return [OF pc this sem_wait_exit_rep [OF rep d(2,1)]] show ?thesis by auto
  qed
  with q(2) len show ?thesis by blast
qed

section \<open>A run\<close>

text \<open>A semaphore of value 1: thread 4 passes, thread 5 blocks, thread 4 signals.\<close>

definition ss_demo :: "u32 \<Rightarrow> addr \<Rightarrow> u32 \<Rightarrow> (i32 \<Rightarrow> spc) \<Rightarrow> heap \<Rightarrow> nat \<Rightarrow> nat \<Rightarrow> nat \<Rightarrow> ssys" where
  "ss_demo v p n pc h w pa sg =
     (let m = \<lparr>mx_lockFlag = 0, mx_initializeFlag = 1\<rparr> in
      \<lparr>ss_sem = \<lparr>sm_semCond = \<lparr>cd_initializeFlag = 1, cd_condMutex = m, cd_list = \<lparr>l_head = p, l_tail = p, l_count = n\<rparr>\<rparr>,
         sm_semMutex = m, sm_initializeFlag = 1, sm_semaphore = v\<rparr>,
       ss_heap = h, ss_pc = pc, ss_waits = w, ss_passed = pa, ss_signals = sg\<rparr>)"

lemma sreach_via: "sreach c s \<Longrightarrow> sstep t s s1 \<Longrightarrow> s1 = s' \<Longrightarrow> sreach c s'"
  using sreach_step by metis

lemma ss_demo_start: "ss_start 1 (ss_demo 1 0 0 (\<lambda>_. S_Out) (\<lambda>_. None) 0 0 0)"
  unfolding ss_start_def
  by (intro conjI exI [of _ "(ss_sem (ss_demo 7 7 7 (\<lambda>_. S_Out) (\<lambda>_. None) 0 0 0))\<lparr>sm_initializeFlag := 9\<rparr>"])
     (simp_all add: sem_init_def cond_init_def mutex_init_def list_create_def ss_demo_def Let_def)

lemma ss_demo_run:
  "sreach 1 (ss_demo 0 0 0 ((\<lambda>_. S_Out)(5 := S_Blocked 16))
     ((\<lambda>_. None)(16 \<mapsto> TCond \<lparr>tc_waitFlag = 1, tc_threadID = 5\<rparr>)) 2 1 1)"
proof -
  let ?pc = "(\<lambda>_. S_Out)(5 := S_Blocked 16)"
  let ?h = "(\<lambda>_. None)(16 \<mapsto> TCond \<lparr>tc_waitFlag = 0, tc_threadID = 5\<rparr>,
      32 \<mapsto> Node \<lparr>nd_next = 0, nd_prev = 0, nd_thread_data = 16, nd_threadID = 5\<rparr>)"
  note defs = ss_demo_def Let_def outcome_simps mx_free_def mutex_unlock_def
  have 1: "sreach 1 (ss_demo 0 0 0 (\<lambda>_. S_Out) (\<lambda>_. None) 1 1 0)"
    using sreach_start [OF ss_demo_start]
    by (rule sreach_via [OF _ s_pass [of _ 4 16 32]])
       (simp_all add: defs fresh_def sem_wait_enter_def)
  have 2: "sreach 1 (ss_demo (- 1) 32 1 ?pc ?h 2 1 0)"
    using 1 by (rule sreach_via [OF _ s_block [of _ 5 16 32]])
       (simp_all add: defs fresh_def sem_wait_enter_def cond_wait_enter_def cond_wait_body_def list_insert_def)
  show ?thesis
    using 2 by (rule sreach_via [OF _ s_signal [of _ 4]])
      (simp_all add: defs sem_signal_def cond_signal_def cond_wake_one_def cond_take_def cond_mark_def
        list_dequeue_def fun_upd_twist)
qed

theorem sem_permits_witness:
  "\<exists>s. sreach 1 s \<and> ss_waits s = 2 \<and> ss_passed s = 1 \<and> int (ss_passed s) \<le> 1 + int (ss_signals s)"
proof -
  let ?s = "ss_demo 0 0 0 ((\<lambda>_. S_Out)(5 := S_Blocked 16))
     ((\<lambda>_. None)(16 \<mapsto> TCond \<lparr>tc_waitFlag = 1, tc_threadID = 5\<rparr>)) 2 1 1"
  have s: "ss_waits ?s = 2" "ss_passed ?s = 1" "ss_signals ?s = 1" by (simp_all add: ss_demo_def Let_def)
  have "int (ss_passed ?s) \<le> 1 + int (ss_signals ?s)" using sem_permits [OF ss_demo_run] s by simp
  with ss_demo_run s show ?thesis by blast
qed

theorem sem_no_lost_permit_witness:
  "\<exists>s s'. sreach 1 s \<and> ss_pc s 5 = S_Blocked 16 \<and> sstep 5 s s' \<and> ss_pc s' 5 = S_Out"
proof -
  let ?s = "ss_demo 0 0 0 ((\<lambda>_. S_Out)(5 := S_Blocked 16))
     ((\<lambda>_. None)(16 \<mapsto> TCond \<lparr>tc_waitFlag = 1, tc_threadID = 5\<rparr>)) 2 1 1"
  have "ss_pc ?s 5 = S_Blocked 16" "value_of (ss_sem ?s) = 0" "int (ss_signals ?s) = 1"
    by (simp_all add: ss_demo_def Let_def)
  with sem_no_lost_permit [OF ss_demo_run] obtain es where
    "length es = 0" "16 \<in> data_of ` set es \<or> (\<exists>s'. sstep 5 ?s s' \<and> ss_pc s' 5 = S_Out)" by fastforce
  with ss_demo_run \<open>ss_pc ?s 5 = S_Blocked 16\<close> show ?thesis by auto
qed

end
