(* ===== verification/Memory.thy ===== *)
theory Memory
  imports Prelude
begin

text \<open>
  Byte-addressed memory for the C library: an address is a 32-bit word, a cell holds a byte, and a
  \<open>uint64_t\<close> is stored as 8 bytes, least significant first. Memory is total; the library's own
  reads of address 0 (NULL) are the branches \<open>Fault\<close> of the functions that make them.
\<close>

type_synonym mem = "addr \<Rightarrow> byte"

fun load_bytes :: "nat \<Rightarrow> mem \<Rightarrow> addr \<Rightarrow> u64" where
  "load_bytes 0 m a = 0"
| "load_bytes (Suc k) m a = ucast (m a) OR push_bit 8 (load_bytes k m (a + 1))"

fun store_bytes :: "nat \<Rightarrow> addr \<Rightarrow> u64 \<Rightarrow> mem \<Rightarrow> mem" where
  "store_bytes 0 a v m = m"
| "store_bytes (Suc k) a v m = store_bytes k (a + 1) (drop_bit 8 v) (m(a := ucast v))"

definition load64 :: "mem \<Rightarrow> addr \<Rightarrow> u64" where
  "load64 m a = load_bytes 8 m a"

definition store64 :: "addr \<Rightarrow> u64 \<Rightarrow> mem \<Rightarrow> mem" where
  "store64 a v m = store_bytes 8 a v m"

lemma load_bytes_cong:
  "(\<And>i. i < k \<Longrightarrow> m' (a + of_nat i) = m (a + of_nat i)) \<Longrightarrow> load_bytes k m' a = load_bytes k m a"
proof (induction k arbitrary: a)
  case 0
  show ?case by simp
next
  case (Suc k)
  have "m' a = m a" using Suc.prems [of 0] by simp
  moreover have "m' (a + 1 + of_nat i) = m (a + 1 + of_nat i)" if "i < k" for i
    using Suc.prems [of "Suc i"] that by (simp add: add.assoc)
  ultimately show ?case using Suc.IH [of "a + 1"] by simp
qed

lemma store_bytes_other:
  "(\<And>i. i < k \<Longrightarrow> b \<noteq> a + of_nat i) \<Longrightarrow> store_bytes k a v m b = m b"
proof (induction k arbitrary: a v m)
  case 0
  show ?case by simp
next
  case (Suc k)
  have "b \<noteq> a" using Suc.prems [of 0] by simp
  moreover have "b \<noteq> a + 1 + of_nat i" if "i < k" for i
    using Suc.prems [of "Suc i"] that by (simp add: add.assoc)
  ultimately show ?case using Suc.IH [of "a + 1"] by simp
qed

lemma addr_offset_ne: "0 < i \<Longrightarrow> i < 2 ^ 32 \<Longrightarrow> a \<noteq> a + (of_nat i :: addr)"
  using of_nat_eq_0_iff32 [of i] by simp

lemma byte_split:
  "ucast (ucast (v :: u64) :: byte) OR push_bit 8 (take_bit n (drop_bit 8 v)) = take_bit (8 + n) v"
proof (rule bit_word_eqI)
  fix j assume "j < LENGTH(64)"
  then show "bit (ucast (ucast v :: byte) OR push_bit 8 (take_bit n (drop_bit 8 v))) j = bit (take_bit (8 + n) v) j"
    by (cases "j < 8") (auto simp: bit_simps)
qed

lemma load_store_bytes:
  "k \<le> 8 \<Longrightarrow> load_bytes k (store_bytes k a v m) a = take_bit (8 * k) v"
proof (induction k arbitrary: a v m)
  case 0
  show ?case by simp
next
  case (Suc k)
  have "a \<noteq> a + 1 + of_nat i" if "i < k" for i
    using addr_offset_ne [of "Suc i" a] that Suc.prems by (simp add: add.assoc)
  then have "store_bytes k (a + 1) (drop_bit 8 v) (m(a := ucast v)) a = ucast v"
    by (subst store_bytes_other) auto
  then show ?case
    using Suc.IH [of "a + 1" "drop_bit 8 v" "m(a := ucast v)"] Suc.prems byte_split [of v "8 * k"]
    by (simp del: fun_upd_apply)
qed

lemma load_store64 [simp]: "load64 (store64 a v m) a = v"
  using load_store_bytes [of 8 a v m] by (simp add: load64_def store64_def take_bit_word_eq_self)

text \<open>Two different cells at multiples of 8 do not overlap.\<close>

definition al8 :: "addr \<Rightarrow> bool" where
  "al8 a \<longleftrightarrow> 8 dvd unat a"

lemma unat_add_small: "unat (a :: addr) + i < 2 ^ 32 \<Longrightarrow> unat (a + of_nat i) = unat a + i"
  by (simp add: unat_word_ariths unat_of_nat)

lemma al8_room: "al8 a \<Longrightarrow> unat a + 8 \<le> 2 ^ 32"
proof -
  assume "al8 a"
  then obtain q where "unat a = 8 * q" by (auto simp: al8_def)
  moreover have "unat a < 2 ^ 32" using unsigned_less [of a] by simp
  ultimately show ?thesis by simp
qed

lemma al8_apart:
  assumes "al8 a" "al8 b" "a \<noteq> b" "i < 8" "j < 8"
  shows "a + of_nat i \<noteq> b + of_nat j"
proof
  assume eq: "a + of_nat i = b + of_nat j"
  have "unat (a + of_nat i) = unat a + i" "unat (b + of_nat j) = unat b + j"
    using al8_room [OF assms(1)] al8_room [OF assms(2)] assms(4,5) by (simp_all add: unat_add_small)
  with eq have "unat a + i = unat b + j" by simp
  moreover obtain p where "unat a = 8 * p" using assms(1) unfolding al8_def by (rule dvdE)
  moreover obtain q where "unat b = 8 * q" using assms(2) unfolding al8_def by (rule dvdE)
  ultimately have "unat a = unat b" using assms(4,5) by presburger
  with assms(3) show False by (simp add: word_unat_eq_iff)
qed

lemma load_store64_other [simp]:
  assumes "al8 a" "al8 b" "a \<noteq> b"
  shows "load64 (store64 a v m) b = load64 m b"
  unfolding load64_def store64_def
proof (rule load_bytes_cong)
  fix i :: nat assume "i < 8"
  with al8_apart [OF assms(2,1)] assms(3)
  show "store_bytes 8 a v m (b + of_nat i) = m (b + of_nat i)" by (intro store_bytes_other) auto
qed

lemma store64_byte:
  assumes "al8 a" "unat b < unat a \<or> unat a + 8 \<le> unat b"
  shows "store64 a v m b = m b"
  unfolding store64_def
proof (rule store_bytes_other)
  fix i :: nat assume "i < 8"
  then have "unat (a + of_nat i) = unat a + i" using al8_room [OF assms(1)] by (simp add: unat_add_small)
  with assms(2) \<open>i < 8\<close> show "b \<noteq> a + of_nat i" by auto
qed

lemma load64_cong:
  assumes "al8 a" "\<And>b. unat a \<le> unat b \<Longrightarrow> unat b < unat a + 8 \<Longrightarrow> m' b = m b"
  shows "load64 m' a = load64 m a"
  unfolding load64_def
proof (rule load_bytes_cong)
  fix i :: nat assume "i < 8"
  then have "unat (a + of_nat i) = unat a + i" using al8_room [OF assms(1)] by (simp add: unat_add_small)
  with assms(2) [of "a + of_nat i"] \<open>i < 8\<close> show "m' (a + of_nat i) = m (a + of_nat i)" by simp
qed

end
