(* ===== verification/Malloc.thy ===== *)
theory Malloc
  imports Memory Kernel
begin

text \<open>
  410user/libmalloc: \<open>memlib.c\<close> (the break, extended with \<open>new_pages\<close>) and \<open>malloc.c\<close> (boundary-tag
  blocks with first fit and coalescing). The globals of both files and the memory are the record
  \<open>hs\<close>; a \<open>block_t*\<close> is the address of its header.

  The functions of malloc.c carry an \<open>assert\<close> at their boundaries (\<open>dbg_requires\<close> and so on): those
  are the \<open>Panic\<close> branches. \<open>heap_end\<close> is the linker's \<open>_end\<close>.
\<close>

section \<open>memlib.c\<close>

record hs =
  hs_max :: addr
  hs_brk :: addr
  hs_top :: addr
  hs_listp :: addr
  hs_mem :: mem

definition page_align_mask :: u32 where
  "page_align_mask = NOT (4096 - 1)"

partial_function (option) mem_init_loop :: "'k vm \<Rightarrow> addr \<Rightarrow> 'k \<Rightarrow> (addr \<times> 'k) option" where
  "mem_init_loop K brk k =
     (case vm_new_pages K brk 4096 k of (rc, k) \<Rightarrow>
        if rc \<noteq> 0 then mem_init_loop K (brk + 4096) k else Some (brk, k))"

definition mem_init :: "'k vm \<Rightarrow> addr \<Rightarrow> i32 \<Rightarrow> hs \<Rightarrow> 'k \<Rightarrow> (hs \<times> 'k) outcome" where
  "mem_init K heap_end max_heap_addr s k =
     (let s = s\<lparr>hs_max := max_heap_addr\<rparr>;
          brk = (heap_end + 4096) AND page_align_mask in
      case mem_init_loop K brk k of
        None \<Rightarrow> Hang
      | Some (brk, k) \<Rightarrow> Ret (s\<lparr>hs_brk := brk, hs_top := brk + 4096\<rparr>, k))"

definition mem_sbrk :: "'k vm \<Rightarrow> i32 \<Rightarrow> hs \<Rightarrow> 'k \<Rightarrow> addr \<times> hs \<times> 'k" where
  "mem_sbrk K incr s k =
     (let old_brk = hs_brk s in
      if neg32 incr \<or> hs_max s < old_brk + incr then (0, s, k)
      else if hs_top s < old_brk + incr then
        (let allocincr = ((old_brk + incr - hs_top s) + (4096 - 1)) AND page_align_mask in
         case vm_new_pages K (hs_top s) allocincr k of (rc, k) \<Rightarrow>
           if rc \<noteq> 0 then (0, s, k)
           else (old_brk, s\<lparr>hs_top := hs_top s + allocincr, hs_brk := hs_brk s + incr\<rparr>, k))
      else (old_brk, s\<lparr>hs_brk := hs_brk s + incr\<rparr>, k))"

section \<open>malloc.c: headers\<close>

definition wsize :: u32 where "wsize = 8"
definition dsize :: u32 where "dsize = 2 * 8"
definition min_block_size :: u32 where "min_block_size = 4 * 8"
definition chunksize :: u32 where "chunksize = push_bit 12 1"
definition alloc_mask :: u64 where "alloc_mask = 1"
definition size_mask :: u64 where "size_mask = NOT 15"

lemmas malloc_consts = wsize_def dsize_def min_block_size_def chunksize_def alloc_mask_def size_mask_def

definition size_max :: "u32 \<Rightarrow> u32 \<Rightarrow> u32" where
  "size_max x y = (if y < x then x else y)"

definition round_up :: "u32 \<Rightarrow> u32 \<Rightarrow> u32" where
  "round_up sz n = n * ((sz + (n - 1)) div n)"

definition pack :: "u32 \<Rightarrow> bool \<Rightarrow> u64" where
  "pack sz alloc = (if alloc then ucast (sz OR 1) else ucast sz)"

definition extract_size :: "u64 \<Rightarrow> u32" where
  "extract_size w = ucast (w AND size_mask)"

definition get_size :: "mem \<Rightarrow> addr \<Rightarrow> u32" where
  "get_size m block = extract_size (load64 m block)"

definition get_payload_size :: "mem \<Rightarrow> addr \<Rightarrow> u32" where
  "get_payload_size m block = get_size m block - dsize"

definition extract_alloc :: "u64 \<Rightarrow> bool" where
  "extract_alloc w \<longleftrightarrow> w AND alloc_mask \<noteq> 0"

definition get_alloc :: "mem \<Rightarrow> addr \<Rightarrow> bool" where
  "get_alloc m block = extract_alloc (load64 m block)"

definition write_header :: "addr \<Rightarrow> u32 \<Rightarrow> bool \<Rightarrow> mem \<Rightarrow> mem" where
  "write_header block sz alloc m = store64 block (pack sz alloc) m"

definition write_footer :: "addr \<Rightarrow> u32 \<Rightarrow> bool \<Rightarrow> mem \<Rightarrow> mem" where
  "write_footer block sz alloc m = store64 (block + 8 + get_size m block - dsize) (pack sz alloc) m"

definition find_next :: "mem \<Rightarrow> addr \<Rightarrow> addr outcome" where
  "find_next m block =
     c_assert (block \<noteq> 0)
       (let block_next = block + get_size m block in c_assert (block_next \<noteq> 0) (Ret block_next))"

definition find_prev_footer :: "addr \<Rightarrow> addr" where
  "find_prev_footer block = block - 8"

definition find_prev :: "mem \<Rightarrow> addr \<Rightarrow> addr" where
  "find_prev m block = block - extract_size (load64 m (find_prev_footer block))"

definition payload_to_header :: "addr \<Rightarrow> addr" where
  "payload_to_header bp = bp - 8"

definition header_to_payload :: "addr \<Rightarrow> addr" where
  "header_to_payload block = block + 8"

section \<open>malloc.c: blocks\<close>

definition coalesce :: "addr \<Rightarrow> mem \<Rightarrow> (addr \<times> mem) outcome" where
  "coalesce block m =
     bnd (find_next m block) (\<lambda>block_next.
     let block_prev = find_prev m block;
         prev_alloc = extract_alloc (load64 m (find_prev_footer block));
         next_alloc = get_alloc m block_next;
         sz = get_size m block in
     if prev_alloc \<and> next_alloc then Ret (block, m)
     else if prev_alloc \<and> \<not> next_alloc then
       let sz = sz + get_size m block_next;
           m = write_header block sz False m;
           m = write_footer block sz False m in
       Ret (block, m)
     else if \<not> prev_alloc \<and> next_alloc then
       let sz = sz + get_size m block_prev;
           m = write_header block_prev sz False m;
           m = write_footer block_prev sz False m in
       Ret (block_prev, m)
     else
       let sz = sz + (get_size m block_next + get_size m block_prev);
           m = write_header block_prev sz False m;
           m = write_footer block_prev sz False m in
       Ret (block_prev, m))"

definition extend_heap :: "'k vm \<Rightarrow> u32 \<Rightarrow> hs \<Rightarrow> 'k \<Rightarrow> (addr \<times> hs \<times> 'k) outcome" where
  "extend_heap K sz s k =
     (let sz = round_up sz dsize in
      case mem_sbrk K sz s k of (bp, s, k) \<Rightarrow>
      if bp = 0 then Ret (0, s, k)
      else
        let block = payload_to_header bp;
            m = write_header block sz False (hs_mem s);
            m = write_footer block sz False m in
        bnd (find_next m block) (\<lambda>block_next.
        let m = write_header block_next 0 True m in
        bnd (coalesce block m) (\<lambda>(b, m). Ret (b, s\<lparr>hs_mem := m\<rparr>, k))))"

definition place :: "addr \<Rightarrow> u32 \<Rightarrow> mem \<Rightarrow> mem outcome" where
  "place block asize m =
     (let csize = get_size m block in
      if min_block_size \<le> csize - asize then
        let m = write_header block asize True m;
            m = write_footer block asize True m in
        bnd (find_next m block) (\<lambda>block_next.
        let m = write_header block_next (csize - asize) False m;
            m = write_footer block_next (csize - asize) False m in
        Ret m)
      else
        let m = write_header block csize True m;
            m = write_footer block csize True m in
        Ret m)"

partial_function (option) find_fit_loop :: "mem \<Rightarrow> u32 \<Rightarrow> addr \<Rightarrow> addr outcome option" where
  "find_fit_loop m asize block =
     (if 0 < get_size m block then
        if \<not> get_alloc m block \<and> asize \<le> get_size m block then Some (Ret block)
        else case find_next m block of
               Ret nx \<Rightarrow> find_fit_loop m asize nx
             | Panic \<Rightarrow> Some Panic | Fault \<Rightarrow> Some Fault | Hang \<Rightarrow> Some Hang
      else Some (Ret 0))"

text \<open>Starting from \<open>heap_listp == NULL\<close> (after a failed \<open>mm_init\<close>) the first header read is a fault.\<close>

definition find_fit :: "u32 \<Rightarrow> hs \<Rightarrow> addr outcome" where
  "find_fit asize s =
     (if hs_listp s = 0 then Fault
      else case find_fit_loop (hs_mem s) asize (hs_listp s) of None \<Rightarrow> Hang | Some r \<Rightarrow> r)"

definition mm_checkheap :: "hs \<Rightarrow> bool outcome" where
  "mm_checkheap s =
     (let m = hs_mem s; listp = hs_listp s in
      if listp \<noteq> 0 then
        let prologue_footer = load64 m (find_prev_footer listp) in
        c_assert (extract_size prologue_footer = 0 \<and> extract_alloc prologue_footer)
          (if get_size m listp \<noteq> 0 then
             let block_header = load64 m listp in
             bnd (find_next m listp) (\<lambda>nx.
             let block_footer = load64 m (find_prev_footer nx) in
             c_assert (extract_size block_header = extract_size block_footer)
               (c_assert (extract_alloc block_header = extract_alloc block_footer) (Ret True)))
           else Ret True)
      else Ret True)"

section \<open>malloc.c: the four entry points\<close>

definition mm_init :: "'k vm \<Rightarrow> addr \<Rightarrow> hs \<Rightarrow> 'k \<Rightarrow> (bool \<times> hs \<times> 'k) outcome" where
  "mm_init K heap_end s k =
     bnd (mem_init K heap_end 0xffffffff s k) (\<lambda>(s, k).
     case mem_sbrk K (2 * wsize) s k of (start, s, k) \<Rightarrow>
     if start = 0 then Ret (False, s, k)
     else
       let m = store64 start (pack 0 True) (hs_mem s);
           m = store64 (start + 8) (pack 0 True) m;
           s = s\<lparr>hs_mem := m, hs_listp := start + 8\<rparr> in
       bnd (extend_heap K chunksize s k) (\<lambda>(b, s, k). Ret (b \<noteq> 0, s, k)))"

definition mm_malloc :: "'k vm \<Rightarrow> addr \<Rightarrow> u32 \<Rightarrow> hs \<Rightarrow> 'k \<Rightarrow> (addr \<times> hs \<times> 'k) outcome" where
  "mm_malloc K heap_end sz s k =
     bnd (mm_checkheap s) (\<lambda>ok. c_assert ok (
     bnd (if hs_listp s = 0 then bnd (mm_init K heap_end s k) (\<lambda>(r, s, k). Ret (s, k)) else Ret (s, k)) (\<lambda>(s, k).
     if sz = 0 then bnd (mm_checkheap s) (\<lambda>ok. c_assert ok (Ret (0, s, k)))
     else
       let asize = round_up sz dsize + dsize in
       bnd (find_fit asize s) (\<lambda>block.
       bnd (if block = 0 then extend_heap K (size_max asize chunksize) s k else Ret (block, s, k)) (\<lambda>(block, s, k).
       if block = 0 then Ret (0, s, k)
       else
         bnd (place block asize (hs_mem s)) (\<lambda>m.
         let s = s\<lparr>hs_mem := m\<rparr>; bp = header_to_payload block in
         bnd (mm_checkheap s) (\<lambda>ok. c_assert ok (Ret (bp, s, k)))))))))"

definition mm_free :: "addr \<Rightarrow> hs \<Rightarrow> hs outcome" where
  "mm_free bp s =
     (if bp = 0 then Ret s
      else
        let block = payload_to_header bp;
            sz = get_size (hs_mem s) block;
            m = write_header block sz False (hs_mem s);
            m = write_footer block sz False m in
        bnd (coalesce block m) (\<lambda>(b, m). Ret (s\<lparr>hs_mem := m\<rparr>)))"

text \<open>
  What \<open>memcpy\<close> (410user/libx86/bcopy.S) does to memory: it copies forward or backward so that overlapping areas are
  handled; the forward path shifts the count as a signed number and copies nothing when it is negative. The theory
  \<open>Block_Copy\<close> models the instructions and derives this definition. \<open>memset\<close> is 410user/libstring/memset.c.
\<close>

definition c_memcpy :: "addr \<Rightarrow> addr \<Rightarrow> u32 \<Rightarrow> mem \<Rightarrow> mem" where
  "c_memcpy to from n m =
     (if (from + n \<le> to \<or> to + n \<le> from \<or> to < from) \<and> neg32 n then m
      else (\<lambda>b. if unat (b - to) < unat n then m (from + (b - to)) else m b))"

fun memset_loop :: "nat \<Rightarrow> addr \<Rightarrow> byte \<Rightarrow> mem \<Rightarrow> mem" where
  "memset_loop 0 to c m = m"
| "memset_loop (Suc len) to c m = memset_loop len (to + 1) c (m(to := c))"

definition memset :: "addr \<Rightarrow> i32 \<Rightarrow> u32 \<Rightarrow> mem \<Rightarrow> addr \<times> mem" where
  "memset tov c len m = (tov, memset_loop (unat len) tov (ucast c) m)"

definition mm_realloc :: "'k vm \<Rightarrow> addr \<Rightarrow> addr \<Rightarrow> u32 \<Rightarrow> hs \<Rightarrow> 'k \<Rightarrow> (addr \<times> hs \<times> 'k) outcome" where
  "mm_realloc K heap_end ptr sz s k =
     (let block = payload_to_header ptr in
      if sz = 0 then bnd (mm_free ptr s) (\<lambda>s. Ret (0, s, k))
      else if ptr = 0 then mm_malloc K heap_end sz s k
      else
        bnd (mm_malloc K heap_end sz s k) (\<lambda>(newptr, s, k).
        if newptr = 0 then Ret (0, s, k)
        else
          let copysize = get_payload_size (hs_mem s) block;
              copysize = (if sz < copysize then sz else copysize);
              s = s\<lparr>hs_mem := c_memcpy newptr ptr copysize (hs_mem s)\<rparr> in
          bnd (mm_free ptr s) (\<lambda>s. Ret (newptr, s, k))))"

text \<open>\<open>asize/nmemb\<close> with \<open>nmemb == 0\<close> is a division by zero.\<close>

definition mm_calloc :: "'k vm \<Rightarrow> addr \<Rightarrow> u32 \<Rightarrow> u32 \<Rightarrow> hs \<Rightarrow> 'k \<Rightarrow> (addr \<times> hs \<times> 'k) outcome" where
  "mm_calloc K heap_end nmemb sz s k =
     (let asize = nmemb * sz in
      if nmemb = 0 then Fault
      else if asize div nmemb \<noteq> sz then Ret (0, s, k)
      else
        bnd (mm_malloc K heap_end asize s k) (\<lambda>(bp, s, k).
        if bp = 0 then Ret (0, s, k)
        else Ret (bp, s\<lparr>hs_mem := snd (memset bp 0 asize (hs_mem s))\<rparr>, k)))"

end
