(* ===== verification/Malloc_Heap.thy ===== *)
theory Malloc_Heap
  imports Malloc
begin

text \<open>
  The heap of malloc.c as a list of blocks. \<open>heap_tags m hp bs\<close>: from the first block header at \<open>hp\<close> the
  memory holds the blocks \<open>bs\<close> (size and allocation bit, in address order), with equal header and
  footer each, between a prologue footer and an epilogue header of size 0. Addresses are
  natural numbers here; \<open>W a\<close> is the pointer.
\<close>

section \<open>Headers\<close>

definition W :: "nat \<Rightarrow> addr" where
  "W a = of_nat a"

definition pk :: "nat \<Rightarrow> bool \<Rightarrow> u64" where
  "pk n al = pack (W n) al"

lemma unat_W: "a < 2 ^ 32 \<Longrightarrow> unat (W a) = a"
  by (simp add: W_def unat_of_nat)

lemma W_eq_iff: "a < 2 ^ 32 \<Longrightarrow> b < 2 ^ 32 \<Longrightarrow> W a = W b \<longleftrightarrow> a = b"
  by (metis unat_W)

lemma W_0_iff: "a < 2 ^ 32 \<Longrightarrow> W a = 0 \<longleftrightarrow> a = 0"
  unfolding W_def by (rule of_nat_eq_0_iff32)

lemma al8_W: "8 dvd a \<Longrightarrow> a < 2 ^ 32 \<Longrightarrow> al8 (W a)"
  by (simp add: al8_def unat_W)

lemma W_add: "W a + W b = W (a + b)"
  by (simp add: W_def)

lemma W_diff: "b \<le> a \<Longrightarrow> W a - W b = W (a - b)"
  by (simp add: W_def)

lemma W_unat: "W (unat x) = x"
  by (simp add: W_def)

lemma W_numeral: "W 0 = 0" "W 8 = 8" "W 16 = 16" "W 4096 = 4096" "W 32 = 32"
  by (simp_all add: W_def)

lemma dvd16_8: "16 dvd n \<Longrightarrow> 8 dvd (n :: nat)"
  by (rule dvd_trans [of 8 16]) simp_all

lemma mod16_8: "n mod 16 = 8 \<Longrightarrow> 8 dvd (n :: nat)"
  by presburger

lemma load_store_W:
  "8 dvd a \<Longrightarrow> 8 dvd b \<Longrightarrow> a < 2 ^ 32 \<Longrightarrow> b < 2 ^ 32 \<Longrightarrow>
   load64 (store64 (W a) v m) (W b) = (if a = b then v else load64 m (W b))"
  by (simp add: al8_W W_eq_iff)

lemma low_bits_clear: "16 dvd n \<Longrightarrow> i < 4 \<Longrightarrow> \<not> bit (W n) i"
proof -
  assume a: "16 dvd n" "i < 4"
  have "take_bit 4 n = 0" using a(1) by (simp add: take_bit_eq_mod)
  then have "\<not> bit n i" using a(2) by (metis bit_0_eq bit_take_bit_iff bot_apply bot_bool_def)
  then show ?thesis by (simp add: W_def bit_simps)
qed

lemma bit_size_mask: "bit size_mask i \<longleftrightarrow> 4 \<le> i \<and> i < 64"
proof -
  have "(15 :: u64) = mask 4" by (simp add: mask_eq_exp_minus_1)
  then have sm: "size_mask = NOT (mask 4)" by (simp add: size_mask_def)
  show ?thesis unfolding sm bit_not_iff bit_mask_iff by auto
qed

lemma extract_pk [simp]:
  assumes "16 dvd n"
  shows "extract_size (pk n al) = W n" "extract_alloc (pk n al) = al"
proof -
  note low = low_bits_clear [OF assms]
  show "extract_size (pk n al) = W n"
  proof (rule bit_word_eqI)
    fix i assume "i < LENGTH(32)"
    then show "bit (extract_size (pk n al)) i = bit (W n) i"
      using low [of i] by (cases "i < 4")
        (auto simp: extract_size_def pk_def pack_def bit_simps bit_size_mask)
  qed
  have "bit (pk n al) 0 = al" using low [of 0] by (simp add: pk_def pack_def bit_simps)
  moreover have "pk n al AND 1 \<noteq> 0 \<longleftrightarrow> bit (pk n al) 0"
    by (simp add: and_one_eq odd_iff_mod_2_eq_one bit_0)
  ultimately show "extract_alloc (pk n al) = al" by (simp add: extract_alloc_def alloc_mask_def)
qed

section \<open>Blocks\<close>

type_synonym block = "nat \<times> bool"

definition bsize :: "block list \<Rightarrow> nat" where
  "bsize bs = sum_list (map fst bs)"

lemma bsize_simps [simp]:
  "bsize [] = 0" "bsize (b # bs) = fst b + bsize bs" "bsize (bs @ cs) = bsize bs + bsize cs"
  by (simp_all add: bsize_def)

fun blocks :: "mem \<Rightarrow> nat \<Rightarrow> block list \<Rightarrow> bool" where
  "blocks m a [] = True"
| "blocks m a ((n, al) # bs) = (16 dvd n \<and> 16 \<le> n \<and> load64 m (W a) = pk n al \<and>
     load64 m (W (a + n - 8)) = pk n al \<and> blocks m (a + n) bs)"

definition heap_tags :: "mem \<Rightarrow> nat \<Rightarrow> block list \<Rightarrow> bool" where
  "heap_tags m hp bs \<longleftrightarrow> hp mod 16 = 8 \<and> 16 < hp \<and> hp + bsize bs + 8 < 2 ^ 32 \<and>
     load64 m (W (hp - 8)) = pk 0 True \<and> blocks m hp bs \<and> load64 m (W (hp + bsize bs)) = pk 0 True"

text \<open>No two neighbouring blocks are both free.\<close>

fun no_adj :: "block list \<Rightarrow> bool" where
  "no_adj (b # c # bs) = ((snd b \<or> snd c) \<and> no_adj (c # bs))"
| "no_adj bs = True"

lemma no_adj_append:
  "no_adj (xs @ ys) \<longleftrightarrow> no_adj xs \<and> no_adj ys \<and> (xs = [] \<or> ys = [] \<or> snd (last xs) \<or> snd (hd ys))"
proof (induction xs)
  case (Cons x xs)
  then show ?case by (cases xs; cases ys) auto
qed simp

text \<open>The payloads in use: first address and length of each allocated block.\<close>

fun live :: "nat \<Rightarrow> block list \<Rightarrow> (nat \<times> nat) list" where
  "live a [] = []"
| "live a ((n, al) # bs) = (if al then [(a + 8, n - 16)] else []) @ live (a + n) bs"

lemma live_append: "live a (xs @ ys) = live a xs @ live (a + bsize xs) ys"
  by (induction a xs rule: live.induct) (simp_all add: add.assoc)

lemma blocks_append: "blocks m a (xs @ ys) \<longleftrightarrow> blocks m a xs \<and> blocks m (a + bsize xs) ys"
  by (induction xs arbitrary: a) (auto simp: add.assoc)

lemma blocks_dvd: "blocks m a bs \<Longrightarrow> 16 dvd bsize bs"
  by (induction m a bs rule: blocks.induct) (auto intro: dvd_add)

lemma blocks_cong:
  "(\<And>x. 8 dvd x \<Longrightarrow> a \<le> x \<Longrightarrow> x < a + bsize bs \<Longrightarrow> load64 m' (W x) = load64 m (W x)) \<Longrightarrow> 8 dvd a \<Longrightarrow>
   blocks m a bs \<Longrightarrow> blocks m' a bs"
proof (induction bs arbitrary: a)
  case Nil
  show ?case by simp
next
  case (Cons b bs)
  obtain n al where b: "b = (n, al)" by (cases b)
  from Cons.prems(3) b have n: "16 dvd n" "16 \<le> n" by simp_all
  have d: "8 dvd a + n" "8 dvd a + n - 8"
    using Cons.prems(2) n(1) by (auto intro: dvd_add dvd_diff_nat dvd16_8)
  have "load64 m' (W a) = load64 m (W a)" "load64 m' (W (a + n - 8)) = load64 m (W (a + n - 8))"
    using Cons.prems(1) [of a] Cons.prems(1) [of "a + n - 8"] Cons.prems(2) d n b by simp_all
  moreover have "blocks m' (a + n) bs"
    using Cons.prems b d(1) by (intro Cons.IH) simp_all
  ultimately show ?case using Cons.prems(3) b by simp
qed

text \<open>Writing the tags of the block of \<open>n\<close> bytes at \<open>a\<close>.\<close>

definition tagged :: "nat \<Rightarrow> nat \<Rightarrow> bool \<Rightarrow> mem \<Rightarrow> mem" where
  "tagged a n al m = store64 (W (a + n - 8)) (pk n al) (store64 (W a) (pk n al) m)"

lemma write_tags:
  assumes "16 dvd n" "16 \<le> n"
  shows "write_footer (W a) (W n) al (write_header (W a) (W n) al m) = tagged a n al m"
proof -
  have "W a + 8 + W n - dsize = W (a + n - 8)"
  proof -
    have "a + 8 + n - 16 = a + n - 8" "16 \<le> a + 8 + n" using assms(2) by simp_all
    with W_add [of a 8] W_add [of "a + 8" n] W_diff [of 16 "a + 8 + n"] show ?thesis
      by (simp add: dsize_def W_numeral)
  qed
  then show ?thesis
    using assms by (simp add: write_footer_def write_header_def get_size_def tagged_def pk_def [symmetric])
qed

lemma load_tagged:
  assumes "8 dvd a" "16 dvd n" "16 \<le> n" "a + n \<le> 2 ^ 32" "8 dvd x" "x < 2 ^ 32"
  shows "load64 (tagged a n al m) (W x) = (if x = a \<or> x = a + n - 8 then pk n al else load64 m (W x))"
proof -
  have "8 dvd a + n - 8" using assms(1,2) by (auto intro: dvd_diff_nat dvd_add dvd_trans [of 8 16])
  moreover have "a + n - 8 < 2 ^ 32" "a < 2 ^ 32" using assms(3,4) by simp_all
  ultimately show ?thesis using assms(1,5,6) by (simp add: tagged_def load_store_W)
qed

lemma tagged_byte:
  assumes "8 dvd a" "16 dvd n" "16 \<le> n" "a + n \<le> 2 ^ 32"
    and "unat b < a \<or> a + n \<le> unat b \<or> a + 8 \<le> unat b \<and> unat b < a + n - 8"
  shows "tagged a n al m b = m b"
proof -
  have d: "8 dvd a + n - 8" using assms(1,2) by (auto intro: dvd_diff_nat dvd_add dvd_trans [of 8 16])
  have b: "a + n - 8 < 2 ^ 32" "a < 2 ^ 32" using assms(3,4) by simp_all
  show ?thesis
    unfolding tagged_def
    using assms(3,5) unat_W [OF b(1)] unat_W [OF b(2)]
    by (subst store64_byte [OF al8_W [OF d b(1)]], linarith, subst store64_byte [OF al8_W [OF assms(1) b(2)]], linarith, simp)
qed

lemma heap_tagsD:
  assumes "heap_tags m hp (xs @ ys)"
  shows "8 dvd hp" "16 dvd bsize xs" "16 dvd bsize ys" "hp + bsize xs + bsize ys + 8 < 2 ^ 32" "16 < hp" "8 dvd hp + bsize xs"
    "blocks m hp xs" "blocks m (hp + bsize xs) ys" "load64 m (W (hp - 8)) = pk 0 True"
    "load64 m (W (hp + bsize xs + bsize ys)) = pk 0 True"
proof -
  show a: "8 dvd hp" using assms by (simp add: heap_tags_def mod16_8)
  show "blocks m hp xs" "blocks m (hp + bsize xs) ys" using assms by (simp_all add: heap_tags_def blocks_append)
  then show b: "16 dvd bsize xs" "16 dvd bsize ys" using blocks_dvd by blast+
  show "8 dvd hp + bsize xs" using a b(1) by (auto intro: dvd_add dvd_trans [of 8 16])
  show "hp + bsize xs + bsize ys + 8 < 2 ^ 32" "16 < hp" "load64 m (W (hp - 8)) = pk 0 True"
    "load64 m (W (hp + bsize xs + bsize ys)) = pk 0 True"
    using assms by (simp_all add: heap_tags_def add.assoc)
qed

text \<open>Rewriting the tags of a run of blocks as one block of the same total size.\<close>

lemma heap_tags_replace:
  assumes h: "heap_tags m hp (xs @ zs @ ys)" and n: "bsize zs = n" "16 \<le> n"
  shows "heap_tags (tagged (hp + bsize xs) n al m) hp (xs @ (n, al) # ys)"
proof -
  let ?a = "hp + bsize xs"
  let ?m = "tagged ?a n al m"
  note D = heap_tagsD [OF h]
  have h2: "heap_tags m hp ((xs @ zs) @ ys)" using h by simp
  note E = heap_tagsD [OF h2]
  have d: "16 dvd n" using D(3) E(3) n(1) by (simp add: dvd_add_left_iff)
  have bound: "?a + n + bsize ys + 8 < 2 ^ 32" using D(4) n by simp
  have ld: "load64 ?m (W x) = (if x = ?a \<or> x = ?a + n - 8 then pk n al else load64 m (W x))"
    if "8 dvd x" "x < 2 ^ 32" for x
    using load_tagged [OF D(6) d n(2) _ that] bound by simp
  have "blocks ?m hp xs"
  proof (rule blocks_cong [OF _ D(1) D(7)])
    fix x assume x: "8 dvd x" "hp \<le> x" "x < hp + bsize xs"
    then have "x < 2 ^ 32" "x \<noteq> ?a" "x \<noteq> ?a + n - 8" using bound n(2) by auto
    with ld x show "load64 ?m (W x) = load64 m (W x)" by simp
  qed
  moreover have "blocks ?m (?a + n) ys"
  proof (rule blocks_cong)
    fix x assume x: "8 dvd x" "?a + n \<le> x" "x < ?a + n + bsize ys"
    then have "x < 2 ^ 32" "x \<noteq> ?a" "x \<noteq> ?a + n - 8" using bound n(2) by auto
    with ld x show "load64 ?m (W x) = load64 m (W x)" by simp
  next
    show "8 dvd ?a + n" using D(6) d by (auto intro: dvd_add dvd_trans [of 8 16])
    show "blocks m (?a + n) ys" using E(8) n(1) by (simp add: add.assoc)
  qed
  moreover have "load64 ?m (W (hp - 8)) = pk 0 True"
    using ld [of "hp - 8"] D(1,4,5,9) n(2) by (auto intro: dvd_diff_nat)
  moreover have "load64 ?m (W (?a + n + bsize ys)) = pk 0 True"
  proof -
    have "8 dvd ?a + n + bsize ys" by (intro dvd_add dvd16_8 D(6) d E(3))
    moreover have "?a + n + bsize ys < 2 ^ 32" "?a + n + bsize ys \<noteq> ?a" "?a + n + bsize ys \<noteq> ?a + n - 8"
      using bound n(2) by simp_all
    ultimately have "load64 ?m (W (?a + n + bsize ys)) = load64 m (W (?a + n + bsize ys))"
      using ld n(2) by simp
    with E(10) n(1) show ?thesis by (simp add: add.assoc)
  qed
  moreover have "8 dvd ?a + n - 8" using D(6) d by (auto intro: dvd_diff_nat dvd_add dvd_trans [of 8 16])
  ultimately show ?thesis
    using h d n(2) bound ld [of ?a] ld [of "?a + n - 8"] D(6) by (simp add: heap_tags_def blocks_append add.assoc)
qed

text \<open>Splitting a block into two.\<close>

lemma heap_tags_split:
  assumes h: "heap_tags m hp (xs @ (p + q, al) # ys)"
    and pq: "16 dvd p" "16 dvd q" "16 \<le> p" "16 \<le> q"
  shows "heap_tags (tagged (hp + bsize xs + p) q al2 (tagged (hp + bsize xs) p al1 m)) hp (xs @ (p, al1) # (q, al2) # ys)"
proof -
  let ?a = "hp + bsize xs"
  let ?m1 = "tagged ?a p al1 m"
  let ?m = "tagged (?a + p) q al2 ?m1"
  note D = heap_tagsD [OF h]
  have ys: "blocks m (?a + (p + q)) ys" "16 dvd bsize ys" using D(3,8) pq by (auto dest: blocks_dvd)
  have bound: "?a + p + q + bsize ys + 8 < 2 ^ 32" using D(4) by simp
  have dp: "8 dvd ?a + p" "8 dvd ?a + p + q" by (intro dvd_add dvd16_8 D(6) pq(1,2))+
  then have dp': "8 dvd ?a + p - 8" "8 dvd ?a + p + q - 8" by (auto intro: dvd_diff_nat)
  have ld1: "load64 ?m1 (W x) = (if x = ?a \<or> x = ?a + p - 8 then pk p al1 else load64 m (W x))"
    if "8 dvd x" "x < 2 ^ 32" for x
    using load_tagged [OF D(6) pq(1,3) _ that] bound by simp
  have ld: "load64 ?m (W x) = (if x = ?a + p \<or> x = ?a + p + q - 8 then pk q al2 else
      if x = ?a \<or> x = ?a + p - 8 then pk p al1 else load64 m (W x))" if "8 dvd x" "x < 2 ^ 32" for x
    using load_tagged [OF dp(1) pq(2,4) _ that] ld1 [OF that] bound by simp
  have out: "load64 ?m (W x) = load64 m (W x)" if "8 dvd x" "x < 2 ^ 32" "x < ?a \<or> ?a + p + q \<le> x" for x
  proof -
    have "x \<noteq> ?a" "x \<noteq> ?a + p - 8" "x \<noteq> ?a + p" "x \<noteq> ?a + p + q - 8" using that(3) pq(3,4) by auto
    with ld [OF that(1,2)] show ?thesis by simp
  qed
  have "blocks ?m hp xs"
  proof (rule blocks_cong [OF _ D(1) D(7)])
    fix x assume "8 dvd x" "hp \<le> x" "x < hp + bsize xs"
    then show "load64 ?m (W x) = load64 m (W x)" using bound by (intro out) auto
  qed
  moreover have "blocks ?m (?a + p + q) ys"
  proof (rule blocks_cong [OF _ dp(2)])
    fix x assume "8 dvd x" "?a + p + q \<le> x" "x < ?a + p + q + bsize ys"
    then show "load64 ?m (W x) = load64 m (W x)" using bound by (intro out) auto
  qed (use ys(1) in \<open>simp add: add.assoc\<close>)
  moreover have "load64 ?m (W (hp - 8)) = pk 0 True"
  proof -
    have "8 dvd hp - 8" using D(1) by (auto intro: dvd_diff_nat)
    then have "load64 ?m (W (hp - 8)) = load64 m (W (hp - 8))" using D(4,5) by (intro out) auto
    with D(9) show ?thesis by simp
  qed
  moreover have "load64 ?m (W (?a + p + q + bsize ys)) = pk 0 True"
  proof -
    have "8 dvd ?a + p + q + bsize ys" by (intro dvd_add [OF dp(2)] dvd16_8 ys(2))
    then have "load64 ?m (W (?a + p + q + bsize ys)) = load64 m (W (?a + p + q + bsize ys))"
      using bound by (intro out) auto
    with D(10) show ?thesis by (simp add: add.assoc)
  qed
  moreover have "load64 ?m (W ?a) = pk p al1" "load64 ?m (W (?a + p - 8)) = pk p al1"
    "load64 ?m (W (?a + p)) = pk q al2" "load64 ?m (W (?a + p + q - 8)) = pk q al2"
    using ld [of ?a] ld [of "?a + p - 8"] ld [of "?a + p"] ld [of "?a + p + q - 8"] dp dp' D(6) bound pq(3,4) by auto
  ultimately show ?thesis
    using h pq bound by (simp add: heap_tags_def blocks_append add.assoc)
qed

section \<open>Looking around a block\<close>

lemma blocks_mem: "blocks m a bs \<Longrightarrow> b \<in> set bs \<Longrightarrow> 16 dvd fst b \<and> 16 \<le> fst b"
  by (induction m a bs rule: blocks.induct) auto

lemma blocks_bound: "blocks m a bs \<Longrightarrow> b \<in> set bs \<Longrightarrow> fst b \<le> bsize bs"
  by (induction m a bs rule: blocks.induct) auto

lemma next_tag:
  assumes "heap_tags m hp (xs @ ys)"
  shows "load64 m (W (hp + bsize xs)) = (if ys = [] then pk 0 True else pk (fst (hd ys)) (snd (hd ys)))"
  using heap_tagsD(8,10) [OF assms] by (cases ys) auto

lemma prev_tag:
  assumes "heap_tags m hp (xs @ ys)"
  shows "load64 m (W (hp + bsize xs - 8)) = (if xs = [] then pk 0 True else pk (fst (last xs)) (snd (last xs)))"
proof (cases xs rule: rev_cases)
  case Nil
  with heap_tagsD(9) [OF assms] show ?thesis by simp
next
  case (snoc xs' b)
  with heap_tagsD(7) [OF assms] show ?thesis by (cases b) (simp add: blocks_append add.assoc)
qed

lemma get_size_W:
  "load64 m (W a) = pk n al \<Longrightarrow> 16 dvd n \<Longrightarrow> get_size m (W a) = W n"
  "load64 m (W a) = pk n al \<Longrightarrow> 16 dvd n \<Longrightarrow> get_alloc m (W a) = al"
  by (simp_all add: get_size_def get_alloc_def)

lemma find_next_W:
  assumes "load64 m (W a) = pk n al" "16 dvd n" "0 < a" "a + n < 2 ^ 32"
  shows "find_next m (W a) = Ret (W (a + n))"
  using assms by (simp add: find_next_def get_size_W W_add W_0_iff Let_def)

lemma find_prev_footer_W: "8 \<le> a \<Longrightarrow> find_prev_footer (W a) = W (a - 8)"
  using W_diff [of 8 a] by (simp add: find_prev_footer_def W_numeral)

section \<open>Coalescing\<close>

text \<open>The free neighbours a new free block is joined with.\<close>

definition merge_prev :: "block list \<Rightarrow> block list \<times> nat" where
  "merge_prev xs = (if xs \<noteq> [] \<and> \<not> snd (last xs) then (butlast xs, fst (last xs)) else (xs, 0))"

definition merge_next :: "block list \<Rightarrow> nat \<times> block list" where
  "merge_next ys = (if ys \<noteq> [] \<and> \<not> snd (hd ys) then (fst (hd ys), tl ys) else (0, ys))"

definition merged :: "block list \<Rightarrow> nat \<Rightarrow> block list \<Rightarrow> block list" where
  "merged xs n ys = fst (merge_prev xs) @ (snd (merge_prev xs) + n + fst (merge_next ys), False) # snd (merge_next ys)"

text \<open>The write that joins the blocks \<open>zs\<close> into one free block.\<close>

lemma join_blocks:
  assumes h: "heap_tags m hp (xs @ zs @ ys)" and t: "bsize zs = t" "16 \<le> t" and a: "hp + bsize xs = a"
  shows "\<exists>m'. write_footer (W a) (W t) False (write_header (W a) (W t) False m) = m' \<and>
    heap_tags m' hp (xs @ (t, False) # ys) \<and> (\<forall>b. unat b < a \<or> a + t \<le> unat b \<longrightarrow> m' b = m b)"
proof -
  note D = heap_tagsD [OF h]
  have "heap_tags m hp ((xs @ zs) @ ys)" using h by simp
  note E = heap_tagsD [OF this]
  have d: "16 dvd t" using D(2) E(2) t(1) by (simp add: dvd_add_right_iff)
  have b: "a + t \<le> 2 ^ 32" using D(4) t(1) a by simp
  have "8 dvd a" using D(6) a by simp
  with write_tags [OF d t(2)] heap_tags_replace [OF h t] tagged_byte [OF _ d t(2) b] a show ?thesis by blast
qed

lemma coalesce_rep:
  assumes h: "heap_tags m hp (xs @ (n, False) # ys)"
  shows "\<exists>m'. coalesce (W (hp + bsize xs)) m = Ret (W (hp + bsize (fst (merge_prev xs))), m') \<and>
    heap_tags m' hp (merged xs n ys) \<and>
    (\<forall>b. unat b < hp + bsize (fst (merge_prev xs)) \<or>
       hp + bsize (fst (merge_prev xs)) + (snd (merge_prev xs) + n + fst (merge_next ys)) \<le> unat b \<longrightarrow> m' b = m b)"
proof -
  let ?a = "hp + bsize xs"
  note D = heap_tagsD [OF h]
  have n: "16 dvd n" "16 \<le> n" "load64 m (W ?a) = pk n False" using D(8) by auto
  have bound: "?a + n + bsize ys + 8 < 2 ^ 32" using D(4) by simp
  have nx: "find_next m (W ?a) = Ret (W (?a + n))" by (rule find_next_W) (use n bound D(5) in auto)
  have "heap_tags m hp ((xs @ [(n, False)]) @ ys)" using h by simp
  from next_tag [OF this] have nt: "load64 m (W (?a + n)) = (if ys = [] then pk 0 True else pk (fst (hd ys)) (snd (hd ys)))"
    by (simp add: add.assoc)
  note pt = prev_tag [OF h]
  have pf: "find_prev_footer (W ?a) = W (?a - 8)" using D(5) by (intro find_prev_footer_W) simp
  have ym: "16 dvd fst (hd ys) \<and> 16 \<le> fst (hd ys) \<and> fst (hd ys) \<le> bsize ys" if "ys \<noteq> []"
    using that D(8) blocks_mem [of m "?a + n" ys] blocks_bound [of m "?a + n" ys] by auto
  have xm: "16 dvd fst (last xs) \<and> 16 \<le> fst (last xs) \<and> fst (last xs) \<le> bsize xs" if "xs \<noteq> []"
    using that D(7) blocks_mem [of m hp xs] blocks_bound [of m hp xs] by auto
  let ?na = "ys = [] \<or> snd (hd ys)" and ?pa = "xs = [] \<or> snd (last xs)"
  have na: "get_alloc m (W (?a + n)) = ?na" "\<not> ?na \<Longrightarrow> get_size m (W (?a + n)) = W (fst (hd ys))"
    using nt ym by (auto simp: get_alloc_def get_size_def)
  have pa: "extract_alloc (load64 m (find_prev_footer (W ?a))) = ?pa" using pt xm by (auto simp: pf)
  have sz: "get_size m (W ?a) = W n" using n by (simp add: get_size_W)
  have prev: "find_prev m (W ?a) = W (hp + bsize (butlast xs))"
      "get_size m (W (hp + bsize (butlast xs))) = W (fst (last xs))"
      "hp + bsize (butlast xs) + fst (last xs) = ?a" if "\<not> ?pa"
  proof -
    have xs: "xs = butlast xs @ [last xs]" using that by simp
    then have b: "bsize xs = bsize (butlast xs) + fst (last xs)" by (metis bsize_simps(1,2,3) add.right_neutral)
    then show e: "hp + bsize (butlast xs) + fst (last xs) = ?a" by simp
    from pt that xm have "find_prev m (W ?a) = W ?a - W (fst (last xs))" by (simp add: find_prev_def pf)
    also have "\<dots> = W (hp + bsize (butlast xs))" using b by (subst W_diff) auto
    finally show "find_prev m (W ?a) = W (hp + bsize (butlast xs))" .
    have "blocks m hp (butlast xs @ [last xs])" using D(7) xs by simp
    then have "load64 m (W (hp + bsize (butlast xs))) = pk (fst (last xs)) (snd (last xs))"
      by (cases "last xs") (simp add: blocks_append)
    with xm that show "get_size m (W (hp + bsize (butlast xs))) = W (fst (last xs))" by (auto simp: get_size_def)
  qed
  have add: "W n + W q = W (n + q)" for q by (rule W_add)
  show ?thesis
  proof (cases ?pa)
    case pa1: True
    then have mp: "merge_prev xs = (xs, 0)" by (auto simp: merge_prev_def)
    show ?thesis
    proof (cases ?na)
      case True
      then have "merge_next ys = (0, ys)" by (auto simp: merge_next_def)
      with mp True pa1 h nx na pa show ?thesis
        by (simp add: coalesce_def outcome_simps Let_def merged_def del: bnd_Ret_iff)
    next
      case False
      then have mn: "merge_next ys = (fst (hd ys), tl ys)" and ys: "ys = hd ys # tl ys" by (auto simp: merge_next_def)
      from h ys have "heap_tags m hp (xs @ [(n, False), hd ys] @ tl ys)" by simp
      from join_blocks [OF this, of "n + fst (hd ys)" ?a] n obtain m' where
        "write_footer (W ?a) (W (n + fst (hd ys))) False (write_header (W ?a) (W (n + fst (hd ys))) False m) = m'"
        "heap_tags m' hp (xs @ (n + fst (hd ys), False) # tl ys)"
        "\<forall>b. unat b < ?a \<or> ?a + (n + fst (hd ys)) \<le> unat b \<longrightarrow> m' b = m b" by auto
      with mp mn False pa1 nx na pa sz add show ?thesis
        by (simp add: coalesce_def outcome_simps Let_def merged_def del: bnd_Ret_iff)
    qed
  next
    case pa0: False
    note pv = prev [OF pa0]
    from pa0 have mp: "merge_prev xs = (butlast xs, fst (last xs))" and xs: "xs = butlast xs @ [last xs]"
      by (auto simp: merge_prev_def)
    show ?thesis
    proof (cases ?na)
      case True
      then have mn: "merge_next ys = (0, ys)" by (auto simp: merge_next_def)
      have "butlast xs @ [last xs, (n, False)] @ ys = (butlast xs @ [last xs]) @ (n, False) # ys" by simp
      then have "heap_tags m hp (butlast xs @ [last xs, (n, False)] @ ys)" using h xs by metis
      from join_blocks [OF this, of "fst (last xs) + n" "hp + bsize (butlast xs)"] n obtain m' where
        "write_footer (W (hp + bsize (butlast xs))) (W (fst (last xs) + n)) False
           (write_header (W (hp + bsize (butlast xs))) (W (fst (last xs) + n)) False m) = m'"
        "heap_tags m' hp (butlast xs @ (fst (last xs) + n, False) # ys)"
        "\<forall>b. unat b < hp + bsize (butlast xs) \<or> hp + bsize (butlast xs) + (fst (last xs) + n) \<le> unat b \<longrightarrow> m' b = m b"
        by auto
      with mp mn True pa0 nx na pa sz add pv show ?thesis
        by (simp add: coalesce_def outcome_simps Let_def merged_def add.commute [of n] del: bnd_Ret_iff)
    next
      case False
      then have mn: "merge_next ys = (fst (hd ys), tl ys)" and ys: "ys = hd ys # tl ys" by (auto simp: merge_next_def)
      let ?t = "fst (last xs) + n + fst (hd ys)"
      have "butlast xs @ [last xs, (n, False), hd ys] @ tl ys = (butlast xs @ [last xs]) @ (n, False) # hd ys # tl ys"
        by simp
      then have "heap_tags m hp (butlast xs @ [last xs, (n, False), hd ys] @ tl ys)" using h xs ys by metis
      from join_blocks [OF this, of ?t "hp + bsize (butlast xs)"] n obtain m' where
        w: "write_footer (W (hp + bsize (butlast xs))) (W ?t) False
           (write_header (W (hp + bsize (butlast xs))) (W ?t) False m) = m'"
        "heap_tags m' hp (butlast xs @ (?t, False) # tl ys)"
        "\<forall>b. unat b < hp + bsize (butlast xs) \<or> hp + bsize (butlast xs) + ?t \<le> unat b \<longrightarrow> m' b = m b"
        by auto
      have "W n + (W (fst (hd ys)) + W (fst (last xs))) = W ?t" by (simp add: W_add algebra_simps)
      with w mp mn False pa0 nx na pa sz pv show ?thesis
        by (simp add: coalesce_def outcome_simps Let_def merged_def del: bnd_Ret_iff)
    qed
  qed
qed

lemma bsize_merged: "bsize (merged xs n ys) = bsize xs + n + bsize ys"
proof -
  have "bsize xs = bsize (fst (merge_prev xs)) + snd (merge_prev xs)"
    by (cases xs rule: rev_cases) (auto simp: merge_prev_def)
  moreover have "bsize ys = fst (merge_next ys) + bsize (snd (merge_next ys))"
    by (cases ys) (auto simp: merge_next_def)
  ultimately show ?thesis by (simp add: merged_def)
qed

lemma no_adj_merged:
  assumes "no_adj xs" "no_adj ys"
  shows "no_adj (merged xs n ys)"
proof -
  have "no_adj (fst (merge_prev xs)) \<and> (fst (merge_prev xs) = [] \<or> snd (last (fst (merge_prev xs))))"
    using assms(1) by (cases xs rule: rev_cases) (auto simp: merge_prev_def no_adj_append)
  moreover have "no_adj (snd (merge_next ys)) \<and> (snd (merge_next ys) = [] \<or> snd (hd (snd (merge_next ys))))"
    using assms(2) by (cases ys rule: no_adj.cases) (auto simp: merge_next_def)
  ultimately show ?thesis
    by (cases "snd (merge_next ys)") (auto simp: merged_def no_adj_append)
qed

lemma live_merged: "live a (merged xs n ys) = live a (xs @ (n, False) # ys)"
proof -
  have p: "live a (fst (merge_prev xs)) = live a xs" "bsize xs = bsize (fst (merge_prev xs)) + snd (merge_prev xs)"
    by (cases xs rule: rev_cases; auto simp: merge_prev_def live_append)+
  have q: "live (c + fst (merge_next ys)) (snd (merge_next ys)) = live c ys" for c
    by (cases ys) (auto simp: merge_next_def)
  show ?thesis using p q [of "a + bsize xs + n"] by (simp add: merged_def live_append add.assoc)
qed

lemma live_range:
  "blocks m a bs \<Longrightarrow> (p, l) \<in> set (live a bs) \<Longrightarrow> a + 8 \<le> p \<and> p + l + 8 \<le> a + bsize bs"
proof (induction m a bs rule: blocks.induct)
  case (2 m a n al bs)
  then show ?case by (cases "(p, l) \<in> set (live (a + n) bs)") (auto split: if_splits)
qed simp

text \<open>What an operation promises about the memory of its callers: the payloads in use keep their bytes.\<close>

definition kept :: "(nat \<times> nat) list \<Rightarrow> mem \<Rightarrow> mem \<Rightarrow> bool" where
  "kept ps m m' \<longleftrightarrow> (\<forall>(p, l) \<in> set ps. \<forall>b. p \<le> unat b \<and> unat b < p + l \<longrightarrow> m' b = m b)"

lemma kept_trans: "kept ps m m1 \<Longrightarrow> kept qs m1 m2 \<Longrightarrow> set ps \<subseteq> set qs \<Longrightarrow> kept ps m m2"
  by (fastforce simp: kept_def)

lemma kept_refl: "kept ps m m"
  by (simp add: kept_def)

text \<open>A write confined to one block keeps every other payload.\<close>

lemma kept_outside:
  assumes h: "heap_tags m hp (xs @ zs @ ys)"
    and w: "\<And>b. unat b < hp + bsize xs \<or> hp + bsize xs + bsize zs \<le> unat b \<Longrightarrow> m' b = m b"
  shows "kept (live hp xs @ live (hp + bsize xs + bsize zs) ys) m m'"
  unfolding kept_def
proof (intro ballI, clarify)
  fix p l and b :: addr
  assume p: "(p, l) \<in> set (live hp xs @ live (hp + bsize xs + bsize zs) ys)" and b: "p \<le> unat b" "unat b < p + l"
  have "heap_tags m hp ((xs @ zs) @ ys)" using h by simp
  from heap_tagsD(8) [OF this] have y: "blocks m (hp + bsize xs + bsize zs) ys" by (simp add: add.assoc)
  from p consider "(p, l) \<in> set (live hp xs)" | "(p, l) \<in> set (live (hp + bsize xs + bsize zs) ys)" by auto
  then have "unat b < hp + bsize xs \<or> hp + bsize xs + bsize zs \<le> unat b"
  proof cases
    case 1
    with live_range [OF heap_tagsD(7) [OF h]] b show ?thesis by fastforce
  next
    case 2
    with live_range [OF y] b show ?thesis by fastforce
  qed
  then show "m' b = m b" by (rule w)
qed

end
