(* ===== verification/Malloc_Ops.thy ===== *)
theory Malloc_Ops
  imports Malloc_Heap
begin

text \<open>
  What the operations of malloc.c do to the list of blocks, and the properties of the allocator: \<open>malloc\<close>
  hands out memory nobody has, \<open>free\<close> takes exactly one payload back, no operation touches the bytes
  of the other payloads, and the assertions of the heap checker hold.
\<close>

section \<open>Searching\<close>

fun first_fit :: "nat \<Rightarrow> nat \<Rightarrow> block list \<Rightarrow> nat option" where
  "first_fit asz a [] = None"
| "first_fit asz a ((n, al) # bs) = (if \<not> al \<and> asz \<le> n then Some a else first_fit asz (a + n) bs)"

lemma first_fit_SomeD:
  "first_fit asz a bs = Some x \<Longrightarrow> \<exists>xs n ys. bs = xs @ (n, False) # ys \<and> x = a + bsize xs \<and> asz \<le> n \<and>
    (\<forall>b \<in> set xs. snd b \<or> fst b < asz)"
proof (induction asz a bs rule: first_fit.induct)
  case (2 asz a n al bs)
  show ?case
  proof (cases "\<not> al \<and> asz \<le> n")
    case True
    with 2 have "(n, al) # bs = [] @ (n, False) # bs \<and> x = a + bsize [] \<and> asz \<le> n \<and> (\<forall>b \<in> set []. snd b \<or> fst b < asz)"
      by simp
    then show ?thesis by blast
  next
    case False
    with 2 obtain xs k ys where "bs = xs @ (k, False) # ys" "x = a + n + bsize xs" "asz \<le> k"
      "\<forall>b \<in> set xs. snd b \<or> fst b < asz" by auto
    with False have "(n, al) # bs = ((n, al) # xs) @ (k, False) # ys \<and> x = a + bsize ((n, al) # xs) \<and> asz \<le> k \<and>
        (\<forall>b \<in> set ((n, al) # xs). snd b \<or> fst b < asz)" by auto
    then show ?thesis by blast
  qed
qed simp

lemma first_fit_None: "first_fit asz a bs = None \<longleftrightarrow> (\<forall>b \<in> set bs. snd b \<or> fst b < asz)"
  by (induction asz a bs rule: first_fit.induct) auto

lemma find_fit_loop_rep:
  assumes "blocks m a bs" "load64 m (W (a + bsize bs)) = pk 0 True" "0 < a" "a + bsize bs < 2 ^ 32"
    and "asz < 2 ^ 32"
  shows "find_fit_loop m (W asz) (W a) = Some (Ret (case first_fit asz a bs of None \<Rightarrow> 0 | Some x \<Rightarrow> W x))"
  using assms(1-4)
proof (induction bs arbitrary: a)
  case Nil
  then show ?case
    by (subst find_fit_loop.simps) (simp add: get_size_W W_numeral)
next
  case (Cons b bs)
  obtain n al where b: "b = (n, al)" by (cases b)
  with Cons.prems have n: "16 dvd n" "16 \<le> n" "load64 m (W a) = pk n al" "n < 2 ^ 32" by auto
  have nx: "find_next m (W a) = Ret (W (a + n))" using n Cons.prems b by (intro find_next_W) auto
  have sz: "get_size m (W a) = W n" "get_alloc m (W a) = al" using n by (simp_all add: get_size_W)
  have pos: "0 < W n" using n(2,4) by (simp add: W_0_iff word_gt_0)
  have le: "W asz \<le> W n \<longleftrightarrow> asz \<le> n" using n(4) assms(5) by (simp add: word_le_nat_alt unat_W)
  have "find_fit_loop m (W asz) (W (a + n)) = Some (Ret (case first_fit asz (a + n) bs of None \<Rightarrow> 0 | Some x \<Rightarrow> W x))"
    using Cons.prems b by (intro Cons.IH) (auto simp: add.assoc)
  then show ?case
    by (subst find_fit_loop.simps) (simp add: sz pos le nx b)
qed

section \<open>Placing\<close>

definition placed :: "nat \<Rightarrow> nat \<Rightarrow> block list" where
  "placed asz n = (if 32 \<le> n - asz then [(asz, True), (n - asz, False)] else [(n, True)])"

lemma place_rep:
  assumes h: "heap_tags m hp (xs @ (n, False) # ys)" and a: "16 dvd asz" "16 \<le> asz" "asz \<le> n"
  shows "\<exists>m'. place (W (hp + bsize xs)) (W asz) m = Ret m' \<and> heap_tags m' hp (xs @ placed asz n @ ys) \<and>
    (\<forall>b. unat b < hp + bsize xs \<or> hp + bsize xs + n \<le> unat b \<longrightarrow> m' b = m b)"
proof -
  let ?a = "hp + bsize xs"
  note D = heap_tagsD [OF h]
  have n: "16 dvd n" "16 \<le> n" "load64 m (W ?a) = pk n False" using D(8) by auto
  have bound: "?a + n + bsize ys + 8 < 2 ^ 32" using D(4) by simp
  have sz: "get_size m (W ?a) = W n" using n by (simp add: get_size_W)
  have d: "16 dvd n - asz" using n(1) a(1) by (rule dvd_diff_nat)
  have sub: "W n - W asz = W (n - asz)" using a(3) by (rule W_diff)
  have ge: "min_block_size \<le> W (n - asz) \<longleftrightarrow> 32 \<le> n - asz"
    using bound by (simp add: min_block_size_def word_le_nat_alt unat_W)
  show ?thesis
  proof (cases "32 \<le> n - asz")
    case False
    have "heap_tags (tagged ?a n True m) hp (xs @ (n, True) # ys)"
      using heap_tags_replace [of m hp xs "[(n, False)]" ys n True] h n(2) by simp
    moreover have "\<forall>b. unat b < ?a \<or> ?a + n \<le> unat b \<longrightarrow> tagged ?a n True m b = m b"
      using tagged_byte [OF D(6) n(1,2)] bound by auto
    ultimately show ?thesis
      using False by (simp add: place_def sz sub ge write_tags [OF n(1,2)] Let_def placed_def)
  next
    case True
    let ?q = "n - asz"
    let ?m1 = "tagged ?a asz True m"
    let ?m2 = "tagged (?a + asz) ?q False ?m1"
    have pq: "16 \<le> ?q" "asz + ?q = n" using True a(3) by simp_all
    have "heap_tags m hp (xs @ (asz + ?q, False) # ys)" using h pq(2) by simp
    from heap_tags_split [OF this a(1) d a(2) pq(1), of False True]
    have rep: "heap_tags ?m2 hp (xs @ (asz, True) # (?q, False) # ys)" .
    have "load64 ?m1 (W ?a) = pk asz True"
      using load_tagged [OF D(6) a(1,2) _ D(6), of True m] bound a(3) by simp
    then have nx: "find_next ?m1 (W ?a) = Ret (W (?a + asz))"
      using a bound D(5) by (intro find_next_W) auto
    have d8: "8 dvd ?a + asz" by (intro dvd_add D(6) dvd16_8 a(1))
    have "?m2 b = m b" if "unat b < ?a \<or> ?a + n \<le> unat b" for b
    proof -
      have "?m2 b = ?m1 b" using that bound a(3) by (intro tagged_byte [OF d8 d pq(1)]) auto
      also have "\<dots> = m b" using that bound a(3) by (intro tagged_byte [OF D(6) a(1,2)]) auto
      finally show ?thesis .
    qed
    moreover have "place (W ?a) (W asz) m = Ret ?m2"
      using True by (simp add: place_def sz sub ge write_tags [OF a(1,2)] write_tags [OF d pq(1)] nx outcome_simps Let_def
          del: bnd_Ret_iff)
    ultimately show ?thesis using rep True by (simp add: placed_def)
  qed
qed

lemma bsize_placed: "asz \<le> n \<Longrightarrow> bsize (placed asz n) = n"
  by (simp add: placed_def)

lemma no_adj_placed: "no_adj (xs @ (n, False) # ys) \<Longrightarrow> no_adj (xs @ placed asz n @ ys)"
  by (cases ys) (auto simp: placed_def no_adj_append)

section \<open>The checker\<close>

lemma mm_checkheap_rep:
  assumes h: "heap_tags (hs_mem s) hp bs" and l: "hs_listp s = W hp"
  shows "mm_checkheap s = Ret True"
proof -
  have h': "heap_tags (hs_mem s) hp ([] @ bs)" using h by simp
  note D = heap_tagsD [OF h']
  have pf: "find_prev_footer (W hp) = W (hp - 8)" using D(5) by (intro find_prev_footer_W) simp
  have hp: "W hp \<noteq> 0" using D(4,5) by (simp add: W_0_iff)
  show ?thesis
  proof (cases bs)
    case Nil
    with next_tag [OF h'] have "get_size (hs_mem s) (W hp) = 0" by (simp add: get_size_W W_numeral)
    with D(9) l hp show ?thesis by (simp add: mm_checkheap_def pf Let_def W_numeral)
  next
    case (Cons b bs')
    obtain n al where b: "b = (n, al)" by (cases b)
    with D(8) Cons have n: "16 dvd n" "16 \<le> n" "load64 (hs_mem s) (W hp) = pk n al"
      "load64 (hs_mem s) (W (hp + n - 8)) = pk n al" by simp_all
    have bound: "hp + n + 8 < 2 ^ 32" using D(4) Cons b by simp
    have "find_next (hs_mem s) (W hp) = Ret (W (hp + n))" using n bound D(5) by (intro find_next_W) auto
    moreover have "find_prev_footer (W (hp + n)) = W (hp + n - 8)" using n by (intro find_prev_footer_W) simp
    ultimately show ?thesis using D(9) l hp n
      by (simp add: mm_checkheap_def pf Let_def W_numeral outcome_simps del: bnd_Ret_iff)
  qed
qed

section \<open>The break\<close>

lemma page_align_W: "W y AND page_align_mask = W (y div 4096 * 4096)"
proof (rule bit_word_eqI)
  have pm: "page_align_mask = NOT (mask 12)" by (simp add: page_align_mask_def mask_eq_exp_minus_1)
  fix i assume i: "i < LENGTH(32)"
  have bw: "bit (W z) i = bit z i" for z using i by (simp add: W_def bit_simps)
  have "y div 4096 * 4096 = push_bit 12 (drop_bit 12 y)" by (simp add: push_bit_eq_mult drop_bit_eq_div)
  then have "bit (W (y div 4096 * 4096)) i = (12 \<le> i \<and> bit y i)"
    unfolding bw by (simp only: bit_push_bit_iff bit_drop_bit_eq comp_apply) auto
  with i show "bit (W y AND page_align_mask) i = bit (W (y div 4096 * 4096)) i"
    unfolding pm bit_and_iff bit_not_iff bit_mask_iff bw by auto
qed

lemma neg32_W: "n < 2 ^ 32 \<Longrightarrow> neg32 (W n) \<longleftrightarrow> 2 ^ 31 \<le> n"
proof -
  assume n: "n < 2 ^ 32"
  have u: "uint (W n) = int n" using unat_W [OF n] by (simp add: uint_nat)
  show ?thesis
  proof (cases "0 \<le> sint (W n)")
    case True
    with sint_nonneg [OF True] u sint_lt [of "W n"] show ?thesis by (simp add: word_sless_alt)
  next
    case False
    with sint_neg [of "W n"] u sint_ge [of "W n"] show ?thesis by (simp add: word_sless_alt)
  qed
qed

lemma W_less: "a < 2 ^ 32 \<Longrightarrow> b < 2 ^ 32 \<Longrightarrow> W a < W b \<longleftrightarrow> a < b"
  by (simp add: word_less_nat_alt unat_W)

lemma W_le: "a < 2 ^ 32 \<Longrightarrow> b < 2 ^ 32 \<Longrightarrow> W a \<le> W b \<longleftrightarrow> a \<le> b"
  by (simp add: word_le_nat_alt unat_W)

text \<open>\<open>mem_sbrk\<close> either fails and changes nothing, or moves the break with the mapped region above it.\<close>

lemma mem_sbrk_rep:
  assumes s: "hs_max s = 0xffffffff" "hs_brk s = W b" "hs_top s = W t" "4096 dvd t" "b \<le> t" "t < 2 ^ 32"
    and nb: "n < 2 ^ 32" "b + 4096 \<le> 2 ^ 31"
  shows "\<exists>k'. mem_sbrk K (W n) s k = (0, s, k') \<or>
    (\<exists>t'. mem_sbrk K (W n) s k = (W b, s\<lparr>hs_top := W t', hs_brk := W (b + n)\<rparr>, k') \<and>
      4096 dvd t' \<and> b + n \<le> t' \<and> t' < 2 ^ 32)"
proof (cases "2 ^ 31 \<le> n")
  case True
  then have "neg32 (W n)" using nb by (subst neg32_W) auto
  then show ?thesis by (auto simp: mem_sbrk_def Let_def)
next
  case False
  then have n: "b + n + 4096 \<le> 2 ^ 32" using nb by simp
  have pos: "\<not> neg32 (W n)" using False nb by (subst neg32_W) auto
  have sum: "W b + W n = W (b + n)" by (rule W_add)
  have "unat (W (b + n)) < 2 ^ 32" using unsigned_less [of "W (b + n)"] by simp
  then have "W (b + n) \<le> 0xffffffff" by (simp add: word_le_nat_alt)
  then have max: "\<not> (0xffffffff :: addr) < W (b + n)" by simp
  show ?thesis
  proof (cases "t < b + n")
    case False
    then have "\<not> W t < W (b + n)" using s(6) n by (simp add: W_less)
    then have "mem_sbrk K (W n) s k = (W b, s\<lparr>hs_top := W t, hs_brk := W (b + n)\<rparr>, k)"
      using s(1-3) pos max by (cases s) (simp add: mem_sbrk_def sum Let_def)
    moreover have "4096 dvd t \<and> b + n \<le> t \<and> t < 2 ^ 32" using s(4,6) False by simp
    ultimately show ?thesis by blast
  next
    case True
    then have lt: "W t < W (b + n)" using s(6) n by (simp add: W_less)
    define i where "i = (b + n - t + 4095) div 4096 * 4096"
    have "W (b + n) - W t + (4096 - 1) = W (b + n - t + 4095)"
      using True W_diff [of t "b + n"] W_add [of "b + n - t" 4095] by (simp add: W_def)
    then have inc: "(W (b + n) - W t + (4096 - 1)) AND page_align_mask = W i"
      by (simp only: page_align_W i_def)
    have i: "4096 dvd i" "b + n - t \<le> i" "i < b + n - t + 4096" unfolding i_def by simp linarith+
    obtain tq where tq: "t = 4096 * tq" using s(4) by (rule dvdE)
    obtain iq where iq: "i = 4096 * iq" using i(1) by (rule dvdE)
    have "t + i < 2 ^ 32" using i(3) n True by simp
    then have ok: "4096 dvd t + i" "b + n \<le> t + i" "t + i < 2 ^ 32" using s(4) i by simp_all
    obtain rc k1 where np: "vm_new_pages K (W t) (W i) k = (rc, k1)" by fastforce
    show ?thesis
    proof (cases "rc = 0")
      case False
      then have "mem_sbrk K (W n) s k = (0, s, k1)"
        using s(1-3) pos max lt np inc by (simp add: mem_sbrk_def sum Let_def)
      then show ?thesis by blast
    next
      case True
      then have "mem_sbrk K (W n) s k = (W b, s\<lparr>hs_top := W (t + i), hs_brk := W (b + n)\<rparr>, k1)"
        using s(1-3) pos max lt np inc by (simp add: mem_sbrk_def sum W_add Let_def)
      with ok show ?thesis by blast
    qed
  qed
qed

lemma round_up_W:
  assumes "n + 15 < 2 ^ 32"
  shows "round_up (W n) dsize = W ((n + 15) div 16 * 16)"
proof -
  have "W n + (16 - 1) = W (n + 15)" using W_add [of n 15] by (simp add: W_def)
  moreover have "W (n + 15) div 16 = W ((n + 15) div 16)"
    using assms by (simp add: word_unat_eq_iff unat_div unat_W)
  moreover have "16 * W q = W (q * 16)" for q by (simp add: W_def mult.commute)
  ultimately show ?thesis by (simp add: round_up_def dsize_def)
qed

section \<open>The state of the allocator\<close>

text \<open>\<open>hs_inv s hp bs\<close>: \<open>heap_listp\<close> is at \<open>hp\<close>, the blocks \<open>bs\<close> lie there with no two free neighbours, the break is
  right after the epilogue header, and the pages up to \<open>hs_top\<close> are mapped.\<close>

definition hs_inv :: "hs \<Rightarrow> nat \<Rightarrow> block list \<Rightarrow> bool" where
  "hs_inv s hp bs \<longleftrightarrow> hs_max s = 0xffffffff \<and> hs_listp s = W hp \<and> hs_brk s = W (hp + bsize bs + 8) \<and>
     4096 dvd unat (hs_top s) \<and> hp + bsize bs + 8 \<le> unat (hs_top s) \<and> heap_tags (hs_mem s) hp bs \<and> no_adj bs"

lemma heap_tags_extend:
  assumes h: "heap_tags m hp bs" and n: "16 dvd n" "16 \<le> n" "hp + bsize bs + n + 8 < 2 ^ 32"
  shows "heap_tags (store64 (W (hp + bsize bs + n)) (pk 0 True) (tagged (hp + bsize bs) n False m)) hp (bs @ [(n, False)])"
proof -
  let ?a = "hp + bsize bs"
  let ?m = "store64 (W (?a + n)) (pk 0 True) (tagged ?a n False m)"
  have "heap_tags m hp (bs @ [])" using h by simp
  note D = heap_tagsD [OF this]
  have d: "8 dvd ?a + n" by (intro dvd_add D(6) dvd16_8 n(1))
  have ld: "load64 ?m (W x) = (if x = ?a + n then pk 0 True else if x = ?a \<or> x = ?a + n - 8 then pk n False else load64 m (W x))"
    if "8 dvd x" "x < 2 ^ 32" for x
    using load_tagged [OF D(6) n(1,2) _ that] n(3) d that by (simp add: load_store_W)
  have "blocks ?m hp bs"
  proof (rule blocks_cong [OF _ D(1) D(7)])
    fix x assume x: "8 dvd x" "hp \<le> x" "x < hp + bsize bs"
    then have "x < 2 ^ 32" "x \<noteq> ?a" "x \<noteq> ?a + n - 8" "x \<noteq> ?a + n" using n by auto
    with ld x show "load64 ?m (W x) = load64 m (W x)" by simp
  qed
  moreover have "load64 ?m (W (hp - 8)) = pk 0 True"
    using ld [of "hp - 8"] D(1,4,5,9) n(2) by (auto intro: dvd_diff_nat)
  moreover have "load64 ?m (W (?a + n - 8)) = pk n False"
    using ld [of "?a + n - 8"] d n(2,3) by (auto intro: dvd_diff_nat)
  moreover have "load64 ?m (W ?a) = pk n False" "load64 ?m (W (?a + n)) = pk 0 True"
    using ld [of ?a] ld [of "?a + n"] d n(2,3) D(6) by simp_all
  ultimately show ?thesis
    using h n by (simp add: heap_tags_def blocks_append add.assoc)
qed

lemma extend_byte:
  assumes h: "heap_tags m hp bs" and n: "16 dvd n" "16 \<le> n" "hp + bsize bs + n + 8 < 2 ^ 32"
    and b: "unat b < hp + bsize bs \<or> hp + bsize bs + n + 8 \<le> unat b"
  shows "store64 (W (hp + bsize bs + n)) (pk 0 True) (tagged (hp + bsize bs) n False m) b = m b"
proof -
  have "heap_tags m hp (bs @ [])" using h by simp
  note D = heap_tagsD [OF this]
  have d: "8 dvd hp + bsize bs + n" by (intro dvd_add D(6) dvd16_8 n(1))
  have "al8 (W (hp + bsize bs + n))" using d n(3) by (intro al8_W) simp_all
  moreover have "unat (W (hp + bsize bs + n)) = hp + bsize bs + n" using n(3) by (simp add: unat_W)
  ultimately have "store64 (W (hp + bsize bs + n)) (pk 0 True) (tagged (hp + bsize bs) n False m) b = tagged (hp + bsize bs) n False m b"
    using b n by (intro store64_byte) auto
  also have "\<dots> = m b" using b n by (intro tagged_byte [OF D(6) n(1,2)]) auto
  finally show ?thesis .
qed

lemma hs_invD:
  assumes "hs_inv s hp bs"
  shows "hs_max s = 0xffffffff" "hs_listp s = W hp" "hs_brk s = W (hp + bsize bs + 8)" "4096 dvd unat (hs_top s)"
    "hp + bsize bs + 8 \<le> unat (hs_top s)" "heap_tags (hs_mem s) hp bs" "no_adj bs" "mm_checkheap s = Ret True"
proof -
  from assms show "hs_max s = 0xffffffff" "hs_listp s = W hp" "hs_brk s = W (hp + bsize bs + 8)" "4096 dvd unat (hs_top s)"
    "hp + bsize bs + 8 \<le> unat (hs_top s)" and t: "heap_tags (hs_mem s) hp bs" "no_adj bs" by (simp_all add: hs_inv_def)
  show "mm_checkheap s = Ret True" by (rule mm_checkheap_rep [OF t(1)]) (use assms in \<open>simp add: hs_inv_def\<close>)
qed

lemma extend_heap_rep:
  assumes s: "hs_inv s hp bs" and nn: "16 dvd n" "16 \<le> n" "n < 2 ^ 32" "hp + bsize bs + 8 + 4096 \<le> 2 ^ 31"
  shows "\<exists>k'. extend_heap K (W n) s k = Ret (0, s, k') \<or>
    (\<exists>s'. extend_heap K (W n) s k = Ret (W (hp + bsize (fst (merge_prev bs))), s', k') \<and> hs_inv s' hp (merged bs n []) \<and>
       kept (live hp bs) (hs_mem s) (hs_mem s'))"
proof -
  note I = hs_invD [OF s]
  let ?a = "hp + bsize bs"
  have "heap_tags (hs_mem s) hp (bs @ [])" using I(6) by simp
  note D = heap_tagsD [OF this]
  obtain q where "n = 16 * q" using nn(1) by (rule dvdE)
  then have "n + 15 < 2 ^ 32" using nn(3) by simp
  then have ru: "round_up (W n) dsize = W n" using nn(1) by (subst round_up_W) (auto elim!: dvdE simp: mult.commute)
  have "unat (hs_top s) < 2 ^ 32" using unsigned_less [of "hs_top s"] by simp
  then obtain k' where k': "mem_sbrk K (W n) s k = (0, s, k') \<or>
    (\<exists>t'. mem_sbrk K (W n) s k = (W (?a + 8), s\<lparr>hs_top := W t', hs_brk := W (?a + 8 + n)\<rparr>, k') \<and>
      4096 dvd t' \<and> ?a + 8 + n \<le> t' \<and> t' < 2 ^ 32)"
    using mem_sbrk_rep [OF I(1,3) W_unat [symmetric] I(4,5)] nn(3,4) by (fastforce simp: add.assoc)
  then show ?thesis
  proof (elim disjE exE conjE)
    assume "mem_sbrk K (W n) s k = (0, s, k')"
    then have "extend_heap K (W n) s k = Ret (0, s, k')" by (simp add: extend_heap_def ru Let_def)
    then show ?thesis by blast
  next
    fix t' assume t': "mem_sbrk K (W n) s k = (W (?a + 8), s\<lparr>hs_top := W t', hs_brk := W (?a + 8 + n)\<rparr>, k')"
      "4096 dvd t'" "?a + 8 + n \<le> t'" "t' < 2 ^ 32"
    have n: "16 dvd n" "16 \<le> n" "?a + n + 8 < 2 ^ 32" using nn(1,2) t'(3,4) by simp_all
    have bp: "W (?a + 8) \<noteq> 0" "payload_to_header (W (?a + 8)) = W ?a"
      using n(3) W_diff [of 8 "?a + 8"] W_0_iff [of "?a + 8"] by (simp_all add: payload_to_header_def W_numeral)
    let ?m1 = "tagged ?a n False (hs_mem s)"
    let ?m2 = "store64 (W (?a + n)) (pk 0 True) ?m1"
    have "load64 ?m1 (W ?a) = pk n False"
      using load_tagged [OF D(6) n(1,2) _ D(6), of False "hs_mem s"] n(3) by simp
    then have nx: "find_next ?m1 (W ?a) = Ret (W (?a + n))" using n D(5) by (intro find_next_W) auto
    have h2: "heap_tags ?m2 hp (bs @ [(n, False)])" using n by (intro heap_tags_extend I(6)) auto
    from coalesce_rep [OF this] obtain m' where m': "coalesce (W ?a) ?m2 = Ret (W (hp + bsize (fst (merge_prev bs))), m')"
      "heap_tags m' hp (merged bs n [])"
      "\<And>b. unat b < hp + bsize (fst (merge_prev bs)) \<Longrightarrow> m' b = ?m2 b" by blast
    define s' where "s' = s\<lparr>hs_top := W t', hs_brk := W (?a + 8 + n), hs_mem := m'\<rparr>"
    have wh: "write_header (W (?a + n)) 0 True x = store64 (W (?a + n)) (pk 0 True) x" for x
      by (simp add: write_header_def pk_def W_numeral)
    have e: "extend_heap K (W n) s k = Ret (W (hp + bsize (fst (merge_prev bs))), s', k')"
      using t'(1) bp nx m'(1) by (simp add: extend_heap_def ru write_tags [OF n(1,2)] wh outcome_simps Let_def s'_def del: bnd_Ret_iff)
    have tu: "unat (W t') = t'" using t'(4) by (rule unat_W)
    have "no_adj (merged bs n [])" using I(7) by (intro no_adj_merged) simp_all
    then have "hs_inv s' hp (merged bs n [])"
      using I t'(2,3) tu m'(2) by (simp add: hs_inv_def s'_def bsize_merged ac_simps)
    moreover have "kept (live hp bs) (hs_mem s) (hs_mem s')"
      unfolding kept_def
    proof (intro ballI, clarify)
      fix p l and b :: addr assume p: "(p, l) \<in> set (live hp bs)" and b: "p \<le> unat b" "unat b < p + l"
      have mp: "live hp (fst (merge_prev bs)) = live hp bs" "bsize (fst (merge_prev bs)) \<le> bsize bs"
          "blocks (hs_mem s) hp (fst (merge_prev bs))"
        using D(7) by (cases bs rule: rev_cases; auto simp: merge_prev_def live_append blocks_append)+
      from live_range [OF mp(3)] p b have lt: "unat b < hp + bsize (fst (merge_prev bs))" unfolding mp(1) by fastforce
      then have "?m2 b = hs_mem s b" using mp(2) n by (intro extend_byte I(6)) auto
      with m'(3) [OF lt] show "hs_mem s' b = hs_mem s b" by (simp add: s'_def)
    qed
    ultimately show ?thesis using e by blast
  qed
qed

section \<open>malloc\<close>

lemma live_placed:
  assumes "16 \<le> asz" "asz \<le> n"
  shows "\<exists>l. live a (xs @ placed asz n @ ys) = live a xs @ (a + bsize xs + 8, l) # live (a + bsize xs + n) ys \<and> asz - 16 \<le> l"
  using assms by (auto simp: placed_def live_append)

lemma place_inv:
  assumes s: "hs_inv s hp (xs @ (n, False) # ys)" and a: "16 dvd asz" "16 \<le> asz" "asz \<le> n"
  shows "\<exists>m' l. place (W (hp + bsize xs)) (W asz) (hs_mem s) = Ret m' \<and> hs_inv (s\<lparr>hs_mem := m'\<rparr>) hp (xs @ placed asz n @ ys) \<and>
    live hp (xs @ placed asz n @ ys) = live hp xs @ (hp + bsize xs + 8, l) # live (hp + bsize xs + n) ys \<and> asz - 16 \<le> l \<and>
    kept (live hp xs @ live (hp + bsize xs + n) ys) (hs_mem s) m'"
proof -
  note I = hs_invD [OF s]
  from place_rep [OF I(6) a] obtain m' where m': "place (W (hp + bsize xs)) (W asz) (hs_mem s) = Ret m'"
    "heap_tags m' hp (xs @ placed asz n @ ys)" "\<And>b. unat b < hp + bsize xs \<or> hp + bsize xs + n \<le> unat b \<Longrightarrow> m' b = hs_mem s b"
    by blast
  have "hs_inv (s\<lparr>hs_mem := m'\<rparr>) hp (xs @ placed asz n @ ys)"
    using I m'(2) no_adj_placed [OF I(7)] by (simp add: hs_inv_def bsize_placed [OF a(3)])
  moreover have "kept (live hp xs @ live (hp + bsize xs + n) ys) (hs_mem s) m'"
    using kept_outside [of "hs_mem s" hp xs "[(n, False)]" ys m'] I(6) m'(3) by simp
  ultimately show ?thesis using m'(1) live_placed [OF a(2,3), of hp xs ys] by blast
qed

definition asize_of :: "nat \<Rightarrow> nat" where
  "asize_of n = (n + 15) div 16 * 16 + 16"

lemma asize_of: "16 dvd asize_of n" "n \<le> asize_of n - 16" "16 \<le> asize_of n" "n + 32 \<le> 2 ^ 32 \<Longrightarrow> asize_of n < 2 ^ 32"
  unfolding asize_of_def by simp presburger+

text \<open>The second half of \<open>mm_malloc\<close>, once a block was found or made.\<close>

definition place_checked :: "addr \<Rightarrow> addr \<times> hs \<times> 'k \<Rightarrow> (addr \<times> hs \<times> 'k) outcome" where
  "place_checked asize = (\<lambda>(block, s, k). if block = 0 then Ret (0, s, k)
     else bnd (place block asize (hs_mem s)) (\<lambda>m. bnd (mm_checkheap (s\<lparr>hs_mem := m\<rparr>)) (\<lambda>ok.
       c_assert ok (Ret (header_to_payload block, s\<lparr>hs_mem := m\<rparr>, k)))))"

lemma mm_malloc_unfold:
  assumes s: "hs_inv s hp bs" and sz: "0 < sz" "sz + 32 \<le> 2 ^ 32"
  shows "mm_malloc K he (W sz) s k = bnd (case first_fit (asize_of sz) hp bs of
      None \<Rightarrow> extend_heap K (W (max (asize_of sz) 4096)) s k | Some x \<Rightarrow> Ret (W x, s, k)) (place_checked (W (asize_of sz)))"
proof -
  note I = hs_invD [OF s]
  let ?asz = "asize_of sz"
  note A = asize_of [of sz]
  have "heap_tags (hs_mem s) hp ([] @ bs)" using I(6) by simp
  note D = heap_tagsD [OF this]
  have hp0: "W hp \<noteq> 0" "W sz \<noteq> 0" using D(4,5) sz by (simp_all add: W_0_iff)
  have "round_up (W sz) dsize = W ((sz + 15) div 16 * 16)" using sz(2) by (intro round_up_W) simp
  then have as: "round_up (W sz) dsize + dsize = W ?asz" by (simp add: asize_of_def dsize_def W_def)
  have "find_fit_loop (hs_mem s) (W ?asz) (W hp) = Some (Ret (case first_fit ?asz hp bs of None \<Rightarrow> 0 | Some x \<Rightarrow> W x))"
    using D A(4) sz(2) by (intro find_fit_loop_rep) auto
  then have ff: "find_fit (W ?asz) s = Ret (case first_fit ?asz hp bs of None \<Rightarrow> 0 | Some x \<Rightarrow> W x)"
    using hp0 I(2) by (simp add: find_fit_def)
  have mx: "size_max (W ?asz) chunksize = W (max ?asz 4096)"
    using A(4) sz(2) W_less [of 4096 ?asz] by (auto simp: size_max_def chunksize_def W_numeral max_def)
  have x0: "W x \<noteq> 0" if ff: "first_fit ?asz hp bs = Some x" for x
  proof -
    obtain xs n ys where "bs = xs @ (n, False) # ys" "x = hp + bsize xs" using first_fit_SomeD [OF ff] by blast
    then have "x < 2 ^ 32" "0 < x" using D(4,5) by simp_all
    then show ?thesis by (simp add: W_0_iff)
  qed
  show ?thesis
    using hp0 I(2) x0 unfolding mm_malloc_def Let_def by (cases "first_fit ?asz hp bs")
      (simp_all add: I(8) as ff mx place_checked_def outcome_simps Let_def case_prod_unfold cong: if_cong del: bnd_Ret_iff)
qed

lemma place_checked_rep:
  assumes s: "hs_inv s hp (xs @ (n, False) # ys)" and asz: "asize_of sz \<le> n"
  shows "\<exists>a l us vs bs' s'. place_checked (W (asize_of sz)) (W (hp + bsize xs), s, k) = Ret (W a, s', k) \<and> hs_inv s' hp bs' \<and>
    live hp (xs @ (n, False) # ys) = us @ vs \<and> live hp bs' = us @ (a, l) # vs \<and> sz \<le> l \<and> 16 dvd a \<and>
    kept (us @ vs) (hs_mem s) (hs_mem s')"
proof -
  note A = asize_of [of sz]
  note I = hs_invD [OF s]
  note D = heap_tagsD [OF I(6)]
  from place_inv [OF s A(1,3) asz] obtain m' l where m': "place (W (hp + bsize xs)) (W (asize_of sz)) (hs_mem s) = Ret m'"
    "hs_inv (s\<lparr>hs_mem := m'\<rparr>) hp (xs @ placed (asize_of sz) n @ ys)"
    "live hp (xs @ placed (asize_of sz) n @ ys) = live hp xs @ (hp + bsize xs + 8, l) # live (hp + bsize xs + n) ys"
    "asize_of sz - 16 \<le> l" "kept (live hp xs @ live (hp + bsize xs + n) ys) (hs_mem s) m'" by blast
  have "hp mod 16 = 8" using I(6) by (simp add: heap_tags_def)
  with D(2) have d: "16 dvd hp + bsize xs + 8" by presburger
  have "W (hp + bsize xs) \<noteq> 0" using D(4,5) by (simp add: W_0_iff)
  moreover have "header_to_payload (W (hp + bsize xs)) = W (hp + bsize xs + 8)"
    using W_add [of "hp + bsize xs" 8] by (simp add: header_to_payload_def W_numeral)
  ultimately have "place_checked (W (asize_of sz)) (W (hp + bsize xs), s, k) = Ret (W (hp + bsize xs + 8), s\<lparr>hs_mem := m'\<rparr>, k)"
    using m'(1) hs_invD(8) [OF m'(2)] by (simp add: place_checked_def outcome_simps del: bnd_Ret_iff)
  moreover have "live hp (xs @ (n, False) # ys) = live hp xs @ live (hp + bsize xs + n) ys" by (simp add: live_append)
  moreover have "sz \<le> l" using A(2) m'(4) by simp
  moreover have "kept (live hp xs @ live (hp + bsize xs + n) ys) (hs_mem s) (hs_mem (s\<lparr>hs_mem := m'\<rparr>))" using m'(5) by simp
  ultimately show ?thesis using m'(2,3) d by blast
qed

lemma mm_malloc_rep:
  assumes s: "hs_inv s hp bs" and sz: "0 < sz" "sz + 32 \<le> 2 ^ 32" and room: "hp + bsize bs + 8 + 4096 \<le> 2 ^ 31"
  shows "\<exists>k'. mm_malloc K he (W sz) s k = Ret (0, s, k') \<or>
    (\<exists>a l us vs bs' s'. mm_malloc K he (W sz) s k = Ret (W a, s', k') \<and> hs_inv s' hp bs' \<and> live hp bs = us @ vs \<and>
       live hp bs' = us @ (a, l) # vs \<and> sz \<le> l \<and> 16 dvd a \<and> kept (live hp bs) (hs_mem s) (hs_mem s'))"
proof (cases "first_fit (asize_of sz) hp bs")
  case (Some x)
  then obtain xs n ys where x: "bs = xs @ (n, False) # ys" "x = hp + bsize xs" "asize_of sz \<le> n"
    using first_fit_SomeD by blast
  with mm_malloc_unfold [OF s sz, of K he k] Some
  have "mm_malloc K he (W sz) s k = place_checked (W (asize_of sz)) (W (hp + bsize xs), s, k)" by (simp del: bnd_Ret_iff)
  moreover from s x(1) have "hs_inv s hp (xs @ (n, False) # ys)" by simp
  ultimately show ?thesis using place_checked_rep [of s hp xs n ys sz k] x(1,3) by metis
next
  case None
  let ?n = "max (asize_of sz) 4096"
  note A = asize_of [of sz]
  have n: "16 dvd ?n" "16 \<le> ?n" "?n < 2 ^ 32" using A sz(2) by (simp_all add: max_def)
  note run = mm_malloc_unfold [OF s sz, of K he k, unfolded None, simplified]
  from extend_heap_rep [OF s n room, of K k] obtain k' where "extend_heap K (W ?n) s k = Ret (0, s, k') \<or>
    (\<exists>s'. extend_heap K (W ?n) s k = Ret (W (hp + bsize (fst (merge_prev bs))), s', k') \<and> hs_inv s' hp (merged bs ?n []) \<and>
       kept (live hp bs) (hs_mem s) (hs_mem s'))" by blast
  then show ?thesis
  proof (elim disjE exE conjE)
    assume "extend_heap K (W ?n) s k = Ret (0, s, k')"
    with run have "mm_malloc K he (W sz) s k = Ret (0, s, k')" by (simp add: place_checked_def del: bnd_Ret_iff)
    then show ?thesis by blast
  next
    fix s1 assume e: "extend_heap K (W ?n) s k = Ret (W (hp + bsize (fst (merge_prev bs))), s1, k')"
      and i: "hs_inv s1 hp (merged bs ?n [])" and kp: "kept (live hp bs) (hs_mem s) (hs_mem s1)"
    let ?xs = "fst (merge_prev bs)" and ?N = "snd (merge_prev bs) + ?n"
    have mg: "merged bs ?n [] = ?xs @ (?N, False) # []" by (simp add: merged_def merge_next_def)
    from live_merged [of hp bs ?n "[]"] have lv: "live hp (?xs @ (?N, False) # []) = live hp bs" by (simp add: mg live_append)
    have N: "asize_of sz \<le> ?N" by simp
    have "mm_malloc K he (W sz) s k = place_checked (W (asize_of sz)) (W (hp + bsize ?xs), s1, k')"
      using run e by (simp del: bnd_Ret_iff)
    moreover obtain a l us vs bs' s' where "place_checked (W (asize_of sz)) (W (hp + bsize ?xs), s1, k') = Ret (W a, s', k')"
      "hs_inv s' hp bs'" "live hp bs = us @ vs" "live hp bs' = us @ (a, l) # vs" "sz \<le> l" "16 dvd a"
      and k2: "kept (us @ vs) (hs_mem s1) (hs_mem s')"
      using place_checked_rep [OF i [unfolded mg] N, of k'] unfolding lv by blast
    moreover from kept_trans [OF kp k2] \<open>live hp bs = us @ vs\<close> have "kept (live hp bs) (hs_mem s) (hs_mem s')" by simp
    ultimately show ?thesis by metis
  qed
qed

section \<open>free\<close>

lemma live_elem:
  "blocks m a bs \<Longrightarrow> (p, l) \<in> set (live a bs) \<Longrightarrow> \<exists>xs ys. bs = xs @ (l + 16, True) # ys \<and> p = a + bsize xs + 8"
proof (induction m a bs rule: blocks.induct)
  case (2 m a n al bs)
  show ?case
  proof (cases "(p, l) \<in> set (live (a + n) bs)")
    case True
    with 2 obtain xs ys where "bs = xs @ (l + 16, True) # ys" "p = a + n + bsize xs + 8" by auto
    then have "(n, al) # bs = ((n, al) # xs) @ (l + 16, True) # ys \<and> p = a + bsize ((n, al) # xs) + 8" by simp
    then show ?thesis by blast
  next
    case False
    with 2 have "(n, al) # bs = [] @ (l + 16, True) # bs \<and> p = a + bsize [] + 8" by (auto split: if_splits)
    then show ?thesis by blast
  qed
qed simp

lemma mm_free_rep:
  assumes s: "hs_inv s hp bs" and p: "(a, l) \<in> set (live hp bs)"
  shows "\<exists>us vs bs' s'. mm_free (W a) s = Ret s' \<and> hs_inv s' hp bs' \<and> live hp bs = us @ (a, l) # vs \<and> live hp bs' = us @ vs \<and>
    kept (us @ vs) (hs_mem s) (hs_mem s') \<and> bsize bs' = bsize bs"
proof -
  note I = hs_invD [OF s]
  have "blocks (hs_mem s) hp bs" using I(6) by (simp add: heap_tags_def)
  from live_elem [OF this p] obtain xs ys where bs: "bs = xs @ (l + 16, True) # ys" and a: "a = hp + bsize xs + 8" by blast
  define n where "n = l + 16"
  let ?a = "hp + bsize xs"
  have h: "heap_tags (hs_mem s) hp (xs @ [(n, True)] @ ys)" using I(6) bs by (simp add: n_def)
  from heap_tagsD [OF h] have n: "16 dvd n" "16 \<le> n" and ld: "load64 (hs_mem s) (W ?a) = pk n True"
    and lt: "?a + n + bsize ys + 8 < 2 ^ 32" and d8: "8 dvd ?a" and hp: "16 < hp" by auto
  let ?m = "tagged ?a n False (hs_mem s)"
  have "heap_tags ?m hp (xs @ (n, False) # ys)" using heap_tags_replace [OF h] n(2) by simp
  from coalesce_rep [OF this] obtain m' where m': "coalesce (W ?a) ?m = Ret (W (hp + bsize (fst (merge_prev xs))), m')"
    "heap_tags m' hp (merged xs n ys)"
    "\<And>b. unat b < hp + bsize (fst (merge_prev xs)) \<or>
       hp + bsize (fst (merge_prev xs)) + (snd (merge_prev xs) + n + fst (merge_next ys)) \<le> unat b \<Longrightarrow> m' b = ?m b" by blast
  have pth: "W a \<noteq> 0" "payload_to_header (W a) = W ?a"
    using lt W_diff [of 8 a] W_0_iff [of a] n(2) a by (simp_all add: payload_to_header_def W_numeral)
  have run: "mm_free (W a) s = Ret (s\<lparr>hs_mem := m'\<rparr>)"
    using pth m'(1) ld n by (simp add: mm_free_def get_size_W write_tags Let_def outcome_simps del: bnd_Ret_iff)
  have bsz: "bsize (merged xs n ys) = bsize bs" by (simp add: bsize_merged bs n_def)
  have "no_adj xs" "no_adj ys" using I(7) by (cases ys; simp add: bs no_adj_append)+
  then have inv: "hs_inv (s\<lparr>hs_mem := m'\<rparr>) hp (merged xs n ys)"
    using I m'(2) by (simp add: hs_inv_def bsz no_adj_merged)
  have lv: "live hp (merged xs n ys) = live hp xs @ live (?a + n) ys" "live hp bs = live hp xs @ (a, l) # live (?a + n) ys"
    by (simp_all add: live_merged live_append bs a n_def)
  have "kept (live hp xs @ live (?a + n) ys) (hs_mem s) m'"
  proof -
    let ?X = "fst (merge_prev xs)" and ?Y = "snd (merge_next ys)"
    have sp: "\<exists>zs. xs = ?X @ zs \<and> bsize zs = snd (merge_prev xs) \<and> (\<forall>c. live c zs = [])"
      by (cases xs rule: rev_cases) (auto simp: merge_prev_def)
    have sn: "\<exists>zs. ys = zs @ ?Y \<and> bsize zs = fst (merge_next ys) \<and> (\<forall>c. live c zs = [])"
      by (cases ys) (auto simp: merge_next_def)
    from sp obtain z1 where z1: "xs = ?X @ z1" "bsize z1 = snd (merge_prev xs)" "\<And>c. live c z1 = []" by blast
    from sn obtain z2 where z2: "ys = z2 @ ?Y" "bsize z2 = fst (merge_next ys)" "\<And>c. live c z2 = []" by blast
    let ?zs = "z1 @ [(n, True)] @ z2"
    have "heap_tags (hs_mem s) hp ((?X @ z1) @ [(n, True)] @ (z2 @ ?Y))" using h z1(1) z2(1) by metis
    then have h3: "heap_tags (hs_mem s) hp (?X @ ?zs @ ?Y)" by simp
    have zl: "bsize ?zs = snd (merge_prev xs) + n + fst (merge_next ys)" using z1(2) z2(2) by simp
    have b1: "bsize xs = bsize ?X + snd (merge_prev xs)" using z1(1,2) by (metis bsize_simps(3))
    have b2: "bsize ys = fst (merge_next ys) + bsize ?Y" using z2(1,2) by (metis bsize_simps(3))
    have "live hp xs = live hp ?X" using z1(1,3) by (metis append_Nil2 live_append)
    moreover have "live (?a + n) ys = live (?a + n + fst (merge_next ys)) ?Y" using z2 by (metis append_Nil live_append)
    moreover have "kept (live hp ?X @ live (hp + bsize ?X + bsize ?zs) ?Y) (hs_mem s) m'"
    proof (rule kept_outside [OF h3])
      fix b :: addr assume b: "unat b < hp + bsize ?X \<or> hp + bsize ?X + bsize ?zs \<le> unat b"
      then have "m' b = ?m b" unfolding zl by (rule m'(3))
      also have "\<dots> = hs_mem s b" using b zl b1 lt by (intro tagged_byte [OF d8 n]) auto
      finally show "m' b = hs_mem s b" .
    qed
    ultimately show ?thesis by (simp add: z1(2) z2(2) b1 add.assoc)
  qed
  with run inv lv bsz show ?thesis by fastforce
qed

section \<open>Writing into payloads\<close>

definition in_payload :: "(nat \<times> nat) list \<Rightarrow> addr \<Rightarrow> bool" where
  "in_payload ps b \<longleftrightarrow> (\<exists>(p, l) \<in> set ps. p \<le> unat b \<and> unat b < p + l)"

lemma blocks_payload:
  assumes "blocks m a bs" "a + bsize bs \<le> 2 ^ 32" "8 dvd a"
    and "\<And>b. \<not> in_payload (live a bs) b \<Longrightarrow> a \<le> unat b \<Longrightarrow> unat b < a + bsize bs \<Longrightarrow> m' b = m b"
  shows "blocks m' a bs"
  using assms
proof (induction bs arbitrary: a)
  case Nil
  show ?case by simp
next
  case (Cons x bs)
  obtain n al where x: "x = (n, al)" by (cases x)
  with Cons.prems have n: "16 dvd n" "16 \<le> n" "load64 m (W a) = pk n al" "load64 m (W (a + n - 8)) = pk n al"
    and bl: "blocks m (a + n) bs" and lt: "a + n + bsize bs \<le> 2 ^ 32" by auto
  have d: "8 dvd a + n" "8 dvd a + n - 8" using Cons.prems(3) n(1) by (auto intro: dvd_add dvd_diff_nat dvd16_8)
  have later: "a + n + 8 \<le> p" if "(p, l) \<in> set (live (a + n) bs)" for p l using live_range [OF bl that] by simp
  have keep: "load64 m' (W c) = load64 m (W c)" if c: "8 dvd c" "c = a \<or> c = a + n - 8" for c
  proof (rule load64_cong)
    have c32: "c < 2 ^ 32" using c lt n(2) by auto
    with c show "al8 (W c)" by (intro al8_W)
    fix b :: addr assume b: "unat (W c) \<le> unat b" "unat b < unat (W c) + 8"
    then have b': "c \<le> unat b" "unat b < c + 8" using c32 by (simp_all add: unat_W)
    have "\<not> in_payload (live a ((n, al) # bs)) b"
    proof
      assume "in_payload (live a ((n, al) # bs)) b"
      then obtain p l where p: "(p, l) \<in> set (live a ((n, al) # bs))" "p \<le> unat b" "unat b < p + l"
        unfolding in_payload_def by blast
      then consider "p = a + 8" "l = n - 16" | "(p, l) \<in> set (live (a + n) bs)" by (auto split: if_splits)
      then show False using p b' c n(2) later by cases fastforce+
    qed
    then show "m' b = m b" using b' c n(2) x by (intro Cons.prems(4)) auto
  qed
  have "blocks m' (a + n) bs"
  proof (rule Cons.IH [OF bl lt d(1)])
    fix b assume b: "\<not> in_payload (live (a + n) bs) b" "a + n \<le> unat b" "unat b < a + n + bsize bs"
    then have "\<not> in_payload (live a (x # bs)) b" using n(2) by (auto simp: in_payload_def x split: if_splits)
    then show "m' b = m b" using b x by (intro Cons.prems(4)) auto
  qed
  then show ?case using n keep [of a] keep [of "a + n - 8"] Cons.prems(3) d by (simp add: x)
qed

lemma hs_inv_payload:
  assumes s: "hs_inv s hp bs" and w: "\<And>b. \<not> in_payload (live hp bs) b \<Longrightarrow> m' b = hs_mem s b"
  shows "hs_inv (s\<lparr>hs_mem := m'\<rparr>) hp bs"
proof -
  note I = hs_invD [OF s]
  have "heap_tags (hs_mem s) hp ([] @ bs)" using I(6) by simp
  note D = heap_tagsD [OF this]
  have bl: "blocks (hs_mem s) hp bs" using D(8) by simp
  have out: "load64 m' (W c) = load64 (hs_mem s) (W c)"
    if c: "8 dvd c" "c + 8 \<le> hp \<or> hp + bsize bs \<le> c" "c < 2 ^ 32" for c
  proof (rule load64_cong)
    show "al8 (W c)" using c by (intro al8_W)
    fix b :: addr assume b: "unat (W c) \<le> unat b" "unat b < unat (W c) + 8"
    then have b': "c \<le> unat b" "unat b < c + 8" using c(3) by (simp_all add: unat_W)
    have "\<not> in_payload (live hp bs) b"
    proof
      assume "in_payload (live hp bs) b"
      then obtain p l where p: "(p, l) \<in> set (live hp bs)" "p \<le> unat b" "unat b < p + l" unfolding in_payload_def by blast
      with live_range [OF bl p(1)] b' c(2) show False by linarith
    qed
    then show "m' b = hs_mem s b" by (rule w)
  qed
  have "blocks m' hp bs" using D(1,4) w by (intro blocks_payload [OF bl]) simp_all
  moreover have "8 dvd hp - 8" "8 dvd hp + bsize bs" using D(1,3) by (auto intro: dvd_diff_nat dvd_add dvd16_8)
  moreover have "hp - 8 < 2 ^ 32" using D(4) by simp
  ultimately have "heap_tags m' hp bs"
    using I(6) D(4,5) out [of "hp - 8"] out [of "hp + bsize bs"] by (simp add: heap_tags_def)
  then show ?thesis using s by (simp add: hs_inv_def)
qed

end
