(* ===== verification/Allocator.thy ===== *)
theory Allocator
  imports Malloc_Ops Mutex
begin

text \<open>
  The contract of the allocator and the thread-safe entry points of user/libthread/malloc.c.
  \<open>heap_state s P\<close>: the state \<open>s\<close> is that of a working allocator whose payloads in use are \<open>P\<close> (first
  address and length each). The locale \<open>allocator\<close> is what a client needs of \<open>malloc\<close> and \<open>free\<close>; it is
  interpreted on \<open>mm_malloc\<close> and \<open>mm_free\<close>.
\<close>

lemma unat_lt32: "unat (x :: addr) < 2 ^ 32"
  using unsigned_less [of x] by simp

section \<open>The state a client sees\<close>

definition heap_state :: "hs \<Rightarrow> (nat \<times> nat) set \<Rightarrow> bool" where
  "heap_state s P \<longleftrightarrow> (\<exists>hp bs. hs_inv s hp bs \<and> P = set (live hp bs))"

text \<open>The break is in the lower half of the address space, so no size computation of \<open>sbrk\<close> wraps.\<close>

definition heap_room :: "hs \<Rightarrow> bool" where
  "heap_room s \<longleftrightarrow> unat (hs_brk s) + 4096 \<le> 2 ^ 31"

definition untouched :: "(nat \<times> nat) set \<Rightarrow> mem \<Rightarrow> mem \<Rightarrow> bool" where
  "untouched P m m' \<longleftrightarrow> (\<forall>(p, l) \<in> P. \<forall>b. p \<le> unat b \<and> unat b < p + l \<longrightarrow> m' b = m b)"

lemma kept_untouched: "kept ps m m' \<longleftrightarrow> untouched (set ps) m m'"
  by (simp add: kept_def untouched_def)

lemma hs_inv_brk: "hs_inv s hp bs \<Longrightarrow> unat (hs_brk s) = hp + bsize bs + 8"
proof -
  assume s: "hs_inv s hp bs"
  note I = hs_invD [OF s]
  have "heap_tags (hs_mem s) hp ([] @ bs)" using I(6) by simp
  from heap_tagsD(4) [OF this] have "hp + bsize bs + 8 < 2 ^ 32" by simp
  with I(3) show ?thesis by (simp only: unat_W)
qed

lemma live_apart:
  "blocks m a bs \<Longrightarrow> sorted_wrt (\<lambda>x y. fst x + snd x + 16 \<le> fst y) (live a bs)"
proof (induction m a bs rule: blocks.induct)
  case (2 m a n al bs)
  then have bl: "blocks m (a + n) bs" and n: "16 \<le> n" by simp_all
  have "a + 8 + (n - 16) + 16 \<le> fst y" if "y \<in> set (live (a + n) bs)" for y
    using live_range [OF bl, of "fst y" "snd y"] that n by simp
  with 2 bl show ?case by (simp add: sorted_wrt_append)
qed simp

lemma sorted_apart:
  assumes "sorted_wrt (\<lambda>x y. fst x + snd x + 16 \<le> fst y) ps" "(p, l) \<in> set ps" "(q, l') \<in> set ps"
  shows "p + l + 16 \<le> q \<or> q + l' + 16 \<le> p \<or> (p, l) = (q, l')"
  using assms by (induction ps) auto

lemma live_distinct:
  assumes "blocks m a bs"
  shows "distinct (live a bs)"
proof -
  have "sorted_wrt (\<lambda>x y. fst x + snd x + 16 \<le> fst y) ps \<Longrightarrow> distinct ps" for ps :: "(nat \<times> nat) list"
    by (induction ps) auto
  from this [OF live_apart [OF assms]] show ?thesis .
qed

lemma heap_state_blocks: "hs_inv s hp bs \<Longrightarrow> blocks (hs_mem s) hp bs"
  using hs_invD(6) [of s hp bs] by (simp add: heap_tags_def)

lemma heap_state_apart:
  assumes "heap_state s P" "(p, l) \<in> P" "(q, l') \<in> P"
  shows "p + l + 16 \<le> q \<or> q + l' + 16 \<le> p \<or> (p, l) = (q, l')"
proof -
  from assms(1) obtain hp bs where s: "hs_inv s hp bs" "P = set (live hp bs)" unfolding heap_state_def by blast
  with sorted_apart [OF live_apart [OF heap_state_blocks [OF s(1)]]] assms(2,3) show ?thesis by blast
qed

lemma heap_state_range:
  assumes "heap_state s P" "(p, l) \<in> P"
  shows "24 < p" "p + l + 16 \<le> unat (hs_brk s)" "16 dvd p" "16 dvd l"
proof -
  from assms(1) obtain hp bs where s: "hs_inv s hp bs" "P = set (live hp bs)" unfolding heap_state_def by blast
  note bl = heap_state_blocks [OF s(1)] and I = hs_invD [OF s(1)]
  from assms(2) s(2) have pl: "(p, l) \<in> set (live hp bs)" by simp
  from live_range [OF bl pl] hs_inv_brk [OF s(1)] I(6) show "24 < p" "p + l + 16 \<le> unat (hs_brk s)"
    by (simp_all add: heap_tags_def)
  from live_elem [OF bl pl] obtain xs ys where bs: "bs = xs @ (l + 16, True) # ys" "p = hp + bsize xs + 8" by blast
  with I(6) heap_tagsD(2,8) [of "hs_mem s" hp xs "(l + 16, True) # ys"] have "hp mod 16 = 8" "16 dvd bsize xs" "16 dvd l + 16"
    by (simp_all add: heap_tags_def)
  with bs(2) show "16 dvd p" "16 dvd l" by presburger+
qed

lemma untouched_mono: "untouched P m m' \<Longrightarrow> Q \<subseteq> P \<Longrightarrow> untouched Q m m'"
  unfolding untouched_def by blast

lemma untouched_trans: "untouched P m m1 \<Longrightarrow> untouched Q m1 m2 \<Longrightarrow> P \<subseteq> Q \<Longrightarrow> untouched P m m2"
  unfolding untouched_def by fastforce

section \<open>The operations on the state a client sees\<close>

lemma malloc_state:
  assumes s: "heap_state s P" "heap_room s" and sz: "0 < sz" "sz \<le> 0xffffffe0"
  shows "\<exists>k'. mm_malloc K he sz s k = Ret (0, s, k') \<or>
    (\<exists>p l s'. mm_malloc K he sz s k = Ret (p, s', k') \<and> p \<noteq> 0 \<and> heap_state s' (insert (unat p, l) P) \<and> (unat p, l) \<notin> P \<and>
       unat sz \<le> l \<and> untouched P (hs_mem s) (hs_mem s'))"
proof -
  from s(1) obtain hp bs where i: "hs_inv s hp bs" and P: "P = set (live hp bs)" unfolding heap_state_def by blast
  have "unat sz \<le> unat (0xffffffe0 :: u32)" using sz(2) by (simp only: word_le_nat_alt)
  then have z: "0 < unat sz" "unat sz + 32 \<le> 2 ^ 32" using sz(1) by (simp_all add: word_less_nat_alt)
  have "hp + bsize bs + 8 + 4096 \<le> 2 ^ 31" using s(2) hs_inv_brk [OF i] by (simp add: heap_room_def)
  from mm_malloc_rep [OF i z this, of K he k, unfolded W_unat] obtain k' where
    "mm_malloc K he sz s k = Ret (0, s, k') \<or> (\<exists>a l us vs bs' s'. mm_malloc K he sz s k = Ret (W a, s', k') \<and> hs_inv s' hp bs' \<and>
       live hp bs = us @ vs \<and> live hp bs' = us @ (a, l) # vs \<and> unat sz \<le> l \<and> 16 dvd a \<and> kept (live hp bs) (hs_mem s) (hs_mem s'))"
    by blast
  then show ?thesis
  proof (elim disjE exE conjE)
    assume "mm_malloc K he sz s k = Ret (0, s, k')"
    then show ?thesis by blast
  next
    fix a l us vs bs' s'
    assume r: "mm_malloc K he sz s k = Ret (W a, s', k')" "hs_inv s' hp bs'" and l: "live hp bs = us @ vs"
      "live hp bs' = us @ (a, l) # vs" and z: "unat sz \<le> l" and kp: "kept (live hp bs) (hs_mem s) (hs_mem s')"
    have "insert (a, l) P = set (live hp bs')" using l P by simp
    then have st: "heap_state s' (insert (a, l) P)" using r(2) unfolding heap_state_def by blast
    have "distinct (us @ (a, l) # vs)" using live_distinct [OF heap_state_blocks [OF r(2)]] l(2) by simp
    then have new: "(a, l) \<notin> P" using l(1) P by auto
    have "unat (hs_brk s') < 2 ^ 32" using unsigned_less [of "hs_brk s'"] by simp
    with heap_state_range(1,2) [OF st, of a l] have a: "unat (W a) = a" "W a \<noteq> 0" by (simp_all add: unat_W W_0_iff)
    have "untouched P (hs_mem s) (hs_mem s')" using kp P by (simp add: kept_untouched)
    with r(1) st new z a have "mm_malloc K he sz s k = Ret (W a, s', k') \<and> W a \<noteq> 0 \<and> heap_state s' (insert (unat (W a), l) P) \<and>
        (unat (W a), l) \<notin> P \<and> unat sz \<le> l \<and> untouched P (hs_mem s) (hs_mem s')" by simp
    then show ?thesis by blast
  qed
qed

lemma free_state:
  assumes s: "heap_state s P" and p: "(unat p, l) \<in> P"
  shows "\<exists>s'. mm_free p s = Ret s' \<and> heap_state s' (P - {(unat p, l)}) \<and> hs_brk s' = hs_brk s \<and>
    untouched (P - {(unat p, l)}) (hs_mem s) (hs_mem s')"
proof -
  from s obtain hp bs where i: "hs_inv s hp bs" and P: "P = set (live hp bs)" unfolding heap_state_def by blast
  from p P have "(unat p, l) \<in> set (live hp bs)" by simp
  from mm_free_rep [OF i this] obtain us vs bs' s' where r: "mm_free p s = Ret s'" "hs_inv s' hp bs'"
    "live hp bs = us @ (unat p, l) # vs" "live hp bs' = us @ vs" "kept (us @ vs) (hs_mem s) (hs_mem s')" "bsize bs' = bsize bs"
    unfolding W_unat by blast
  have "distinct (us @ (unat p, l) # vs)" using live_distinct [OF heap_state_blocks [OF i]] r(3) by simp
  then have e: "set (us @ vs) = P - {(unat p, l)}" using P r(3) by auto
  have "hs_brk s' = hs_brk s" using hs_invD(3) [OF i] hs_invD(3) [OF r(2)] r(6) by simp
  moreover have "heap_state s' (P - {(unat p, l)})" using r(2,4) e unfolding heap_state_def by metis
  moreover have "untouched (P - {(unat p, l)}) (hs_mem s) (hs_mem s')" using r(5) e by (simp only: kept_untouched)
  ultimately show ?thesis using r(1) by blast
qed

lemma heap_state_write:
  assumes s: "heap_state s P" and p: "(p, l) \<in> P" and w: "\<And>b. unat b < p \<or> p + l \<le> unat b \<Longrightarrow> m' b = hs_mem s b"
  shows "heap_state (s\<lparr>hs_mem := m'\<rparr>) P"
proof -
  from s obtain hp bs where i: "hs_inv s hp bs" and P: "P = set (live hp bs)" unfolding heap_state_def by blast
  have "hs_inv (s\<lparr>hs_mem := m'\<rparr>) hp bs"
  proof (rule hs_inv_payload [OF i])
    fix b assume b: "\<not> in_payload (live hp bs) b"
    have "\<not> (p \<le> unat b \<and> unat b < p + l)"
    proof
      assume "p \<le> unat b \<and> unat b < p + l"
      with p P have "in_payload (live hp bs) b" unfolding in_payload_def by blast
      with b show False ..
    qed
    then show "m' b = hs_mem s b" by (intro w) auto
  qed
  with P show ?thesis unfolding heap_state_def by blast
qed

section \<open>Starting up\<close>

lemma mem_init_loop_Some:
  assumes "mem_init_loop K b k = Some (b', k')" "4096 dvd unat b"
  shows "4096 dvd unat b' \<and> (\<exists>k1. vm_new_pages K b' 4096 k1 = (0, k'))"
proof -
  have "4096 dvd unat b \<longrightarrow> 4096 dvd unat (fst (b', k')) \<and> (\<exists>k1. vm_new_pages K (fst (b', k')) 4096 k1 = (0, snd (b', k')))"
  proof (rule mem_init_loop.raw_induct [where P = "\<lambda>K b k r. 4096 dvd unat b \<longrightarrow>
      4096 dvd unat (fst r) \<and> (\<exists>k1. vm_new_pages K (fst r) 4096 k1 = (0, snd r))", OF _ assms(1)])
    fix f K b k and r :: "addr \<times> 'a"
    assume IH: "\<And>K b k r. f K b k = Some r \<Longrightarrow> 4096 dvd unat b \<longrightarrow>
        4096 dvd unat (fst r) \<and> (\<exists>k1. vm_new_pages K (fst r) 4096 k1 = (0, snd r))"
      and r: "(case vm_new_pages K b 4096 k of (rc, k) \<Rightarrow> if rc \<noteq> 0 then f K (b + 4096) k else Some (b, k)) = Some r"
    obtain rc k1 where np: "vm_new_pages K b 4096 k = (rc, k1)" by fastforce
    have st: "4096 dvd unat (b + 4096)" if "4096 dvd unat b"
      using that by (simp add: unat_word_ariths dvd_mod_iff [of "4096" "4294967296"])
    show "4096 dvd unat b \<longrightarrow> 4096 dvd unat (fst r) \<and> (\<exists>k1. vm_new_pages K (fst r) 4096 k1 = (0, snd r))"
    proof (cases "rc = 0")
      case True
      with r np show ?thesis by auto
    next
      case False
      with r np have "f K (b + 4096) k1 = Some r" by simp
      from IH [OF this] st show ?thesis by blast
    qed
  qed
  with assms(2) show ?thesis by simp
qed

lemma page_aligned: "4096 dvd unat (x AND page_align_mask)"
proof -
  have "x AND page_align_mask = W (unat x div 4096 * 4096)" using page_align_W [of "unat x"] by (simp add: W_unat)
  moreover have "unat x div 4096 * 4096 < 2 ^ 32"
    using unat_lt32 [of x] div_times_less_eq_dividend [of "unat x" 4096] by linarith
  ultimately show ?thesis by (simp add: unat_W)
qed

lemma mm_init_rep:
  assumes loop: "mem_init_loop K ((he + 4096) AND page_align_mask) k = Some (brk, k1)"
    and brk: "brk \<noteq> 0" "unat brk + 16 + 4096 \<le> 2 ^ 31"
  shows "\<exists>r s' k'. mm_init K he s k = Ret (r, s', k') \<and> hs_inv s' (unat brk + 8) (if r then [(4096, False)] else [])"
proof -
  define b where "b = unat brk"
  have bW: "brk = W b" by (simp add: b_def W_unat)
  have al: "4096 dvd b" using mem_init_loop_Some [OF loop page_aligned] by (simp add: b_def)
  have b: "0 < b" "b + 16 + 4096 \<le> 2 ^ 31" using brk by (simp_all add: b_def unat_gt_0)
  have b4: "4096 \<le> b" using al b(1) by (rule dvd_imp_le)
  define s0 where "s0 = s\<lparr>hs_max := 0xffffffff, hs_brk := W b, hs_top := W (b + 4096)\<rparr>"
  have mi: "mem_init K he 0xffffffff s k = Ret (s0, k1)"
    using loop W_add [of b 4096] by (simp add: mem_init_def s0_def bW W_numeral Let_def)
  have "neg32 (W 16) = False" by (subst neg32_W) simp_all
  moreover have "\<not> (0xffffffff :: addr) < W b + W 16" using unat_lt32 [of "W b + W 16"]
    by (simp add: word_less_nat_alt)
  moreover have "\<not> W (b + 4096) < W b + W 16" unfolding W_add using b by (subst W_less) simp_all
  ultimately have sb: "mem_sbrk K (2 * wsize) s0 k1 = (W b, s0\<lparr>hs_brk := W (b + 16)\<rparr>, k1)"
    using W_add [of b 16] by (simp add: mem_sbrk_def s0_def wsize_def W_numeral Let_def)
  let ?m = "store64 (W b + 8) (pack 0 True) (store64 (W b) (pack 0 True) (hs_mem s0))"
  define s1 where "s1 = s0\<lparr>hs_brk := W (b + 16), hs_mem := ?m, hs_listp := W (b + 8)\<rparr>"
  have b8: "W b + 8 = W (b + 8)" using W_add [of b 8] by (simp add: W_numeral)
  have d: "8 dvd b" using al by (rule dvd_trans [rotated]) simp
  have "pack 0 True = pk 0 True" by (simp add: pk_def W_numeral)
  then have ld: "load64 ?m (W b) = pk 0 True" "load64 ?m (W (b + 8)) = pk 0 True"
    using d b unfolding b8 by (simp_all add: load_store_W)
  have "16 dvd b" using al by (rule dvd_trans [rotated]) simp
  then have "(b + 8) mod 16 = 8" by presburger
  then have "heap_tags ?m (b + 8) []" using ld b b4 by (simp add: heap_tags_def)
  then have i1: "hs_inv s1 (b + 8) []"
    using b al by (simp add: hs_inv_def s1_def s0_def add.assoc unat_W)
  have W0: "W b \<noteq> 0" using b by (simp add: W_0_iff)
  have run: "mm_init K he s k = bnd (extend_heap K (W 4096) s1 k1) (\<lambda>(b, s, k). Ret (b \<noteq> 0, s, k))"
    using mi sb W0 b8 by (simp add: mm_init_def s1_def chunksize_def W_numeral outcome_simps Let_def del: bnd_Ret_iff)
  have mp: "fst (merge_prev []) = []" "merged [] 4096 [] = [(4096, False)]" "b + 8 + bsize [] = b + 8"
    by (simp_all add: merge_prev_def merged_def merge_next_def)
  have n: "16 dvd (4096 :: nat)" "16 \<le> (4096 :: nat)" "4096 < (2 ^ 32 :: nat)" "b + 8 + bsize [] + 8 + 4096 \<le> 2 ^ 31"
    using b by simp_all
  from extend_heap_rep [OF i1 n, of K k1, unfolded mp] obtain k' where
    "extend_heap K (W 4096) s1 k1 = Ret (0, s1, k') \<or> (\<exists>s'. extend_heap K (W 4096) s1 k1 = Ret (W (b + 8), s', k') \<and>
      hs_inv s' (b + 8) [(4096, False)])" by blast
  then show ?thesis
  proof (elim disjE exE conjE)
    assume "extend_heap K (W 4096) s1 k1 = Ret (0, s1, k')"
    with run i1 show ?thesis unfolding b_def [symmetric] by (intro exI [of _ False]) simp
  next
    fix s' assume s': "extend_heap K (W 4096) s1 k1 = Ret (W (b + 8), s', k')" "hs_inv s' (b + 8) [(4096, False)]"
    have "W (b + 8) \<noteq> 0" using b by (simp add: W_0_iff)
    with run s' show ?thesis unfolding b_def [symmetric] by (intro exI [of _ True]) simp
  qed
qed

section \<open>Filling and copying\<close>

lemma offset_less:
  assumes "unat to + n \<le> 2 ^ 32"
  shows "unat ((b :: addr) - to) < n \<longleftrightarrow> unat to \<le> unat b \<and> unat b < unat to + n"
  using assms unat_lt32 [of b] unat_lt32 [of to] by (auto simp: unat_sub_if')

lemma memset_loop_byte:
  "memset_loop n to c m b = (if unat (b - to) < n then c else m b)"
proof (induction n arbitrary: to m)
  case 0
  show ?case by simp
next
  case (Suc n)
  have e: "b - (to + 1) = b - to - 1" by simp
  have "unat (b - to) < Suc n \<longleftrightarrow> b = to \<or> unat (b - to - 1) < n"
  proof (cases "b = to")
    case False
    then have "b - to \<noteq> 0" by simp
    then have "unat (b - to - 1) = unat (b - to) - 1" "0 < unat (b - to)" by (simp_all add: unat_minus_one unat_gt_0)
    with False show ?thesis by auto
  qed simp
  then show ?case unfolding memset_loop.simps Suc.IH e by (cases "b = to") simp_all
qed

lemma memset_bytes:
  assumes "unat to + unat len \<le> 2 ^ 32"
  shows "snd (memset to c len m) b = (if unat to \<le> unat b \<and> unat b < unat to + unat len then ucast c else m b)"
  using offset_less [OF assms, of b] by (simp add: memset_def memset_loop_byte)

lemma c_memcpy_bytes:
  assumes "unat to + unat n \<le> 2 ^ 32"
  shows "unat b < unat to \<or> unat to + unat n \<le> unat b \<Longrightarrow> c_memcpy to from n m b = m b"
    and "i < n \<Longrightarrow> \<not> neg32 n \<Longrightarrow> c_memcpy to from n m (to + i) = m (from + i)"
  using offset_less [OF assms, of b] by (auto simp: c_memcpy_def word_less_nat_alt)

section \<open>calloc and realloc\<close>

lemma heap_state_top:
  assumes "heap_state s P" "(p, l) \<in> P"
  shows "p + l < 2 ^ 32"
  using heap_state_range(2) [OF assms] unat_lt32 [of "hs_brk s"] by simp

lemma payload_size:
  assumes "heap_state s P" "(unat p, l) \<in> P"
  shows "get_payload_size (hs_mem s) (payload_to_header p) = W l"
proof -
  from assms(1) obtain hp bs where i: "hs_inv s hp bs" and P: "P = set (live hp bs)" unfolding heap_state_def by blast
  from live_elem [OF heap_state_blocks [OF i]] assms(2) P obtain xs ys where
    bs: "bs = xs @ (l + 16, True) # ys" "unat p = hp + bsize xs + 8" by blast
  from hs_invD(6) [OF i] bs(1) have h: "heap_tags (hs_mem s) hp (xs @ (l + 16, True) # ys)" by simp
  from heap_tagsD(8) [OF h] have t: "16 dvd l + 16" "load64 (hs_mem s) (W (hp + bsize xs)) = pk (l + 16) True" by simp_all
  have "payload_to_header p = W (unat p) - W 8" by (simp add: payload_to_header_def W_unat W_numeral)
  also have "\<dots> = W (hp + bsize xs)" using bs(2) by (subst W_diff) simp_all
  finally have "get_size (hs_mem s) (payload_to_header p) = W (l + 16)" using t by (simp add: get_size_W)
  moreover have "W (l + 16) - W 16 = W l" by (subst W_diff) simp_all
  ultimately show ?thesis by (simp add: get_payload_size_def dsize_def W_numeral)
qed

lemma calloc_state:
  assumes s: "heap_state s P" "heap_room s" and n: "0 < unat n * unat sz" "unat n * unat sz \<le> 0xffffffe0"
  shows "\<exists>k'. mm_calloc K he n sz s k = Ret (0, s, k') \<or>
    (\<exists>p l s'. mm_calloc K he n sz s k = Ret (p, s', k') \<and> p \<noteq> 0 \<and> heap_state s' (insert (unat p, l) P) \<and> (unat p, l) \<notin> P \<and>
       unat n * unat sz \<le> l \<and> (\<forall>b. unat p \<le> unat b \<and> unat b < unat p + unat n * unat sz \<longrightarrow> hs_mem s' b = 0) \<and>
       untouched P (hs_mem s) (hs_mem s'))"
proof -
  have u: "unat (n * sz) = unat n * unat sz" using n(2) by (simp add: unat_word_ariths)
  have n0: "n \<noteq> 0" using n(1) by auto
  have dv: "n * sz div n = sz" using n0 n(1) by (simp add: word_unat_eq_iff unat_div u)
  have z: "0 < n * sz" "n * sz \<le> 0xffffffe0" using n u by (simp_all add: word_less_nat_alt word_le_nat_alt)
  have run: "mm_calloc K he n sz s k = bnd (mm_malloc K he (n * sz) s k) (\<lambda>(bp, s, k). if bp = 0 then Ret (0, s, k)
        else Ret (bp, s\<lparr>hs_mem := snd (memset bp 0 (n * sz) (hs_mem s))\<rparr>, k))"
    using n0 dv by (simp add: mm_calloc_def Let_def)
  from malloc_state [OF s z, of K he k] obtain k' where "mm_malloc K he (n * sz) s k = Ret (0, s, k') \<or>
    (\<exists>p l s'. mm_malloc K he (n * sz) s k = Ret (p, s', k') \<and> p \<noteq> 0 \<and> heap_state s' (insert (unat p, l) P) \<and> (unat p, l) \<notin> P \<and>
       unat (n * sz) \<le> l \<and> untouched P (hs_mem s) (hs_mem s'))" by blast
  then show ?thesis
  proof (elim disjE exE conjE)
    assume "mm_malloc K he (n * sz) s k = Ret (0, s, k')"
    with run show ?thesis by (intro exI [of _ k'] disjI1) simp
  next
    fix p l s1 assume r: "mm_malloc K he (n * sz) s k = Ret (p, s1, k')" "p \<noteq> 0" "heap_state s1 (insert (unat p, l) P)"
      "(unat p, l) \<notin> P" "unat (n * sz) \<le> l" "untouched P (hs_mem s) (hs_mem s1)"
    have "unat p + l < 2 ^ 32" using heap_state_top [OF r(3)] by blast
    then have le: "unat p + unat (n * sz) \<le> 2 ^ 32" using r(5) by simp
    let ?m = "snd (memset p 0 (n * sz) (hs_mem s1))"
    note mb = memset_bytes [OF le, of 0 "hs_mem s1"]
    have "heap_state (s1\<lparr>hs_mem := ?m\<rparr>) (insert (unat p, l) P)"
      by (rule heap_state_write [OF r(3), of "unat p" l]) (use mb r(5) in auto)
    moreover have "untouched P (hs_mem s1) ?m"
      unfolding untouched_def
    proof (intro ballI, clarify)
      fix q l' and b :: addr assume q: "(q, l') \<in> P" and b: "q \<le> unat b" "unat b < q + l'"
      from heap_state_apart [OF r(3), of "unat p" l q l'] q r(4) have "unat p + l + 16 \<le> q \<or> q + l' + 16 \<le> unat p" by blast
      with b mb [of b] r(5) show "?m b = hs_mem s1 b" by auto
    qed
    then have "untouched P (hs_mem s) ?m" by (rule untouched_trans [OF r(6)]) simp
    moreover have "mm_calloc K he n sz s k = Ret (p, s1\<lparr>hs_mem := ?m\<rparr>, k')" using run r(1,2) by simp
    ultimately show ?thesis using r(2,4,5) mb u
      by (intro exI [of _ k'] disjI2 exI [of _ p] exI [of _ l] exI [of _ "s1\<lparr>hs_mem := ?m\<rparr>"]) simp
  qed
qed

lemma realloc_state:
  assumes s: "heap_state s P" "heap_room s" and p: "(unat p, l) \<in> P" and sz: "0 < sz" "sz \<le> 0xffffffe0"
  shows "\<exists>k'. mm_realloc K he p sz s k = Ret (0, s, k') \<or>
    (\<exists>q l' s'. mm_realloc K he p sz s k = Ret (q, s', k') \<and> q \<noteq> 0 \<and> heap_state s' (insert (unat q, l') (P - {(unat p, l)})) \<and>
       (unat q, l') \<notin> P \<and> unat sz \<le> l' \<and> (\<forall>i. unat i < min l (unat sz) \<longrightarrow> hs_mem s' (q + i) = hs_mem s (p + i)) \<and>
       untouched (P - {(unat p, l)}) (hs_mem s) (hs_mem s'))"
proof -
  have p0: "p \<noteq> 0" "sz \<noteq> 0" using heap_state_range(1) [OF s(1) p] sz by auto
  from malloc_state [OF s sz, of K he k] obtain k' where "mm_malloc K he sz s k = Ret (0, s, k') \<or>
    (\<exists>q l' s'. mm_malloc K he sz s k = Ret (q, s', k') \<and> q \<noteq> 0 \<and> heap_state s' (insert (unat q, l') P) \<and> (unat q, l') \<notin> P \<and>
       unat sz \<le> l' \<and> untouched P (hs_mem s) (hs_mem s'))" by blast
  then show ?thesis
  proof (elim disjE exE conjE)
    assume "mm_malloc K he sz s k = Ret (0, s, k')"
    with p0 show ?thesis by (intro exI [of _ k'] disjI1) (simp add: mm_realloc_def Let_def)
  next
    fix q l' s1 assume r: "mm_malloc K he sz s k = Ret (q, s1, k')" "q \<noteq> 0" "heap_state s1 (insert (unat q, l') P)"
      "(unat q, l') \<notin> P" "unat sz \<le> l'" "untouched P (hs_mem s) (hs_mem s1)"
    let ?P1 = "insert (unat q, l') P"
    have p1: "(unat p, l) \<in> ?P1" using p by simp
    let ?n = "if sz < W l then sz else W l"
    have lW: "unat (W l) = l" using heap_state_top [OF r(3) p1] by (simp add: unat_W)
    then have un: "unat ?n = min l (unat sz)" by (auto simp: word_less_nat_alt)
    have le: "unat q + unat ?n \<le> 2 ^ 32" using heap_state_top [OF r(3), of "unat q" l'] r(5) un by simp
    have "unat ?n < 2 ^ 31" using heap_state_range(2) [OF s(1) p] s(2) un by (simp add: heap_room_def)
    then have pos: "\<not> neg32 ?n" using neg32_W [of "unat ?n"] unat_lt32 [of ?n] by (simp add: W_unat)
    let ?m = "c_memcpy q p ?n (hs_mem s1)"
    define s2 where "s2 = s1\<lparr>hs_mem := ?m\<rparr>"
    have out: "?m b = hs_mem s1 b" if "unat b < unat q \<or> unat q + l' \<le> unat b" for b
      using that un r(5) by (intro c_memcpy_bytes(1) [OF le]) auto
    have st2: "heap_state s2 ?P1" unfolding s2_def by (rule heap_state_write [OF r(3), of "unat q" l']) (use out in auto)
    from free_state [OF st2 p1] obtain s' where f: "mm_free p s2 = Ret s'" "heap_state s' (?P1 - {(unat p, l)})"
      "untouched (?P1 - {(unat p, l)}) (hs_mem s2) (hs_mem s')" by blast
    have ne: "?P1 - {(unat p, l)} = insert (unat q, l') (P - {(unat p, l)})" using r(4) p by auto
    have run: "mm_realloc K he p sz s k = Ret (q, s', k')"
      using p0 r(1,2) payload_size [OF r(3) p1] f(1) by (simp add: mm_realloc_def Let_def s2_def outcome_simps cong: if_cong del: bnd_Ret_iff)
    have "untouched P (hs_mem s1) ?m"
      unfolding untouched_def
    proof (intro ballI, clarify)
      fix x lx and b :: addr assume x: "(x, lx) \<in> P" and b: "x \<le> unat b" "unat b < x + lx"
      from heap_state_apart [OF r(3), of "unat q" l' x lx] x r(4) have "unat q + l' + 16 \<le> x \<or> x + lx + 16 \<le> unat q" by blast
      with b show "?m b = hs_mem s1 b" by (intro out) auto
    qed
    then have "untouched P (hs_mem s) (hs_mem s2)" using untouched_trans [OF r(6)] by (simp add: s2_def)
    then have "untouched (P - {(unat p, l)}) (hs_mem s) (hs_mem s2)" by (rule untouched_mono) blast
    then have ut: "untouched (P - {(unat p, l)}) (hs_mem s) (hs_mem s')" by (rule untouched_trans [OF _ f(3)]) (use ne in blast)
    have "hs_mem s' (q + i) = hs_mem s (p + i)" if i: "unat i < min l (unat sz)" for i
    proof -
      have qi: "unat (q + i) = unat q + unat i"
        using heap_state_top [OF r(3), of "unat q" l'] i r(5) by (simp add: unat_word_ariths)
      have pi: "unat (p + i) = unat p + unat i"
        using heap_state_top [OF r(3) p1] i by (simp add: unat_word_ariths)
      have "hs_mem s' (q + i) = hs_mem s2 (q + i)"
        using f(3) [unfolded ne untouched_def] qi i r(5) by auto
      also have "\<dots> = hs_mem s1 (p + i)" using c_memcpy_bytes(2) [OF le _ pos, of i] i un by (simp add: s2_def word_less_nat_alt)
      also have "\<dots> = hs_mem s (p + i)" using r(6) [unfolded untouched_def] p pi i by auto
      finally show ?thesis .
    qed
    with run r(2,4,5) f(2) ne ut show ?thesis
      by (intro exI [of _ k'] disjI2 exI [of _ q] exI [of _ l'] exI [of _ s']) simp
  qed
qed

section \<open>The interface\<close>

text \<open>
  What a client of an allocator relies on: \<open>rep s P\<close> is the abstraction, \<open>room\<close> a precondition of
  \<open>alloc\<close>, \<open>contents\<close> the memory and \<open>update\<close> a write of the client.
\<close>

locale allocator =
  fixes rep :: "'s \<Rightarrow> (nat \<times> nat) set \<Rightarrow> bool" and room :: "'s \<Rightarrow> bool" and contents :: "'s \<Rightarrow> mem"
    and update :: "mem \<Rightarrow> 's \<Rightarrow> 's" and alloc :: "u32 \<Rightarrow> 's \<Rightarrow> 'k \<Rightarrow> (addr \<times> 's \<times> 'k) outcome"
    and release :: "addr \<Rightarrow> 's \<Rightarrow> 's outcome" and limit :: u32
  assumes alloc_law: "rep s P \<Longrightarrow> room s \<Longrightarrow> 0 < n \<Longrightarrow> n \<le> limit \<Longrightarrow>
      \<exists>k'. alloc n s k = Ret (0, s, k') \<or> (\<exists>p l s'. alloc n s k = Ret (p, s', k') \<and> p \<noteq> 0 \<and> rep s' (insert (unat p, l) P) \<and>
        (unat p, l) \<notin> P \<and> unat n \<le> l \<and> untouched P (contents s) (contents s'))"
    and release_law: "rep s P \<Longrightarrow> (unat p, l) \<in> P \<Longrightarrow>
      \<exists>s'. release p s = Ret s' \<and> rep s' (P - {(unat p, l)}) \<and> untouched (P - {(unat p, l)}) (contents s) (contents s')"
    and apart_law: "rep s P \<Longrightarrow> (a, l) \<in> P \<Longrightarrow> (q, l') \<in> P \<Longrightarrow> a + l \<le> q \<or> q + l' \<le> a \<or> (a, l) = (q, l')"
    and update_law: "rep s P \<Longrightarrow> (a, l) \<in> P \<Longrightarrow> (\<And>b. unat b < a \<or> a + l \<le> unat b \<Longrightarrow> m b = contents s b) \<Longrightarrow>
      rep (update m s) P"
    and contents_update: "contents (update m s) = m"
begin

lemma alloc_cases:
  assumes "rep s P" "room s" "0 < n" "n \<le> limit" "alloc n s k = Ret (p, s', k')" "p \<noteq> 0"
  shows "\<exists>l. rep s' (insert (unat p, l) P) \<and> (unat p, l) \<notin> P \<and> unat n \<le> l \<and> untouched P (contents s) (contents s')"
  using alloc_law [OF assms(1-4), of k] assms(5,6) by auto

text \<open>A payload given out meets none of those in use.\<close>

lemma alloc_fresh:
  assumes "rep s P" "room s" "0 < n" "n \<le> limit" "alloc n s k = Ret (p, s', k')" "p \<noteq> 0" "(q, l) \<in> P"
  shows "unat p + unat n \<le> q \<or> q + l \<le> unat p"
proof -
  from alloc_cases [OF assms(1-6)] obtain l' where l': "rep s' (insert (unat p, l') P)" "(unat p, l') \<notin> P" "unat n \<le> l'" by blast
  from apart_law [OF l'(1), of "unat p" l' q l] assms(7) l'(2,3) show ?thesis by auto
qed

text \<open>Allocating, writing the payload and releasing it gives the same payloads with the same bytes.\<close>

lemma alloc_write_release:
  assumes "rep s P" "room s" "0 < n" "n \<le> limit" "alloc n s k = Ret (p, s', k')" "p \<noteq> 0"
    and w: "\<And>b. unat b < unat p \<or> unat p + unat n \<le> unat b \<Longrightarrow> m b = contents s' b"
  shows "\<exists>s''. release p (update m s') = Ret s'' \<and> rep s'' P \<and> untouched P (contents s) (contents s'')"
proof -
  from alloc_cases [OF assms(1-6)] obtain l where l: "rep s' (insert (unat p, l) P)" "(unat p, l) \<notin> P" "unat n \<le> l"
    "untouched P (contents s) (contents s')" by blast
  have "rep (update m s') (insert (unat p, l) P)" by (rule update_law [OF l(1), of "unat p" l]) (use w l(3) in auto)
  from release_law [OF this, of p l] l(2) obtain s'' where r: "release p (update m s') = Ret s''" "rep s'' P"
    "untouched P (contents (update m s')) (contents s'')" by auto
  have "untouched P (contents s') (contents (update m s'))"
    unfolding untouched_def contents_update
  proof (intro ballI, clarify)
    fix x lx and b :: addr assume x: "(x, lx) \<in> P" and b: "x \<le> unat b" "unat b < x + lx"
    from apart_law [OF l(1), of "unat p" l x lx] x l(2) have "unat p + l \<le> x \<or> x + lx \<le> unat p" by auto
    with b l(3) show "m b = contents s' b" by (intro w) auto
  qed
  with l(4) r show ?thesis by (blast intro: untouched_trans)
qed

end

interpretation heap: allocator heap_state heap_room hs_mem "\<lambda>m s. s\<lparr>hs_mem := m\<rparr>" "mm_malloc K he" mm_free "0xffffffe0" for K he
proof unfold_locales
  fix s P and n :: u32 and k assume "heap_state s P" "heap_room s" "0 < n" "n \<le> 0xffffffe0"
  then show "\<exists>k'. mm_malloc K he n s k = Ret (0, s, k') \<or> (\<exists>p l s'. mm_malloc K he n s k = Ret (p, s', k') \<and> p \<noteq> 0 \<and>
      heap_state s' (insert (unat p, l) P) \<and> (unat p, l) \<notin> P \<and> unat n \<le> l \<and> untouched P (hs_mem s) (hs_mem s'))"
    by (rule malloc_state)
next
  fix s P l and p :: addr assume "heap_state s P" "(unat p, l) \<in> P"
  from free_state [OF this] show "\<exists>s'. mm_free p s = Ret s' \<and> heap_state s' (P - {(unat p, l)}) \<and>
      untouched (P - {(unat p, l)}) (hs_mem s) (hs_mem s')" by blast
next
  fix s P p l q l' assume "heap_state s P" "(p, l) \<in> P" "(q, l') \<in> P"
  from heap_state_apart [OF this] show "p + l \<le> q \<or> q + l' \<le> p \<or> (p, l) = (q, l')" by linarith
next
  fix s P p l m assume "heap_state s P" "(p, l) \<in> P" "\<And>b. unat b < p \<or> p + l \<le> unat b \<Longrightarrow> m b = hs_mem s b"
  then show "heap_state (s\<lparr>hs_mem := m\<rparr>) P" by (rule heap_state_write)
qed simp

section \<open>user/libthread/malloc.c\<close>

text \<open>
  The four wrappers hold \<open>malloc_mutex\<close> around the call. \<open>env\<close> is what the other threads do to the mutex
  while \<open>mutex_lock\<close> spins; \<open>s\<close> and \<open>k\<close> are the heap and the kernel at the moment the lock is taken.
\<close>

definition malloc_ts :: "'k vm \<Rightarrow> addr \<Rightarrow> (mutex \<Rightarrow> mutex) list \<Rightarrow> u32 \<Rightarrow> mutex \<Rightarrow> hs \<Rightarrow> 'k \<Rightarrow> (addr \<times> mutex \<times> hs \<times> 'k) outcome" where
  "malloc_ts K he env sz mx s k =
     bnd (mutex_lock env mx) (\<lambda>mx.
     bnd (mm_malloc K he sz s k) (\<lambda>(ptr, s, k).
     bnd (mutex_unlock mx) (\<lambda>mx. Ret (ptr, mx, s, k))))"

definition calloc_ts :: "'k vm \<Rightarrow> addr \<Rightarrow> (mutex \<Rightarrow> mutex) list \<Rightarrow> u32 \<Rightarrow> u32 \<Rightarrow> mutex \<Rightarrow> hs \<Rightarrow> 'k \<Rightarrow> (addr \<times> mutex \<times> hs \<times> 'k) outcome" where
  "calloc_ts K he env nelt eltsize mx s k =
     bnd (mutex_lock env mx) (\<lambda>mx.
     bnd (mm_calloc K he nelt eltsize s k) (\<lambda>(ptr, s, k).
     bnd (mutex_unlock mx) (\<lambda>mx. Ret (ptr, mx, s, k))))"

definition realloc_ts :: "'k vm \<Rightarrow> addr \<Rightarrow> (mutex \<Rightarrow> mutex) list \<Rightarrow> addr \<Rightarrow> u32 \<Rightarrow> mutex \<Rightarrow> hs \<Rightarrow> 'k \<Rightarrow> (addr \<times> mutex \<times> hs \<times> 'k) outcome" where
  "realloc_ts K he env buf new_size mx s k =
     bnd (mutex_lock env mx) (\<lambda>mx.
     bnd (mm_realloc K he buf new_size s k) (\<lambda>(ptr, s, k).
     bnd (mutex_unlock mx) (\<lambda>mx. Ret (ptr, mx, s, k))))"

definition free_ts :: "(mutex \<Rightarrow> mutex) list \<Rightarrow> addr \<Rightarrow> mutex \<Rightarrow> hs \<Rightarrow> (mutex \<times> hs) outcome" where
  "free_ts env buf mx s =
     bnd (mutex_lock env mx) (\<lambda>mx.
     bnd (mm_free buf s) (\<lambda>s.
     bnd (mutex_unlock mx) (\<lambda>mx. Ret (mx, s))))"

lemma malloc_ts_free_mutex:
  "mx_free mx \<Longrightarrow> malloc_ts K he env sz mx s k = bnd (mm_malloc K he sz s k) (\<lambda>(p, s, k). Ret (p, mx, s, k))"
  by (simp add: malloc_ts_def outcome_simps mx_lock_unlock case_prod_unfold del: bnd_Ret_iff)

lemma free_ts_free_mutex: "mx_free mx \<Longrightarrow> free_ts env p mx s = bnd (mm_free p s) (\<lambda>s. Ret (mx, s))"
  by (simp add: free_ts_def outcome_simps mx_lock_unlock del: bnd_Ret_iff)

end
