(* ===== verification/Malloc_Props.thy ===== *)
theory Malloc_Props
  imports Allocator
begin

text \<open>
  The properties of libmalloc and of its thread-safe wrappers, and the inputs at which the size
  arithmetic of malloc.c goes wrong.
\<close>

section \<open>A concrete heap\<close>

definition demo_heap :: hs where
  "demo_heap = \<lparr>hs_max = 0xffffffff, hs_brk = W 12304, hs_top = W 12288 + W 4096, hs_listp = W 8200,
     hs_mem = store64 (W 12296) (pk 0 True) (tagged 8200 4096 False
       (store64 (W 8200) (pk 0 True) (store64 (W 8192) (pk 0 True) (\<lambda>_. 0))))\<rparr>"

lemma demo_heap_inv: "hs_inv demo_heap 8200 [(4096, False)]"
proof -
  let ?m = "store64 (W 8200) (pk 0 True) (store64 (W 8192) (pk 0 True) (\<lambda>_. 0))"
  have "load64 ?m (W 8192) = pk 0 True" "load64 ?m (W 8200) = pk 0 True" by (simp_all add: load_store_W)
  then have "heap_tags ?m 8200 []" by (simp add: heap_tags_def)
  from heap_tags_extend [OF this, of 4096] have "heap_tags (hs_mem demo_heap) 8200 [(4096, False)]"
    by (simp add: demo_heap_def)
  moreover have "unat (W 12288 + W 4096) = 16384" unfolding W_add by (simp add: unat_W)
  ultimately show ?thesis by (simp add: hs_inv_def demo_heap_def)
qed

lemma demo_heap_state: "heap_state demo_heap {}" "heap_room demo_heap"
proof -
  show "heap_state demo_heap {}" unfolding heap_state_def by (intro exI conjI, rule demo_heap_inv) simp
  show "heap_room demo_heap" by (simp add: heap_room_def demo_heap_def unat_W)
qed

section \<open>malloc and free\<close>



text \<open>
  \<open>free\<close> of a payload in use takes exactly this payload back; all other payloads keep their bytes and
  the break does not move.
\<close>

theorem free_correct:
  assumes "heap_state s P" "(unat p, l) \<in> P"
  shows "\<exists>s'. mm_free p s = Ret s' \<and> heap_state s' (P - {(unat p, l)}) \<and> hs_brk s' = hs_brk s \<and>
    untouched (P - {(unat p, l)}) (hs_mem s) (hs_mem s')"
  by (rule free_state [OF assms])

definition demo_heap2 :: hs where
  "demo_heap2 = demo_heap\<lparr>hs_mem := tagged 8200 4096 True (hs_mem demo_heap)\<rparr>"

lemma demo_heap2_inv: "hs_inv demo_heap2 8200 [(4096, True)]"
proof -
  note I = hs_invD [OF demo_heap_inv]
  have "heap_tags (hs_mem demo_heap) 8200 ([] @ [(4096, False)] @ [])" using I(6) by simp
  from heap_tags_replace [OF this, of 4096 True] have "heap_tags (hs_mem demo_heap2) 8200 [(4096, True)]"
    by (simp add: demo_heap2_def)
  with I show ?thesis by (simp add: hs_inv_def demo_heap2_def)
qed

lemma demo_heap2_state: "heap_state demo_heap2 {(8208, 4080)}"
  unfolding heap_state_def by (intro exI conjI, rule demo_heap2_inv) simp

lemma demo_heap2_room: "heap_room demo_heap2"
  by (simp add: heap_room_def demo_heap2_def demo_heap_def unat_W)

theorem free_correct_witness:
  "\<exists>s'. mm_free 8208 demo_heap2 = Ret s' \<and> heap_state s' {}"
  using free_correct [OF demo_heap2_state, of 8208 4080] by auto

lemma first_fit_run:
  assumes s: "hs_inv s hp (xs @ (n, False) # ys)" and sz: "0 < sz" "sz \<le> 0xffffffe0"
    and fit: "asize_of (unat sz) \<le> n" and first: "\<forall>b \<in> set xs. snd b \<or> fst b < asize_of (unat sz)"
  shows "\<exists>s'. mm_malloc K he sz s k = Ret (of_nat (hp + bsize xs + 8), s', k) \<and>
    hs_inv s' hp (xs @ placed (asize_of (unat sz)) n @ ys) \<and>
    (\<forall>b. unat b < hp + bsize xs \<or> hp + bsize xs + n \<le> unat b \<longrightarrow> hs_mem s' b = hs_mem s b)"
proof -
  let ?asz = "asize_of (unat sz)"
  have "unat sz \<le> unat (0xffffffe0 :: u32)" using sz(2) by (simp only: word_le_nat_alt)
  then have z: "0 < unat sz" "unat sz + 32 \<le> 2 ^ 32" using sz(1) by (simp_all add: word_less_nat_alt)
  have ff: "first_fit ?asz a (xs @ (n, False) # ys) = Some (a + bsize xs)" for a
    using first fit by (induction xs arbitrary: a) (auto simp: add.assoc)
  note I = hs_invD [OF s] and A = asize_of [of "unat sz"]
  from place_rep [OF I(6) A(1,3) fit] obtain m' where m': "place (W (hp + bsize xs)) (W ?asz) (hs_mem s) = Ret m'"
    "heap_tags m' hp (xs @ placed ?asz n @ ys)" "\<forall>b. unat b < hp + bsize xs \<or> hp + bsize xs + n \<le> unat b \<longrightarrow> m' b = hs_mem s b"
    by blast
  have inv: "hs_inv (s\<lparr>hs_mem := m'\<rparr>) hp (xs @ placed ?asz n @ ys)"
    using I m'(2) no_adj_placed [OF I(7)] by (simp add: hs_inv_def bsize_placed [OF fit])
  note D = heap_tagsD [OF I(6)]
  have "W (hp + bsize xs) \<noteq> 0" using D(4,5) by (simp add: W_0_iff)
  moreover have "header_to_payload (W (hp + bsize xs)) = of_nat (hp + bsize xs + 8)"
    using W_add [of "hp + bsize xs" 8] by (simp add: header_to_payload_def W_numeral W_def)
  ultimately have "mm_malloc K he sz s k = Ret (of_nat (hp + bsize xs + 8), s\<lparr>hs_mem := m'\<rparr>, k)"
    using mm_malloc_unfold [OF s z, of K he k] m'(1) hs_invD(8) [OF inv]
    by (simp add: W_unat ff place_checked_def outcome_simps del: bnd_Ret_iff)
  with inv m'(3) show ?thesis by (intro exI [of _ "s\<lparr>hs_mem := m'\<rparr>"]) simp
qed

text \<open>
  first fit. \<open>malloc\<close> takes the lowest free block that is large enough, asks the kernel for nothing,
  splits the block when at least 32 bytes remain, and changes no byte outside it.
\<close>

theorem malloc_first_fit:
  assumes s: "hs_inv s hp (xs @ (n, False) # ys)" and sz: "0 < sz" "sz \<le> 0xffffffe0"
    and fit: "asize_of (unat sz) \<le> n" and first: "\<forall>b \<in> set xs. snd b \<or> fst b < asize_of (unat sz)"
  shows "\<exists>s'. mm_malloc K he sz s k = Ret (of_nat (hp + bsize xs + 8), s', k) \<and>
    hs_inv s' hp (xs @ placed (asize_of (unat sz)) n @ ys) \<and>
    (\<forall>b. unat b < hp + bsize xs \<or> hp + bsize xs + n \<le> unat b \<longrightarrow> hs_mem s' b = hs_mem s b)"
  by (rule first_fit_run [OF assms])

theorem malloc_first_fit_witness:
  "\<exists>s'. mm_malloc demo_vm 0 100 demo_heap ([], 0) = Ret (8208, s', ([], 0)) \<and> hs_inv s' 8200 [(128, True), (3968, False)]"
  using malloc_first_fit [of demo_heap 8200 "[]" 4096 "[]" 100 demo_vm 0 "([], 0)"] demo_heap_inv
  by (auto simp: asize_of_def placed_def)


definition demo_mutex :: mutex where
  "demo_mutex = \<lparr>mx_lockFlag = 0, mx_initializeFlag = 1\<rparr>"


section \<open>Starting up, calloc and realloc\<close>

text \<open>
  the first call initialises the heap: when the kernel maps a page above the program, \<open>mm_init\<close> returns with a
  well-formed heap whose only block, if any, is free, and the heap has no payload in use.
\<close>

theorem mm_init_ok:
  assumes "mem_init_loop K ((he + 4096) AND page_align_mask) k = Some (brk, k1)" "brk \<noteq> 0" "unat brk + 16 + 4096 \<le> 2 ^ 31"
  shows "\<exists>r s' k'. mm_init K he s k = Ret (r, s', k') \<and> hs_inv s' (unat brk + 8) (if r then [(4096, False)] else []) \<and>
    heap_state s' {}"
proof -
  from mm_init_rep [OF assms, of s] obtain r s' k' where i: "mm_init K he s k = Ret (r, s', k')"
    "hs_inv s' (unat brk + 8) (if r then [(4096, False)] else [])" by blast
  then have "heap_state s' (set (live (unat brk + 8) (if r then [(4096, False)] else [])))" unfolding heap_state_def by blast
  then have "heap_state s' {}" by (simp split: if_splits)
  with i show ?thesis by blast
qed

theorem mm_init_ok_witness:
  "\<exists>r s' k'. mm_init demo_vm 0x1000010 demo_heap ([], 0) = Ret (r, s', k') \<and> heap_state s' {}"
proof -
  have "mem_init_loop demo_vm ((0x1000010 + 4096) AND page_align_mask) ([], 0) = Some (0x1001000, ([(0x1001000, 4096)], 0))"
    by (subst mem_init_loop.simps) (simp add: demo_vm_def page_align_mask_def)
  from mm_init_ok [OF this, of demo_heap] show ?thesis by auto
qed

text \<open>
  \<open>calloc\<close> returns NULL without a change or a fresh payload all of whose requested bytes are zero, and
  touches no payload in use.
\<close>

theorem calloc_correct:
  assumes "heap_state s P" "heap_room s" "0 < unat n * unat sz" "unat n * unat sz \<le> 0xffffffe0"
  shows "\<exists>k'. mm_calloc K he n sz s k = Ret (0, s, k') \<or>
    (\<exists>p l s'. mm_calloc K he n sz s k = Ret (p, s', k') \<and> p \<noteq> 0 \<and> heap_state s' (insert (unat p, l) P) \<and> (unat p, l) \<notin> P \<and>
       unat n * unat sz \<le> l \<and> (\<forall>b. unat p \<le> unat b \<and> unat b < unat p + unat n * unat sz \<longrightarrow> hs_mem s' b = 0) \<and>
       untouched P (hs_mem s) (hs_mem s'))"
  by (rule calloc_state [OF assms])

theorem calloc_correct_witness:
  "\<exists>k'. mm_calloc demo_vm 0 10 8 demo_heap ([], 0) = Ret (0, demo_heap, k') \<or>
    (\<exists>p l s'. mm_calloc demo_vm 0 10 8 demo_heap ([], 0) = Ret (p, s', k') \<and> heap_state s' {(unat p, l)} \<and> 80 \<le> l)"
  using calloc_correct [OF demo_heap_state, of 10 8 demo_vm 0 "([], 0)"] by fastforce

text \<open>
  \<open>calloc\<close> refuses a product that does not fit 32 bits and changes nothing; with \<open>nmemb == 0\<close> it
  divides by zero.
\<close>

theorem calloc_overflow:
  assumes o: "2 ^ 32 \<le> unat n * unat sz"
  shows "mm_calloc K he n sz s k = Ret (0, s, k) \<and> mm_calloc K he 0 sz s k = Fault"
proof
  from o have n0: "n \<noteq> 0" by auto
  have "n * sz div n \<noteq> sz"
  proof
    assume "n * sz div n = sz"
    then have "unat sz = unat (n * sz) div unat n" by (metis unat_div)
    then have "unat n * unat sz = unat n * (unat (n * sz) div unat n)" by simp
    also have "\<dots> \<le> unat (n * sz)" by (rule times_div_less_eq_dividend)
    finally have "unat n * unat sz \<le> unat (n * sz)" .
    with o unat_lt32 [of "n * sz"] show False by simp
  qed
  with n0 show "mm_calloc K he n sz s k = Ret (0, s, k)" by (simp add: mm_calloc_def Let_def)
next
  show "mm_calloc K he 0 sz s k = Fault" by (simp add: mm_calloc_def Let_def)
qed

theorem calloc_overflow_witness: "mm_calloc demo_vm 0 0x10000 0x10001 demo_heap ([], 0) = Ret (0, demo_heap, ([], 0))"
  using calloc_overflow [of "0x10000" "0x10001" demo_vm 0 demo_heap "([], 0)"] by simp



section \<open>Sizes that wrap\<close>

lemma heap_tags_same:
  assumes h: "heap_tags m hp bs" and e: "\<And>x. 8 dvd x \<Longrightarrow> x < 2 ^ 32 \<Longrightarrow> load64 m' (W x) = load64 m (W x)"
  shows "heap_tags m' hp bs"
proof -
  have "heap_tags m hp ([] @ bs)" using h by simp
  note D = heap_tagsD [OF this]
  have "blocks m' hp bs"
    by (rule blocks_cong [of hp bs m' m]) (use D e in auto)
  moreover have "8 dvd hp - 8" "8 dvd hp + bsize bs" using D(1,3) by (auto intro: dvd_diff_nat dvd_add dvd16_8)
  then have "load64 m' (W (hp - 8)) = load64 m (W (hp - 8))" "load64 m' (W (hp + bsize bs)) = load64 m (W (hp + bsize bs))"
    using D(4) by (auto intro!: e)
  ultimately show ?thesis using h by (simp add: heap_tags_def)
qed

text \<open>
  \<open>place\<close> with size 0: it writes the tags of an empty block over the header and the tag before it, and then the header and
  footer of the whole block as free again.
\<close>

lemma place_empty:
  assumes h: "heap_tags m hp ([] @ (n, False) # ys)" and n: "32 \<le> n"
  defines "m3 \<equiv> tagged hp n False (store64 (W (hp - 8)) (pk 0 True) (store64 (W hp) (pk 0 True) m))"
  shows "place (W hp) 0 m = Ret m3 \<and> (\<forall>x. 8 dvd x \<longrightarrow> x < 2 ^ 32 \<longrightarrow> load64 m3 (W x) = load64 m (W x))"
proof (intro conjI allI impI)
  note D = heap_tagsD [OF h]
  from D(8) have nn: "16 dvd n" "16 \<le> n" "load64 m (W hp) = pk n False" by simp_all
  have hp: "8 dvd hp" "16 < hp" "hp + n + 8 < 2 ^ 32" using D(1,4,5) by simp_all
  let ?m1 = "store64 (W hp) (pk 0 True) m"
  let ?m2 = "store64 (W (hp - 8)) (pk 0 True) ?m1"
  have d: "8 dvd hp - 8" using hp(1) by (auto intro: dvd_diff_nat)
  have l1: "load64 ?m1 (W hp) = pk 0 True" by simp
  have "W hp + 8 + 0 - dsize = W (hp - 8)" using W_add [of hp 8] W_diff [of 16 "hp + 8"] hp(2) by (simp add: W_numeral dsize_def)
  then have f1: "write_footer (W hp) 0 True (write_header (W hp) 0 True m) = ?m2"
    using get_size_W(1) [OF l1] by (simp add: write_footer_def write_header_def pk_def W_numeral)
  have l2: "load64 ?m2 (W hp) = pk 0 True" using hp d by (simp add: load_store_W)
  from find_next_W [OF l2] hp have nx: "find_next ?m2 (W hp) = Ret (W hp)" by simp
  have ge: "min_block_size \<le> W n - 0" using n hp(3) by (simp add: min_block_size_def word_le_nat_alt unat_W)
  show "place (W hp) 0 m = Ret m3" unfolding m3_def
    using ge by (simp add: place_def get_size_W [OF nn(3,1)] f1 nx write_tags [OF nn(1,2)] Let_def outcome_simps del: bnd_Ret_iff)
  fix x assume x: "8 dvd x" "x < (2 :: nat) ^ 32"
  have "load64 m (W (hp + n - 8)) = pk n False" "load64 m (W (hp - 8)) = pk 0 True" using D(8,9) by simp_all
  moreover have "hp - 8 \<noteq> hp" "hp - 8 \<noteq> hp + n - 8" using hp(2) nn(2) by simp_all
  ultimately show "load64 m3 (W x) = load64 m (W x)"
    using load_tagged [OF hp(1) nn(1,2) _ x, of False ?m2] hp nn(3) d x unfolding m3_def
    by (cases "x = hp - 8") (simp_all add: load_store_W)
qed

text \<open>
  C27: a request between 0xffffffe1 and 0xfffffff0 bytes makes the block size wrap to 0. Then \<open>malloc\<close> succeeds,
  and what it returns is the payload of a block that stays free: the next request gets the same bytes.
\<close>

theorem malloc_huge_unallocated:
  assumes s: "hs_inv s hp ((n, False) # ys)" and n: "32 \<le> n" and sz: "0xffffffe0 < sz" "sz \<le> 0xfffffff0"
  shows "\<exists>s'. mm_malloc K he sz s k = Ret (of_nat (hp + 8), s', k) \<and> hs_inv s' hp ((n, False) # ys)"
proof -
  note I = hs_invD [OF s]
  have h: "heap_tags (hs_mem s) hp ([] @ (n, False) # ys)" using I(6) by simp
  note D = heap_tagsD [OF h]
  from D(8) have nn: "16 dvd n" "16 \<le> n" "load64 (hs_mem s) (W hp) = pk n False" by simp_all
  have hp: "8 dvd hp" "16 < hp" "hp + n + 8 < 2 ^ 32" using D(1,4,5) by simp_all
  have "unat (0xffffffe0 :: u32) < unat sz" "unat sz \<le> unat (0xfffffff0 :: u32)"
    using sz by (simp_all only: word_less_nat_alt word_le_nat_alt)
  then have "unat sz + 15 < 2 ^ 32" "(unat sz + 15) div 16 * 16 = 4294967280" by simp_all
  with round_up_W [of "unat sz"] have "round_up sz dsize = W 4294967280" by (simp only: W_unat)
  then have as: "round_up sz dsize + dsize = 0" by (simp add: dsize_def W_def)
  have sz0: "sz \<noteq> 0" "W hp \<noteq> 0" using sz hp by (auto simp: W_0_iff)
  have pos: "0 < W n" using nn(2) hp(3) by (simp add: W_0_iff word_gt_0)
  have "find_fit_loop (hs_mem s) 0 (W hp) = Some (Ret (W hp))"
    by (subst find_fit_loop.simps) (simp add: get_size_W [OF nn(3,1)] pos)
  then have ff: "find_fit 0 s = Ret (W hp)" using I(2) sz0(2) by (simp add: find_fit_def)
  from place_empty [OF h n] obtain m3 where pl: "place (W hp) 0 (hs_mem s) = Ret m3"
    and same: "\<And>x. 8 dvd x \<Longrightarrow> x < 2 ^ 32 \<Longrightarrow> load64 m3 (W x) = load64 (hs_mem s) (W x)" by blast
  have inv: "hs_inv (s\<lparr>hs_mem := m3\<rparr>) hp ((n, False) # ys)"
    using s heap_tags_same [OF I(6) same] by (simp add: hs_inv_def)
  have "header_to_payload (W hp) = of_nat (hp + 8)" using W_add [of hp 8] by (simp add: header_to_payload_def W_numeral W_def)
  then have "mm_malloc K he sz s k = Ret (of_nat (hp + 8), s\<lparr>hs_mem := m3\<rparr>, k)"
    using I(2,8) sz0 ff pl hs_invD(8) [OF inv] as
    by (simp add: mm_malloc_def Let_def outcome_simps del: bnd_Ret_iff)
  with inv show ?thesis by blast
qed

theorem malloc_huge_unallocated_witness:
  "\<exists>s'. mm_malloc demo_vm 0 0xffffffe8 demo_heap ([], 0) = Ret (8208, s', ([], 0)) \<and> hs_inv s' 8200 [(4096, False)]"
  using malloc_huge_unallocated [OF demo_heap_inv, of "0xffffffe8" demo_vm 0 "([], 0)"] by simp

end
