(* ===== verification/Heap_Machine.thy ===== *)
theory Heap_Machine
  imports Malloc_Props
begin

text \<open>
  Any number of threads that use the entry points of user/libthread/malloc.c. A step is one access to \<open>malloc_mutex\<close>, the call
  of the allocator between them, or a write of a thread into memory it was given. A thread owns the areas that it has
  asked for and not released; it releases and resizes only what it owns, which is the contract of \<open>free\<close> and \<open>realloc\<close>.
\<close>

section \<open>Steps\<close>

text \<open>The calls, each with the size the caller asked for when it obtained the area it passes.\<close>

datatype heap_op = Op_Malloc u32 | Op_Calloc u32 u32 | Op_Realloc addr u32 u32 | Op_Free addr u32

datatype hpc = H_Out | H_Lock heap_op | H_Run heap_op | H_Unlock "(addr \<times> u32) set"

fun given :: "heap_op \<Rightarrow> (addr \<times> u32) set" where
  "given (Op_Realloc p n sz) = {(p, n)}"
| "given (Op_Free p n) = {(p, n)}"
| "given _ = {}"

text \<open>Sizes the allocator can round without wrapping; larger requests are the subject of \<open>malloc_huge_unallocated\<close>.\<close>

fun sane :: "heap_op \<Rightarrow> bool" where
  "sane (Op_Malloc n) = (0 < n \<and> n \<le> 0xffffffe0)"
| "sane (Op_Calloc n sz) = (0 < unat n * unat sz \<and> unat n * unat sz \<le> 0xffffffe0)"
| "sane (Op_Realloc p n sz) = (0 < sz \<and> sz \<le> 0xffffffe0)"
| "sane (Op_Free p n) = True"

text \<open>The call under the lock, and the areas its caller owns afterwards in place of those it gave.\<close>

fun run_op :: "'k vm \<Rightarrow> addr \<Rightarrow> heap_op \<Rightarrow> hs \<Rightarrow> 'k \<Rightarrow> ((addr \<times> u32) set \<times> hs \<times> 'k) outcome" where
  "run_op K he (Op_Malloc n) s k =
     bnd (mm_malloc K he n s k) (\<lambda>(p, s, k). Ret (if p = 0 then {} else {(p, n)}, s, k))"
| "run_op K he (Op_Calloc n sz) s k =
     bnd (mm_calloc K he n sz s k) (\<lambda>(p, s, k). Ret (if p = 0 then {} else {(p, n * sz)}, s, k))"
| "run_op K he (Op_Realloc p n sz) s k =
     bnd (mm_realloc K he p sz s k) (\<lambda>(q, s, k). Ret (if q = 0 then {(p, n)} else {(q, sz)}, s, k))"
| "run_op K he (Op_Free p n) s k = bnd (mm_free p s) (\<lambda>s. Ret ({}, s, k))"

record 'k hsys =
  hy_mx :: mutex
  hy_hs :: hs
  hy_k :: 'k
  hy_pc :: "i32 \<Rightarrow> hpc"
  hy_own :: "i32 \<Rightarrow> (addr \<times> u32) set"

definition area_of :: "addr \<times> u32 \<Rightarrow> addr set" where
  "area_of x = {b. unat (fst x) \<le> unat b \<and> unat b < unat (fst x) + unat (snd x)}"

inductive hstep :: "'k vm \<Rightarrow> addr \<Rightarrow> i32 \<Rightarrow> 'k hsys \<Rightarrow> 'k hsys \<Rightarrow> bool" for K :: "'k vm" and he :: addr and t :: i32 where
  h_call: "\<lbrakk>hy_pc s t = H_Out; sane op; given op \<subseteq> hy_own s t\<rbrakk>
    \<Longrightarrow> hstep K he t s (s\<lparr>hy_pc := (hy_pc s)(t := H_Lock op), hy_own := (hy_own s)(t := hy_own s t - given op)\<rparr>)"
| h_try: "\<lbrakk>hy_pc s t = H_Lock op; lock_try (hy_mx s) = (busy, m)\<rbrakk>
    \<Longrightarrow> hstep K he t s (s\<lparr>hy_mx := m, hy_pc := (hy_pc s)(t := if busy then H_Lock op else H_Run op)\<rparr>)"
| h_run: "\<lbrakk>hy_pc s t = H_Run op; heap_room (hy_hs s); run_op K he op (hy_hs s) (hy_k s) = Ret (R, h, k)\<rbrakk>
    \<Longrightarrow> hstep K he t s (s\<lparr>hy_hs := h, hy_k := k, hy_pc := (hy_pc s)(t := H_Unlock R)\<rparr>)"
| h_unlock: "\<lbrakk>hy_pc s t = H_Unlock R; mutex_unlock (hy_mx s) = Ret m\<rbrakk>
    \<Longrightarrow> hstep K he t s (s\<lparr>hy_mx := m, hy_pc := (hy_pc s)(t := H_Out), hy_own := (hy_own s)(t := hy_own s t \<union> R)\<rparr>)"
| h_write: "\<lbrakk>hy_pc s t = H_Out; x \<in> hy_own s t; \<forall>b. b \<notin> area_of x \<longrightarrow> m b = hs_mem (hy_hs s) b\<rbrakk>
    \<Longrightarrow> hstep K he t s (s\<lparr>hy_hs := (hy_hs s)\<lparr>hs_mem := m\<rparr>\<rparr>)"

text \<open>The start: \<open>thr_init\<close> has initialised the mutex, and nothing is allocated.\<close>

definition h_start :: "'k hsys \<Rightarrow> bool" where
  "h_start s \<longleftrightarrow> mx_free (hy_mx s) \<and> heap_state (hy_hs s) {} \<and> (\<forall>t. hy_pc s t = H_Out \<and> hy_own s t = {})"

inductive hreach :: "'k vm \<Rightarrow> addr \<Rightarrow> 'k hsys \<Rightarrow> bool" for K :: "'k vm" and he :: addr where
  hreach_start: "h_start s \<Longrightarrow> hreach K he s"
| hreach_step: "hreach K he s \<Longrightarrow> hstep K he t s s' \<Longrightarrow> hreach K he s'"

section \<open>One call\<close>

text \<open>The blocks behind areas.\<close>

definition blocks_of :: "(nat \<times> nat) set \<Rightarrow> (addr \<times> u32) set \<Rightarrow> (nat \<times> nat) set" where
  "blocks_of P G = {x \<in> P. \<exists>y \<in> G. fst x = unat (fst y)}"

definition backed :: "(nat \<times> nat) set \<Rightarrow> addr \<times> u32 \<Rightarrow> bool" where
  "backed P y \<longleftrightarrow> (\<exists>l. (unat (fst y), l) \<in> P \<and> unat (snd y) \<le> l)"

lemma heap_state_unique: "heap_state s P \<Longrightarrow> (p, l) \<in> P \<Longrightarrow> (p, l') \<in> P \<Longrightarrow> l = l'"
  using heap_state_apart [of s P p l p l'] by auto

lemma blocks_of_one: "heap_state s P \<Longrightarrow> (unat p, l) \<in> P \<Longrightarrow> blocks_of P {(p, n)} = {(unat p, l)}"
  using heap_state_unique [of s P "unat p"] by (auto simp: blocks_of_def)

text \<open>What a call leaves: all other blocks with their bytes, and a new one, if any, for the area it returns.\<close>

definition call_done :: "(nat \<times> nat) set \<Rightarrow> (addr \<times> u32) set \<Rightarrow> hs \<Rightarrow> (addr \<times> u32) set \<Rightarrow> hs \<Rightarrow> bool" where
  "call_done P G s R s' \<longleftrightarrow> (\<exists>P'. heap_state s' P' \<and> P - blocks_of P G \<subseteq> P' \<and>
     untouched (P - blocks_of P G) (hs_mem s) (hs_mem s') \<and>
     (\<forall>y \<in> R. R = {y} \<and> backed P' y \<and> (\<forall>l. (unat (fst y), l) \<notin> P - blocks_of P G)))"

lemma call_doneI:
  assumes "heap_state s' P'" "P - blocks_of P G \<subseteq> P'" "untouched (P - blocks_of P G) (hs_mem s) (hs_mem s')"
    and "R = {} \<or> R = {(p, n)} \<and> (unat p, l) \<in> P' \<and> unat n \<le> l \<and> (unat p, l) \<notin> P - blocks_of P G"
  shows "call_done P G s R s'"
proof -
  have "(unat p, l') \<notin> P - blocks_of P G" if "R = {(p, n)}" for l'
    using assms(4) that heap_state_unique [OF assms(1), of "unat p" l l'] assms(2) by auto
  with assms show ?thesis unfolding call_done_def backed_def by (intro exI [of _ P']) auto
qed

lemma run_op_done:
  assumes s: "heap_state s P" "heap_room s" and op: "sane op" "\<forall>y \<in> given op. backed P y"
  shows "\<exists>R s' k'. run_op K he op s k = Ret (R, s', k') \<and> call_done P (given op) s R s'"
proof (cases op)
  case (Op_Malloc n)
  have none: "blocks_of P {} = {}" by (simp add: blocks_of_def)
  from malloc_state [OF s, of n K he k] op(1) Op_Malloc obtain k' where
    "mm_malloc K he n s k = Ret (0, s, k') \<or> (\<exists>p l s'. mm_malloc K he n s k = Ret (p, s', k') \<and> p \<noteq> 0 \<and>
       heap_state s' (insert (unat p, l) P) \<and> (unat p, l) \<notin> P \<and> unat n \<le> l \<and> untouched P (hs_mem s) (hs_mem s'))" by auto
  then show ?thesis
  proof (elim disjE exE conjE)
    assume "mm_malloc K he n s k = Ret (0, s, k')"
    moreover have "call_done P {} s {} s" using s(1) none by (intro call_doneI [of s P]) (auto simp: untouched_def)
    ultimately show ?thesis using Op_Malloc by simp
  next
    fix p l s' assume r: "mm_malloc K he n s k = Ret (p, s', k')" "p \<noteq> 0" "heap_state s' (insert (unat p, l) P)" "(unat p, l) \<notin> P"
      "unat n \<le> l" "untouched P (hs_mem s) (hs_mem s')"
    then have "call_done P {} s {(p, n)} s'" using none by (intro call_doneI [OF r(3)]) auto
    with r(1,2) Op_Malloc show ?thesis by simp
  qed
next
  case (Op_Calloc n sz)
  have none: "blocks_of P {} = {}" by (simp add: blocks_of_def)
  have z: "0 < unat n * unat sz" "unat n * unat sz \<le> 0xffffffe0" using op(1) Op_Calloc by simp_all
  then have u: "unat (n * sz) = unat n * unat sz" by (simp add: unat_word_ariths)
  from calloc_state [OF s z, of K he k] obtain k' where
    "mm_calloc K he n sz s k = Ret (0, s, k') \<or> (\<exists>p l s'. mm_calloc K he n sz s k = Ret (p, s', k') \<and> p \<noteq> 0 \<and>
       heap_state s' (insert (unat p, l) P) \<and> (unat p, l) \<notin> P \<and> unat n * unat sz \<le> l \<and> untouched P (hs_mem s) (hs_mem s'))" by blast
  then show ?thesis
  proof (elim disjE exE conjE)
    assume "mm_calloc K he n sz s k = Ret (0, s, k')"
    moreover have "call_done P {} s {} s" using s(1) none by (intro call_doneI [of s P]) (auto simp: untouched_def)
    ultimately show ?thesis using Op_Calloc by simp
  next
    fix p l s' assume r: "mm_calloc K he n sz s k = Ret (p, s', k')" "p \<noteq> 0" "heap_state s' (insert (unat p, l) P)" "(unat p, l) \<notin> P"
      "unat n * unat sz \<le> l" "untouched P (hs_mem s) (hs_mem s')"
    then have "call_done P {} s {(p, n * sz)} s'" using none u by (intro call_doneI [OF r(3)]) auto
    with r(1,2) Op_Calloc show ?thesis by simp
  qed
next
  case (Op_Realloc p n sz)
  then obtain l where l: "(unat p, l) \<in> P" "unat n \<le> l" using op(2) by (auto simp: backed_def)
  note one = blocks_of_one [OF s(1) l(1), of n]
  from realloc_state [OF s l(1), of sz K he k] op(1) Op_Realloc obtain k' where
    "mm_realloc K he p sz s k = Ret (0, s, k') \<or> (\<exists>q l' s'. mm_realloc K he p sz s k = Ret (q, s', k') \<and> q \<noteq> 0 \<and>
       heap_state s' (insert (unat q, l') (P - {(unat p, l)})) \<and> (unat q, l') \<notin> P \<and> unat sz \<le> l' \<and>
       untouched (P - {(unat p, l)}) (hs_mem s) (hs_mem s'))"
    by auto
  then show ?thesis
  proof (elim disjE exE conjE)
    assume "mm_realloc K he p sz s k = Ret (0, s, k')"
    moreover have "call_done P {(p, n)} s {(p, n)} s" using s(1) l one by (intro call_doneI [of s P]) (auto simp: untouched_def)
    ultimately show ?thesis using Op_Realloc by simp
  next
    fix q l' s' assume r: "mm_realloc K he p sz s k = Ret (q, s', k')" "q \<noteq> 0"
      "heap_state s' (insert (unat q, l') (P - {(unat p, l)}))" "(unat q, l') \<notin> P" "unat sz \<le> l'" "untouched (P - {(unat p, l)}) (hs_mem s) (hs_mem s')"
    from r have "call_done P {(p, n)} s {(q, sz)} s'" using one by (intro call_doneI [OF r(3)]) auto
    with r(1,2) Op_Realloc show ?thesis by simp
  qed
next
  case (Op_Free p n)
  then obtain l where l: "(unat p, l) \<in> P" using op(2) by (auto simp: backed_def)
  note one = blocks_of_one [OF s(1) l, of n]
  from free_state [OF s(1) l] obtain s' where r: "mm_free p s = Ret s'" "heap_state s' (P - {(unat p, l)})"
    "untouched (P - {(unat p, l)}) (hs_mem s) (hs_mem s')" by blast
  then have "call_done P {(p, n)} s {} s'" using one by (intro call_doneI [OF r(2)]) auto
  with r(1) Op_Free show ?thesis by simp
qed

section \<open>The invariant\<close>

fun in_hcs :: "hpc \<Rightarrow> bool" where
  "in_hcs (H_Run op) = True"
| "in_hcs (H_Unlock R) = True"
| "in_hcs _ = False"

text \<open>The areas a call in progress has taken from its caller, or is about to give it.\<close>

fun in_call :: "hpc \<Rightarrow> (addr \<times> u32) set" where
  "in_call H_Out = {}"
| "in_call (H_Lock op) = given op"
| "in_call (H_Run op) = given op"
| "in_call (H_Unlock R) = R"

fun sane_pc :: "hpc \<Rightarrow> bool" where
  "sane_pc (H_Lock op) = sane op"
| "sane_pc (H_Run op) = sane op"
| "sane_pc _ = True"

definition held_by :: "'k hsys \<Rightarrow> i32 \<Rightarrow> (addr \<times> u32) set" where
  "held_by s t = hy_own s t \<union> in_call (hy_pc s t)"

text \<open>
  \<open>shares P own I\<close>: all areas are backed by blocks, no two have the same address, and none is both owned and in a call.
\<close>

definition shares :: "(nat \<times> nat) set \<Rightarrow> (i32 \<Rightarrow> (addr \<times> u32) set) \<Rightarrow> (i32 \<Rightarrow> (addr \<times> u32) set) \<Rightarrow> bool" where
  "shares P own I \<longleftrightarrow> (\<forall>t. \<forall>x \<in> own t \<union> I t. backed P x) \<and>
     (\<forall>t u. \<forall>x \<in> own t \<union> I t. \<forall>y \<in> own u \<union> I u. fst x = fst y \<longrightarrow> t = u \<and> x = y) \<and> (\<forall>t. own t \<inter> I t = {})"

definition hinv :: "'k hsys \<Rightarrow> bool" where
  "hinv s \<longleftrightarrow> guarded in_hcs (hy_mx s) (hy_pc s) \<and> (\<forall>t. sane_pc (hy_pc s t)) \<and>
     (\<exists>P. heap_state (hy_hs s) P \<and> shares P (hy_own s) (\<lambda>t. in_call (hy_pc s t)))"

lemma hinvI:
  "guarded in_hcs (hy_mx s) (hy_pc s) \<Longrightarrow> (\<And>t. sane_pc (hy_pc s t)) \<Longrightarrow> heap_state (hy_hs s) P
    \<Longrightarrow> shares P (hy_own s) (\<lambda>t. in_call (hy_pc s t)) \<Longrightarrow> hinv s"
  by (auto simp: hinv_def)

lemma sharesI:
  assumes "\<And>x t. x \<in> own t \<union> I t \<Longrightarrow> backed P x"
    and "\<And>x y t u. x \<in> own t \<union> I t \<Longrightarrow> y \<in> own u \<union> I u \<Longrightarrow> fst x = fst y \<Longrightarrow> t = u \<and> x = y"
    and "\<And>t. own t \<inter> I t = {}"
  shows "shares P own I"
  unfolding shares_def using assms by blast

lemma shares_backed: "shares P own I \<Longrightarrow> x \<in> own t \<union> I t \<Longrightarrow> backed P x"
  by (auto simp: shares_def)

lemma shares_same: "shares P own I \<Longrightarrow> x \<in> own t \<union> I t \<Longrightarrow> y \<in> own u \<union> I u \<Longrightarrow> fst x = fst y \<Longrightarrow> t = u \<and> x = y"
  unfolding shares_def by blast

text \<open>A call begins: what it is given leaves the caller's areas. A call ends: what it got joins them.\<close>

lemma shares_move:
  assumes "shares P own I" "own' t \<union> I' t = own t \<union> I t" "own' t \<inter> I' t = {}" "\<And>u. u \<noteq> t \<Longrightarrow> own' u = own u \<and> I' u = I u"
  shows "shares P own' I'"
proof -
  have e: "own' u \<union> I' u = own u \<union> I u" for u using assms(2,4) by (cases "u = t") simp_all
  have "own' u \<inter> I' u = {}" for u using assms(1,3,4) by (cases "u = t") (simp_all add: shares_def)
  with assms(1) show ?thesis unfolding shares_def e by blast
qed

text \<open>An area in nobody's call keeps its block, with its bytes, while a call runs.\<close>

lemma backed_rest:
  assumes "backed P x" "fst x \<notin> fst ` G"
  shows "backed (P - blocks_of P G) x"
proof -
  have "unat (fst x) \<noteq> unat (fst y)" if "y \<in> G" for y
    using assms(2) that by (metis image_eqI word_unat_eq_iff)
  with assms(1) show ?thesis by (auto simp: backed_def blocks_of_def)
qed

lemma backed_mono: "backed P x \<Longrightarrow> P \<subseteq> Q \<Longrightarrow> backed Q x"
  by (auto simp: backed_def)

lemma backed_untouched: "backed P x \<Longrightarrow> untouched P m m' \<Longrightarrow> b \<in> area_of x \<Longrightarrow> m' b = m b"
  by (force simp: backed_def untouched_def area_of_def)

lemma shares_rest:
  assumes "shares P own I" "x \<in> own u \<union> I u" "u \<noteq> t \<or> x \<notin> I t"
  shows "backed (P - blocks_of P (I t)) x"
proof (rule backed_rest)
  show "backed P x" by (rule shares_backed [OF assms(1,2)])
  show "fst x \<notin> fst ` I t"
  proof
    assume "fst x \<in> fst ` I t"
    then obtain y where "y \<in> I t" "fst x = fst y" by auto
    with shares_same [OF assms(1,2), of y t] assms(3) show False by auto
  qed
qed

lemma shares_call:
  assumes sh: "shares P own I" and c: "call_done P (I t) s R s'"
  shows "\<exists>P'. heap_state s' P' \<and> shares P' own (I(t := R))"
proof -
  let ?Q = "P - blocks_of P (I t)"
  from c obtain P' where P': "heap_state s' P'" "?Q \<subseteq> P'"
    and R: "\<And>y. y \<in> R \<Longrightarrow> R = {y} \<and> backed P' y \<and> (\<forall>l. (unat (fst y), l) \<notin> ?Q)"
    unfolding call_done_def by blast
  have old: "backed ?Q x" if "x \<in> own u \<union> (if u = t then {} else I u)" for x u
    using that sh by (intro shares_rest [OF sh, of x u]) (auto simp: shares_def split: if_splits)
  have new: "fst x \<noteq> fst y" if "x \<in> own u \<union> (if u = t then {} else I u)" "y \<in> R" for x y u
    using old [OF that(1)] R [OF that(2)] by (auto simp: backed_def)
  have b: "backed P' x" if "x \<in> own u \<union> (I(t := R)) u" for x u
    using that R [of x] backed_mono [OF old P'(2), of x u] by (cases "x \<in> R \<and> u = t") (auto split: if_splits)
  have same: "u = v \<and> x = y" if x: "x \<in> own u \<union> (I(t := R)) u" and y: "y \<in> own v \<union> (I(t := R)) v" and e: "fst x = fst y" for x y u v
  proof -
    consider "u = t" "x \<in> R" "v = t" "y \<in> R" | "x \<in> own u \<union> (if u = t then {} else I u)" "y \<in> R"
      | "y \<in> own v \<union> (if v = t then {} else I v)" "x \<in> R"
      | "x \<in> own u \<union> (if u = t then {} else I u)" "y \<in> own v \<union> (if v = t then {} else I v)"
      using x y by (auto split: if_splits)
    then show ?thesis
    proof cases
      case 1 with R show ?thesis by blast
    next
      case 2 with new e show ?thesis by blast
    next
      case 3 with new [OF 3] e show ?thesis by simp
    next
      case 4
      then have "x \<in> own u \<union> I u" "y \<in> own v \<union> I v" by (auto split: if_splits)
      with shares_same [OF sh] e show ?thesis by blast
    qed
  qed
  have "own t \<inter> R = {}" using new [of _ t] by auto
  then have "own u \<inter> (I(t := R)) u = {}" for u using sh by (cases "u = t") (simp_all add: shares_def)
  with b same have "shares P' own (I(t := R))" by (rule sharesI)
  with P'(1) show ?thesis by blast
qed

section \<open>Every step keeps it\<close>

lemma in_call_upd: "(\<lambda>u. in_call ((pc(t := y)) u)) = (\<lambda>u. in_call (pc u))(t := in_call y)"
  by (simp add: fun_eq_iff)

text \<open>A step that only moves a program counter between two points with the same areas.\<close>

lemma hinv_move:
  assumes "hinv s" "guarded in_hcs m ((hy_pc s)(t := y))" "sane_pc y" "in_call y = in_call (hy_pc s t)"
  shows "hinv (s\<lparr>hy_mx := m, hy_pc := (hy_pc s)(t := y)\<rparr>)"
proof -
  have "(\<lambda>u. in_call (hy_pc s u))(t := in_call (hy_pc s t)) = (\<lambda>u. in_call (hy_pc s u))" by (simp add: fun_eq_iff)
  with assms show ?thesis unfolding hinv_def by (simp add: in_call_upd del: fun_upd_apply) simp
qed

lemma hinv_run:
  assumes inv: "hinv s" and pc: "hy_pc s t = H_Run op" and room: "heap_room (hy_hs s)"
  shows "\<exists>P. heap_state (hy_hs s) P \<and> shares P (hy_own s) (\<lambda>t. in_call (hy_pc s t)) \<and>
    (\<exists>R h k. run_op K he op (hy_hs s) (hy_k s) = Ret (R, h, k) \<and> call_done P (given op) (hy_hs s) R h)"
proof -
  from inv obtain P where P: "heap_state (hy_hs s) P" "shares P (hy_own s) (\<lambda>t. in_call (hy_pc s t))" and sane: "sane_pc (hy_pc s t)"
    unfolding hinv_def by blast
  have "\<forall>y \<in> given op. backed P y" using shares_backed [OF P(2), of _ t] pc by simp
  with run_op_done [OF P(1) room, of op K he "hy_k s"] sane pc P show ?thesis by auto
qed

lemma hinv_step: "hstep K he t s s' \<Longrightarrow> hinv s \<Longrightarrow> hinv s'"
proof (induction rule: hstep.induct)
  case (h_call s op)
  then obtain P where P: "heap_state (hy_hs s) P" "shares P (hy_own s) (\<lambda>t. in_call (hy_pc s t))"
    and g: "guarded in_hcs (hy_mx s) (hy_pc s)" "\<And>t. sane_pc (hy_pc s t)" unfolding hinv_def by blast
  have "shares P ((hy_own s)(t := hy_own s t - given op)) ((\<lambda>u. in_call (hy_pc s u))(t := in_call (H_Lock op)))"
    by (rule shares_move [OF P(2), of _ t]) (use h_call(1,3) in auto)
  moreover have "guarded in_hcs (hy_mx s) ((hy_pc s)(t := H_Lock op))" by (rule guarded_keep [OF g(1)]) (simp add: h_call(1))
  ultimately show ?case using P(1) g(2) h_call(2)
    by (intro hinvI [of _ P]) (simp_all add: in_call_upd del: fun_upd_apply, simp)
next
  case (h_try s op busy m)
  have g: "guarded in_hcs (hy_mx s) (hy_pc s)" "sane_pc (hy_pc s t)" using h_try(3) unfolding hinv_def by blast+
  have "guarded in_hcs m ((hy_pc s)(t := if busy then H_Lock op else H_Run op))"
    using g(1) h_try(1,2) by (cases busy) (auto intro: guarded_try guarded_busy_keep simp del: fun_upd_apply)
  with g(2) h_try show ?case by (intro hinv_move) (auto simp del: fun_upd_apply)
next
  case (h_run s op R h k)
  from hinv_run [OF h_run(4,1,2), of K he] h_run(3) obtain P where P: "shares P (hy_own s) (\<lambda>t. in_call (hy_pc s t))"
    "call_done P (given op) (hy_hs s) R h" by auto
  from shares_call [OF P(1), of t "hy_hs s" R h] P(2) h_run(1) obtain P' where
    P': "heap_state h P'" "shares P' (hy_own s) ((\<lambda>u. in_call (hy_pc s u))(t := R))" by auto
  have g: "guarded in_hcs (hy_mx s) (hy_pc s)" "\<And>t. sane_pc (hy_pc s t)" using h_run(4) unfolding hinv_def by blast+
  have "guarded in_hcs (hy_mx s) ((hy_pc s)(t := H_Unlock R))" by (rule guarded_keep [OF g(1)]) (simp add: h_run(1))
  with P' g(2) show ?case by (intro hinvI [of _ P']) (simp_all add: in_call_upd del: fun_upd_apply, simp)
next
  case (h_unlock s R m)
  then obtain P where P: "heap_state (hy_hs s) P" "shares P (hy_own s) (\<lambda>t. in_call (hy_pc s t))"
    and g: "guarded in_hcs (hy_mx s) (hy_pc s)" "\<And>t. sane_pc (hy_pc s t)" unfolding hinv_def by blast
  have "shares P ((hy_own s)(t := hy_own s t \<union> R)) ((\<lambda>u. in_call (hy_pc s u))(t := in_call H_Out))"
    by (rule shares_move [OF P(2), of _ t]) (use h_unlock(1) in auto)
  moreover have "guarded in_hcs m ((hy_pc s)(t := H_Out))"
    using guarded_unlock [OF g(1), of t H_Out] h_unlock(1,2) by (simp del: fun_upd_apply)
  ultimately show ?case using P(1) g(2) by (intro hinvI [of _ P]) (simp_all add: in_call_upd del: fun_upd_apply, simp)
next
  case (h_write s x m)
  then obtain P where P: "heap_state (hy_hs s) P" "shares P (hy_own s) (\<lambda>t. in_call (hy_pc s t))" unfolding hinv_def by blast
  from shares_backed [OF P(2), of x t] h_write(2) obtain l where l: "(unat (fst x), l) \<in> P" "unat (snd x) \<le> l" by (auto simp: backed_def)
  have "heap_state ((hy_hs s)\<lparr>hs_mem := m\<rparr>) P"
    by (rule heap_state_write [OF P(1) l(1)]) (use h_write(3) l(2) in \<open>auto simp: area_of_def\<close>)
  with h_write(4) P(2) show ?case unfolding hinv_def by auto
qed

lemma hinv_start: "h_start s \<Longrightarrow> hinv s"
  unfolding h_start_def by (intro hinvI [of s "{}"]) (auto simp: guarded_def shares_def)

lemma hinv_reach: "hreach K he s \<Longrightarrow> hinv s"
  by (induction rule: hreach.induct) (auto intro: hinv_start hinv_step)

section \<open>What the threads can rely on\<close>

lemma shares_apart:
  assumes "heap_state h P" "shares P own I" "x \<in> own t \<union> I t" "y \<in> own u \<union> I u" "\<not> (t = u \<and> x = y)"
  shows "area_of x \<inter> area_of y = {}"
proof -
  from shares_backed [OF assms(2,3)] shares_backed [OF assms(2,4)] obtain l l' where
    l: "(unat (fst x), l) \<in> P" "unat (snd x) \<le> l" "(unat (fst y), l') \<in> P" "unat (snd y) \<le> l'" by (auto simp: backed_def)
  have "unat (fst x) \<noteq> unat (fst y)" using shares_same [OF assms(2-4)] assms(5) by (metis word_unat_eq_iff)
  with heap_state_apart [OF assms(1) l(1,3)] l(2,4) show ?thesis by (auto simp: area_of_def)
qed

lemma hinv_apart: "hinv s \<Longrightarrow> x \<in> held_by s t \<Longrightarrow> y \<in> held_by s u \<Longrightarrow> area_of x \<inter> area_of y = {} \<or> t = u \<and> x = y"
  unfolding hinv_def held_by_def using shares_apart by blast

lemma hinv_calls:
  assumes "hinv s" "hy_pc s t = H_Run op" "heap_room (hy_hs s)"
  shows "\<exists>R h k. run_op K he op (hy_hs s) (hy_k s) = Ret (R, h, k)"
  using hinv_run [OF assms] by blast

lemma hinv_unlocks: "hinv s \<Longrightarrow> hy_pc s t = H_Unlock R \<Longrightarrow> \<exists>m. mutex_unlock (hy_mx s) = Ret m"
  using guarded_unlock(1) [of in_hcs "hy_mx s" "hy_pc s" t H_Out] by (auto simp: hinv_def)

lemma hstep_others: "hstep K he u s s' \<Longrightarrow> t \<noteq> u \<Longrightarrow> held_by s' t = held_by s t"
  by (induction rule: hstep.induct) (auto simp: held_by_def)

lemma hstep_bytes:
  "hstep K he u s s' \<Longrightarrow> hinv s \<Longrightarrow> x \<in> held_by s t \<Longrightarrow> t \<noteq> u \<Longrightarrow> b \<in> area_of x \<Longrightarrow> hs_mem (hy_hs s') b = hs_mem (hy_hs s) b"
proof (induction rule: hstep.induct)
  case (h_run s op R h k)
  from hinv_run [OF h_run(4,1,2), of K he] h_run(3) obtain P where P: "shares P (hy_own s) (\<lambda>t. in_call (hy_pc s t))"
    "call_done P (given op) (hy_hs s) R h" by auto
  have "backed (P - blocks_of P (given op)) x"
    using shares_rest [OF P(1), of x t u] h_run(1,5,6) by (simp add: held_by_def)
  with backed_untouched [OF this _ h_run(7)] P(2) show ?case unfolding call_done_def by auto
next
  case (h_write s y m)
  then have "area_of x \<inter> area_of y = {}" using hinv_apart [of s x t y u] by (auto simp: held_by_def)
  with h_write(3,7) show ?case by auto
qed simp_all


text \<open>A thread that calls \<open>malloc\<close> from a quiet state: it takes the lock, and with no other thread in between it gets through.\<close>

lemma malloc_enter:
  assumes r: "hreach K he s" and pc: "hy_pc s t = H_Out" and mx: "mx_free (hy_mx s)" and n: "0 < n" "n \<le> 0xffffffe0"
  shows "hreach K he (s\<lparr>hy_mx := (hy_mx s)\<lparr>mx_lockFlag := 1\<rparr>, hy_pc := (hy_pc s)(t := H_Run (Op_Malloc n))\<rparr>)"
proof -
  define s1 where "s1 = s\<lparr>hy_pc := (hy_pc s)(t := H_Lock (Op_Malloc n))\<rparr>"
  have r1: "hreach K he s1"
    using hreach_step [OF r h_call [OF pc, of "Op_Malloc n" K he]] n by (simp add: s1_def)
  have l: "lock_try (hy_mx s1) = (False, (hy_mx s)\<lparr>mx_lockFlag := 1\<rparr>)" using mx by (simp add: lock_try_simps s1_def mx_free_def)
  from hreach_step [OF r1 h_try [OF _ l, of t "Op_Malloc n" K he]] show ?thesis by (simp add: s1_def)
qed

lemma malloc_steps:
  assumes r: "hreach K he s" and pc: "hy_pc s t = H_Out" and mx: "mx_free (hy_mx s)" and n: "0 < n" "n \<le> 0xffffffe0"
    and m: "mm_malloc K he n (hy_hs s) (hy_k s) = Ret (p, h, k)" "p \<noteq> 0" and room: "heap_room (hy_hs s)"
  shows "hreach K he (s\<lparr>hy_hs := h, hy_k := k, hy_pc := (hy_pc s)(t := H_Out), hy_own := (hy_own s)(t := insert (p, n) (hy_own s t))\<rparr>)"
proof -
  define s2 where "s2 = s\<lparr>hy_mx := (hy_mx s)\<lparr>mx_lockFlag := 1\<rparr>, hy_pc := (hy_pc s)(t := H_Run (Op_Malloc n))\<rparr>"
  have r2: "hreach K he s2" unfolding s2_def by (rule malloc_enter [OF r pc mx n])
  define s3 where "s3 = s2\<lparr>hy_hs := h, hy_k := k, hy_pc := (hy_pc s2)(t := H_Unlock {(p, n)})\<rparr>"
  have r3: "hreach K he s3"
    using hreach_step [OF r2 h_run [of s2 t "Op_Malloc n" K he "{(p, n)}" h k]] m room by (simp add: s3_def s2_def)
  have u: "mutex_unlock (hy_mx s3) = Ret (hy_mx s)"
    using mx by (simp add: s3_def s2_def mutex_unlock_def mx_free_def)
  from hreach_step [OF r3 h_unlock [OF _ u, of t "{(p, n)}" K he]] show ?thesis by (simp add: s3_def s2_def)
qed

text \<open>A run: thread 1 allocates 100 bytes, then thread 2 allocates 50.\<close>

definition demo_sys :: "((addr \<times> u32) list \<times> i32) hsys" where
  "demo_sys = \<lparr>hy_mx = demo_mutex, hy_hs = demo_heap, hy_k = ([], 0), hy_pc = \<lambda>_. H_Out, hy_own = \<lambda>_. {}\<rparr>"

lemma demo_run:
  "\<exists>s h k. hreach demo_vm 0 s \<and> (\<forall>t. hy_pc s t = H_Out) \<and> mx_free (hy_mx s) \<and> hy_own s = (\<lambda>_. {})(1 := {(8208, 100)}) \<and>
     heap_room (hy_hs s) \<and> mm_malloc demo_vm 0 50 (hy_hs s) (hy_k s) = Ret (8336, h, k)"
proof -
  have r0: "hreach demo_vm 0 demo_sys"
    by (rule hreach_start) (simp add: h_start_def demo_sys_def demo_heap_state mx_free_def demo_mutex_def)
  obtain h1 where h1: "mm_malloc demo_vm 0 100 demo_heap ([], 0) = Ret (8208, h1, ([], 0))" "hs_inv h1 8200 [(128, True), (3968, False)]"
    using first_fit_run [of demo_heap 8200 "[]" 4096 "[]" 100 demo_vm 0 "([], 0)"] demo_heap_inv
    by (auto simp: asize_of_def placed_def)
  obtain h2 where h2: "mm_malloc demo_vm 0 50 h1 ([], 0) = Ret (8336, h2, ([], 0))"
    using first_fit_run [of h1 8200 "[(128, True)]" 3968 "[]" 50 demo_vm 0 "([], 0)"] h1(2)
    by (auto simp: asize_of_def placed_def)
  have room: "heap_room h1" using hs_inv_brk [OF h1(2)] by (simp add: heap_room_def)
  have "mx_free demo_mutex" "heap_room demo_heap" using hs_inv_brk [OF demo_heap_inv] by (simp_all add: mx_free_def demo_mutex_def heap_room_def)
  then have "hreach demo_vm 0 (demo_sys\<lparr>hy_hs := h1, hy_k := ([], 0), hy_pc := (hy_pc demo_sys)(1 := H_Out),
      hy_own := (hy_own demo_sys)(1 := insert (8208, 100) (hy_own demo_sys 1))\<rparr>)"
    by (intro malloc_steps [OF r0]) (use h1(1) in \<open>simp_all add: demo_sys_def\<close>)
  with h2 room \<open>mx_free demo_mutex\<close> show ?thesis
    by (intro exI [of _ "demo_sys\<lparr>hy_hs := h1, hy_k := ([], 0), hy_pc := (hy_pc demo_sys)(1 := H_Out),
      hy_own := (hy_own demo_sys)(1 := insert (8208, 100) (hy_own demo_sys 1))\<rparr>"] exI [of _ h2] exI [of _ "([], 0)"])
      (auto simp: demo_sys_def)
qed




end
