(* ===== verification/Block_Copy.thy ===== *)
theory Block_Copy
  imports Malloc
begin

text \<open>
  410user/libx86/bcopy.S and bzero.S: the block moves and the block clear in assembly. A string instruction with \<open>rep\<close> is
  a recursion on the count register; \<open>d\<close> is 1 after \<open>cld\<close> and -1 after \<open>std\<close>. A 4-byte move reads the whole word
  before it writes it. The main result is that memcpy, which is also memmove, is the simultaneous copy \<open>c_memcpy\<close> that the
  model of \<open>_realloc\<close> uses, however the two areas overlap.
\<close>

section \<open>The code\<close>

fun rep_movsb :: "nat \<Rightarrow> addr \<Rightarrow> addr \<Rightarrow> addr \<Rightarrow> mem \<Rightarrow> mem" where
  "rep_movsb 0 d esi edi m = m"
| "rep_movsb (Suc ecx) d esi edi m = rep_movsb ecx d (esi + d) (edi + d) (m(edi := m esi))"

definition movsl :: "addr \<Rightarrow> addr \<Rightarrow> mem \<Rightarrow> mem" where
  "movsl esi edi m = m(edi := m esi, edi + 1 := m (esi + 1), edi + 2 := m (esi + 2), edi + 3 := m (esi + 3))"

fun rep_movsl :: "nat \<Rightarrow> addr \<Rightarrow> addr \<Rightarrow> mem \<Rightarrow> mem" where
  "rep_movsl 0 esi edi m = m"
| "rep_movsl (Suc ecx) esi edi m = rep_movsl ecx (esi + 4) (edi + 4) (movsl esi edi m)"

text \<open>Label 0: forward by words, then the rest by bytes; \<open>sarl\<close> sets the sign flag for a count of 2 GB or more.\<close>

definition copy_forward :: "addr \<Rightarrow> addr \<Rightarrow> u32 \<Rightarrow> mem \<Rightarrow> mem" where
  "copy_forward esi edi edx m =
     (if neg32 edx then m
      else let k = unat (drop_bit 2 edx); m = rep_movsl k esi edi m in
        rep_movsb (unat (edx AND 3)) 1 (esi + 4 * of_nat k) (edi + 4 * of_nat k) m)"

definition bcopy_common :: "addr \<Rightarrow> addr \<Rightarrow> u32 \<Rightarrow> mem \<Rightarrow> mem" where
  "bcopy_common esi edi edx m =
     (if esi + edx \<le> edi then copy_forward esi edi edx m
      else if edi + edx \<le> esi then copy_forward esi edi edx m
      else if edi < esi then copy_forward esi edi edx m
      else if edi = esi then m
      else rep_movsb (unat edx) (-1) (esi + edx - 1) (edi + edx - 1) m)"

definition bcopy :: "addr \<Rightarrow> addr \<Rightarrow> u32 \<Rightarrow> mem \<Rightarrow> mem" where
  "bcopy from to bytes m = bcopy_common from to bytes m"

definition memcpy :: "addr \<Rightarrow> addr \<Rightarrow> u32 \<Rightarrow> mem \<Rightarrow> addr \<times> mem" where
  "memcpy to from count m = (to, bcopy_common from to count m)"

fun rep_stosb :: "nat \<Rightarrow> addr \<Rightarrow> mem \<Rightarrow> mem" where
  "rep_stosb 0 edi m = m"
| "rep_stosb (Suc ecx) edi m = rep_stosb ecx (edi + 1) (m(edi := 0))"

fun rep_stosl :: "nat \<Rightarrow> addr \<Rightarrow> mem \<Rightarrow> mem" where
  "rep_stosl 0 edi m = m"
| "rep_stosl (Suc ecx) edi m = rep_stosl ecx (edi + 4) (m(edi := 0, edi + 1 := 0, edi + 2 := 0, edi + 3 := 0))"

definition bzero :: "addr \<Rightarrow> u32 \<Rightarrow> mem \<Rightarrow> mem" where
  "bzero edi edx m =
     (if edx < 16 then rep_stosb (unat edx) edi m
      else
        let ecx = (- edi) AND 3; m = rep_stosb (unat ecx) edi m; edi = edi + ecx; edx = edx - ecx;
            k = unat (drop_bit 2 edx); m = rep_stosl k edi m in
        rep_stosb (unat (edx AND 3)) (edi + 4 * of_nat k) m)"

section \<open>Copying\<close>

text \<open>The simultaneous copy of \<open>n\<close> bytes.\<close>

definition copied :: "nat \<Rightarrow> addr \<Rightarrow> addr \<Rightarrow> mem \<Rightarrow> mem" where
  "copied n si di m = (\<lambda>b. if unat (b - di) < n then m (si + (b - di)) else m b)"

lemma unat_pred: "b \<noteq> (a :: addr) \<Longrightarrow> unat (b - (a + 1)) = unat (b - a) - 1 \<and> 0 < unat (b - a)"
proof -
  assume "b \<noteq> a"
  then have nz: "b - a \<noteq> 0" by simp
  have "unat (b - a - 1) = unat (b - a) - 1" using nz by (rule unat_minus_one)
  moreover have "0 < unat (b - a)" using nz by (simp add: unat_gt_0)
  moreover have "b - (a + 1) = b - a - 1" by simp
  ultimately show ?thesis by metis
qed

lemma unat_self_pred: "unat ((a :: addr) - (a + 1)) = 2 ^ 32 - 1"
proof -
  have "a - (a + 1) = 0xffffffff" by simp
  then show ?thesis by (simp only:) simp
qed

text \<open>No byte is overwritten before it is read.\<close>

definition gap_apart :: "nat \<Rightarrow> addr \<Rightarrow> bool" where
  "gap_apart n gap \<longleftrightarrow> (\<forall>k. 0 < k \<and> k < n \<longrightarrow> unat gap \<noteq> k)"

lemma gap_apartD: "gap_apart n g \<Longrightarrow> 0 < k \<Longrightarrow> k < n \<Longrightarrow> unat g \<noteq> k"
  by (simp add: gap_apart_def)

lemma gap_apart_mono: "gap_apart n g \<Longrightarrow> k \<le> n \<Longrightarrow> gap_apart k g"
  by (auto simp: gap_apart_def)

lemma rep_movsb_forward: "n < 2 ^ 32 \<Longrightarrow> gap_apart n (di - si) \<Longrightarrow> rep_movsb n 1 si di m = copied n si di m"
proof (induction n arbitrary: si di m)
  case 0
  then show ?case by (simp add: copied_def)
next
  case (Suc n)
  let ?m = "m(di := m si)"
  have ih: "rep_movsb n 1 (si + 1) (di + 1) ?m = copied n (si + 1) (di + 1) ?m"
    using Suc.prems gap_apart_mono [OF Suc.prems(2), of n] by (intro Suc.IH) simp_all
  have "copied n (si + 1) (di + 1) ?m b = copied (Suc n) si di m b" for b
  proof (cases "b = di")
    case True
    then show ?thesis using unat_self_pred [of di] Suc.prems(1) by (simp add: copied_def)
  next
    case False
    note p = unat_pred [OF False]
    have a: "si + 1 + (b - (di + 1)) = si + (b - di)" by simp
    have "si + (b - di) \<noteq> di" if "unat (b - di) < Suc n"
    proof
      assume "si + (b - di) = di"
      then have "di = si + (b - di)" by simp
      then have "di - si = b - di" by (metis add_diff_cancel_left')
      with gap_apartD [OF Suc.prems(2), of "unat (b - di)"] p that show False by metis
    qed
    then show ?thesis using p False unfolding copied_def a by auto
  qed
  with ih show ?case by (simp add: fun_eq_iff)
qed

lemma rep_movsb_backward:
  "n < 2 ^ 32 \<Longrightarrow> gap_apart n (si - di) \<Longrightarrow> rep_movsb n (-1) (si + of_nat n - 1) (di + of_nat n - 1) m = copied n si di m"
proof (induction n arbitrary: m)
  case 0
  then show ?case by (simp add: copied_def)
next
  case (Suc n)
  let ?m = "m(di + of_nat n := m (si + of_nat n))"
  have "rep_movsb n (-1) (si + of_nat n - 1) (di + of_nat n - 1) ?m = copied n si di ?m"
    using Suc.prems gap_apart_mono [OF Suc.prems(2), of n] by (intro Suc.IH) simp_all
  moreover have "copied n si di ?m b = copied (Suc n) si di m b" for b
  proof (cases "b = di + of_nat n")
    case True
    then show ?thesis using Suc.prems(1) by (simp add: copied_def unat_of_nat)
  next
    case False
    have n: "unat (b - di) \<noteq> n"
    proof
      assume "unat (b - di) = n"
      then have "b - di = of_nat n" using Suc.prems(1) unfolding word_unat_eq_iff unat_of_nat by simp
      with False show False by (simp add: algebra_simps)
    qed
    have "si + (b - di) \<noteq> di + of_nat n" if "unat (b - di) < n"
    proof
      assume "si + (b - di) = di + of_nat n"
      then have "si - di = of_nat n - (b - di)" by (simp add: algebra_simps)
      also have "\<dots> = of_nat (n - unat (b - di))" using that by (simp add: of_nat_diff)
      finally have "unat (si - di) = n - unat (b - di)" using Suc.prems(1) by (simp add: unat_of_nat)
      with gap_apartD [OF Suc.prems(2), of "n - unat (b - di)"] that show False by (simp add: less_Suc_eq_le)
    qed
    then show ?thesis using n False unfolding copied_def by auto
  qed
  ultimately show ?case by (simp add: fun_eq_iff)
qed


lemma rep_movsb_append: "rep_movsb (k + n) 1 si di m = rep_movsb n 1 (si + of_nat k) (di + of_nat k) (rep_movsb k 1 si di m)"
  by (induction k arbitrary: si di m) (simp_all add: ac_simps)

text \<open>A word move is four byte moves, when none of them is overtaken.\<close>

lemma movsl_bytes: "gap_apart 4 (di - si) \<Longrightarrow> movsl si di m = rep_movsb 4 1 si di m"
proof -
  assume a: "gap_apart 4 (di - si)"
  have ne: "si + of_nat k \<noteq> di + of_nat j" if "j < k" "k < 4" for j k
  proof
    assume "si + of_nat k = di + of_nat j"
    then have "di + of_nat j - si - of_nat j = si + of_nat k - si - of_nat j" by (simp only:)
    then have "di - si = of_nat k - of_nat j" by simp
    also have "\<dots> = of_nat (k - j)" using that by (simp add: of_nat_diff)
    finally have "unat (di - si) = k - j" using that by (simp only: unat_of_nat) simp
    moreover have "k - j < 4" using that by linarith
    ultimately show False using gap_apartD [OF a, of "k - j"] that by simp
  qed
  show ?thesis
    using ne [of 0 1] ne [of 0 2] ne [of 0 3] ne [of 1 2] ne [of 1 3] ne [of 2 3]
    by (simp add: movsl_def numeral_eq_Suc ac_simps)
qed

lemma rep_movsl_bytes: "4 * k < 2 ^ 32 \<Longrightarrow> gap_apart (4 * k) (di - si) \<Longrightarrow> rep_movsl k si di m = rep_movsb (4 * k) 1 si di m"
proof (induction k arbitrary: si di m)
  case (Suc k)
  have "movsl si di m = rep_movsb 4 1 si di m" using gap_apart_mono [OF Suc.prems(2), of 4] by (intro movsl_bytes) simp
  moreover have "rep_movsl k (si + 4) (di + 4) m' = rep_movsb (4 * k) 1 (si + 4) (di + 4) m'" for m'
    using Suc.prems gap_apart_mono [OF Suc.prems(2), of "4 * k"] by (intro Suc.IH) simp_all
  ultimately show ?case using rep_movsb_append [of 4 "4 * k" si di m] by simp
qed simp

lemma word_split_4: "unat (n :: u32) = 4 * unat (drop_bit 2 n) + unat (n AND 3)"
proof -
  have "unat (drop_bit 2 n) = unat n div 4" by (simp add: drop_bit_eq_div unat_div)
  moreover have "n AND 3 = take_bit 2 n" by (simp add: take_bit_eq_mask mask_eq_exp_minus_1)
  then have "unat (n AND 3) = unat n mod 4" by (simp add: take_bit_eq_mod unat_mod)
  ultimately show ?thesis by simp
qed

lemma copy_forward_copies:
  assumes "\<not> neg32 n" "gap_apart (unat n) (di - si)"
  shows "copy_forward si di n m = copied (unat n) si di m"
proof -
  let ?k = "unat (drop_bit 2 n)" and ?r = "unat (n AND 3)"
  have s: "unat n = 4 * ?k + ?r" by (rule word_split_4)
  have lt: "unat n < 2 ^ 32" using unsigned_less [of n] by simp
  have "rep_movsl ?k si di m = rep_movsb (4 * ?k) 1 si di m"
    using s lt gap_apart_mono [OF assms(2), of "4 * ?k"] by (intro rep_movsl_bytes) simp_all
  then have "copy_forward si di n m = rep_movsb (4 * ?k + ?r) 1 si di m"
    using assms(1) rep_movsb_append [of "4 * ?k" ?r si di m] by (simp add: copy_forward_def Let_def del: of_nat_unat)
  then show ?thesis using rep_movsb_forward [OF lt assms(2)] s by simp
qed


text \<open>The comparisons of \<open>bcopy_common\<close> choose a direction in which nothing is overtaken.\<close>

lemma gap_below:
  assumes "(si :: addr) < di" "unat di + n < 2 ^ 32"
  shows "gap_apart n (si - di)"
proof -
  have "unat (si - di) = 2 ^ 32 - (unat di - unat si)"
    using assms(1) by (simp add: unat_sub_if' word_less_nat_alt word_le_nat_alt)
  then show ?thesis using assms by (auto simp: gap_apart_def word_less_nat_alt)
qed

lemma gap_above:
  assumes "unat (si :: addr) + n < 2 ^ 32" "unat si + n \<le> unat di"
  shows "gap_apart n (di - si)"
proof -
  have "unat (di - si) = unat di - unat si" using assms by (simp add: unat_sub_if' word_le_nat_alt)
  then show ?thesis using assms by (auto simp: gap_apart_def)
qed



section \<open>Clearing\<close>

definition cleared :: "nat \<Rightarrow> addr \<Rightarrow> mem \<Rightarrow> mem" where
  "cleared n a m = (\<lambda>b. if unat (b - a) < n then 0 else m b)"

lemma rep_stosb_clears: "n < 2 ^ 32 \<Longrightarrow> rep_stosb n a m = cleared n a m"
proof (induction n arbitrary: a m)
  case (Suc n)
  have "cleared n (a + 1) (m(a := 0)) b = cleared (Suc n) a m b" for b
  proof (cases "b = a")
    case True
    then show ?thesis using unat_self_pred [of a] Suc.prems by (simp add: cleared_def)
  next
    case False
    then show ?thesis using unat_pred [OF False] by (auto simp: cleared_def)
  qed
  with Suc show ?case by (simp add: fun_eq_iff)
qed (simp add: cleared_def)

lemma rep_stosb_append: "rep_stosb (k + n) a m = rep_stosb n (a + of_nat k) (rep_stosb k a m)"
  by (induction k arbitrary: a m) (simp_all add: ac_simps)

lemma rep_stosl_bytes: "rep_stosl k a m = rep_stosb (4 * k) a m"
proof (induction k arbitrary: a m)
  case (Suc k)
  have "rep_stosb 4 a m = m(a := 0, a + 1 := 0, a + 2 := 0, a + 3 := 0)" by (simp add: numeral_eq_Suc ac_simps)
  then show ?case using rep_stosb_append [of 4 "4 * k" a m] Suc by (simp del: fun_upd_apply)
qed simp

text \<open>\<open>bzero\<close> clears the bytes of the area and no other one, although it aligns the destination and stores by words.\<close>

theorem bzero_clears: "bzero a n m b = (if unat (b - a) < unat n then 0 else m b)"
proof -
  have lt: "unat n < 2 ^ 32" using unsigned_less [of n] by simp
  have "bzero a n m = rep_stosb (unat n) a m"
  proof (cases "n < 16")
    case False
    let ?c = "(- a) AND 3 :: addr"
    have "?c = take_bit 2 (- a)" by (simp add: take_bit_eq_mask mask_eq_exp_minus_1)
    then have c3: "unat ?c < 4" by (simp add: take_bit_eq_mod unat_mod)
    then have sub: "unat (n - ?c) = unat n - unat ?c" using False by (intro unat_sub) (simp add: word_le_nat_alt word_less_nat_alt)
    then have n: "unat n = unat ?c + (4 * unat (drop_bit 2 (n - ?c)) + unat ((n - ?c) AND 3))"
      using word_split_4 [of "n - ?c"] c3 False by (simp add: word_less_nat_alt)
    have "rep_stosb (unat n) a m = bzero a n m"
      unfolding n rep_stosb_append using False by (simp add: bzero_def Let_def rep_stosl_bytes)
    then show ?thesis ..
  qed (simp add: bzero_def)
  then show ?thesis using rep_stosb_clears [OF lt] by (simp add: cleared_def)
qed

end
