(* ===== verification/C_String.thy ===== *)
theory C_String
  imports Allocator "HOL-Library.Sublist"
begin

text \<open>
  410user/libstring: the functions of the C library on strings, over byte memory. A \<open>char\<close> is signed on this
  target, so \<open>sx\<close> is its promotion to \<open>int\<close>; \<open>strcmp\<close> alone reads unsigned chars. The loops that run to
  the terminating NUL are \<open>partial_function (option)\<close>: \<open>None\<close> when there is no NUL.
\<close>

definition sx :: "byte \<Rightarrow> i32" where
  "sx c = scast c"

section \<open>Scanning\<close>

text \<open>strlen.c\<close>

partial_function (option) strlen_loop :: "mem \<Rightarrow> addr \<Rightarrow> addr option" where
  "strlen_loop m string = (if m string \<noteq> 0 then strlen_loop m (string + 1) else Some (string + 1))"

definition strlen :: "mem \<Rightarrow> addr \<Rightarrow> i32 option" where
  "strlen m ret = map_option (\<lambda>string. string - 1 - ret) (strlen_loop m ret)"

text \<open>strchr.c\<close>

partial_function (option) strchr :: "mem \<Rightarrow> addr \<Rightarrow> i32 \<Rightarrow> addr option" where
  "strchr m s c = (if sx (m s) = c then Some s else if m s = 0 then Some 0 else strchr m (s + 1) c)"

text \<open>rindex.c and strrchr.c\<close>

partial_function (option) rindex_loop :: "mem \<Rightarrow> addr \<Rightarrow> i32 \<Rightarrow> addr \<Rightarrow> addr option" where
  "rindex_loop m s c it =
     (let it = if sx (m s) = c then s else it in
      if m s = 0 then Some it else rindex_loop m (s + 1) c it)"

definition rindex :: "mem \<Rightarrow> addr \<Rightarrow> i32 \<Rightarrow> addr option" where
  "rindex m s c = rindex_loop m s c 0"

partial_function (option) strrchr_loop :: "mem \<Rightarrow> addr \<Rightarrow> i32 \<Rightarrow> addr \<Rightarrow> addr option" where
  "strrchr_loop m s c save =
     (if m s \<noteq> 0 then strrchr_loop m (s + 1) c (if sx (m s) = c then s else save) else Some save)"

definition strrchr :: "mem \<Rightarrow> addr \<Rightarrow> i32 \<Rightarrow> addr option" where
  "strrchr m s c = strrchr_loop m s c 0"

text \<open>The inner loops of strcspn.c and strtok.c (the NUL of the set counts) and of strspn.c, strpbrk.c and strtok.c
  (it does not).\<close>

partial_function (option) span_or_nul :: "mem \<Rightarrow> addr \<Rightarrow> byte \<Rightarrow> bool option" where
  "span_or_nul m spanp c = (if m spanp = c then Some True else if m spanp \<noteq> 0 then span_or_nul m (spanp + 1) c else Some False)"

partial_function (option) span_in :: "mem \<Rightarrow> addr \<Rightarrow> byte \<Rightarrow> bool option" where
  "span_in m spanp c = (if m spanp = 0 then Some False else if m spanp = c then Some True else span_in m (spanp + 1) c)"

text \<open>strcspn.c, strspn.c and strpbrk.c; \<open>p\<close> is the position of the character under test.\<close>

partial_function (option) strcspn_loop :: "mem \<Rightarrow> addr \<Rightarrow> addr \<Rightarrow> addr option" where
  "strcspn_loop m p s2 =
     (case span_or_nul m s2 (m p) of None \<Rightarrow> None
      | Some hit \<Rightarrow> if hit then Some p else strcspn_loop m (p + 1) s2)"

definition strcspn :: "mem \<Rightarrow> addr \<Rightarrow> addr \<Rightarrow> u32 option" where
  "strcspn m s1 s2 = map_option (\<lambda>p. p - s1) (strcspn_loop m s1 s2)"

partial_function (option) strspn_loop :: "mem \<Rightarrow> addr \<Rightarrow> addr \<Rightarrow> addr option" where
  "strspn_loop m p s2 =
     (case span_in m s2 (m p) of None \<Rightarrow> None
      | Some hit \<Rightarrow> if hit then strspn_loop m (p + 1) s2 else Some p)"

definition strspn :: "mem \<Rightarrow> addr \<Rightarrow> addr \<Rightarrow> u32 option" where
  "strspn m s1 s2 = map_option (\<lambda>p. p - s1) (strspn_loop m s1 s2)"

partial_function (option) strpbrk :: "mem \<Rightarrow> addr \<Rightarrow> addr \<Rightarrow> addr option" where
  "strpbrk m s1 s2 =
     (if m s1 \<noteq> 0 then
        (case span_in m s2 (m s1) of None \<Rightarrow> None
         | Some hit \<Rightarrow> if hit then Some s1 else strpbrk m (s1 + 1) s2)
      else Some 0)"

section \<open>Comparing\<close>

text \<open>strcmp.c: unsigned chars\<close>

partial_function (option) strcmp :: "mem \<Rightarrow> addr \<Rightarrow> addr \<Rightarrow> i32 option" where
  "strcmp m s1 s2 =
     (let a = ucast (m s1); b = ucast (m s2) in
      if a \<noteq> 0 \<and> b \<noteq> 0 then if a \<noteq> b then Some (a - b) else strcmp m (s1 + 1) (s2 + 1)
      else Some (a - b))"

text \<open>memcmp.c and strncmp.c: signed chars. The recursion is on the remaining count.\<close>

fun memcmp_loop :: "mem \<Rightarrow> addr \<Rightarrow> addr \<Rightarrow> nat \<Rightarrow> i32" where
  "memcmp_loop m s1 s2 0 = 0"
| "memcmp_loop m s1 s2 (Suc n) = (if sx (m s1) \<noteq> sx (m s2) then sx (m s1) - sx (m s2) else memcmp_loop m (s1 + 1) (s2 + 1) n)"

definition memcmp :: "mem \<Rightarrow> addr \<Rightarrow> addr \<Rightarrow> i32 \<Rightarrow> i32" where
  "memcmp m s1 s2 sz = memcmp_loop m s1 s2 (nat (sint sz))"

fun strncmp_loop :: "mem \<Rightarrow> addr \<Rightarrow> addr \<Rightarrow> nat \<Rightarrow> i32" where
  "strncmp_loop m s1 s2 0 = 0"
| "strncmp_loop m s1 s2 (Suc n) =
     (if m s1 \<noteq> m s2 then sx (m s1) - sx (m s2) else if m s1 = 0 then 0 else strncmp_loop m (s1 + 1) (s2 + 1) n)"

definition strncmp :: "mem \<Rightarrow> addr \<Rightarrow> addr \<Rightarrow> u32 \<Rightarrow> i32" where
  "strncmp m s1 s2 n = strncmp_loop m s1 s2 (unat n)"

text \<open>strstr.c: \<open>k\<close> is the number of evaluations of \<open>hlen >= nlen\<close> that are true.\<close>

fun strstr_loop :: "mem \<Rightarrow> addr \<Rightarrow> addr \<Rightarrow> i32 \<Rightarrow> nat \<Rightarrow> addr" where
  "strstr_loop m haystack needle nlen 0 = 0"
| "strstr_loop m haystack needle nlen (Suc k) =
     (if memcmp m haystack needle nlen = 0 then haystack else strstr_loop m (haystack + 1) needle nlen k)"

definition strstr :: "mem \<Rightarrow> addr \<Rightarrow> addr \<Rightarrow> addr option" where
  "strstr m haystack needle =
     (case strlen m haystack of None \<Rightarrow> None
      | Some hlen \<Rightarrow> case strlen m needle of None \<Rightarrow> None
        | Some nlen \<Rightarrow> Some (strstr_loop m haystack needle nlen (nat (sint hlen - sint nlen + 1))))"

section \<open>Copying\<close>

text \<open>strcpy.c and strcat.c\<close>

partial_function (option) strcpy_loop :: "addr \<Rightarrow> addr \<Rightarrow> mem \<Rightarrow> mem option" where
  "strcpy_loop to from m = (let c = m from; m = m(to := c) in if c \<noteq> 0 then strcpy_loop (to + 1) (from + 1) m else Some m)"

definition strcpy :: "addr \<Rightarrow> addr \<Rightarrow> mem \<Rightarrow> (addr \<times> mem) option" where
  "strcpy to from m = map_option (\<lambda>m. (to, m)) (strcpy_loop to from m)"

partial_function (option) str_end :: "mem \<Rightarrow> addr \<Rightarrow> addr option" where
  "str_end m s = (if m s \<noteq> 0 then str_end m (s + 1) else Some s)"

definition strcat :: "addr \<Rightarrow> addr \<Rightarrow> mem \<Rightarrow> (addr \<times> mem) option" where
  "strcat ret add m =
     (case str_end m ret of None \<Rightarrow> None
      | Some s \<Rightarrow> map_option (\<lambda>m. (ret, m)) (strcpy_loop s add m))"

text \<open>strncat.c: the do loop runs at most \<open>n\<close> times, then the NUL is written.\<close>

fun strncat_loop :: "addr \<Rightarrow> addr \<Rightarrow> nat \<Rightarrow> mem \<Rightarrow> mem" where
  "strncat_loop d s 0 m = m(d := 0)"
| "strncat_loop d s (Suc n) m =
     (let c = m s; m = m(d := c) in if c = 0 then m(d := 0) else strncat_loop (d + 1) (s + 1) n m)"

definition strncat :: "addr \<Rightarrow> addr \<Rightarrow> u32 \<Rightarrow> mem \<Rightarrow> (addr \<times> mem) option" where
  "strncat dst src n m =
     (if n \<noteq> 0 then
        (case str_end m dst of None \<Rightarrow> None | Some d \<Rightarrow> Some (dst, strncat_loop d src (unat n) m))
      else Some (dst, m))"

text \<open>strncpy.c: the copy loop ends after a NUL was copied or the count is used up; then the rest is filled.\<close>

fun strncpy_fill :: "addr \<Rightarrow> nat \<Rightarrow> mem \<Rightarrow> mem" where
  "strncpy_fill to 0 m = m"
| "strncpy_fill to (Suc n) m = strncpy_fill (to + 1) n (m(to := 0))"

fun strncpy_loop :: "addr \<Rightarrow> addr \<Rightarrow> nat \<Rightarrow> mem \<Rightarrow> mem" where
  "strncpy_loop to from 0 m = m"
| "strncpy_loop to from (Suc n) m =
     (let c = m from; m = m(to := c) in if c \<noteq> 0 then strncpy_loop (to + 1) (from + 1) n m else strncpy_fill (to + 1) n m)"

definition strncpy :: "addr \<Rightarrow> addr \<Rightarrow> i32 \<Rightarrow> mem \<Rightarrow> addr \<times> mem" where
  "strncpy to from count m = (to, strncpy_loop to from (nat (sint count)) m)"

text \<open>strdup.c, with the locked \<open>malloc\<close>; \<open>Hang\<close> when \<open>src\<close> has no NUL.\<close>

definition strdup :: "'k vm \<Rightarrow> addr \<Rightarrow> (mutex \<Rightarrow> mutex) list \<Rightarrow> addr \<Rightarrow> mutex \<Rightarrow> hs \<Rightarrow> 'k \<Rightarrow> (addr \<times> mutex \<times> hs \<times> 'k) outcome" where
  "strdup K he env src mx s k =
     (case strlen (hs_mem s) src of None \<Rightarrow> Hang
      | Some n \<Rightarrow>
        bnd (malloc_ts K he env (n + 1) mx s k) (\<lambda>(buf, mx, s, k).
        if buf \<noteq> 0 then
          (case strcpy buf src (hs_mem s) of None \<Rightarrow> Hang
           | Some (r, m) \<Rightarrow> Ret (buf, mx, s\<lparr>hs_mem := m\<rparr>, k))
        else Ret (buf, mx, s, k)))"

section \<open>strtok.c\<close>

text \<open>\<open>lastp\<close> is the static variable \<open>last\<close>. The result is the token, the new \<open>last\<close> and the memory.\<close>

partial_function (option) strtok_skip :: "mem \<Rightarrow> addr \<Rightarrow> addr \<Rightarrow> addr option" where
  "strtok_skip m s delim =
     (case span_in m delim (m s) of None \<Rightarrow> None
      | Some hit \<Rightarrow> if hit then strtok_skip m (s + 1) delim else Some s)"

partial_function (option) strtok_scan :: "mem \<Rightarrow> addr \<Rightarrow> addr \<Rightarrow> (addr \<times> mem) option" where
  "strtok_scan m s delim =
     (case span_or_nul m delim (m s) of None \<Rightarrow> None
      | Some hit \<Rightarrow>
        if hit then (if m s = 0 then Some (0, m) else Some (s + 1, m(s := 0)))
        else strtok_scan m (s + 1) delim)"

definition strtok :: "addr \<Rightarrow> addr \<Rightarrow> addr \<Rightarrow> mem \<Rightarrow> (addr \<times> addr \<times> mem) option" where
  "strtok s delim lastp m =
     (let s = if s = 0 then lastp else s in
      if s = 0 then Some (0, lastp, m)
      else
        case strtok_skip m s delim of None \<Rightarrow> None
        | Some s \<Rightarrow>
          if m s = 0 then Some (0, 0, m)
          else
            case strtok_scan m (s + 1) delim of None \<Rightarrow> None
            | Some (nlast, m) \<Rightarrow> Some (s, nlast, m))"

end
