(* ===== verification/String_Props.thy ===== *)
theory String_Props
  imports C_String
begin

text \<open>
  What the string functions compute, as functions of the byte lists in memory: \<open>cstr m a s\<close> says that the
  string \<open>s\<close> lies at \<open>a\<close>, with its terminating NUL.
\<close>

section \<open>Strings in memory\<close>

fun cstr :: "mem \<Rightarrow> addr \<Rightarrow> byte list \<Rightarrow> bool" where
  "cstr m a [] = (m a = 0)"
| "cstr m a (c # cs) = (c \<noteq> 0 \<and> m a = c \<and> cstr m (a + 1) cs)"

text \<open>The addresses of \<open>n\<close> bytes from \<open>a\<close>.\<close>

definition area :: "addr \<Rightarrow> nat \<Rightarrow> addr set" where
  "area a n = {b. unat (b - a) < n}"

lemma area_0 [simp]: "area a 0 = {}"
  by (simp add: area_def)

lemma area_Suc: "area a (Suc n) = insert a (area (a + 1) n)" if "n < 2 ^ 32"
proof (rule set_eqI)
  fix b
  show "b \<in> area a (Suc n) \<longleftrightarrow> b \<in> insert a (area (a + 1) n)"
  proof (cases "b = a")
    case False
    then have "b - a \<noteq> 0" by simp
    then have "unat (b - a - 1) = unat (b - a) - 1" "0 < unat (b - a)" by (simp_all add: unat_minus_one unat_gt_0)
    moreover have "b - (a + 1) = b - a - 1" by simp
    ultimately show ?thesis using False unfolding area_def by (simp only: mem_Collect_eq insert_iff) arith
  qed (simp add: area_def)
qed

lemma area_head: "0 < n \<Longrightarrow> a \<in> area a n"
  by (simp add: area_def)

lemma area_first: "n < 2 ^ 32 \<Longrightarrow> a \<notin> area (a + 1) n"
proof -
  assume n: "n < 2 ^ 32"
  have "a - (a + 1) = 0xffffffff" by simp
  then have "unat (a - (a + 1)) = 2 ^ 32 - 1" by (simp only:) simp
  with n show ?thesis by (simp add: area_def)
qed

lemma area_mono: "k \<le> n \<Longrightarrow> area a k \<subseteq> area a n"
  by (auto simp: area_def)

lemma cstr_cong: "(\<And>b. b \<in> area a (Suc (length s)) \<Longrightarrow> m' b = m b) \<Longrightarrow> length s < 2 ^ 32 \<Longrightarrow> cstr m a s \<Longrightarrow> cstr m' a s"
proof (induction s arbitrary: a)
  case Nil
  then show ?case using area_head [of 1 a] by simp
next
  case (Cons c s)
  from Cons.prems(2) have e: "area a (Suc (length (c # s))) = insert a (area (a + 1) (Suc (length s)))"
    using area_Suc [of "Suc (length s)" a] by simp
  have *: "m' b = m b" if "b \<in> insert a (area (a + 1) (Suc (length s)))" for b
    using Cons.prems(1) [of b] that unfolding e .
  then have "cstr m' (a + 1) s" using Cons.prems(2,3) by (intro Cons.IH) auto
  with Cons.prems(3) * [of a] show ?case by simp
qed

lemma cstr_nth: "cstr m a s \<Longrightarrow> i < length s \<Longrightarrow> m (a + of_nat i) = s ! i \<and> s ! i \<noteq> 0"
proof (induction s arbitrary: a i)
  case (Cons c s)
  show ?case
  proof (cases i)
    case (Suc j)
    with Cons.IH [of "a + 1" j] Cons.prems show ?thesis by (simp add: add.assoc)
  qed (use Cons.prems in simp)
qed simp

lemma cstr_end: "cstr m a s \<Longrightarrow> m (a + of_nat (length s)) = 0"
  by (induction s arbitrary: a) (simp_all add: add.assoc [symmetric])

lemma cstr_drop: "cstr m a (s @ t) \<Longrightarrow> cstr m (a + of_nat (length s)) t"
  by (induction s arbitrary: a) (simp_all add: add.assoc [symmetric])

lemma cstr_nz: "cstr m a s \<Longrightarrow> 0 \<notin> set s"
  by (induction s arbitrary: a) auto

section \<open>Scanning\<close>

lemma strlen_loop_cstr: "cstr m a s \<Longrightarrow> strlen_loop m a = Some (a + of_nat (length s) + 1)"
  by (induction s arbitrary: a) (simp_all add: strlen_loop.simps)

lemma strlen_cstr: "cstr m a s \<Longrightarrow> strlen m a = Some (of_nat (length s))"
  by (simp add: strlen_def strlen_loop_cstr)

lemma sint_sx: "sint (sx c) = sint c"
  unfolding sx_def by (rule sint_up_scast) (simp add: is_up)

lemma sx_inj [simp]: "sx c = sx d \<longleftrightarrow> c = d"
  by (metis sint_sx signed_word_eqI)

lemma strchr_cstr:
  "cstr m a s \<Longrightarrow> strchr m a (sx c) =
    Some (if c \<in> insert 0 (set s) then a + of_nat (length (takeWhile (\<lambda>x. x \<noteq> c) s)) else 0)"
proof (induction s arbitrary: a)
  case Nil
  then show ?case by (subst strchr.simps) auto
next
  case (Cons x s)
  then show ?case by (subst strchr.simps) (auto simp: ac_simps)
qed

lemma span_or_nul_cstr: "cstr m q ds \<Longrightarrow> span_or_nul m q c = Some (c \<in> insert 0 (set ds))"
proof (induction ds arbitrary: q)
  case Nil
  then show ?case by (subst span_or_nul.simps) auto
next
  case (Cons x s)
  then show ?case by (subst span_or_nul.simps) auto
qed

lemma span_in_cstr: "cstr m q ds \<Longrightarrow> span_in m q c = Some (c \<in> set ds)"
proof (induction ds arbitrary: q)
  case Nil
  then show ?case by (subst span_in.simps) auto
next
  case (Cons x s)
  then show ?case by (subst span_in.simps) auto
qed

lemma strcspn_loop_cstr:
  "cstr m a s \<Longrightarrow> cstr m q ds \<Longrightarrow> strcspn_loop m a q = Some (a + of_nat (length (takeWhile (\<lambda>x. x \<notin> set ds) s)))"
proof (induction s arbitrary: a)
  case Nil
  then show ?case by (subst strcspn_loop.simps) (simp add: span_or_nul_cstr)
next
  case (Cons x s)
  then show ?case by (subst strcspn_loop.simps) (simp add: span_or_nul_cstr ac_simps)
qed

lemma strspn_loop_cstr:
  "cstr m a s \<Longrightarrow> cstr m q ds \<Longrightarrow> strspn_loop m a q = Some (a + of_nat (length (takeWhile (\<lambda>x. x \<in> set ds) s)))"
proof (induction s arbitrary: a)
  case Nil
  then show ?case using cstr_nz [of m q ds] by (subst strspn_loop.simps) (simp add: span_in_cstr)
next
  case (Cons x s)
  then show ?case by (subst strspn_loop.simps) (simp add: span_in_cstr ac_simps)
qed

lemma strspn_cstr: "cstr m a s \<Longrightarrow> cstr m q ds \<Longrightarrow> strspn m a q = Some (of_nat (length (takeWhile (\<lambda>x. x \<in> set ds) s)))"
  by (simp add: strspn_def strspn_loop_cstr)

lemma strcspn_cstr: "cstr m a s \<Longrightarrow> cstr m q ds \<Longrightarrow> strcspn m a q = Some (of_nat (length (takeWhile (\<lambda>x. x \<notin> set ds) s)))"
  by (simp add: strcspn_def strcspn_loop_cstr)

lemma strpbrk_cstr:
  "cstr m a s \<Longrightarrow> cstr m q ds \<Longrightarrow> strpbrk m a q =
    Some (if set s \<inter> set ds = {} then 0 else a + of_nat (length (takeWhile (\<lambda>x. x \<notin> set ds) s)))"
proof (induction s arbitrary: a)
  case Nil
  then show ?case by (subst strpbrk.simps) simp
next
  case (Cons x s)
  then show ?case by (subst strpbrk.simps) (auto simp: span_in_cstr ac_simps)
qed

text \<open>The last occurrence.\<close>

lemma strrchr_loop_none: "cstr m a s \<Longrightarrow> c \<notin> set s \<Longrightarrow> strrchr_loop m a (sx c) save = Some save"
proof (induction s arbitrary: a)
  case Nil
  then show ?case by (subst strrchr_loop.simps) simp
next
  case (Cons x s)
  then show ?case by (subst strrchr_loop.simps) auto
qed

lemma strrchr_loop_last:
  "cstr m a (us @ c # vs) \<Longrightarrow> c \<notin> set vs \<Longrightarrow> strrchr_loop m a (sx c) save = Some (a + of_nat (length us))"
proof (induction us arbitrary: a save)
  case Nil
  then show ?case by (subst strrchr_loop.simps) (auto simp: strrchr_loop_none)
next
  case (Cons x s)
  then show ?case by (subst strrchr_loop.simps) (simp add: ac_simps)
qed

lemma rindex_loop_none: "cstr m a s \<Longrightarrow> c \<notin> set s \<Longrightarrow> c \<noteq> 0 \<Longrightarrow> rindex_loop m a (sx c) it = Some it"
proof (induction s arbitrary: a)
  case Nil
  then show ?case by (subst rindex_loop.simps) (simp add: Let_def)
next
  case (Cons x s)
  then show ?case by (subst rindex_loop.simps) (auto simp: Let_def)
qed

lemma rindex_loop_last:
  "cstr m a (us @ c # vs) \<Longrightarrow> c \<notin> set vs \<Longrightarrow> rindex_loop m a (sx c) it = Some (a + of_nat (length us))"
proof (induction us arbitrary: a it)
  case Nil
  then show ?case by (subst rindex_loop.simps) (auto simp: Let_def rindex_loop_none)
next
  case (Cons x s)
  then show ?case by (subst rindex_loop.simps) (simp add: Let_def ac_simps)
qed

lemma rindex_loop_nul: "cstr m a s \<Longrightarrow> rindex_loop m a 0 it = Some (a + of_nat (length s))"
proof (induction s arbitrary: a it)
  case Nil
  then show ?case by (subst rindex_loop.simps) (simp add: Let_def sx_def)
next
  case (Cons x s)
  then show ?case by (subst rindex_loop.simps) (simp add: Let_def ac_simps)
qed

section \<open>Comparing\<close>

text \<open>\<open>strcmp\<close> orders strings by their unsigned bytes.\<close>

lemma uint_byte: "uint (a :: byte) < 256"
  using unsigned_less [of a] by simp

lemma sint_byte_diff:
  fixes a b :: byte
  shows "sint (ucast a - ucast b :: i32) = uint a - uint b"
proof -
  have "- 2147483648 \<le> uint a - uint b" "uint a - uint b < 2147483648"
    using uint_byte [of a] uint_byte [of b] uint_ge_0 [of a] uint_ge_0 [of b] by linarith+
  then have "signed_take_bit 31 (uint a - uint b) = uint a - uint b" by (simp add: signed_take_bit_int_eq_self)
  moreover have "sint (word_of_int k :: i32) = signed_take_bit 31 k" for k
    by (simp only: sint_sbintrunc') simp
  ultimately have "sint (word_of_int (uint a - uint b) :: i32) = uint a - uint b" by (simp only:)
  moreover have "(ucast a - ucast b :: i32) = word_of_int (uint a - uint b)" by simp
  ultimately show ?thesis by (simp only:)
qed

lemma strcmp_diff:
  fixes a b :: byte
  shows "neg32 (ucast a - ucast b) \<longleftrightarrow> a < b" and "(ucast a - ucast b :: i32) = 0 \<longleftrightarrow> a = b"
proof -
  show "neg32 (ucast a - ucast b) \<longleftrightarrow> a < b" by (simp add: word_sless_alt sint_byte_diff word_less_def)
  show "(ucast a - ucast b :: i32) = 0 \<longleftrightarrow> a = b"
    using sint_byte_diff [of a b] by (metis eq_iff_diff_eq_0 signed_0 unsigned_word_eqI)
qed

lemma ucast_byte_0: "(ucast (a :: byte) :: i32) = 0 \<longleftrightarrow> a = 0"
  using strcmp_diff(2) [of a 0] by simp

lemma ucast_byte_eq: "(ucast (a :: byte) :: i32) = ucast b \<longleftrightarrow> a = b"
  using strcmp_diff(2) [of a b] by simp

lemma strcmp_cstr:
  "cstr m a s \<Longrightarrow> cstr m b t \<Longrightarrow> \<exists>r. strcmp m a b = Some r \<and> (r = 0 \<longleftrightarrow> s = t) \<and> (neg32 r \<longleftrightarrow> ord_class.lexordp s t)"
proof (induction s arbitrary: a b t)
  case Nil
  have "strcmp m a b = Some (ucast (m a) - ucast (m b))"
    using Nil by (subst strcmp.simps) (simp add: Let_def)
  with Nil strcmp_diff [of "m a" "m b"] show ?case by (cases t) (auto simp: word_gt_0)
next
  case (Cons x s)
  show ?case
  proof (cases t)
    case Nil
    have "strcmp m a b = Some (ucast (m a) - ucast (m b))"
      using Cons.prems Nil by (subst strcmp.simps) (simp add: Let_def)
    with Cons.prems Nil strcmp_diff [of "m a" "m b"] show ?thesis by auto
  next
    case (Cons y t')
    note t = this
    show ?thesis
    proof (cases "x = y")
      case True
      have "strcmp m a b = strcmp m (a + 1) (b + 1)"
        using Cons.prems True t by (subst strcmp.simps) (simp add: Let_def ucast_byte_0)
      with Cons.IH [of "a + 1" "b + 1" t'] Cons.prems True t show ?thesis by simp
    next
      case False
      have "strcmp m a b = Some (ucast (m a) - ucast (m b))"
        using Cons.prems False t by (subst strcmp.simps) (simp add: Let_def ucast_byte_0 ucast_byte_eq)
      with Cons.prems False t strcmp_diff [of "m a" "m b"] show ?thesis by auto
    qed
  qed
qed

lemma memcmp_loop_0: "memcmp_loop m a b n = 0 \<longleftrightarrow> (\<forall>i < n. m (a + of_nat i) = m (b + of_nat i))"
proof (induction n arbitrary: a b)
  case (Suc n)
  show ?case using Suc.IH [of "a + 1" "b + 1"] by (auto simp: All_less_Suc2 ac_simps)
qed simp

text \<open>\<open>strncmp\<close> with a count of at least one string's length and its NUL is equality.\<close>

lemma strncmp_loop_0: "cstr m a s \<Longrightarrow> cstr m b t \<Longrightarrow> strncmp_loop m a b n = 0 \<longleftrightarrow> take n s = take n t"
proof (induction n arbitrary: a b s t)
  case (Suc n)
  show ?case
  proof (cases "s = [] \<or> t = []")
    case True
    with Suc.prems show ?thesis by (cases s; cases t) auto
  next
    case False
    then obtain x s' y t' where e: "s = x # s'" "t = y # t'" by (metis neq_Nil_conv)
    with Suc.prems Suc.IH [of "a + 1" s' "b + 1" t'] show ?thesis by auto
  qed
qed simp

section \<open>Searching\<close>

text \<open>The first place of a needle.\<close>

fun find_sub :: "byte list \<Rightarrow> byte list \<Rightarrow> nat option" where
  "find_sub nd [] = (if nd = [] then Some 0 else None)"
| "find_sub nd (h # hs) = (if prefix nd (h # hs) then Some 0 else map_option Suc (find_sub nd hs))"

lemma memcmp_prefix:
  assumes "cstr m a h" "cstr m b nd" "length nd \<le> length h" "length nd < 2 ^ 31"
  shows "memcmp m a b (of_nat (length nd)) = 0 \<longleftrightarrow> prefix nd h"
proof -
  have "memcmp m a b (of_nat (length nd)) = 0 \<longleftrightarrow> (\<forall>i < length nd. m (a + of_nat i) = m (b + of_nat i))"
    using assms(4) by (simp add: memcmp_def sint_of_nat32 memcmp_loop_0)
  also have "\<dots> \<longleftrightarrow> (\<forall>i < length nd. h ! i = nd ! i)"
    using cstr_nth [OF assms(1)] cstr_nth [OF assms(2)] assms(3) by auto
  also have "\<dots> \<longleftrightarrow> prefix nd h"
    using assms(3) by (auto simp: prefix_def list_eq_iff_nth_eq nth_append intro!: exI [of _ "drop (length nd) h"])
  finally show ?thesis .
qed

lemma find_sub_short: "length h < length nd \<Longrightarrow> find_sub nd h = None"
  by (induction h) (auto dest: prefix_length_le)

lemma strstr_loop_cstr:
  assumes "cstr m b nd" "length nd < 2 ^ 31"
  shows "cstr m a h \<Longrightarrow> strstr_loop m a b (of_nat (length nd)) (Suc (length h) - length nd) =
    (case find_sub nd h of None \<Rightarrow> 0 | Some i \<Rightarrow> a + of_nat i)"
proof (induction h arbitrary: a)
  case Nil
  then show ?case using memcmp_prefix [OF Nil assms(1) _ assms(2)] by (cases nd) auto
next
  case (Cons c h)
  show ?case
  proof (cases "length nd \<le> length (c # h)")
    case False
    then show ?thesis using find_sub_short [of "c # h" nd] by simp
  next
    case True
    then have e: "Suc (length (c # h)) - length nd = Suc (Suc (length h) - length nd)" by simp
    from Cons have "cstr m (a + 1) h" by simp
    from Cons.IH [OF this] show ?thesis
      unfolding e strstr_loop.simps memcmp_prefix [OF Cons.prems assms(1) True assms(2)]
      by (auto simp: ac_simps split: option.splits)
  qed
qed

lemma strstr_cstr:
  assumes "cstr m a h" "cstr m b nd" "length h < 2 ^ 31" "length nd < 2 ^ 31"
  shows "strstr m a b = Some (case find_sub nd h of None \<Rightarrow> 0 | Some i \<Rightarrow> a + of_nat i)"
proof -
  have "nat (sint (of_nat (length h) :: i32) - sint (of_nat (length nd) :: i32) + 1) = Suc (length h) - length nd"
    using assms(3,4) by (simp add: sint_of_nat32)
  with strstr_loop_cstr [OF assms(2,4,1)] show ?thesis
    by (simp add: strstr_def strlen_cstr [OF assms(1)] strlen_cstr [OF assms(2)])
qed

end
