(* ===== verification/Stdlib.thy ===== *)
theory Stdlib
  imports String_Props
begin

text \<open>
  410user/libstdlib: character classes, number parsing and the small generator of rand.c. A C truth value
  is \<open>c_bool\<close>; character constants are written as their ASCII codes with the character in a comment.
\<close>

section \<open>ctype.c\<close>

definition isascii :: "i32 \<Rightarrow> i32" where
  "isascii c = c_bool (0 <=s c \<and> c <=s 126)"

definition iscntrl :: "i32 \<Rightarrow> i32" where
  "iscntrl c = c_bool (c <s 32 \<or> 126 <s c)"

definition isdigit :: "i32 \<Rightarrow> i32" where
  "isdigit c = c_bool (48 <=s c \<and> c <=s 57)" \<comment> \<open>'0' to '9'\<close>

definition isgraph :: "i32 \<Rightarrow> i32" where
  "isgraph c = c_bool (32 <s c \<and> c <=s 126)"

definition islower :: "i32 \<Rightarrow> i32" where
  "islower c = c_bool (97 <=s c \<and> c <=s 122)" \<comment> \<open>'a' to 'z'\<close>

definition isprint :: "i32 \<Rightarrow> i32" where
  "isprint c = c_bool (32 <=s c \<and> c <=s 126)"

definition isspace :: "i32 \<Rightarrow> i32" where
  "isspace c = c_bool (c = 32 \<or> c = 12 \<or> c = 10 \<or> c = 13 \<or> c = 9 \<or> c = 11)" \<comment> \<open>blank, \\f, \\n, \\r, \\t, \\v\<close>

definition isupper :: "i32 \<Rightarrow> i32" where
  "isupper c = c_bool (65 <=s c \<and> c <=s 90)" \<comment> \<open>'A' to 'Z'\<close>

definition isxdigit :: "i32 \<Rightarrow> i32" where
  "isxdigit c = c_bool (isdigit c \<noteq> 0 \<or> (65 <=s c \<and> c <=s 70) \<or> (97 <=s c \<and> c <=s 102))"

definition isalpha :: "i32 \<Rightarrow> i32" where
  "isalpha c = c_bool (islower c \<noteq> 0 \<or> isupper c \<noteq> 0)"

definition isalnum :: "i32 \<Rightarrow> i32" where
  "isalnum c = c_bool (isalpha c \<noteq> 0 \<or> isdigit c \<noteq> 0)"

definition ispunct :: "i32 \<Rightarrow> i32" where
  "ispunct c = c_bool (isgraph c \<noteq> 0 \<and> isalnum c = 0)"

definition toupper :: "i32 \<Rightarrow> i32" where
  "toupper c = (if 97 <=s c \<and> c <=s 122 then c - 97 + 65 else c)"

definition tolower :: "i32 \<Rightarrow> i32" where
  "tolower c = (if 65 <=s c \<and> c <=s 90 then c - 65 + 97 else c)"

section \<open>abs.c and rand.c\<close>

text \<open>\<open>abs(INT_MIN)\<close> overflows; on this target the negation wraps.\<close>

definition abs32 :: "i32 \<Rightarrow> i32" where
  "abs32 val = (if 0 <=s val then val else - val)"

type_synonym rand_seed = "u32 \<times> u32"

definition rand :: "rand_seed \<Rightarrow> i32 \<times> rand_seed" where
  "rand = (\<lambda>(seed0, seed1).
     let seed0 = seed0 + 0xa859c317;
         seed0 = seed0 + (push_bit 13 seed1 OR drop_bit 19 seed1);
         seed1 = seed1 + seed0 in
     (seed0 AND 0x7FFFFFFF, (seed0, seed1)))"

definition srand :: "u32 \<Rightarrow> rand_seed" where
  "srand new_seed = (new_seed, new_seed)"

section \<open>strtol.c, strtoul.c and atol.c\<close>

definition store32 :: "addr \<Rightarrow> u32 \<Rightarrow> mem \<Rightarrow> mem" where
  "store32 a v m = store_bytes 4 a (ucast v) m"

partial_function (option) skip_space :: "mem \<Rightarrow> addr \<Rightarrow> addr option" where
  "skip_space m p = (if isspace (sx (m p)) \<noteq> 0 then skip_space m (p + 1) else Some p)"

text \<open>The value of a digit in the base, from the chain of tests in the loops.\<close>

definition digit_value :: "byte \<Rightarrow> i32 \<Rightarrow> i32 option" where
  "digit_value ch base =
     (let c = sx ch in
      if 48 <=s c \<and> c <=s 57 \<and> c - 48 <s base then Some (c - 48)
      else if 97 <=s c \<and> c <=s 122 \<and> c - 97 + 10 <s base then Some (c - 97 + 10)
      else if 65 <=s c \<and> c <=s 90 \<and> c - 65 + 10 <s base then Some (c - 65 + 10)
      else None)"

partial_function (option) strtol_digits :: "mem \<Rightarrow> i32 \<Rightarrow> addr \<Rightarrow> i32 \<Rightarrow> (i32 \<times> addr) option" where
  "strtol_digits m base p v =
     (case digit_value (m p) base of
        Some d \<Rightarrow> strtol_digits m base (p + 1) (v * base + d)
      | None \<Rightarrow> Some (v, p))"

text \<open>The prefix 0x and the default base, the same code in both functions.\<close>

definition strto_base :: "mem \<Rightarrow> addr \<Rightarrow> i32 \<Rightarrow> addr \<times> i32" where
  "strto_base m p base =
     (let (p, base) = (if (base = 16 \<or> base = 0) \<and> m p = 48 \<and> (m (p + 1) = 120 \<or> m (p + 1) = 88) then (p + 2, 16) else (p, base));
          base = (if base = 0 then (if m p = 48 then 8 else 10) else base) in
      (p, base))"

definition strtol :: "addr \<Rightarrow> addr \<Rightarrow> i32 \<Rightarrow> mem \<Rightarrow> (i32 \<times> mem) option" where
  "strtol p out_p base m =
     (case skip_space m p of None \<Rightarrow> None
      | Some p \<Rightarrow>
        let (is_neg, p) = (if m p = 45 then (True, p + 1) else (False, p)); \<comment> \<open>'-'; a '+' is not skipped\<close>
            (p, base) = strto_base m p base in
        case strtol_digits m base p 0 of None \<Rightarrow> None
        | Some (v, p) \<Rightarrow>
          let v = (if is_neg then - v else v) in
          Some (v, if out_p \<noteq> 0 then store32 out_p p m else m))"

definition strtoul :: "addr \<Rightarrow> addr \<Rightarrow> i32 \<Rightarrow> mem \<Rightarrow> (u32 \<times> mem) option" where
  "strtoul p out_p base m =
     (case skip_space m p of None \<Rightarrow> None
      | Some p \<Rightarrow>
        let (p, base) = strto_base m p base in
        case strtol_digits m base p 0 of None \<Rightarrow> None
        | Some (v, p) \<Rightarrow> Some (v, if out_p \<noteq> 0 then store32 out_p p m else m))"

definition atol :: "addr \<Rightarrow> mem \<Rightarrow> (i32 \<times> mem) option" where
  "atol str m = strtol str 0 10 m"

section \<open>What the parsers compute\<close>

text \<open>The value of a list of digits, most significant first.\<close>

definition digits_value :: "nat \<Rightarrow> nat list \<Rightarrow> nat" where
  "digits_value b ds = foldl (\<lambda>v d. v * b + d) 0 ds"

lemma digits_value_simps [simp]:
  "digits_value b [] = 0" "digits_value b (ds @ [d]) = digits_value b ds * b + d"
  by (simp_all add: digits_value_def)

lemma sx_small: "uint c < 128 \<Longrightarrow> sx c = ucast c"
proof -
  assume c: "uint c < 128"
  have "- 128 \<le> uint c" using uint_ge_0 [of c] by linarith
  then have "sint (sx c) = uint c"
    unfolding sint_sx using c by (simp add: sint_uint signed_take_bit_int_eq_self)
  moreover have "sint (ucast c :: i32) = uint c"
    using c sint_byte_diff [of c 0] by simp
  ultimately show ?thesis by (metis signed_word_eqI)
qed

lemma digit_value_0 [simp]: "digit_value 0 base = None"
  by (simp add: digit_value_def sx_def word_sle_eq)

lemma strtol_digits_run:
  "list_all2 (\<lambda>c d. digit_value c (of_nat b) = Some (of_nat d)) cs ds \<Longrightarrow> cstr m p (cs @ rest) \<Longrightarrow>
   rest = [] \<or> digit_value (hd rest) (of_nat b) = None \<Longrightarrow>
   strtol_digits m (of_nat b) p (of_nat v) = Some (of_nat (foldl (\<lambda>v d. v * b + d) v ds), p + of_nat (length cs))"
proof (induction cs ds arbitrary: p v rule: list_all2_induct)
  case Nil
  then have "digit_value (m p) (of_nat b) = None" by (cases rest) auto
  then show ?case by (subst strtol_digits.simps) simp
next
  case (Cons c cs d ds)
  from Cons.prems have "cstr m (p + 1) (cs @ rest)" by simp
  from Cons.IH [OF this Cons.prems(2), of "v * b + d"]
  have "strtol_digits m (of_nat b) (p + 1) (of_nat v * of_nat b + of_nat d) =
      Some (of_nat (foldl (\<lambda>v d. v * b + d) (v * b + d) ds), p + 1 + of_nat (length cs))" by simp
  with Cons.hyps Cons.prems(1) show ?case by (subst strtol_digits.simps) (simp add: add.assoc)
qed

text \<open>The digit characters of the tables in doprnt.c, and how the parsers read them.\<close>

definition digit_char :: "nat \<Rightarrow> byte" where
  "digit_char d = (if d < 10 then of_nat (48 + d) else of_nat (87 + d))"

lemma less_16_cases: "(d :: nat) < 16 \<Longrightarrow> d \<in> {0, 1, 2, 3, 4, 5, 6, 7, 8, 9, 10, 11, 12, 13, 14, 15}"
  unfolding insert_iff empty_iff by presburger

lemma sx_digit_char: "d < 16 \<Longrightarrow> sx (digit_char d) = of_nat (if d < 10 then 48 + d else 87 + d)"
proof -
  assume "d < 16"
  then have "d \<in> {0, 1, 2, 3, 4, 5, 6, 7, 8, 9, 10, 11, 12, 13, 14, 15}" by (rule less_16_cases)
  then show ?thesis unfolding insert_iff empty_iff by (elim disjE) (simp_all add: digit_char_def sx_def)
qed

lemma digit_value_char:
  assumes "d < b" "b \<le> 16"
  shows "digit_value (digit_char d) (of_nat b) = Some (of_nat d)"
proof -
  have b: "sint (of_nat b :: i32) = int b" "sint (of_nat d :: i32) = int d" using assms by (auto intro: sint_of_nat32)
  show ?thesis
  proof (cases "d < 10")
    case True
    then have c: "sx (digit_char d) = of_nat (48 + d)" using sx_digit_char [of d] by simp
    have "sint (of_nat (48 + d) :: i32) = int (48 + d)" using True by (intro sint_of_nat32) simp
    then show ?thesis using True assms b unfolding digit_value_def c Let_def word_sle_eq word_sless_alt by simp
  next
    case False
    then have c: "sx (digit_char d) = of_nat (87 + d)" using sx_digit_char [of d] assms by simp
    have "sint (of_nat (87 + d) :: i32) = int (87 + d)" using assms by (intro sint_of_nat32) simp
    moreover have "(of_nat (87 + d) :: i32) - 97 + 10 = of_nat d" by simp
    ultimately show ?thesis using False assms b unfolding digit_value_def c Let_def word_sle_eq word_sless_alt by simp
  qed
qed

end
