(* ===== verification/Doprnt.thy ===== *)
theory Doprnt
  imports Stdlib
begin

text \<open>
  410user/libstdio/doprnt.c: the formatter behind printf and sprintf. The output function only receives
  characters and returns nothing, so the model computes the list of characters handed to it, in order; the
  clients in \<open>Stdio\<close> feed the list to theirs. The format is its list of characters before the NUL,
  \<open>args\<close> are the 32-bit words \<open>va_arg\<close> walks over (reading past the end is \<open>Fault\<close>), and \<open>m\<close> is the memory
  that the pointers among them refer to, which the output function must not overwrite.
\<close>

section \<open>Arguments and digits\<close>

definition va_arg32 :: "u32 list \<Rightarrow> (u32 \<times> u32 list) outcome" where
  "va_arg32 args = (case args of [] \<Rightarrow> Fault | a # as \<Rightarrow> Ret (a, as))"

definition va_arg64 :: "u32 list \<Rightarrow> (u64 \<times> u32 list) outcome" where
  "va_arg64 args = (case args of lo # hi # as \<Rightarrow> Ret (ucast lo OR push_bit 32 (ucast hi), as) | _ \<Rightarrow> Fault)"

text \<open>
  The loop \<open>do *p-- = digs[u % base]; u /= base; while (u != 0)\<close>, with \<open>k\<close> free cells in the buffer.
  The table has 17 cells, the last holds the NUL.
\<close>

fun conv :: "nat \<Rightarrow> u64 \<Rightarrow> u64 \<Rightarrow> byte list \<Rightarrow> byte list outcome" where
  "conv 0 base u buf = Fault"
| "conv (Suc k) base u buf =
     (if base = 0 then Fault
      else if 16 < u mod base then Fault
      else
        let buf = (if u mod base = 16 then 0 else digit_char (unat (u mod base))) # buf; u = u div base in
        if u \<noteq> 0 then conv k base u buf else Ret buf)"

definition printnum :: "u32 \<Rightarrow> i32 \<Rightarrow> byte list outcome" where
  "printnum u base = conv 32 (ucast base) (ucast u) []"

fun printnum_16_loop :: "nat \<Rightarrow> u32 \<Rightarrow> byte list \<Rightarrow> byte list" where
  "printnum_16_loop 0 u buf = buf"
| "printnum_16_loop (Suc i) u buf = printnum_16_loop i (drop_bit 4 u) (digit_char (unat (u AND 0x0f)) # buf)"

definition printnum_16 :: "u32 \<Rightarrow> byte list" where
  "printnum_16 u = printnum_16_loop 8 u []"

text \<open>\<open>while (--length >= 0) putc(c)\<close>: the length left and the characters.\<close>

definition pad :: "i32 \<Rightarrow> byte \<Rightarrow> i32 \<times> byte list" where
  "pad len c = (if 0 <s len then -1 else len - 1, replicate (nat (sint len)) c)"

text \<open>\<open>while (n < length) { putc(c); n++; }\<close> with a 64-bit \<open>n\<close>.\<close>

definition pad_to :: "int \<Rightarrow> i32 \<Rightarrow> byte \<Rightarrow> int \<times> byte list" where
  "pad_to n len c = (max n (sint len), replicate (nat (sint len - n)) c)"

section \<open>The conversion specification\<close>

record spec =
  sp_length :: i32
  sp_prec :: i32
  sp_ladjust :: bool
  sp_padc :: byte
  sp_plus :: byte
  sp_altfmt :: bool
  sp_longopt :: i32

definition spec0 :: spec where
  "spec0 = \<lparr>sp_length = 0, sp_prec = -1, sp_ladjust = False, sp_padc = 32, sp_plus = 0, sp_altfmt = False, sp_longopt = 0\<rparr>"

fun parse_flags :: "byte list \<Rightarrow> spec \<Rightarrow> byte list \<times> spec" where
  "parse_flags (c # fmt) sp =
     (if c = 35 then parse_flags fmt (sp\<lparr>sp_altfmt := True\<rparr>) \<comment> \<open>'#'\<close>
      else if c = 45 then parse_flags fmt (sp\<lparr>sp_ladjust := True\<rparr>) \<comment> \<open>'-'\<close>
      else if c = 43 then parse_flags fmt (sp\<lparr>sp_plus := 43\<rparr>) \<comment> \<open>'+'\<close>
      else if c = 32 then parse_flags fmt (if sp_plus sp = 0 then sp\<lparr>sp_plus := 32\<rparr> else sp)
      else (c # fmt, sp))"
| "parse_flags [] sp = ([], sp)"

definition is_digit :: "byte \<Rightarrow> bool" where
  "is_digit d \<longleftrightarrow> 48 \<le> d \<and> d \<le> 57"

fun parse_num :: "byte list \<Rightarrow> i32 \<Rightarrow> byte list \<times> i32" where
  "parse_num (c # fmt) n = (if is_digit c then parse_num fmt (10 * n + (ucast c - 48)) else (c # fmt, n))"
| "parse_num [] n = ([], n)"

definition parse_zero :: "byte list \<Rightarrow> spec \<Rightarrow> byte list \<times> spec" where
  "parse_zero fmt sp = (case fmt of c # f \<Rightarrow> if c = 48 then (f, sp\<lparr>sp_padc := 48\<rparr>) else (fmt, sp) | [] \<Rightarrow> (fmt, sp))"

definition parse_width :: "byte list \<Rightarrow> spec \<Rightarrow> u32 list \<Rightarrow> (byte list \<times> spec \<times> u32 list) outcome" where
  "parse_width fmt sp args =
     (case fmt of
        c # f \<Rightarrow>
          if is_digit c then (case parse_num fmt (sp_length sp) of (f, n) \<Rightarrow> Ret (f, sp\<lparr>sp_length := n\<rparr>, args))
          else if c = 42 then \<comment> \<open>'*'\<close>
            bnd (va_arg32 args) (\<lambda>(n, args).
              if neg32 n then Ret (f, sp\<lparr>sp_length := - n, sp_ladjust := \<not> sp_ladjust sp\<rparr>, args)
              else Ret (f, sp\<lparr>sp_length := n\<rparr>, args))
          else Ret (fmt, sp, args)
      | [] \<Rightarrow> Ret (fmt, sp, args))"

definition parse_prec :: "byte list \<Rightarrow> spec \<Rightarrow> u32 list \<Rightarrow> (byte list \<times> spec \<times> u32 list) outcome" where
  "parse_prec fmt sp args =
     (case fmt of
        c # f \<Rightarrow>
          if c = 46 then \<comment> \<open>'.'\<close>
            (case f of
               d # f' \<Rightarrow>
                 if is_digit d then (case parse_num f 0 of (f, n) \<Rightarrow> Ret (f, sp\<lparr>sp_prec := n\<rparr>, args))
                 else if d = 42 then bnd (va_arg32 args) (\<lambda>(n, args). Ret (f', sp\<lparr>sp_prec := n\<rparr>, args))
                 else Ret (f, sp, args)
             | [] \<Rightarrow> Ret (f, sp, args))
          else Ret (fmt, sp, args)
      | [] \<Rightarrow> Ret (fmt, sp, args))"

fun parse_long :: "byte list \<Rightarrow> spec \<Rightarrow> byte list \<times> spec" where
  "parse_long (c # fmt) sp = (if c = 108 then parse_long fmt (sp\<lparr>sp_longopt := sp_longopt sp + 1\<rparr>) else (c # fmt, sp))"
| "parse_long [] sp = ([], sp)"

section \<open>The conversions\<close>

text \<open>\<open>print_num\<close>: \<open>sign_char\<close> is 0 for none.\<close>

definition print_num :: "bool \<Rightarrow> spec \<Rightarrow> i32 \<Rightarrow> byte \<Rightarrow> u64 \<Rightarrow> byte list outcome" where
  "print_num trunc sp base sign_char u =
     (let u = (if trunc then scast (ucast u :: i32) else u);
          prefix = (if u \<noteq> 0 \<and> sp_altfmt sp then (if base = 8 then [48] else if base = 16 then [48, 120] else []) else []) in
      bnd (conv 32 (scast base) u []) (\<lambda>digits.
      let len = sp_length sp - of_nat (length digits);
          len = (if sign_char \<noteq> 0 then len - 1 else len);
          len = len - of_nat (length prefix);
          (len, o1) = (if sp_padc sp = 32 \<and> \<not> sp_ladjust sp then pad len 32 else (len, []));
          o2 = (if sign_char \<noteq> 0 then [sign_char] else []);
          (len, o3) = (if sp_padc sp = 48 then pad len 48 else (len, []));
          (len, o4) = (if sp_ladjust sp then pad len 32 else (len, [])) in
      Ret (o1 @ o2 @ prefix @ o3 @ digits @ o4)))"

definition print_signed :: "bool \<Rightarrow> spec \<Rightarrow> i32 \<Rightarrow> u32 list \<Rightarrow> (byte list \<times> u32 list) outcome" where
  "print_signed trunc sp base args =
     bnd (if 1 <s sp_longopt sp then va_arg64 args else bnd (va_arg32 args) (\<lambda>(n, args). Ret (scast n, args))) (\<lambda>(n, args).
     bnd (if 0 <=s n then print_num trunc sp base (sp_plus sp) n else print_num trunc sp base 45 (- n)) (\<lambda>out.
     Ret (out, args)))"

definition print_unsigned :: "bool \<Rightarrow> spec \<Rightarrow> i32 \<Rightarrow> u32 list \<Rightarrow> (byte list \<times> u32 list) outcome" where
  "print_unsigned trunc sp base args =
     bnd (if 1 <s sp_longopt sp then va_arg64 args else bnd (va_arg32 args) (\<lambda>(n, args). Ret (ucast n, args))) (\<lambda>(u, args).
     bnd (print_num trunc sp base 0 u) (\<lambda>out. Ret (out, args)))"

text \<open>The two loops of the %s conversion.\<close>

partial_function (option) str_len_max :: "mem \<Rightarrow> addr \<Rightarrow> int \<Rightarrow> int \<Rightarrow> int option" where
  "str_len_max m p n prec = (if m p \<noteq> 0 \<and> n < prec then str_len_max m (p + 1) (n + 1) prec else Some n)"

partial_function (option) str_put :: "mem \<Rightarrow> addr \<Rightarrow> int \<Rightarrow> int \<Rightarrow> byte list \<Rightarrow> (byte list \<times> int) option" where
  "str_put m p n prec out =
     (if m p \<noteq> 0 then
        if prec < n + 1 then Some (out, n + 1)
        else str_put m (p + 1) (n + 1) prec (out @ [m p])
      else Some (out, n))"

definition print_str :: "mem \<Rightarrow> spec \<Rightarrow> u32 list \<Rightarrow> (byte list \<times> u32 list) outcome" where
  "print_str m sp args =
     (let prec = (if sp_prec sp = -1 then 0x7fffffff else sint (sp_prec sp)) in
      bnd (va_arg32 args) (\<lambda>(p, args).
      let len = (if p = 0 then Some 0 else str_len_max m p 0 prec);
          put = (if p = 0 then Some ([], 0) else str_put m p 0 prec []) in
      case put of None \<Rightarrow> Hang
      | Some (out, n) \<Rightarrow>
        if 0 <s sp_length sp \<and> \<not> sp_ladjust sp then
          (case len of None \<Rightarrow> Hang | Some k \<Rightarrow> Ret (snd (pad_to k (sp_length sp) 32) @ out, args))
        else if n < sint (sp_length sp) \<and> sp_ladjust sp then Ret (out @ snd (pad_to n (sp_length sp) 32), args)
        else Ret (out, args)))"

text \<open>%t: a thread ID of two words; \<open>task\<close> and \<open>lthread\<close> are bit fields of the first.\<close>

definition print_tid :: "spec \<Rightarrow> u32 list \<Rightarrow> (byte list \<times> u32 list) outcome" where
  "print_tid sp args =
     bnd (va_arg32 args) (\<lambda>(high, args).
     bnd (va_arg32 args) (\<lambda>(low, args).
     let len = sp_length sp; alt = sp_altfmt sp; padc = sp_padc sp; ladj = sp_ladjust sp;
         lthread = take_bit 7 (drop_bit 10 high);
         task = take_bit 11 (drop_bit 17 high) in
     if sp_longopt sp \<noteq> 0 then
       let n = (if alt then 19 else 17);
           (n, o1) = (if 0 <s len \<and> \<not> ladj then pad_to n len 32 else (n, []));
           (n, o2) = (if 0 <s len \<and> ladj then pad_to n len 32 else (n, [])) in
       Ret (o1 @ (if alt then [91] else []) @ printnum_16 high @ [58] @ printnum_16 low @ (if alt then [93] else []) @ o2, args)
     else
       let n = (if alt then 4 else 2);
           m = 1 + (if 0x10 \<le> lthread then 1 else 0);
           n = n + (if 0x10 \<le> task then 1 else 0) + (if 0x100 \<le> task then 1 else 0);
           (n, o1) = (if 0 <s len \<and> \<not> ladj \<and> padc = 32 then (case pad_to (n + 2) len 32 of (k, cs) \<Rightarrow> (k - 2, cs)) else (n, []));
           (n, o2) = (if 0 <s len \<and> \<not> ladj \<and> padc = 48 then (case pad_to (n + 2) len 48 of (k, cs) \<Rightarrow> (k - 2, cs)) else (n, [])) in
       bnd (printnum task 16) (\<lambda>ts.
       let (n, o3) = (if 0 <s len \<and> \<not> ladj then (case pad_to (n + m) len padc of (k, cs) \<Rightarrow> (k - m, cs)) else (n, [])) in
       bnd (printnum lthread 16) (\<lambda>ls.
       let o4 = (if n + m < sint len \<and> ladj then snd (pad_to (n + m) len 32) else []) in
       Ret (o1 @ (if alt then [91] else []) @ o2 @ ts @ [46] @ o3 @ ls @ (if alt then [93] else []) @ o4, args)))))"

text \<open>
  %b: \<open>printnum\<close> has an old-style definition without a prototype, and is called here with the 64-bit \<open>u\<close> for its
  32-bit parameter. The behaviour of such a call is undefined (C99 6.5.2.2); on this target the high half of \<open>u\<close>,
  which is 0, lands in \<open>base\<close>. The other calls of \<open>printnum\<close> pass 32-bit values.
\<close>

definition print_bits :: "u32 list \<Rightarrow> (byte list \<times> u32 list) outcome" where
  "print_bits args = bnd (va_arg32 args) (\<lambda>(u, args). bnd (va_arg32 args) (\<lambda>(p, args). Fault))"

definition print_char :: "u32 list \<Rightarrow> (byte list \<times> u32 list) outcome" where
  "print_char args = bnd (va_arg32 args) (\<lambda>(c, args). Ret ([ucast c], args))"

text \<open>The switch. \<open>truncates\<close> is the global \<open>_doprnt_truncates\<close>.\<close>

definition convert :: "bool \<Rightarrow> mem \<Rightarrow> i32 \<Rightarrow> spec \<Rightarrow> byte \<Rightarrow> u32 list \<Rightarrow> (byte list \<times> u32 list) outcome" where
  "convert truncates m radix sp c args =
     (if c = 98 \<or> c = 66 then print_bits args \<comment> \<open>b B\<close>
      else if c = 99 then print_char args \<comment> \<open>c\<close>
      else if c = 116 then print_tid sp args \<comment> \<open>t\<close>
      else if c = 115 then print_str m sp args \<comment> \<open>s\<close>
      else if c = 111 then print_unsigned truncates sp 8 args \<comment> \<open>o\<close>
      else if c = 79 then print_unsigned False sp 8 args \<comment> \<open>O\<close>
      else if c = 100 then print_signed truncates sp 10 args \<comment> \<open>d\<close>
      else if c = 68 then print_signed False sp 10 args \<comment> \<open>D\<close>
      else if c = 117 then print_unsigned truncates sp 10 args \<comment> \<open>u\<close>
      else if c = 85 then print_unsigned False sp 10 args \<comment> \<open>U\<close>
      else if c = 112 then \<comment> \<open>p\<close>
        bnd (print_unsigned truncates (sp\<lparr>sp_padc := 48, sp_length := 8\<rparr>) 16 args) (\<lambda>(out, args). Ret ([48, 120] @ out, args))
      else if c = 120 then print_unsigned truncates sp 16 args \<comment> \<open>x\<close>
      else if c = 88 then print_unsigned False sp 16 args \<comment> \<open>X\<close>
      else if c = 122 then print_signed truncates sp 16 args \<comment> \<open>z\<close>
      else if c = 90 then print_signed False sp 16 args \<comment> \<open>Z\<close>
      else if c = 114 then print_signed truncates sp radix args \<comment> \<open>r\<close>
      else if c = 82 then print_signed False sp radix args \<comment> \<open>R\<close>
      else if c = 110 then print_unsigned truncates sp radix args \<comment> \<open>n\<close>
      else if c = 78 then print_unsigned False sp radix args \<comment> \<open>N\<close>
      else Ret ([c], args))"

text \<open>One conversion, from the character after the percent sign to the one after the conversion letter.\<close>

definition doprnt_spec :: "bool \<Rightarrow> mem \<Rightarrow> i32 \<Rightarrow> byte list \<Rightarrow> u32 list \<Rightarrow> (byte list \<times> byte list \<times> u32 list) outcome" where
  "doprnt_spec truncates m radix fmt args =
     (let (fmt, sp) = parse_flags fmt spec0;
          (fmt, sp) = parse_zero fmt sp in
      bnd (parse_width fmt sp args) (\<lambda>(fmt, sp, args).
      bnd (parse_prec fmt sp args) (\<lambda>(fmt, sp, args).
      let (fmt, sp) = parse_long fmt sp in
      case fmt of
        [] \<Rightarrow> Ret ([], [], args)
      | c # fmt \<Rightarrow> bnd (convert truncates m radix sp c args) (\<lambda>(out, args). Ret (out, fmt, args)))))"

lemma parse_flags_len: "parse_flags fmt sp = (f, sp') \<Longrightarrow> length f \<le> length fmt"
  by (induction fmt sp rule: parse_flags.induct) (auto split: if_splits intro: le_SucI)

lemma parse_num_len: "parse_num fmt n = (f, k) \<Longrightarrow> length f \<le> length fmt"
  by (induction fmt n rule: parse_num.induct) (auto split: if_splits intro: le_SucI)

lemma parse_long_len: "parse_long fmt sp = (f, sp') \<Longrightarrow> length f \<le> length fmt"
  by (induction fmt sp rule: parse_long.induct) (auto split: if_splits intro: le_SucI)

lemma parse_zero_len: "parse_zero fmt sp = (f, sp') \<Longrightarrow> length f \<le> length fmt"
  by (auto simp: parse_zero_def split: list.splits if_splits)

lemma parse_width_len: "parse_width fmt sp args = Ret (f, sp', args') \<Longrightarrow> length f \<le> length fmt"
  by (auto simp: parse_width_def outcome_simps split: list.splits if_splits prod.splits dest!: parse_num_len)

lemma parse_prec_len: "parse_prec fmt sp args = Ret (f, sp', args') \<Longrightarrow> length f \<le> length fmt"
  by (auto simp: parse_prec_def outcome_simps split: list.splits if_splits prod.splits dest!: parse_num_len)

lemma doprnt_spec_len:
  assumes "doprnt_spec tr m radix fmt args = Ret (out, f, args')"
  shows "length f \<le> length fmt"
proof -
  obtain f1 s1 where 1: "parse_flags fmt spec0 = (f1, s1)" by fastforce
  obtain f2 s2 where 2: "parse_zero f1 s1 = (f2, s2)" by fastforce
  from assms obtain f3 s3 a3 f4 s4 a4 where 3: "parse_width f2 s2 args = Ret (f3, s3, a3)" "parse_prec f3 s3 a3 = Ret (f4, s4, a4)"
    and rest: "(let (fmt, sp) = parse_long f4 s4 in case fmt of [] \<Rightarrow> Ret ([], [], a4)
      | c # fmt \<Rightarrow> bnd (convert tr m radix sp c a4) (\<lambda>(out, args). Ret (out, fmt, args))) = Ret (out, f, args')"
    by (auto simp: doprnt_spec_def 1 2 outcome_simps)
  obtain f5 s5 where 5: "parse_long f4 s4 = (f5, s5)" by fastforce
  have "length f \<le> length f5" using rest by (auto simp: 5 outcome_simps split: list.splits)
  with parse_long_len [OF 5] parse_prec_len [OF 3(2)] parse_width_len [OF 3(1)] parse_zero_len [OF 2] parse_flags_len [OF 1]
  show ?thesis by simp
qed

function doprnt :: "bool \<Rightarrow> mem \<Rightarrow> i32 \<Rightarrow> byte list \<Rightarrow> u32 list \<Rightarrow> byte list outcome" where
  "doprnt truncates m radix fmt args =
     (case fmt of
        [] \<Rightarrow> Ret []
      | c # fmt \<Rightarrow>
        if c \<noteq> 37 then bnd (doprnt truncates m radix fmt args) (\<lambda>out. Ret (c # out))
        else
          bnd (doprnt_spec truncates m radix fmt args) (\<lambda>(out, fmt, args).
          bnd (doprnt truncates m radix fmt args) (\<lambda>rest. Ret (out @ rest))))"
  by pat_completeness auto
termination
  by (relation "measure (\<lambda>(tr, m, radix, fmt, args). length fmt)") (auto dest!: doprnt_spec_len)

declare doprnt.simps [simp del]

end
