(* ===== verification/Stdio.thy ===== *)
theory Stdio
  imports Doprnt
begin

text \<open>
  410user/libstdio: the clients of the formatter (sprintf.c, printf.c, putchar.c, puts.c, hexdump.c,
  410user/libstdlib/panic.c) and the scanner (doscan.c, sscanf.c). A format is its list of characters before
  the NUL, \<open>args\<close> are the words \<open>va_arg\<close> walks over. Console output is the list of the \<open>print\<close> system calls,
  each with the bytes it is given. The strings that %s prints are read in the memory before the call: the
  output buffer of \<open>sprintf\<close> must not overlap them (C99 7.19.6.6).
\<close>

definition bytes :: "string \<Rightarrow> byte list" where
  "bytes s = map of_char s"

section \<open>sprintf.c\<close>

record sprintf_state =
  ss_buf :: addr
  ss_len :: u32
  ss_max :: u32

definition savechar :: "byte \<Rightarrow> sprintf_state \<times> mem \<Rightarrow> sprintf_state \<times> mem" where
  "savechar c = (\<lambda>(st, m).
     if ss_max st \<noteq> -1 \<and> ss_len st = ss_max st then (st, m)
     else (st\<lparr>ss_len := ss_len st + 1, ss_buf := ss_buf st + 1\<rparr>, m(ss_buf st := c)))"

definition vsprintf :: "addr \<Rightarrow> byte list \<Rightarrow> u32 list \<Rightarrow> mem \<Rightarrow> (i32 \<times> mem) outcome" where
  "vsprintf s fmt args m =
     bnd (doprnt False m 0 fmt args) (\<lambda>out.
     let (st, m) = fold savechar out (\<lparr>ss_buf = s, ss_len = 0, ss_max = -1\<rparr>, m) in
     Ret (ss_len st, m(ss_buf st := 0)))"

definition vsnprintf :: "addr \<Rightarrow> i32 \<Rightarrow> byte list \<Rightarrow> u32 list \<Rightarrow> mem \<Rightarrow> (i32 \<times> mem) outcome" where
  "vsnprintf s sz fmt args m =
     bnd (doprnt False m 0 fmt args) (\<lambda>out.
     let (st, m) = fold savechar out (\<lparr>ss_buf = s, ss_len = 0, ss_max = sz - 1\<rparr>, m) in
     Ret (ss_len st, m(ss_buf st := 0)))"

definition sprintf :: "addr \<Rightarrow> byte list \<Rightarrow> u32 list \<Rightarrow> mem \<Rightarrow> (i32 \<times> mem) outcome" where
  "sprintf s fmt args m = vsprintf s fmt args m"

definition snprintf :: "addr \<Rightarrow> i32 \<Rightarrow> byte list \<Rightarrow> u32 list \<Rightarrow> mem \<Rightarrow> (i32 \<times> mem) outcome" where
  "snprintf s sz fmt args m = vsnprintf s sz fmt args m"

section \<open>printf.c, putchar.c and puts.c\<close>

type_synonym console = "byte list list"

definition printf_bufmax :: nat where
  "printf_bufmax = 128"

record printf_state =
  ps_buf :: "byte list"
  ps_index :: nat

definition flush :: "printf_state \<times> console \<Rightarrow> printf_state \<times> console" where
  "flush = (\<lambda>(st, con). (st\<lparr>ps_index := 0\<rparr>, con @ [take (ps_index st) (ps_buf st)]))"

definition printf_char :: "byte \<Rightarrow> printf_state \<times> console \<Rightarrow> printf_state \<times> console" where
  "printf_char c s =
     (let (st, con) = (if printf_bufmax \<le> ps_index (fst s) then flush s else s);
          st = st\<lparr>ps_buf := (ps_buf st)[ps_index st := c], ps_index := ps_index st + 1\<rparr> in
      if c = 10 then flush (st, con) else (st, con))"

text \<open>The buffer of \<open>vprintf\<close> is uninitialised; no cell is printed before it is written.\<close>

definition vprintf :: "byte list \<Rightarrow> u32 list \<Rightarrow> mem \<Rightarrow> console outcome" where
  "vprintf fmt args m =
     bnd (doprnt False m 0 fmt args) (\<lambda>out.
     let (st, con) = fold printf_char out (\<lparr>ps_buf = replicate printf_bufmax 0, ps_index = 0\<rparr>, []) in
     Ret (if ps_index st \<noteq> 0 then snd (flush (st, con)) else con))"

definition printf :: "byte list \<Rightarrow> u32 list \<Rightarrow> mem \<Rightarrow> console outcome" where
  "printf fmt args m = vprintf fmt args m"

definition putchar :: "i32 \<Rightarrow> i32 \<times> console" where
  "putchar c = (c, [[ucast c]])"

definition load_range :: "mem \<Rightarrow> addr \<Rightarrow> nat \<Rightarrow> byte list" where
  "load_range m a n = map (\<lambda>i. m (a + of_nat i)) [0..<n]"

definition puts :: "addr \<Rightarrow> mem \<Rightarrow> (i32 \<times> console) option" where
  "puts s m = (case strlen m s of None \<Rightarrow> None | Some n \<Rightarrow> Some (0, load_range m s (unat n) # snd (putchar 10)))"

section \<open>hexdump.c and panic.c\<close>

text \<open>A sequence of calls of \<open>printf\<close>.\<close>

fun printfs :: "(byte list \<times> u32 list) list \<Rightarrow> mem \<Rightarrow> console outcome" where
  "printfs [] m = Ret []"
| "printfs ((fmt, args) # cs) m = bnd (printf fmt args m) (\<lambda>con. bnd (printfs cs m) (\<lambda>con'. Ret (con @ con')))"

definition hex_cell :: "mem \<Rightarrow> addr \<Rightarrow> int \<Rightarrow> int \<Rightarrow> (byte list \<times> u32 list) list" where
  "hex_cell m b len j =
     (if j mod 4 = 0 then [(bytes '' '', [])] else []) @
     (if len \<le> j then [(bytes ''  '', [])] else [(bytes ''%02x'', [ucast (m (b + word_of_int j))])])"

definition hex_char :: "mem \<Rightarrow> addr \<Rightarrow> int \<Rightarrow> int \<Rightarrow> (byte list \<times> u32 list) list" where
  "hex_char m b len j =
     (if len \<le> j then [(bytes '' '', [])]
      else let c = sx (m (b + word_of_int j)) in [(bytes ''%c'', [if isgraph c \<noteq> 0 then c else 46])])"

definition hex_row :: "mem \<Rightarrow> addr \<Rightarrow> int \<Rightarrow> int \<Rightarrow> (byte list \<times> u32 list) list" where
  "hex_row m b len i =
     [(bytes ''| %08x      '', [word_of_int i])] @ concat (map (hex_cell m b len) [i..i + 15]) @ [(bytes ''       '', [])] @
     concat (map (hex_char m b len) [i..i + 15]) @ [(bytes '' |'' @ [10], [])]"

text \<open>The outer loop; \<open>i + 16\<close> overflows for an \<open>i\<close> within 16 of the largest int.\<close>

function hex_rows :: "mem \<Rightarrow> addr \<Rightarrow> int \<Rightarrow> int \<Rightarrow> console outcome" where
  "hex_rows m b len i =
     (if i < len then
        if 0x7fffffff < i + 16 then Fault
        else bnd (printfs (hex_row m b len i) m) (\<lambda>con. bnd (hex_rows m b len (i + 16)) (\<lambda>con'. Ret (con @ con')))
      else Ret [])"
  by pat_completeness auto
termination by (relation "measure (\<lambda>(m, b, len, i). nat (len - i))") auto

declare hex_rows.simps [simp del]

definition hexdump :: "addr \<Rightarrow> i32 \<Rightarrow> mem \<Rightarrow> console outcome" where
  "hexdump b len m =
     bnd (printf (bytes ''.'' @ replicate 75 45 @ bytes ''.'' @ [10]) [] m) (\<lambda>c1.
     bnd (hex_rows m b (sint len) 0) (\<lambda>c2.
     bnd (printf ([96] @ replicate 75 45 @ [39, 10]) [] m) (\<lambda>c3. Ret (c1 @ c2 @ c3))))"

text \<open>What \<open>panic\<close> prints before it calls \<open>task_vanish(-3)\<close>, which does not return.\<close>

definition panic :: "byte list \<Rightarrow> u32 list \<Rightarrow> mem \<Rightarrow> console outcome" where
  "panic fmt args m = printfs [(bytes ''panic: '', []), (fmt, args), ([10], [])] m"

section \<open>doscan.c and sscanf.c\<close>

text \<open>\<open>readchar\<close> and \<open>unchar\<close> move the pointer that \<open>vsscanf\<close> passes as \<open>getc_arg\<close>.\<close>

definition readchar :: "mem \<Rightarrow> addr \<Rightarrow> i32 \<times> addr" where
  "readchar m p = (ucast (m p), p + 1)"

definition unchar :: "addr \<Rightarrow> addr" where
  "unchar p = p - 1"

text \<open>The loops over the characters of a number: the character after it, the position behind that and the value.\<close>

partial_function (option) scan_dec :: "mem \<Rightarrow> i32 \<Rightarrow> addr \<Rightarrow> i32 \<Rightarrow> bool \<Rightarrow> (i32 \<times> addr \<times> i32 \<times> bool) option" where
  "scan_dec m c p n invalid =
     (if 48 <=s c \<and> c <=s 57 then
        (case readchar m p of (c', p) \<Rightarrow> scan_dec m c' p (n * 10 + (c - 48)) False)
      else Some (c, p, n, invalid))"

partial_function (option) scan_hex :: "mem \<Rightarrow> i32 \<Rightarrow> addr \<Rightarrow> i32 \<Rightarrow> bool \<Rightarrow> (i32 \<times> addr \<times> i32 \<times> bool) option" where
  "scan_hex m c p n invalid =
     (let d = (if 48 <=s c \<and> c <=s 57 then Some (c - 48)
               else if 97 <=s c \<and> c <=s 102 then Some (c - 97 + 10)
               else if 65 <=s c \<and> c <=s 70 then Some (c - 65 + 10) else None) in
      case d of
        Some d \<Rightarrow> (case readchar m p of (c', p) \<Rightarrow> scan_hex m c' p (n * 16 + d) False)
      | None \<Rightarrow> Some (c, p, n, invalid))"

text \<open>The loop of %s, which stores to \<open>buf\<close> as it reads.\<close>

partial_function (option) scan_str :: "bool \<Rightarrow> i32 \<Rightarrow> addr \<Rightarrow> addr \<Rightarrow> bool \<Rightarrow> mem \<Rightarrow> (addr \<times> addr \<times> bool \<times> mem) option" where
  "scan_str discard c p buf invalid m =
     (if c \<noteq> 0 \<and> isspace c = 0 then
        let (buf, m) = (if discard then (buf, m) else (buf + 1, m(buf := ucast c))) in
        case readchar m p of (c', p) \<Rightarrow> scan_str discard c' p buf False m
      else Some (p, buf, invalid, m))"

text \<open>Leading white space in the format: \<open>while (isspace(c = getc(getc_arg)));\<close>.\<close>

partial_function (option) scan_space :: "mem \<Rightarrow> addr \<Rightarrow> (i32 \<times> addr) option" where
  "scan_space m p = (case readchar m p of (c, p) \<Rightarrow> if isspace c \<noteq> 0 then scan_space m p else Some (c, p))"

definition the_loop :: "'a option \<Rightarrow> 'a outcome" where
  "the_loop x = (case x of None \<Rightarrow> Hang | Some v \<Rightarrow> Ret v)"

text \<open>What %d and %x share: the sign, the digits by the loop \<open>scan\<close>, and the store.\<close>

definition scan_number ::
  "(mem \<Rightarrow> i32 \<Rightarrow> addr \<Rightarrow> i32 \<Rightarrow> bool \<Rightarrow> (i32 \<times> addr \<times> i32 \<times> bool) option) \<Rightarrow>
   bool \<Rightarrow> i32 \<Rightarrow> addr \<Rightarrow> u32 list \<Rightarrow> mem \<Rightarrow> (bool \<times> addr \<times> u32 list \<times> mem) outcome" where
  "scan_number scan discard c p args m =
     (let neg = (c = 45); \<comment> \<open>'-'\<close>
          (c, p) = (if neg then readchar m p else (c, p)) in
      bnd (the_loop (scan m c p 0 True)) (\<lambda>(c, p, n, invalid).
      let p = unchar p; n = (if neg then - n else n) in
      if discard then Ret (invalid, p, args, m)
      else bnd (va_arg32 args) (\<lambda>(a, args). Ret (invalid, p, args, store32 a n m))))"

definition scan_word :: "bool \<Rightarrow> i32 \<Rightarrow> addr \<Rightarrow> u32 list \<Rightarrow> mem \<Rightarrow> (bool \<times> addr \<times> u32 list \<times> mem) outcome" where
  "scan_word discard c p args m =
     bnd (if discard then Ret (0, args) else va_arg32 args) (\<lambda>(buf, args).
     bnd (the_loop (scan_str discard c p buf True m)) (\<lambda>(p, buf, invalid, m).
     Ret (invalid, unchar p, args, if discard then m else m(buf := 0))))"

text \<open>
  From the label \<open>more_fmt\<close> to the end of the switch: whether the scan stops, whether the value is discarded, and
  the rest of the format, the position, the arguments and the memory.
\<close>

fun scan_conv :: "bool \<Rightarrow> byte list \<Rightarrow> addr \<Rightarrow> u32 list \<Rightarrow> mem \<Rightarrow>
    (bool \<times> bool \<times> byte list \<times> addr \<times> u32 list \<times> mem) outcome" where
  "scan_conv discard [] p args m = (case readchar m p of (c, p) \<Rightarrow> Ret (True, discard, [], p, args, m))"
| "scan_conv discard (f # fmt) p args m =
     (case readchar m p of (c, p) \<Rightarrow>
        if c = 0 then Ret (True, discard, fmt, p, args, m)
        else if f = 100 then \<comment> \<open>'d'\<close>
          bnd (scan_number scan_dec discard c p args m) (\<lambda>(invalid, rest). Ret (invalid, discard, fmt, rest))
        else if f = 120 then \<comment> \<open>'x'\<close>
          bnd (scan_number scan_hex discard c p args m) (\<lambda>(invalid, rest). Ret (invalid, discard, fmt, rest))
        else if f = 115 then \<comment> \<open>'s'\<close>
          bnd (scan_word discard c p args m) (\<lambda>(invalid, rest). Ret (invalid, discard, fmt, rest))
        else if f = 42 then scan_conv True fmt p args m \<comment> \<open>'*'\<close>
        else Ret (True, discard, fmt, p, args, m))"

lemma scan_conv_len: "scan_conv d fmt p args m = Ret (st, d', fmt', rest) \<Longrightarrow> length fmt' \<le> length fmt"
  by (induction d fmt p args m arbitrary: rest rule: scan_conv.induct)
    (auto simp: readchar_def outcome_simps split: if_splits intro: le_SucI)

function doscan :: "byte list \<Rightarrow> addr \<Rightarrow> u32 list \<Rightarrow> i32 \<Rightarrow> mem \<Rightarrow> (i32 \<times> mem) outcome" where
  "doscan fmt p args vals m =
     (case fmt of
        [] \<Rightarrow> Ret (vals, m)
      | f # fmt \<Rightarrow>
        if f \<noteq> 37 then
          if isspace (sx f) \<noteq> 0 then
            bnd (the_loop (scan_space m p)) (\<lambda>(c, p).
            if c = 0 then Ret (vals, m) else doscan fmt (unchar p) args vals m)
          else (case readchar m p of (c, p) \<Rightarrow> if sx f = c then doscan fmt p args vals m else Ret (vals, m))
        else
          bnd (scan_conv False fmt p args m) (\<lambda>(stop, discard, fmt, p, args, m).
          if stop then Ret (vals, m) else doscan fmt p args (if discard then vals else vals + 1) m))"
  by pat_completeness auto
termination
  by (relation "measure (\<lambda>(fmt, p, args, vals, m). length fmt)") (auto dest!: scan_conv_len)

declare doscan.simps [simp del]

definition vsscanf :: "addr \<Rightarrow> byte list \<Rightarrow> u32 list \<Rightarrow> mem \<Rightarrow> (i32 \<times> mem) outcome" where
  "vsscanf s fmt args m = doscan fmt s args 0 m"

definition sscanf :: "addr \<Rightarrow> byte list \<Rightarrow> u32 list \<Rightarrow> mem \<Rightarrow> (i32 \<times> mem) outcome" where
  "sscanf s fmt args m = vsscanf s fmt args m"

end
