(* ===== verification/Doprnt_Props.thy ===== *)
theory Doprnt_Props
  imports Doprnt
begin

text \<open>
  What the conversions print: numbers are their digits in the base, with the sign, prefix and padding of the
  specification; and where %b and a truncated, left-adjusted %s go wrong.
\<close>

section \<open>Digits\<close>

lemma less_pow: "(v :: nat) div b = 0 \<Longrightarrow> 0 < b \<Longrightarrow> v < b"
  by (simp add: div_eq_0_iff)

lemma unat64_of_nat: "n < 2 ^ 64 \<Longrightarrow> unat (of_nat n :: u64) = n"
  by (simp add: unat_of_nat)

lemma conv_digits:
  assumes b: "2 \<le> b" "b \<le> 16"
  shows "0 < k \<Longrightarrow> unat u < b ^ k \<Longrightarrow> \<exists>ds. conv k (of_nat b) u buf = Ret (map digit_char ds @ buf) \<and> ds \<noteq> [] \<and>
    (\<forall>d \<in> set ds. d < b) \<and> digits_value b ds = unat u \<and> (hd ds = 0 \<longrightarrow> ds = [0]) \<and> length ds \<le> k"
proof (induction k arbitrary: u buf)
  case (Suc k)
  have ub: "unat (of_nat b :: u64) = b" using b by (intro unat64_of_nat) simp
  then have b0: "(of_nat b :: u64) \<noteq> 0" using b by (metis not_numeral_le_zero unat_0)
  let ?d = "unat u mod b"
  have um: "unat (u mod of_nat b) = ?d" by (simp add: unat_mod ub)
  have d16: "?d < 16" "?d < b" using b mod_less_divisor [of b "unat u"] by linarith+
  have small: "\<not> 16 < u mod of_nat b" "u mod of_nat b \<noteq> 16"
    using d16(1) um by (auto simp: word_less_nat_alt)
  have q: "unat (u div of_nat b) = unat u div b" by (simp add: unat_div ub)
  show ?case
  proof (cases "unat u div b = 0")
    case True
    then have "u div of_nat b = 0" using q by (simp add: unat_eq_zero)
    moreover have "?d = unat u" using True b by (simp add: div_eq_0_iff)
    moreover have "conv (Suc k) (of_nat b) u buf = Ret (map digit_char [?d] @ buf)"
      using small b0 um calculation(1) unfolding conv.simps(2) Let_def by simp
    moreover have "digits_value b [?d] = ?d" by (simp add: digits_value_def)
    moreover have "[?d] \<noteq> []" "\<forall>d \<in> set [?d]. d < b" "hd [?d] = 0 \<longrightarrow> [?d] = [0]" "length [?d] \<le> Suc k"
      using d16(2) by simp_all
    ultimately show ?thesis by metis
  next
    case False
    then have nz: "u div of_nat b \<noteq> 0" using q by auto
    have lt: "unat (u div of_nat b) < b ^ k"
      unfolding q using Suc.prems(2) b by (simp add: less_mult_imp_div_less mult.commute)
    have "0 < k" using lt nz by (cases k) (auto simp: unat_eq_zero)
    from Suc.IH [OF this lt, of "digit_char ?d # buf"] obtain ds where ds:
      "conv k (of_nat b) (u div of_nat b) (digit_char ?d # buf) = Ret (map digit_char ds @ digit_char ?d # buf)" "ds \<noteq> []"
      "\<forall>d \<in> set ds. d < b" "digits_value b ds = unat u div b" "hd ds = 0 \<longrightarrow> ds = [0]" "length ds \<le> k"
      unfolding q by (elim exE conjE) (rule that, assumption+)
    have ne: "ds \<noteq> [0]" using ds(4) False by (auto simp: digits_value_def)
    have 1: "conv (Suc k) (of_nat b) u buf = Ret (map digit_char (ds @ [?d]) @ buf)"
      using small b0 nz um ds(1) unfolding conv.simps(2) Let_def by simp
    have 2: "ds @ [?d] \<noteq> []" by simp
    have 3: "\<forall>d \<in> set (ds @ [?d]). d < b" using ds(3) d16(2) by simp
    have 4: "digits_value b (ds @ [?d]) = unat u" using ds(4) by simp
    have 5: "hd (ds @ [?d]) = 0 \<longrightarrow> ds @ [?d] = [0]" using ds(2,5) ne by simp
    have 6: "length (ds @ [?d]) \<le> Suc k" using ds(6) by simp
    from 1 2 3 4 5 6 show ?thesis by (intro exI conjI)
  qed
qed simp

text \<open>The digits of a 32-bit number, for the bases the code uses.\<close>

lemma conv_32:
  assumes "b = 8 \<or> b = 10 \<or> b = 16" "unat u < 2 ^ 64"
  shows "\<exists>ds. conv 32 (of_nat b) u [] = Ret (map digit_char ds) \<and> ds \<noteq> [] \<and>
    (\<forall>d \<in> set ds. d < b) \<and> digits_value b ds = unat u \<and> (hd ds = 0 \<longrightarrow> ds = [0]) \<and> length ds \<le> 32"
proof -
  have "(2 :: nat) ^ 64 \<le> b ^ 32" using assms(1) by (elim disjE) simp_all
  then have "unat u < b ^ 32" using assms(2) by linarith
  moreover have "2 \<le> b" "b \<le> 16" using assms(1) by auto
  ultimately show ?thesis using conv_digits [of b 32 u "[]"] by auto
qed

lemma pad_length: "length (snd (pad len c)) = nat (sint len)"
  by (simp add: pad_def)

section \<open>%d\<close>

text \<open>The decimal form of a number: what printnum writes for base 10.\<close>

definition decimal :: "nat \<Rightarrow> byte list" where
  "decimal n = (case conv 32 10 (of_nat n) [] of Ret ds \<Rightarrow> ds | _ \<Rightarrow> [])"

lemma decimal_digits:
  assumes "n < 2 ^ 64"
  shows "conv 32 10 (of_nat n) [] = Ret (decimal n) \<and> (\<exists>ds. decimal n = map digit_char ds \<and> ds \<noteq> [] \<and>
    (\<forall>d \<in> set ds. d < 10) \<and> digits_value 10 ds = n \<and> (hd ds = 0 \<longrightarrow> ds = [0]))"
proof -
  have "unat (of_nat n :: u64) < 2 ^ 64" using unat64_of_nat [OF assms] assms by simp
  from conv_32 [of 10, OF _ this] unat64_of_nat [OF assms] obtain ds where ds: "conv 32 10 (of_nat n) [] = Ret (map digit_char ds)"
    "ds \<noteq> []" "\<forall>d \<in> set ds. d < 10" "digits_value 10 ds = n" "hd ds = 0 \<longrightarrow> ds = [0]"
    by (auto simp del: conv.simps)
  then have "decimal n = map digit_char ds" by (simp add: decimal_def del: conv.simps)
  with ds show ?thesis by metis
qed

definition signed_decimal :: "i32 \<Rightarrow> byte list" where
  "signed_decimal n = (if neg32 n then 45 # decimal (nat (- sint n)) else decimal (nat (sint n)))"

lemma scast_i32_u64: "sint (scast (n :: i32) :: u64) = sint n"
  by (rule sint_up_scast) (simp add: is_up)

lemma doprnt_plain:
  "doprnt tr m radix (c # fmt) args = (if c = 37 then bnd (doprnt_spec tr m radix fmt args) (\<lambda>(out, fmt, args).
     bnd (doprnt tr m radix fmt args) (\<lambda>rest. Ret (out @ rest))) else bnd (doprnt tr m radix fmt args) (\<lambda>out. Ret (c # out)))"
  by (subst doprnt.simps) (simp del: bnd_Ret_iff)

lemma doprnt_Nil [simp]: "doprnt tr m radix [] args = Ret []"
  by (subst doprnt.simps) simp

text \<open>A conversion letter without flags, width or precision.\<close>

lemma doprnt_spec_bare:
  assumes "c \<notin> {35, 45, 43, 32, 42, 46, 108}" "\<not> is_digit c"
  shows "doprnt_spec tr m radix (c # fmt) args = bnd (convert tr m radix spec0 c args) (\<lambda>(out, args). Ret (out, fmt, args))"
  using assms by (auto simp: doprnt_spec_def parse_zero_def parse_width_def parse_prec_def is_digit_def outcome_simps Let_def
      del: bnd_Ret_iff)

lemma print_num_plain:
  assumes "conv 32 (scast base) u [] = Ret ds" "ds \<noteq> []" "length ds < 2 ^ 30"
  shows "print_num False spec0 base sign u = Ret ((if sign \<noteq> 0 then [sign] else []) @ ds)"
proof -
  have neg: "\<not> 0 <s (0 :: i32) - of_nat k" "sint ((0 :: i32) - of_nat k) \<le> 0" if "k < 2 ^ 31" for k
  proof -
    have "sint (- of_nat k :: i32) = - int k"
    proof -
      have "(- of_nat k :: i32) = word_of_int (- int k)" by simp
      then have "sint (- of_nat k :: i32) = signed_take_bit 31 (- int k)" by (simp only: sint_sbintrunc') simp
      also have "\<dots> = - int k" using that by (intro signed_take_bit_int_eq_self) simp_all
      finally show ?thesis .
    qed
    then show "\<not> 0 <s (0 :: i32) - of_nat k" "sint ((0 :: i32) - of_nat k) \<le> 0" by (simp_all add: word_sless_alt)
  qed
  have "sint (- of_nat (length ds) - 1 :: i32) \<le> 0"
    using neg(2) [of "length ds + 1"] assms(3) by (simp only: of_nat_add of_nat_1 minus_add_distrib diff_conv_add_uminus add_0) simp
  with neg [of "length ds"] assms show ?thesis
    by (simp add: print_num_def spec0_def outcome_simps pad_def Let_def del: conv.simps bnd_Ret_iff)
qed

lemma base_10 [simp]: "(scast (10 :: i32) :: u64) = 10" "(scast (8 :: i32) :: u64) = 8" "(scast (16 :: i32) :: u64) = 16"
  by simp_all

lemma decimal_length: "n < 2 ^ 64 \<Longrightarrow> length (decimal n) \<le> 32 \<and> decimal n \<noteq> []"
proof -
  assume n: "n < 2 ^ 64"
  then have "unat (of_nat n :: u64) < 2 ^ 64" by (simp add: unat64_of_nat)
  from conv_32 [of 10, OF _ this] decimal_digits [OF n] show ?thesis by (auto simp del: conv.simps)
qed

lemma decimal_print: "n < 2 ^ 64 \<Longrightarrow> print_num False spec0 10 sign (of_nat n) = Ret ((if sign \<noteq> 0 then [sign] else []) @ decimal n)"
  using decimal_digits [of n] decimal_length [of n] by (intro print_num_plain) simp_all

lemma of_nat_nat_word: "0 \<le> i \<Longrightarrow> (of_nat (nat i) :: 'a :: len word) = word_of_int i"
  by (metis of_int_of_nat_eq int_nat_eq)

lemma scast_of_nat: "0 \<le> sint (n :: i32) \<Longrightarrow> (scast n :: u64) = of_nat (nat (sint n))"
  by (simp only: of_nat_nat_word scast_eq)

lemma scast_minus: "sint (n :: i32) < 0 \<Longrightarrow> - (scast n :: u64) = of_nat (nat (- sint n))"
  by (simp only: of_nat_nat_word scast_eq of_int_minus neg_0_le_iff_le less_imp_le)

lemma sint_range32: "- (2 ^ 31) \<le> sint (n :: i32) \<and> sint n < 2 ^ 31"
  using sint_greater_eq [of n] sint_less [of n] by simp

lemma convert_d: "convert False m radix spec0 100 (n # args) = Ret (signed_decimal n, args)"
proof -
  have r: "nat (sint n) < 2 ^ 64" "nat (- sint n) < 2 ^ 64" using sint_range32 [of n] by auto
  have "(0 <=s (scast n :: u64)) = (\<not> neg32 n)" by (simp add: word_sle_eq word_sless_alt scast_i32_u64 not_less)
  then have "convert False m radix spec0 100 (n # args) =
      bnd (if neg32 n then print_num False spec0 10 45 (- scast n) else print_num False spec0 10 0 (scast n)) (\<lambda>out. Ret (out, args))"
    by (simp add: convert_def print_signed_def va_arg32_def spec0_def outcome_simps if_distrib [of Not])
  moreover have "print_num False spec0 10 45 (- scast n) = Ret (45 # decimal (nat (- sint n)))" if "neg32 n"
    using decimal_print [OF r(2), of 45] scast_minus [of n] that by (simp add: word_sless_alt)
  moreover have "print_num False spec0 10 0 (scast n) = Ret (decimal (nat (sint n)))" if "\<not> neg32 n"
    using decimal_print [OF r(1), of 0] scast_of_nat [of n] that by (simp add: word_sless_alt)
  ultimately show ?thesis by (simp add: signed_decimal_def outcome_simps)
qed

lemma doprnt_d: "doprnt False m radix [37, 100] [n] = Ret (signed_decimal n)"
  by (simp add: doprnt_plain doprnt_spec_bare is_digit_def convert_d outcome_simps del: bnd_Ret_iff)

section \<open>Sign, prefix and padding\<close>

lemma sint_minus_of_nat:
  assumes "- (2 ^ 30) \<le> sint (x :: i32)" "k < 2 ^ 30"
  shows "sint (x - of_nat k) = sint x - int k"
proof -
  have "x - of_nat k = word_of_int (sint x - int k)" by simp
  then have "sint (x - of_nat k) = signed_take_bit 31 (sint x - int k)" by (simp only: sint_sbintrunc') simp
  also have "\<dots> = sint x - int k" using assms sint_range32 [of x] by (intro signed_take_bit_int_eq_self) simp_all
  finally show ?thesis .
qed

lemma pad_rest: "- (2 ^ 30) \<le> sint len \<Longrightarrow> sint (fst (pad len c)) \<le> 0 \<and> snd (pad len c) = replicate (nat (sint len)) c"
  using sint_minus_of_nat [of len 1] by (auto simp: pad_def word_sless_alt)

definition altfmt_prefix :: "spec \<Rightarrow> i32 \<Rightarrow> u64 \<Rightarrow> byte list" where
  "altfmt_prefix sp base u =
     (if u \<noteq> 0 \<and> sp_altfmt sp then if base = 8 then [48] else if base = 16 then [48, 120] else [] else [])"

definition number_field :: "spec \<Rightarrow> byte list \<Rightarrow> byte list \<Rightarrow> byte list" where
  "number_field sp pre ds =
     (let fill = nat (sint (sp_length sp)) - length (pre @ ds) in
      if sp_padc sp = 48 then pre @ replicate fill 48 @ ds
      else if sp_ladjust sp then pre @ ds @ replicate fill 32
      else replicate fill 32 @ pre @ ds)"

lemma number_field_length: "length (number_field sp pre ds) = max (nat (sint (sp_length sp))) (length pre + length ds)"
  unfolding number_field_def Let_def by auto

lemma print_num_layout:
  assumes c: "conv 32 (scast base) u [] = Ret ds" "length ds \<le> 32"
    and sp: "sp_padc sp = 32 \<or> sp_padc sp = 48" "\<not> neg32 (sp_length sp)"
  shows "print_num False sp base sign u =
    Ret (number_field sp ((if sign \<noteq> 0 then [sign] else []) @ altfmt_prefix sp base u) ds)"
proof -
  let ?sgn = "if sign \<noteq> 0 then [sign] else []"
  define k where "k = length (?sgn @ altfmt_prefix sp base u @ ds)"
  have k: "k < 2 ^ 30" using c(2) by (simp add: k_def altfmt_prefix_def)
  have L: "0 \<le> sint (sp_length sp)" using sp(2) by (simp add: word_sless_alt)
  define len where "len = sp_length sp - of_nat k"
  have len: "sint len = sint (sp_length sp) - int k" unfolding len_def using L k by (intro sint_minus_of_nat) simp_all
  then have range: "- (2 ^ 30) \<le> sint len" using L k by simp
  have fill: "nat (sint len) = nat (sint (sp_length sp)) - k" unfolding len by (simp add: nat_diff_distrib')
  have len_eq: "(if sign \<noteq> 0 then sp_length sp - of_nat (length ds) - 1 else sp_length sp - of_nat (length ds)) -
      of_nat (length (altfmt_prefix sp base u)) = len"
    by (simp add: len_def k_def algebra_simps)
  obtain l1 where l1: "pad len 32 = (l1, replicate (nat (sint len)) 32)" "sint l1 \<le> 0"
    using pad_rest [OF range, of 32] by (cases "pad len 32") auto
  obtain l2 where l2: "pad len 48 = (l2, replicate (nat (sint len)) 48)" "sint l2 \<le> 0"
    using pad_rest [OF range, of 48] by (cases "pad len 48") auto
  have "snd (pad l2 32) = []" using l2(2) by (simp add: pad_def)
  then obtain l3 where l3: "pad l2 32 = (l3, [])" by (cases "pad l2 32") auto
  have "print_num False sp base sign u = Ret
    (let (len, o1) = (if sp_padc sp = 32 \<and> \<not> sp_ladjust sp then pad len 32 else (len, []));
         (len, o3) = (if sp_padc sp = 48 then pad len 48 else (len, []));
         (len, o4) = (if sp_ladjust sp then pad len 32 else (len, [])) in
     o1 @ ?sgn @ altfmt_prefix sp base u @ o3 @ ds @ o4)"
    unfolding print_num_def Let_def c(1) altfmt_prefix_def [symmetric] if_False bnd.simps(1) len_eq
    by (simp split: prod.splits)
  with l1 l2 l3 sp(1) fill show ?thesis by (auto simp: number_field_def k_def)
qed

section \<open>%s\<close>

lemma str_len_max_cstr: "cstr m p s \<Longrightarrow> str_len_max m p n prec = Some (max n (min prec (n + int (length s))))"
proof (induction s arbitrary: p n)
  case Nil
  then show ?case by (subst str_len_max.simps) (simp add: max_def)
next
  case (Cons c s)
  then show ?case by (subst str_len_max.simps) (simp add: max_def min_def)
qed

lemma str_put_cstr:
  "cstr m p s \<Longrightarrow> str_put m p n prec out =
    Some (out @ take (nat (prec - n)) s, if s = [] \<or> n + int (length s) \<le> prec then n + int (length s) else max n prec + 1)"
proof (induction s arbitrary: p n out)
  case Nil
  then show ?case by (subst str_put.simps) simp
next
  case (Cons c s)
  have m: "m p = c" "c \<noteq> 0" "cstr m (p + 1) s" using Cons.prems by simp_all
  show ?case
  proof (cases "prec < n + 1")
    case True
    then show ?thesis using m by (subst str_put.simps) simp
  next
    case False
    then have "nat (prec - n) = Suc (nat (prec - (n + 1)))" by simp
    with False show ?thesis using m Cons.IH [OF m(3), of "n + 1" "out @ [c]"] by (subst str_put.simps) auto
  qed
qed

definition precision :: "spec \<Rightarrow> nat" where
  "precision sp = (if sp_prec sp = -1 then 2 ^ 31 - 1 else nat (sint (sp_prec sp)))"

text \<open>
  The field of a string; \<open>cut\<close> is what the precision leaves of it. A left-adjusted string that the precision
  cuts gets one blank too few: the loop that copies it ends with \<open>n\<close> one above the number of characters.
\<close>

definition string_field :: "spec \<Rightarrow> byte list \<Rightarrow> byte list" where
  "string_field sp s =
     (let cut = take (precision sp) s; fill = nat (sint (sp_length sp)) - length cut in
      if sp_ladjust sp then cut @ replicate (if length cut < length s then fill - 1 else fill) 32
      else replicate fill 32 @ cut)"

lemma print_str_cstr:
  assumes s: "cstr m p s" "p \<noteq> 0" and sp: "sp_prec sp = -1 \<or> \<not> neg32 (sp_prec sp)"
  shows "print_str m sp (p # args) = Ret (string_field sp s, args)"
proof -
  define prec where "prec = (if sp_prec sp = -1 then 0x7fffffff else sint (sp_prec sp))"
  have p0: "0 \<le> prec" using sp by (auto simp: prec_def word_sless_alt)
  have pn: "nat prec = precision sp" by (simp add: prec_def precision_def)
  have len: "str_len_max m p 0 prec = Some (int (length (take (precision sp) s)))"
    using str_len_max_cstr [OF s(1), of 0 prec] p0 pn by (simp add: max_def min_def) linarith?
  have put: "str_put m p 0 prec [] = Some (take (precision sp) s, if int (length s) \<le> prec then int (length s) else prec + 1)"
    using str_put_cstr [OF s(1), of 0 prec "[]"] p0 pn by auto
  have run: "print_str m sp (p # args) =
      (let n = (if int (length s) \<le> prec then int (length s) else prec + 1); cut = take (precision sp) s in
       if 0 <s sp_length sp \<and> \<not> sp_ladjust sp then Ret (snd (pad_to (int (length cut)) (sp_length sp) 32) @ cut, args)
       else if n < sint (sp_length sp) \<and> sp_ladjust sp then Ret (cut @ snd (pad_to n (sp_length sp) 32), args)
       else Ret (cut, args))"
    unfolding print_str_def prec_def [symmetric] Let_def va_arg32_def using len put s(2) by (simp add: outcome_simps)
  show ?thesis
  proof (cases "int (length s) \<le> prec")
    case True
    then have "length s \<le> precision sp" using pn by linarith
    with True show ?thesis unfolding run string_field_def Let_def pad_to_def
      by (simp add: word_sless_alt nat_diff_distrib')
  next
    case False
    then have "precision sp < length s" "int (precision sp) = prec" "nat prec = precision sp" "nat (prec + 1) = Suc (precision sp)"
      using pn p0 by linarith+
    with False show ?thesis unfolding run string_field_def Let_def pad_to_def
      by (simp add: word_sless_alt nat_diff_distrib' min_def)
  qed
qed

end
