(* ===== verification/String_Copy.thy ===== *)
theory String_Copy
  imports String_Props Malloc_Props
begin

text \<open>
  The string functions that write: what \<open>strcpy\<close>, \<open>strcat\<close>, \<open>strncpy\<close>, \<open>strncat\<close> and \<open>strdup\<close> leave in memory,
  and \<open>strtok\<close> as a tokeniser.
\<close>

section \<open>Writing a list of bytes\<close>

fun write_bytes :: "addr \<Rightarrow> byte list \<Rightarrow> mem \<Rightarrow> mem" where
  "write_bytes a [] m = m"
| "write_bytes a (x # xs) m = write_bytes (a + 1) xs (m(a := x))"

lemma write_bytes_out: "length xs < 2 ^ 32 \<Longrightarrow> b \<notin> area a (length xs) \<Longrightarrow> write_bytes a xs m b = m b"
proof (induction xs arbitrary: a m)
  case (Cons x xs)
  then have "length xs < 2 ^ 32" by simp
  with Cons area_Suc [OF this, of a] show ?case by auto
qed simp

lemma write_bytes_append: "write_bytes a (xs @ ys) m = write_bytes (a + of_nat (length xs)) ys (write_bytes a xs m)"
  by (induction xs arbitrary: a m) (simp_all add: ac_simps)

lemma cstr_write: "length s + 1 < 2 ^ 32 \<Longrightarrow> 0 \<notin> set s \<Longrightarrow> cstr (write_bytes a (s @ [0]) m) a s"
proof (induction s arbitrary: a m)
  case (Cons x s)
  have "write_bytes (a + 1) (s @ [0]) (m(a := x)) a = (m(a := x)) a"
    using Cons.prems(1) area_first [of "length s + 1" a] by (intro write_bytes_out) auto
  with Cons show ?case by auto
qed simp

lemma cstr_write_at:
  "length s + length t + 1 < 2 ^ 32 \<Longrightarrow> cstr m a s \<Longrightarrow> 0 \<notin> set t \<Longrightarrow>
   cstr (write_bytes (a + of_nat (length s)) (t @ [0]) m) a (s @ t)"
proof (induction s arbitrary: a)
  case Nil
  then show ?case using cstr_write [of t a m] by simp
next
  case (Cons x s)
  let ?m = "write_bytes (a + of_nat (length (x # s))) (t @ [0]) m"
  have e: "a + of_nat (length (x # s)) = a + 1 + of_nat (length s)" by simp
  have "a \<notin> area (a + of_nat (length (x # s))) (length (t @ [0]))"
  proof -
    let ?k = "length (x # s)"
    have k: "0 < ?k" "?k + length (t @ [0]) < 2 ^ 32 + 1" using Cons.prems(1) by simp_all
    have "a - (a + of_nat ?k) = - of_nat ?k" by simp
    moreover have "(- of_nat ?k :: addr) = of_nat (2 ^ 32 - ?k)" using k by (subst of_nat_diff) simp_all
    then have "unat (- of_nat ?k :: addr) = 2 ^ 32 - ?k" using k by (simp only: unat_of_nat) simp
    ultimately show ?thesis using k by (simp add: area_def)
  qed
  then have "?m a = m a" using Cons.prems(1) by (intro write_bytes_out) auto
  moreover have "cstr ?m (a + 1) (s @ t)" unfolding e using Cons.prems by (intro Cons.IH) auto
  ultimately show ?case using Cons.prems(2) by simp
qed

section \<open>strcpy, strcat, strncpy, strncat\<close>

lemma strcpy_loop_cstr:
  "cstr m from s \<Longrightarrow> area from (Suc (length s)) \<inter> area to (Suc (length s)) = {} \<Longrightarrow> length s + 1 < 2 ^ 32 \<Longrightarrow>
   strcpy_loop to from m = Some (write_bytes to (s @ [0]) m)"
proof (induction s arbitrary: to "from" m)
  case Nil
  then show ?case by (subst strcpy_loop.simps) (simp add: Let_def)
next
  case (Cons c s)
  have af: "area a (Suc (length (c # s))) = insert a (area (a + 1) (Suc (length s)))" for a
    using Cons.prems(3) by (subst area_Suc) simp_all
  have dis: "area (from + 1) (Suc (length s)) \<inter> area (to + 1) (Suc (length s)) = {}" "to \<notin> area (from + 1) (Suc (length s))"
    using Cons.prems(2) unfolding af by blast+
  have "cstr (m(to := c)) (from + 1) s"
    by (rule cstr_cong [of "from + 1" s _ m]) (use Cons.prems dis(2) in auto)
  from Cons.IH [OF this dis(1)] Cons.prems(1,3) show ?case by (subst strcpy_loop.simps) (simp add: Let_def del: fun_upd_apply)
qed

lemma strcpy_cstr:
  assumes "cstr m from s" "area from (Suc (length s)) \<inter> area to (Suc (length s)) = {}" "length s + 1 < 2 ^ 32"
  shows "strcpy to from m = Some (to, write_bytes to (s @ [0]) m)"
  using strcpy_loop_cstr [OF assms] by (simp add: strcpy_def)

lemma str_end_cstr: "cstr m a s \<Longrightarrow> str_end m a = Some (a + of_nat (length s))"
proof (induction s arbitrary: a)
  case Nil
  then show ?case by (subst str_end.simps) simp
next
  case (Cons c s)
  then show ?case by (subst str_end.simps) (simp add: ac_simps)
qed

lemma area_sub: "k + n \<le> j \<Longrightarrow> j \<le> 2 ^ 32 \<Longrightarrow> area (a + of_nat k) n \<subseteq> area a j"
proof
  fix b assume kn: "k + n \<le> j" "j \<le> 2 ^ 32" and b: "b \<in> area (a + of_nat k) n"
  define x where "x = b - (a + of_nat k)"
  have x: "unat x < n" using b by (simp add: area_def x_def)
  have "b - a = x + of_nat k" by (simp add: x_def)
  moreover have "unat (x + of_nat k) = unat x + k" using x kn by (intro unat_add_small) simp
  ultimately show "b \<in> area a j" using x kn by (simp add: area_def)
qed

lemma strcat_cstr:
  assumes s: "cstr m a s" "cstr m b t" and sz: "length s + length t + 1 < 2 ^ 32"
    and dis: "area b (Suc (length t)) \<inter> area a (Suc (length s + length t)) = {}"
  shows "strcat a b m = Some (a, write_bytes (a + of_nat (length s)) (t @ [0]) m)"
proof -
  have "area b (Suc (length t)) \<inter> area (a + of_nat (length s)) (Suc (length t)) = {}"
    using dis area_sub [of "length s" "Suc (length t)" "Suc (length s + length t)" a] sz by auto
  from strcpy_loop_cstr [OF s(2) this] sz show ?thesis by (simp add: strcat_def str_end_cstr [OF s(1)])
qed

lemma strncpy_fill_write: "strncpy_fill to n m = write_bytes to (replicate n 0) m"
  by (induction n arbitrary: to m) simp_all

lemma strncpy_loop_cstr:
  "cstr m from s \<Longrightarrow> area from (Suc (length s)) \<inter> area to n = {} \<Longrightarrow> length s + 1 < 2 ^ 32 \<Longrightarrow> n < 2 ^ 32 \<Longrightarrow>
   strncpy_loop to from n m = write_bytes to (take n s @ replicate (n - length s) 0) m"
proof (induction n arbitrary: to "from" m s)
  case (Suc n)
  show ?case
  proof (cases s)
    case Nil
    with Suc.prems show ?thesis by (simp add: Let_def strncpy_fill_write)
  next
    case (Cons c s')
    have at: "area to (Suc n) = insert to (area (to + 1) n)" using Suc.prems(4) by (subst area_Suc) simp_all
    have af: "area from (Suc (length s)) = insert from (area (from + 1) (Suc (length s')))"
      using Suc.prems(3) Cons by (subst area_Suc) simp_all
    have dis: "area (from + 1) (Suc (length s')) \<inter> area (to + 1) n = {}" "to \<notin> area (from + 1) (Suc (length s'))"
      using Suc.prems(2) unfolding at af by blast+
    have "cstr (m(to := c)) (from + 1) s'"
      by (rule cstr_cong [of "from + 1" s' _ m]) (use Suc.prems dis(2) Cons in auto)
    from Suc.IH [OF this dis(1)] Suc.prems Cons show ?thesis by (simp add: Let_def del: fun_upd_apply)
  qed
qed simp

lemma strncpy_cstr:
  assumes "cstr m from s" "area from (Suc (length s)) \<inter> area to n = {}" "length s + 1 < 2 ^ 32" "n < 2 ^ 31"
  shows "strncpy to from (of_nat n) m = (to, write_bytes to (take n s @ replicate (n - length s) 0) m)"
  using strncpy_loop_cstr [OF assms(1-3)] assms(4) by (simp add: strncpy_def sint_of_nat32)

lemma strncat_loop_cstr:
  "cstr m from s \<Longrightarrow> area from (Suc (length s)) \<inter> area d (Suc n) = {} \<Longrightarrow> length s + 1 < 2 ^ 32 \<Longrightarrow> n + 1 < 2 ^ 32 \<Longrightarrow>
   strncat_loop d from n m = write_bytes d (take n s @ [0]) m"
proof (induction n arbitrary: d "from" m s)
  case (Suc n)
  show ?case
  proof (cases s)
    case Nil
    with Suc.prems show ?thesis by (simp add: Let_def)
  next
    case (Cons c s')
    have at: "area d (Suc (Suc n)) = insert d (area (d + 1) (Suc n))" using Suc.prems(4) by (subst area_Suc) simp_all
    have af: "area from (Suc (length s)) = insert from (area (from + 1) (Suc (length s')))"
      using Suc.prems(3) Cons by (subst area_Suc) simp_all
    have dis: "area (from + 1) (Suc (length s')) \<inter> area (d + 1) (Suc n) = {}" "d \<notin> area (from + 1) (Suc (length s'))"
      using Suc.prems(2) unfolding at af by blast+
    have "cstr (m(d := c)) (from + 1) s'"
      by (rule cstr_cong [of "from + 1" s' _ m]) (use Suc.prems dis(2) Cons in auto)
    from Suc.IH [OF this dis(1)] Suc.prems Cons show ?thesis by (simp add: Let_def del: fun_upd_apply)
  qed
qed simp

section \<open>strtok\<close>

lemma strtok_skip_cstr:
  "cstr m a s \<Longrightarrow> cstr m q ds \<Longrightarrow> strtok_skip m a q = Some (a + of_nat (length (takeWhile (\<lambda>x. x \<in> set ds) s)))"
proof (induction s arbitrary: a)
  case Nil
  then show ?case using cstr_nz [of m q ds] by (subst strtok_skip.simps) (simp add: span_in_cstr)
next
  case (Cons x s)
  then show ?case by (subst strtok_skip.simps) (simp add: span_in_cstr ac_simps)
qed

lemma strtok_scan_cstr:
  "cstr m a s \<Longrightarrow> cstr m q ds \<Longrightarrow> strtok_scan m a q =
    (let n = length (takeWhile (\<lambda>x. x \<notin> set ds) s) in
     if n = length s then Some (0, m) else Some (a + of_nat n + 1, m(a + of_nat n := 0)))"
proof (induction s arbitrary: a)
  case Nil
  then show ?case by (subst strtok_scan.simps) (simp add: span_or_nul_cstr)
next
  case (Cons x s)
  then show ?case by (subst strtok_scan.simps) (simp add: span_or_nul_cstr Let_def ac_simps)
qed

lemma tokens_shrink:
  "dropWhile (\<lambda>x. x \<in> D) s \<noteq> [] \<Longrightarrow> length (tl (dropWhile (\<lambda>x. x \<notin> D) (dropWhile (\<lambda>x. x \<in> D) s))) < length s"
proof -
  let ?b = "dropWhile (\<lambda>x. x \<in> D) s"
  assume b: "?b \<noteq> []"
  have "length (dropWhile (\<lambda>x. x \<notin> D) ?b) \<le> length ?b" by (rule length_dropWhile_le)
  moreover have "length ?b \<le> length s" by (rule length_dropWhile_le)
  moreover have "0 < length s" using b by auto
  ultimately have "length (dropWhile (\<lambda>x. x \<notin> D) ?b) - 1 < length s" by linarith
  then show ?thesis by (simp only: length_tl)
qed

text \<open>The tokens of a string: its maximal runs of bytes outside the set.\<close>

function tokens :: "byte set \<Rightarrow> byte list \<Rightarrow> byte list list" where
  "tokens D s =
     (let b = dropWhile (\<lambda>x. x \<in> D) s in
      if b = [] then [] else takeWhile (\<lambda>x. x \<notin> D) b # tokens D (tl (dropWhile (\<lambda>x. x \<notin> D) b)))"
  by auto
termination
proof (relation "measure (\<lambda>(D, s). length s)")
  fix D :: "byte set" and s b assume "b = dropWhile (\<lambda>x. x \<in> D) s" "b \<noteq> []"
  with tokens_shrink [of D s] show "((D, tl (dropWhile (\<lambda>x. x \<notin> D) b)), D, s) \<in> measure (\<lambda>(D, s). length s)"
    by (simp only: in_measure split_conv simp_thms)
qed simp

declare tokens.simps [simp del]

text \<open>The loop of a client: \<open>for (t = strtok(s, d); t; t = strtok(NULL, d))\<close>, with fuel.\<close>

fun strtok_all :: "nat \<Rightarrow> addr \<Rightarrow> addr \<Rightarrow> addr \<Rightarrow> mem \<Rightarrow> (addr list \<times> mem) option" where
  "strtok_all 0 s q l m = None"
| "strtok_all (Suc k) s q l m =
     (case strtok s q l m of None \<Rightarrow> None
      | Some (t, l', m') \<Rightarrow> if t = 0 then Some ([], m') else map_option (\<lambda>(ts, m''). (t # ts, m'')) (strtok_all k 0 q l' m'))"

text \<open>One call that finds a token.\<close>

lemma strtok_one:
  assumes s: "cstr m a s" and q: "cstr m q ds" and b: "dropWhile (\<lambda>x. x \<in> set ds) s = b" "b \<noteq> []"
    and a: "a \<noteq> 0" and sl: "sl = a \<or> sl = 0 \<and> l = a"
  defines "t \<equiv> a + of_nat (length s - length b)" and "n \<equiv> length (takeWhile (\<lambda>x. x \<notin> set ds) b)"
  shows "strtok sl q l m = Some (t, if n = length b then (0, m) else (t + of_nat n + 1, m(t + of_nat n := 0)))"
proof -
  have e: "s = takeWhile (\<lambda>x. x \<in> set ds) s @ b" using b(1) by (metis takeWhile_dropWhile_id)
  then have k: "length s - length b = length (takeWhile (\<lambda>x. x \<in> set ds) s)" by (metis add_diff_cancel_right' length_append)
  from s e have cb: "cstr m t b" unfolding t_def k by (metis cstr_drop)
  obtain c b' where bc: "b = c # b'" using b(2) by (cases b) auto
  have c: "c \<notin> set ds" using b bc hd_dropWhile [of "\<lambda>x. x \<in> set ds" s] by auto
  from cb bc have cb': "cstr m (t + 1) b'" and mt: "m t = c" "c \<noteq> 0" by simp_all
  have sk: "strtok_skip m a q = Some t" using strtok_skip_cstr [OF s q] by (simp add: t_def k)
  let ?n' = "length (takeWhile (\<lambda>x. x \<notin> set ds) b')"
  have n: "n = Suc ?n'" using c by (simp add: n_def bc)
  have sc: "strtok_scan m (t + 1) q = Some (if n = length b then (0, m) else (t + of_nat n + 1, m(t + of_nat n := 0)))"
    using strtok_scan_cstr [OF cb' q] by (simp add: n bc Let_def ac_simps)
  have "(if sl = 0 then l else sl) = a" using sl a by auto
  then show ?thesis using sk sc mt a by (simp add: strtok_def Let_def del: fun_upd_apply split: prod.splits)
qed

lemma strtok_none:
  assumes "cstr m a s" "cstr m q ds" "dropWhile (\<lambda>x. x \<in> set ds) s = []" "a \<noteq> 0" "sl = a \<or> sl = 0 \<and> l = a"
  shows "strtok sl q l m = Some (0, 0, m)"
proof -
  have e: "takeWhile (\<lambda>x. x \<in> set ds) s = s" using assms(3) by (metis append_Nil2 takeWhile_dropWhile_id)
  have "strtok_skip m a q = Some (a + of_nat (length s))" using strtok_skip_cstr [OF assms(1,2)] unfolding e .
  moreover have "m (a + of_nat (length s)) = 0" by (rule cstr_end [OF assms(1)])
  ultimately show ?thesis using assms(4,5) by (auto simp: strtok_def Let_def)
qed

lemma strtok_NULL: "strtok 0 q 0 m = Some (0, 0, m)"
  by (simp add: strtok_def)

lemma area_next: "j + k \<le> 2 ^ 32 \<Longrightarrow> area t j \<inter> area (t + of_nat j) k = {}"
proof -
  assume jk: "j + k \<le> 2 ^ 32"
  have "b \<notin> area t j" if b: "b \<in> area (t + of_nat j) k" for b
  proof -
    define x where "x = b - (t + of_nat j)"
    have x: "unat x < k" using b by (simp add: area_def x_def)
    have "b - t = x + of_nat j" by (simp add: x_def)
    moreover have "unat (x + of_nat j) = unat x + j" using x jk by (intro unat_add_small) simp
    ultimately show ?thesis by (simp add: area_def)
  qed
  then show ?thesis by blast
qed

lemma area_offset: "i < n \<Longrightarrow> n \<le> 2 ^ 32 \<Longrightarrow> a + of_nat i \<in> area a n"
  by (simp add: area_def unat_of_nat)

lemma area_offset_iff: "i < 2 ^ 32 \<Longrightarrow> a + of_nat i \<in> area a n \<longleftrightarrow> i < n"
  by (simp add: area_def unat_of_nat)

lemma cstr_cut:
  assumes "cstr m a (s @ d # r)" "length s + length r + 2 \<le> 2 ^ 32"
  shows "cstr (m(a + of_nat (length s) := 0)) a s" "cstr (m(a + of_nat (length s) := 0)) (a + of_nat (length s) + 1) r"
proof -
  let ?k = "length s" and ?m = "m(a + of_nat (length s) := 0)"
  show "cstr ?m (a + of_nat ?k + 1) r"
  proof (rule cstr_cong [of _ _ _ m])
    show "cstr m (a + of_nat ?k + 1) r" using cstr_drop [OF assms(1)] by simp
    fix b assume "b \<in> area (a + of_nat ?k + 1) (Suc (length r))"
    then show "?m b = m b" using area_first [of "Suc (length r)" "a + of_nat ?k"] assms(2) by auto
  qed (use assms(2) in simp)
  have "cstr m' a s" if "\<And>i. i < ?k \<Longrightarrow> m' (a + of_nat i) = m (a + of_nat i)" "m' (a + of_nat ?k) = 0" for m'
    using assms(1) that
  proof (induction s arbitrary: a)
    case (Cons x s)
    have "m' (a + 1 + of_nat i) = m (a + 1 + of_nat i)" if "i < length s" for i
      using Cons.prems(2) [of "Suc i"] that by (simp add: ac_simps)
    moreover have "m' (a + 1 + of_nat (length s)) = 0" using Cons.prems(3) by (simp add: ac_simps)
    ultimately have "cstr m' (a + 1) s" using Cons by simp
    with Cons.prems(1) Cons.prems(2) [of 0] show ?case by simp
  qed simp
  moreover have "?m (a + of_nat i) = m (a + of_nat i)" if "i < ?k" for i
  proof -
    have "(of_nat i :: addr) \<noteq> of_nat ?k" using that assms(2) W_eq_iff [of i ?k] by (simp add: W_def)
    then show ?thesis by simp
  qed
  ultimately show "cstr ?m a s" by simp
qed

text \<open>The whole loop of a client gives the tokens.\<close>

lemma list_all2_cstr_cong:
  assumes "list_all2 (cstr m) ps ts"
    and "\<And>p t b. (p, t) \<in> set (zip ps ts) \<Longrightarrow> b \<in> area p (Suc (length t)) \<Longrightarrow> m' b = m b"
    and "\<And>t. t \<in> set ts \<Longrightarrow> length t < 2 ^ 32"
  shows "list_all2 (cstr m') ps ts"
proof -
  from assms(1) have l: "length ps = length ts" and c: "\<And>p t. (p, t) \<in> set (zip ps ts) \<Longrightarrow> cstr m p t"
    by (auto simp: list_all2_iff)
  have "cstr m' p t" if "(p, t) \<in> set (zip ps ts)" for p t
  proof (rule cstr_cong [OF _ _ c [OF that]])
    show "length t < 2 ^ 32" using assms(3) set_zip_rightD [OF that] by blast
  qed (use assms(2) that in blast)
  with l show ?thesis by (auto simp: list_all2_iff)
qed

lemma strtok_first:
  assumes "cstr m a s" "cstr m q ds" "length s + 1 < 2 ^ 32" "length ds + 1 < 2 ^ 32"
    and "0 \<notin> area a (Suc (length s))" "area q (Suc (length ds)) \<inter> area a (Suc (length s)) = {}"
    and "sl = a \<or> sl = 0 \<and> l = a"
    and b: "dropWhile (\<lambda>x. x \<in> set ds) s = tok @ rest" "tok = takeWhile (\<lambda>x. x \<notin> set ds) (tok @ rest)" "tok \<noteq> []"
  shows "\<exists>t l1 m1. strtok sl q l m = Some (t, l1, m1) \<and> t \<noteq> 0 \<and> cstr m1 t tok \<and> cstr m1 q ds \<and>
    (\<forall>b. b \<notin> area a (Suc (length s)) \<longrightarrow> m1 b = m b) \<and>
    (rest = [] \<and> l1 = 0 \<or> rest \<noteq> [] \<and> cstr m1 l1 (tl rest) \<and> area l1 (Suc (length (tl rest))) \<subseteq> area a (Suc (length s)) \<and>
       area t (Suc (length tok)) \<inter> area l1 (Suc (length (tl rest))) = {} \<and> length (tl rest) + 1 < length s)"
proof -
  have a0: "a \<noteq> 0" using assms(5) area_head [of "Suc (length s)" a] by auto
  let ?b = "tok @ rest"
  define i where "i = length s - length ?b"
  define n where "n = length tok"
  let ?t = "a + of_nat i"
  have e: "s = takeWhile (\<lambda>x. x \<in> set ds) s @ ?b" by (metis b(1) takeWhile_dropWhile_id)
  have il: "i = length (takeWhile (\<lambda>x. x \<in> set ds) s)" unfolding i_def by (metis add_diff_cancel_right' e length_append)
  have cb: "cstr m ?t ?b" using assms(1) e unfolding il by (metis cstr_drop)
  have len: "length s = i + n + length rest" using e by (metis il n_def add.assoc length_append)
  have one: "strtok sl q l m = Some (?t, if n = length ?b then (0, m) else (?t + of_nat n + 1, m(?t + of_nat n := 0)))"
    using strtok_one [OF assms(1,2) refl _ a0 assms(7)] b by (simp add: i_def n_def)
  have t0: "?t \<noteq> 0" using assms(3,5) area_offset [of i "Suc (length s)" a] len by auto
  show ?thesis
  proof (cases rest)
    case Nil
    with one cb t0 assms(2) show ?thesis by (simp add: n_def)
  next
    case (Cons d r)
    let ?m = "m(?t + of_nat n := 0)" and ?a = "?t + of_nat n + 1"
    have aeq: "?a = a + of_nat (i + n + 1)" "?t + of_nat n = a + of_nat (i + n)" "?a = ?t + of_nat (n + 1)"
      by (simp_all add: ac_simps)
    have sub: "area ?a (Suc (length r)) \<subseteq> area a (Suc (length s))"
      unfolding aeq(1) using assms(3) len Cons by (intro area_sub) simp_all
    have tn: "?t + of_nat n \<in> area a (Suc (length s))"
      unfolding aeq(2) using assms(3) len by (intro area_offset) simp_all
    have cut: "cstr ?m ?t tok" "cstr ?m ?a r"
      using cstr_cut [of m ?t tok d r] cb Cons assms(3) len by (simp_all add: n_def)
    have cq: "cstr ?m q ds" by (rule cstr_cong [OF _ _ assms(2)]) (use assms(4,6) tn in auto)
    have ap: "area ?t (Suc n) \<inter> area ?a (Suc (length r)) = {}"
      using area_next [of "n + 1" "Suc (length r)" ?t] assms(3) len Cons unfolding aeq(3) by simp
    have "0 < n" using b(3) by (simp add: n_def)
    moreover have "strtok sl q l m = Some (?t, ?a, ?m)" using one Cons by (simp add: n_def)
    moreover have "\<forall>b. b \<notin> area a (Suc (length s)) \<longrightarrow> ?m b = m b" using tn by auto
    ultimately show ?thesis
      using t0 cut cq sub ap len Cons
      by (intro exI [of _ ?t] exI [of _ ?a] exI [of _ ?m] conjI disjI2) (simp_all add: n_def)
  qed
qed

lemma tokens_first:
  assumes "dropWhile (\<lambda>x. x \<in> D) s \<noteq> []"
  shows "\<exists>tok rest. dropWhile (\<lambda>x. x \<in> D) s = tok @ rest \<and> tok = takeWhile (\<lambda>x. x \<notin> D) (tok @ rest) \<and> tok \<noteq> [] \<and>
    tokens D s = tok # tokens D (tl rest)"
proof -
  let ?b = "dropWhile (\<lambda>x. x \<in> D) s"
  have "hd ?b \<notin> D" using hd_dropWhile [OF assms] by simp
  then have "takeWhile (\<lambda>x. x \<notin> D) ?b \<noteq> []" using assms by (cases ?b) auto
  moreover have "tokens D s = takeWhile (\<lambda>x. x \<notin> D) ?b # tokens D (tl (dropWhile (\<lambda>x. x \<notin> D) ?b))"
    using assms by (subst tokens.simps) (simp add: Let_def)
  ultimately show ?thesis
    by (intro exI [of _ "takeWhile (\<lambda>x. x \<notin> D) ?b"] exI [of _ "dropWhile (\<lambda>x. x \<notin> D) ?b"]) simp
qed

lemma strtok_all_tokens:
  assumes "cstr m a s" "cstr m q ds" "length s + 1 < 2 ^ 32" "length ds + 1 < 2 ^ 32"
    and "0 \<notin> area a (Suc (length s))" "area q (Suc (length ds)) \<inter> area a (Suc (length s)) = {}"
    and "sl = a \<or> sl = 0 \<and> l = a" "length s < k"
  shows "\<exists>ps m'. strtok_all k sl q l m = Some (ps, m') \<and> list_all2 (cstr m') ps (tokens (set ds) s) \<and>
    (\<forall>b. b \<notin> area a (Suc (length s)) \<longrightarrow> m' b = m b)"
  using assms
proof (induction k arbitrary: a s sl l m)
  case (Suc k)
  have a0: "a \<noteq> 0" using Suc.prems(5) area_head [of "Suc (length s)" a] by auto
  show ?case
  proof (cases "dropWhile (\<lambda>x. x \<in> set ds) s = []")
    case True
    with strtok_none [OF Suc.prems(1,2) True a0 Suc.prems(7)] show ?thesis by (simp add: tokens.simps)
  next
    case False
    from tokens_first [OF this] obtain tok rest where
      b: "dropWhile (\<lambda>x. x \<in> set ds) s = tok @ rest" "tok = takeWhile (\<lambda>x. x \<notin> set ds) (tok @ rest)" "tok \<noteq> []"
      and tk: "tokens (set ds) s = tok # tokens (set ds) (tl rest)" by blast
    from strtok_first [OF Suc.prems(1-7) b] obtain t l1 m1 where
      st: "strtok sl q l m = Some (t, l1, m1)" "t \<noteq> 0" "cstr m1 t tok" "cstr m1 q ds"
        "\<forall>b. b \<notin> area a (Suc (length s)) \<longrightarrow> m1 b = m b"
      and next_tok: "rest = [] \<and> l1 = 0 \<or> rest \<noteq> [] \<and> cstr m1 l1 (tl rest) \<and>
        area l1 (Suc (length (tl rest))) \<subseteq> area a (Suc (length s)) \<and>
        area t (Suc (length tok)) \<inter> area l1 (Suc (length (tl rest))) = {} \<and> length (tl rest) + 1 < length s" by blast
    have tl: "length tok < 2 ^ 32" using b(1) length_dropWhile_le [of "\<lambda>x. x \<in> set ds" s] Suc.prems(3) by simp
    show ?thesis
    proof (cases "rest = []")
      case True
      have "0 < length s" using b(1,3) by (cases s) auto
      then obtain k' where "k = Suc k'" using Suc.prems(8) by (cases k) auto
      with True st tk next_tok show ?thesis
        by (intro exI [of _ "[t]"] exI [of _ m1]) (simp add: strtok_NULL tokens.simps)
    next
      case False
      with next_tok have n: "cstr m1 l1 (tl rest)" "area l1 (Suc (length (tl rest))) \<subseteq> area a (Suc (length s))"
        "area t (Suc (length tok)) \<inter> area l1 (Suc (length (tl rest))) = {}" "length (tl rest) + 1 < length s" by blast+
      have p: "length (tl rest) + 1 < 2 ^ 32" "0 \<notin> area l1 (Suc (length (tl rest)))"
        "area q (Suc (length ds)) \<inter> area l1 (Suc (length (tl rest))) = {}" "length (tl rest) < k"
        using Suc.prems(3,5,6,8) n(2,4) by auto
      from Suc.IH [OF n(1) st(4) p(1) Suc.prems(4) p(2,3) disjI2 [OF conjI [OF refl refl]] p(4)] obtain ps m' where
        r: "strtok_all k 0 q l1 m1 = Some (ps, m')" "list_all2 (cstr m') ps (tokens (set ds) (tl rest))"
        "\<And>b. b \<notin> area l1 (Suc (length (tl rest))) \<Longrightarrow> m' b = m1 b" by blast
      have "cstr m' t tok" by (rule cstr_cong [OF _ tl st(3)]) (use r(3) n(3) in blast)
      moreover have "m' b = m b" if "b \<notin> area a (Suc (length s))" for b using that r(3) [of b] n(2) st(5) by auto
      ultimately show ?thesis using r(1,2) st(1,2) tk by (intro exI [of _ "t # ps"] exI [of _ m']) simp
    qed
  qed
qed simp

section \<open>strdup\<close>

lemma area_payload:
  assumes "p \<le> unat a" "unat a + n \<le> p + l" "p + l < 2 ^ 32" "b \<in> area a n"
  shows "p \<le> unat b \<and> unat b < p + l"
proof -
  have "b = a + (b - a)" by simp
  moreover have "unat a + unat (b - a) < 2 ^ 32" using assms by (simp add: area_def)
  ultimately have "unat b = unat a + unat (b - a)" by (metis unat_add_small W_def W_unat)
  with assms show ?thesis by (simp add: area_def)
qed

lemma area_unat: "b \<in> area a n \<Longrightarrow> unat a + n \<le> 2 ^ 32 \<Longrightarrow> unat a \<le> unat b \<and> unat b < unat a + n"
  using offset_less [of a n b] by (simp add: area_def)

lemma area_apart:
  assumes "unat a + n \<le> unat b \<or> unat b + k \<le> unat a" "unat a + n \<le> 2 ^ 32" "unat b + k \<le> 2 ^ 32"
  shows "area a n \<inter> area b k = {}"
proof (rule equals0I)
  fix x assume "x \<in> area a n \<inter> area b k"
  then have "unat a \<le> unat x \<and> unat x < unat a + n" "unat b \<le> unat x \<and> unat x < unat b + k"
    using area_unat [of x a n] area_unat [of x b k] assms(2,3) by auto
  with assms(1) show False by linarith
qed

lemma strdup_state:
  assumes mx: "mx_free mx" and s: "heap_state s P" "heap_room s" and src: "cstr (hs_mem s) src t"
    and inp: "(p, l) \<in> P" "p \<le> unat src" "unat src + length t + 1 \<le> p + l" and len: "length t < 0xffffffe0"
  shows "\<exists>k'. strdup K he env src mx s k = Ret (0, mx, s, k') \<or>
    (\<exists>q l' s'. strdup K he env src mx s k = Ret (q, mx, s', k') \<and> q \<noteq> 0 \<and> heap_state s' (insert (unat q, l') P) \<and>
      cstr (hs_mem s') q t \<and> untouched P (hs_mem s) (hs_mem s'))"
proof -
  let ?n = "of_nat (length t) + 1 :: u32"
  have n: "unat ?n = length t + 1" using len unat_add_small [of "of_nat (length t)" 1] by (simp add: unat_of_nat)
  then have sz: "0 < ?n" "?n \<le> 0xffffffe0" using len by (simp_all add: word_less_nat_alt word_le_nat_alt)
  have run: "strdup K he env src mx s k = bnd (mm_malloc K he ?n s k) (\<lambda>(buf, s, k). if buf \<noteq> 0 then
      (case strcpy buf src (hs_mem s) of None \<Rightarrow> Hang | Some (r, m) \<Rightarrow> Ret (buf, mx, s\<lparr>hs_mem := m\<rparr>, k)) else Ret (buf, mx, s, k))"
    using strlen_cstr [OF src]
    by (simp add: strdup_def malloc_ts_free_mutex [OF mx] bnd_assoc case_prod_unfold bnd.simps cong: if_cong option.case_cong del: bnd_Ret_iff)
  from malloc_state [OF s sz, of K he k] obtain k' where "mm_malloc K he ?n s k = Ret (0, s, k') \<or>
    (\<exists>q l' s'. mm_malloc K he ?n s k = Ret (q, s', k') \<and> q \<noteq> 0 \<and> heap_state s' (insert (unat q, l') P) \<and> (unat q, l') \<notin> P \<and>
       unat ?n \<le> l' \<and> untouched P (hs_mem s) (hs_mem s'))" by blast
  then show ?thesis
  proof (elim disjE exE conjE)
    assume "mm_malloc K he ?n s k = Ret (0, s, k')"
    with run show ?thesis by (intro exI [of _ k'] disjI1) simp
  next
    fix q l' s1 assume r: "mm_malloc K he ?n s k = Ret (q, s1, k')" "q \<noteq> 0" "heap_state s1 (insert (unat q, l') P)"
      "(unat q, l') \<notin> P" "unat ?n \<le> l'" "untouched P (hs_mem s) (hs_mem s1)"
    let ?w = "write_bytes q (t @ [0]) (hs_mem s1)"
    define s' where "s' = s1\<lparr>hs_mem := ?w\<rparr>"
    have pl: "p + l < 2 ^ 32" and ql: "unat q + l' < 2 ^ 32"
      using heap_state_top [OF r(3), of p l] heap_state_top [OF r(3), of "unat q" l'] inp(1) by auto
    have inq: "unat q \<le> unat b \<and> unat b < unat q + l'" if "b \<in> area q (Suc (length t))" for b
      using area_unat [OF that] ql r(5) n by auto
    have ins: "p \<le> unat b \<and> unat b < p + l" if "b \<in> area src (Suc (length t))" for b
      using area_payload [OF inp(2) _ pl that] inp(3) by simp
    have c1: "cstr (hs_mem s1) src t"
      by (rule cstr_cong [OF _ _ src]) (use ins r(6) inp(1) len in \<open>auto simp: untouched_def\<close>)
    have apart: "p + l + 16 \<le> unat q \<or> unat q + l' + 16 \<le> p"
      using heap_state_apart [OF r(3), of p l "unat q" l'] inp(1) r(4) by auto
    have dis: "area src (Suc (length t)) \<inter> area q (Suc (length t)) = {}"
    proof (rule equals0I)
      fix b assume "b \<in> area src (Suc (length t)) \<inter> area q (Suc (length t))"
      then have "p \<le> unat b \<and> unat b < p + l" "unat q \<le> unat b \<and> unat b < unat q + l'" using ins inq by blast+
      with apart show False by linarith
    qed
    have "strcpy q src (hs_mem s1) = Some (q, ?w)" using len by (intro strcpy_cstr c1 dis) simp
    with run r(1,2) have e: "strdup K he env src mx s k = Ret (q, mx, s', k')"
      by (simp add: s'_def del: bnd_Ret_iff write_bytes.simps)
    have out: "?w b = hs_mem s1 b" if "unat b < unat q \<or> unat q + l' \<le> unat b" for b
    proof -
      have "b \<notin> area q (length (t @ [0]))" using inq that by fastforce
      with len show ?thesis by (intro write_bytes_out) simp_all
    qed
    have st: "heap_state s' (insert (unat q, l') P)"
      unfolding s'_def by (rule heap_state_write [OF r(3), of "unat q" l']) (use out in auto)
    have "untouched P (hs_mem s1) (hs_mem s')"
      unfolding untouched_def
    proof (intro ballI, clarify)
      fix x lx and b :: addr assume x: "(x, lx) \<in> P" and b: "x \<le> unat b" "unat b < x + lx"
      from heap_state_apart [OF r(3), of "unat q" l' x lx] x r(4) have "unat q + l' + 16 \<le> x \<or> x + lx + 16 \<le> unat q" by blast
      with b show "hs_mem s' b = hs_mem s1 b" unfolding s'_def by (simp, intro out) auto
    qed
    with r(6) have "untouched P (hs_mem s) (hs_mem s')" by (rule untouched_trans) simp
    moreover have "cstr (hs_mem s') q t" using cstr_write [of t q] cstr_nz [OF src] len by (simp add: s'_def)
    ultimately show ?thesis using e st r(2) by blast
  qed
qed

section \<open>Properties\<close>

text \<open>
  the loop over \<open>strtok\<close> returns pointers to exactly the tokens of the string, in order, each terminated by a NUL;
  it ends, and writes nothing outside the string.
\<close>

theorem strtok_tokenises:
  assumes "cstr m a s" "cstr m q ds" "length s + 1 < 2 ^ 32" "length ds + 1 < 2 ^ 32"
    and "0 \<notin> area a (Suc (length s))" "area q (Suc (length ds)) \<inter> area a (Suc (length s)) = {}"
  shows "\<exists>ps m'. strtok_all (Suc (length s)) a q l m = Some (ps, m') \<and> list_all2 (cstr m') ps (tokens (set ds) s) \<and>
    (\<forall>b. b \<notin> area a (Suc (length s)) \<longrightarrow> m' b = m b)"
  using strtok_all_tokens [OF assms, of a l "Suc (length s)"] by simp

definition demo_strings :: mem where
  "demo_strings = write_bytes 1000 [97, 44, 44, 98, 99, 0] (write_bytes 2000 [44, 0] (\<lambda>_. 0))"

lemma demo_strings: "cstr demo_strings 1000 [97, 44, 44, 98, 99]" "cstr demo_strings 2000 [44]" "cstr demo_strings 1003 [98, 99]"
  by (simp_all add: demo_strings_def)

theorem strtok_tokenises_witness:
  "\<exists>ps m'. strtok_all 6 1000 2000 0 demo_strings = Some (ps, m') \<and> list_all2 (cstr m') ps [[97], [98, 99]]"
proof -
  have t: "tokens {44} [97, 44, 44, 98, 99] = [[97], [98, 99]]" by (simp add: tokens.simps)
  have z: "0 \<notin> area 1000 (Suc (length [97, 44, 44, 98, 99 :: byte]))" by (simp add: area_def)
  have d: "area 2000 (Suc (length [44 :: byte])) \<inter> area 1000 (Suc (length [97, 44, 44, 98, 99 :: byte])) = {}"
    by (rule area_apart) simp_all
  have l: "Suc (length [97, 44, 44, 98, 99 :: byte]) = 6" "set [44 :: byte] = {44}" by simp_all
  have n: "length [97, 44, 44, 98, 99 :: byte] + 1 < 2 ^ 32" "length [44 :: byte] + 1 < 2 ^ 32" by simp_all
  from strtok_tokenises [OF demo_strings(1,2) n z d, of 0] show ?thesis unfolding l t by blast
qed

text \<open>
  \<open>strstr\<close> returns the first place where the needle occurs in the haystack, and NULL when there is none.
\<close>

theorem strstr_first:
  assumes "cstr m a h" "cstr m b nd" "length h < 2 ^ 31" "length nd < 2 ^ 31"
  shows "\<exists>r. strstr m a b = Some r \<and>
    ((\<exists>i. r = a + of_nat i \<and> i \<le> length h \<and> prefix nd (drop i h) \<and> (\<forall>j < i. \<not> prefix nd (drop j h))) \<or>
     r = 0 \<and> \<not> sublist nd h)"
proof -
  have "(case find_sub nd h of None \<Rightarrow> \<forall>j \<le> length h. \<not> prefix nd (drop j h)
      | Some i \<Rightarrow> i \<le> length h \<and> prefix nd (drop i h) \<and> (\<forall>j < i. \<not> prefix nd (drop j h)))"
  proof (induction h)
    case (Cons x h)
    have le: "(\<forall>j \<le> Suc n. P j) \<longleftrightarrow> P 0 \<and> (\<forall>j \<le> n. P (Suc j))" for P :: "nat \<Rightarrow> bool" and n
      by (metis Suc_le_mono le0 not0_implies_Suc)
    show ?case using Cons by (auto simp: le All_less_Suc2 split: option.splits)
  qed simp
  moreover have "sublist nd h \<longleftrightarrow> (\<exists>j \<le> length h. prefix nd (drop j h))"
  proof
    assume "sublist nd h"
    then obtain us vs where "h = us @ nd @ vs" by (auto simp: sublist_def)
    then have "prefix nd (drop (length us) h)" "length us \<le> length h" by simp_all
    then show "\<exists>j \<le> length h. prefix nd (drop j h)" by blast
  next
    assume "\<exists>j \<le> length h. prefix nd (drop j h)"
    then obtain j vs where "drop j h = nd @ vs" by (auto simp: prefix_def)
    then have "h = take j h @ nd @ vs" by (metis append_take_drop_id)
    then show "sublist nd h" unfolding sublist_def by blast
  qed
  ultimately show ?thesis using strstr_cstr [OF assms] by (cases "find_sub nd h") auto
qed

theorem strstr_first_witness:
  "\<exists>r. strstr demo_strings 1000 1003 = Some r \<and> (\<exists>i. r = 1000 + of_nat i \<and> prefix [98, 99] (drop i [97, 44, 44, 98, 99 :: byte]))"
proof -
  have "sublist [98, 99] [97, 44, 44, 98, 99 :: byte]" by (simp add: sublist_Cons_right)
  with strstr_first [OF demo_strings(1,3)] show ?thesis by auto
qed

text \<open>
  \<open>strdup\<close> of a string inside a payload gives NULL and changes nothing, or a fresh payload with a copy of the
  string, and leaves all payloads alone.
\<close>

theorem strdup_correct:
  assumes "mx_free mx" "heap_state s P" "heap_room s" "cstr (hs_mem s) src t"
    and "(p, l) \<in> P" "p \<le> unat src" "unat src + length t + 1 \<le> p + l" "length t < 0xffffffe0"
  shows "\<exists>k'. strdup K he env src mx s k = Ret (0, mx, s, k') \<or>
    (\<exists>q l' s'. strdup K he env src mx s k = Ret (q, mx, s', k') \<and> q \<noteq> 0 \<and> heap_state s' (insert (unat q, l') P) \<and>
      cstr (hs_mem s') q t \<and> untouched P (hs_mem s) (hs_mem s'))"
  by (rule strdup_state [OF assms])

theorem strdup_correct_witness:
  "\<exists>s. cstr (hs_mem s) 8208 [104, 105] \<and> (\<exists>k'. strdup demo_vm 0 [] 8208 demo_mutex s ([], 0) = Ret (0, demo_mutex, s, k') \<or>
    (\<exists>q s'. strdup demo_vm 0 [] 8208 demo_mutex s ([], 0) = Ret (q, demo_mutex, s', k') \<and> cstr (hs_mem s') q [104, 105]))"
proof -
  define s where "s = demo_heap2\<lparr>hs_mem := write_bytes 8208 [104, 105, 0] (hs_mem demo_heap2)\<rparr>"
  have s1: "heap_state s {(8208, 4080)}"
    unfolding s_def by (rule heap_state_write [OF demo_heap2_state, of 8208 4080]) auto
  have s2: "heap_room s" using demo_heap2_room by (simp add: heap_room_def s_def)
  have c: "cstr (hs_mem s) 8208 [104, 105]" by (simp add: s_def)
  have mx: "mx_free demo_mutex" by (simp add: mx_free_def demo_mutex_def)
  have "\<exists>k'. strdup demo_vm 0 [] 8208 demo_mutex s ([], 0) = Ret (0, demo_mutex, s, k') \<or>
    (\<exists>q l' s'. strdup demo_vm 0 [] 8208 demo_mutex s ([], 0) = Ret (q, demo_mutex, s', k') \<and> q \<noteq> 0 \<and>
      heap_state s' (insert (unat q, l') {(8208, 4080)}) \<and>
      cstr (hs_mem s') q [104, 105] \<and> untouched {(8208, 4080)} (hs_mem s) (hs_mem s'))"
    by (rule strdup_correct [OF mx s1 s2 c, of 8208 4080]) simp_all
  with c show ?thesis by blast
qed

text \<open>
  \<open>strcmp\<close> returns 0 for equal strings only, and its sign is the lexicographic order of the unsigned bytes.
\<close>

theorem strcmp_orders:
  assumes "cstr m a s" "cstr m b t"
  shows "\<exists>r. strcmp m a b = Some r \<and> (r = 0 \<longleftrightarrow> s = t) \<and> (neg32 r \<longleftrightarrow> ord_class.lexordp s t)"
  by (rule strcmp_cstr [OF assms])

theorem strcmp_orders_witness: "\<exists>r. strcmp demo_strings 1000 1003 = Some r \<and> r \<noteq> 0 \<and> neg32 r"
  using strcmp_orders [OF demo_strings(1,3)] by auto

text \<open>
  copying a string and appending another gives their concatenation in the destination, and nothing else in
  memory changes.
\<close>

theorem strcpy_strcat:
  assumes s: "cstr m b s" "cstr m c t" and n: "length s + length t + 2 < 2 ^ 32"
    and dis: "area b (Suc (length s)) \<inter> area a (Suc (length s + length t)) = {}"
      "area c (Suc (length t)) \<inter> area a (Suc (length s + length t)) = {}"
  shows "\<exists>m1 m2. strcpy a b m = Some (a, m1) \<and> strcat a c m1 = Some (a, m2) \<and> cstr m2 a (s @ t) \<and>
    (\<forall>x. x \<notin> area a (Suc (length s + length t)) \<longrightarrow> m2 x = m x)"
proof -
  let ?m1 = "write_bytes a (s @ [0]) m"
  let ?m2 = "write_bytes (a + of_nat (length s)) (t @ [0]) ?m1"
  have sub: "area a (Suc (length s)) \<subseteq> area a (Suc (length s + length t))" by (rule area_mono) simp
  have sub2: "area (a + of_nat (length s)) (Suc (length t)) \<subseteq> area a (Suc (length s + length t))"
    using n by (intro area_sub) simp_all
  have o1: "?m1 x = m x" if "x \<notin> area a (Suc (length s + length t))" for x
    using that sub n by (intro write_bytes_out) auto
  have o2: "?m2 x = ?m1 x" if "x \<notin> area a (Suc (length s + length t))" for x
    using that sub2 n by (intro write_bytes_out) auto
  have "strcpy a b m = Some (a, ?m1)" using dis(1) sub n by (intro strcpy_cstr [OF s(1)]) auto
  moreover have c1: "cstr ?m1 a s" using cstr_write [of s a m] cstr_nz [OF s(1)] n by simp
  moreover have c2: "cstr ?m1 c t" by (rule cstr_cong [OF _ _ s(2)]) (use o1 dis(2) n in auto)
  have "strcat a c ?m1 = Some (a, ?m2)" using n dis(2) by (intro strcat_cstr [OF c1 c2]) auto
  moreover have "cstr ?m2 a (s @ t)" using n cstr_nz [OF s(2)] by (intro cstr_write_at [OF _ c1]) auto
  ultimately show ?thesis using o1 o2 by auto
qed

theorem strcpy_strcat_witness:
  "\<exists>m1 m2. strcpy 5000 1003 demo_strings = Some (5000, m1) \<and> strcat 5000 2000 m1 = Some (5000, m2) \<and> cstr m2 5000 [98, 99, 44]"
proof -
  have d: "area 1003 (Suc (length [98, 99 :: byte])) \<inter> area 5000 (Suc (length [98, 99 :: byte] + length [44 :: byte])) = {}"
    "area 2000 (Suc (length [44 :: byte])) \<inter> area 5000 (Suc (length [98, 99 :: byte] + length [44 :: byte])) = {}"
    by (rule area_apart; simp)+
  from strcpy_strcat [OF demo_strings(3,2) _ d] show ?thesis by auto
qed

end
