(* ===== verification/Stdio_Props.thy ===== *)
theory Stdio_Props
  imports Stdio Doprnt_Props String_Copy
begin

text \<open>
  sprintf and snprintf as writers of the formatted text, printf as a line-buffered stream, and numbers printed
  and read back.
\<close>

section \<open>sprintf and snprintf\<close>

lemma fold_savechar:
  "fold savechar out (\<lparr>ss_buf = a, ss_len = n, ss_max = -1\<rparr>, m) =
    (\<lparr>ss_buf = a + of_nat (length out), ss_len = n + of_nat (length out), ss_max = -1\<rparr>, write_bytes a out m)"
  by (induction out arbitrary: a n m) (simp_all add: savechar_def add.assoc)

lemma sprintf_text:
  "doprnt False m 0 fmt args = Ret out \<Longrightarrow> sprintf s fmt args m = Ret (of_nat (length out), write_bytes s (out @ [0]) m)"
  by (simp add: sprintf_def vsprintf_def fold_savechar outcome_simps write_bytes_append del: bnd_Ret_iff)

lemma of_nat_inj32: "i < 2 ^ 32 \<Longrightarrow> j < 2 ^ 32 \<Longrightarrow> (of_nat i :: u32) = of_nat j \<longleftrightarrow> i = j"
  by (auto dest: arg_cong [where f = unat] simp: unat_of_nat)

lemma fold_savechar_max:
  "j \<le> k \<Longrightarrow> k < 2 ^ 32 - 1 \<Longrightarrow>
   fold savechar out (\<lparr>ss_buf = a, ss_len = of_nat j, ss_max = of_nat k\<rparr>, m) =
    (\<lparr>ss_buf = a + of_nat (length (take (k - j) out)), ss_len = of_nat j + of_nat (length (take (k - j) out)), ss_max = of_nat k\<rparr>,
     write_bytes a (take (k - j) out) m)"
proof (induction out arbitrary: a j m)
  case Nil
  then show ?case by simp
next
  case (Cons c out)
  have ne: "(of_nat k :: u32) \<noteq> -1"
  proof
    assume "(of_nat k :: u32) = -1"
    then have "unat (of_nat k :: u32) = unat (-1 :: u32)" by simp
    then show False using Cons.prems by (simp add: unat_of_nat unsigned_minus_1_eq_mask mask_eq_exp_minus_1)
  qed
  have eq: "(of_nat j :: u32) = of_nat k \<longleftrightarrow> j = k" using Cons.prems by (intro of_nat_inj32) auto
  show ?case
  proof (cases "j = k")
    case True
    then show ?thesis using Cons.IH [of j a m] Cons.prems ne by (simp add: savechar_def)
  next
    case False
    then have "j < k" "k - j = Suc (k - Suc j)" using Cons.prems by simp_all
    moreover have "(of_nat j :: u32) + 1 = of_nat (Suc j)" by simp
    moreover have "savechar c (\<lparr>ss_buf = a, ss_len = of_nat j, ss_max = of_nat k\<rparr>, m) =
        (\<lparr>ss_buf = a + 1, ss_len = of_nat j + 1, ss_max = of_nat k\<rparr>, m(a := c))"
      using eq False by (simp add: savechar_def)
    ultimately show ?thesis using Cons.IH [of "Suc j" "a + 1" "m(a := c)"] Cons.prems(2)
      by (simp add: ac_simps del: fun_upd_apply)
  qed
qed

lemma snprintf_text:
  assumes "doprnt False m 0 fmt args = Ret out" "0 <s sz"
  shows "snprintf s sz fmt args m =
    Ret (of_nat (length (take (nat (sint sz) - 1) out)), write_bytes s (take (nat (sint sz) - 1) out @ [0]) m)"
proof -
  have sz: "0 < sint sz" "sint sz < 2 ^ 31" using assms(2) sint_range32 [of sz] by (simp_all add: word_sless_alt)
  have "sz - 1 = word_of_int (sint sz - 1)" by simp
  also have "\<dots> = of_nat (nat (sint sz - 1))" using sz(1) by (intro of_nat_nat_word [symmetric]) simp
  also have "nat (sint sz - 1) = nat (sint sz) - 1" by simp
  finally have max: "sz - 1 = of_nat (nat (sint sz) - 1)" .
  have "nat (sint sz) - 1 < 2 ^ 32 - 1" using sz by simp
  from fold_savechar_max [of 0, OF _ this] assms(1) show ?thesis
    by (simp add: snprintf_def vsnprintf_def outcome_simps max write_bytes_append del: bnd_Ret_iff)
qed

section \<open>Reading a printed number\<close>

lemma less_10_cases: "(d :: nat) < 10 \<Longrightarrow> d \<in> {0, 1, 2, 3, 4, 5, 6, 7, 8, 9}"
  unfolding insert_iff empty_iff by presburger

lemma digit_char_facts:
  assumes "d < 10"
  shows "digit_char d \<noteq> 0" "digit_char d \<noteq> 45" "isspace (sx (digit_char d)) = 0" "(ucast (digit_char d) :: i32) = of_nat (48 + d)"
proof -
  from less_10_cases [OF assms] have *: "d = 0 \<or> d = 1 \<or> d = 2 \<or> d = 3 \<or> d = 4 \<or> d = 5 \<or> d = 6 \<or> d = 7 \<or> d = 8 \<or> d = 9" by simp
  then show "digit_char d \<noteq> 0" by (elim disjE) (simp_all add: digit_char_def)
  from * show "digit_char d \<noteq> 45" by (elim disjE) (simp_all add: digit_char_def)
  from * show "isspace (sx (digit_char d)) = 0" by (elim disjE) (simp_all add: digit_char_def sx_def isspace_def)
  from * show "(ucast (digit_char d) :: i32) = of_nat (48 + d)" by (elim disjE) (simp_all add: digit_char_def)
qed

lemma digit_range: "d < 10 \<Longrightarrow> 48 <=s (of_nat (48 + d) :: i32) \<and> of_nat (48 + d) <=s (57 :: i32)"
  unfolding word_sle_eq using sint_of_nat32 [of "48 + d"] by simp

lemma scan_dec_run:
  "\<forall>d \<in> set ds. d < 10 \<Longrightarrow> cstr m p (map digit_char ds) \<Longrightarrow>
   scan_dec m (ucast (m p)) (p + 1) (of_nat v) invalid =
     Some (0, p + of_nat (length ds) + 1, of_nat (foldl (\<lambda>v d. v * 10 + d) v ds), invalid \<and> ds = [])"
proof (induction ds arbitrary: p v invalid)
  case Nil
  then show ?case by (subst scan_dec.simps) (simp add: word_sle_eq)
next
  case (Cons d ds)
  have d: "d < 10" and m: "m p = digit_char d" "cstr m (p + 1) (map digit_char ds)" using Cons.prems by simp_all
  have "scan_dec m (ucast (m p)) (p + 1) (of_nat v) invalid =
      scan_dec m (ucast (m (p + 1))) (p + 1 + 1) (of_nat (v * 10 + d)) False"
    unfolding m(1) digit_char_facts(4) [OF d]
    by (subst scan_dec.simps) (use digit_range [OF d] in \<open>simp add: readchar_def del: of_nat_add\<close>, simp)
  then show ?case using Cons.IH [OF _ m(2), of "v * 10 + d" False] Cons.prems(1) by (simp add: ac_simps)
qed

lemma strtol_digits_decimal:
  assumes "\<forall>d \<in> set ds. d < 10" "cstr m p (map digit_char ds)"
  shows "strtol_digits m 10 p 0 = Some (of_nat (digits_value 10 ds), p + of_nat (length ds))"
proof -
  have "list_all2 (\<lambda>c d. digit_value c (of_nat 10) = Some (of_nat d)) (map digit_char ds) ds"
    using assms(1) digit_value_char [of _ 10] by (auto simp: list_all2_conv_all_nth)
  from strtol_digits_run [OF this, of m p "[]" 0] assms(2) show ?thesis by (simp add: digits_value_def)
qed

text \<open>The text of an int, as its sign and digits.\<close>

lemma signed_decimal_cases:
  obtains ds where "signed_decimal n = (if neg32 n then [45] else []) @ map digit_char ds" "ds \<noteq> []" "\<forall>d \<in> set ds. d < 10"
    "(if neg32 n then - of_nat (digits_value 10 ds) else of_nat (digits_value 10 ds)) = n" "length ds \<le> 32"
proof -
  let ?k = "if neg32 n then nat (- sint n) else nat (sint n)"
  have "?k < 2 ^ 64" using sint_range32 [of n] by auto
  from decimal_digits [OF this] decimal_length [OF this] obtain ds where ds: "decimal ?k = map digit_char ds" "ds \<noteq> []"
    "\<forall>d \<in> set ds. d < 10" "digits_value 10 ds = ?k" "length ds \<le> 32" by (elim conjE exE) (rule that, simp_all)
  have "(if neg32 n then - of_nat ?k else of_nat ?k) = n"
    using of_nat_nat_word [of "- sint n", where 'a = 32] of_nat_nat_word [of "sint n", where 'a = 32]
    by (auto simp: word_sless_alt)
  with ds that [of ds] show thesis by (cases "neg32 n") (simp_all add: signed_decimal_def)
qed

lemma atol_signed_decimal: "cstr m s (signed_decimal n) \<Longrightarrow> atol s m = Some (n, m)"
proof -
  assume c: "cstr m s (signed_decimal n)"
  obtain ds where ds: "signed_decimal n = (if neg32 n then [45] else []) @ map digit_char ds" "ds \<noteq> []" "\<forall>d \<in> set ds. d < 10"
    "(if neg32 n then - of_nat (digits_value 10 ds) else of_nat (digits_value 10 ds)) = n" by (rule signed_decimal_cases)
  then obtain d ds' where d: "ds = d # ds'" "d < 10" by (cases ds) auto
  have base: "strto_base m p 10 = (p, 10)" for p by (simp add: strto_base_def)
  show ?thesis
  proof (cases "neg32 n")
    case True
    with ds c have m: "m s = 45" "cstr m (s + 1) (map digit_char ds)" by simp_all
    have "skip_space m s = Some s" using m(1) by (subst skip_space.simps) (simp add: isspace_def sx_def)
    then show ?thesis using True ds(4) m base strtol_digits_decimal [OF ds(3) m(2)] by (simp add: atol_def strtol_def)
  next
    case False
    with ds c d have m: "m s = digit_char d" "cstr m s (map digit_char ds)" by simp_all
    have "skip_space m s = Some s" using m(1) digit_char_facts(3) [OF d(2)] by (subst skip_space.simps) simp
    then show ?thesis using False ds(4) m base strtol_digits_decimal [OF ds(3) m(2)] digit_char_facts(2) [OF d(2)]
      by (simp add: atol_def strtol_def)
  qed
qed

lemma doscan_Nil [simp]: "doscan [] p args vals m = Ret (vals, m)"
  by (subst doscan.simps) simp

lemma sscanf_signed_decimal: "cstr m s (signed_decimal n) \<Longrightarrow> sscanf s [37, 100] [q] m = Ret (1, store32 q n m)"
proof -
  assume c: "cstr m s (signed_decimal n)"
  obtain ds where ds: "signed_decimal n = (if neg32 n then [45] else []) @ map digit_char ds" "ds \<noteq> []" "\<forall>d \<in> set ds. d < 10"
    "(if neg32 n then - of_nat (digits_value 10 ds) else of_nat (digits_value 10 ds)) = n" by (rule signed_decimal_cases)
  then obtain d ds' where d: "ds = d # ds'" "d < 10" by (cases ds) auto
  have v: "foldl (\<lambda>v d. v * 10 + d) 0 ds = digits_value 10 ds" by (simp add: digits_value_def)
  let ?c = "ucast (m s) :: i32"
  have "?c \<noteq> 0 \<and> (\<exists>p'. scan_number scan_dec False ?c (s + 1) [q] m = Ret (False, p', [], store32 q n m))"
  proof (cases "neg32 n")
    case True
    with ds c have m: "m s = 45" "cstr m (s + 1) (map digit_char ds)" by simp_all
    show ?thesis using scan_dec_run [OF ds(3) m(2), of 0 True] True ds(2,4) m(1) v
      by (simp add: scan_number_def readchar_def the_loop_def va_arg32_def outcome_simps)
  next
    case False
    with ds c d have m: "m s = digit_char d" "cstr m s (map digit_char ds)" by simp_all
    have "?c \<noteq> 45" "?c \<noteq> 0" unfolding m(1) digit_char_facts(4) [OF d(2)]
      using less_10_cases [OF d(2)] by auto
    then show ?thesis using scan_dec_run [OF ds(3) m(2), of 0 True] False ds(2,4) v
      by (simp add: scan_number_def readchar_def the_loop_def va_arg32_def outcome_simps)
  qed
  then obtain p' where "?c \<noteq> 0" "scan_number scan_dec False ?c (s + 1) [q] m = Ret (False, p', [], store32 q n m)" by blast
  then show ?thesis
    by (simp add: sscanf_def vsscanf_def doscan.simps [of "[37, 100]"] readchar_def outcome_simps del: bnd_Ret_iff)
qed

lemma signed_decimal_text: "0 \<notin> set (signed_decimal n) \<and> length (signed_decimal n) \<le> 33"
proof -
  obtain ds where "signed_decimal n = (if neg32 n then [45] else []) @ map digit_char ds" "\<forall>d \<in> set ds. d < 10" "length ds \<le> 32"
    by (rule signed_decimal_cases)
  moreover have "digit_char d \<noteq> 0" if "d < 10" for d using digit_char_facts(1) [OF that] .
  ultimately show ?thesis by fastforce
qed

text \<open>
  C36: An int printed by \<open>sprintf(s, "%d", n)\<close> is read back by both parsers, whatever it is: \<open>atol(s)\<close> returns \<open>n\<close>,
  and \<open>sscanf(s, "%d", q)\<close> returns 1 and stores \<open>n\<close> at \<open>q\<close>. \<open>sprintf\<close> returns the length of the text, which is at
  most 33.
\<close>

theorem print_scan_round_trip:
  "\<exists>text m'. sprintf s (bytes ''%d'') [n] m = Ret (of_nat (length text), m') \<and> length text \<le> 33 \<and> cstr m' s text \<and>
     atol s m' = Some (n, m') \<and> sscanf s (bytes ''%d'') [q] m' = Ret (1, store32 q n m')"
proof -
  let ?t = "signed_decimal n"
  let ?m = "write_bytes s (?t @ [0]) m"
  have fmt: "bytes ''%d'' = [37, 100]" by (simp add: bytes_def)
  have "cstr ?m s ?t" using signed_decimal_text [of n] by (intro cstr_write) auto
  then show ?thesis
    using sprintf_text [OF doprnt_d [of m 0 n], of s] signed_decimal_text [of n] atol_signed_decimal [of ?m s n]
      sscanf_signed_decimal [of ?m s n q] unfolding fmt by blast
qed

section \<open>snprintf\<close>

lemma snprintf_cut:
  assumes "doprnt False m 0 fmt args = Ret out" "0 \<notin> set out" "0 <s sz"
  shows "\<exists>m'. snprintf s sz fmt args m = Ret (of_nat (min (length out) (nat (sint sz) - 1)), m') \<and>
    cstr m' s (take (nat (sint sz) - 1) out) \<and> (\<forall>b. b \<notin> area s (nat (sint sz)) \<longrightarrow> m' b = m b)"
proof -
  let ?k = "nat (sint sz) - 1"
  have sz: "0 < sint sz" "sint sz < 2 ^ 31" using assms(3) sint_range32 [of sz] by (simp_all add: word_sless_alt)
  have len: "length (take ?k out @ [0 :: byte]) \<le> nat (sint sz)" "length (take ?k out) + 1 < 2 ^ 32" using sz by auto
  have "cstr (write_bytes s (take ?k out @ [0]) m) s (take ?k out)"
    using len(2) assms(2) by (intro cstr_write) (auto dest: in_set_takeD)
  moreover have "write_bytes s (take ?k out @ [0]) m b = m b" if "b \<notin> area s (nat (sint sz))" for b
    using area_mono [OF len(1), of s] len(2) that by (intro write_bytes_out) auto
  ultimately show ?thesis using snprintf_text [OF assms(1,3), of s] by (simp add: min.commute)
qed

text \<open>
  C38: \<open>snprintf\<close> with a positive size writes nothing outside the \<open>size\<close> bytes of the buffer, leaves there the
  longest prefix of the formatted text that fits, terminated, and returns its length (not the length of the whole text).
\<close>

theorem snprintf_bounded:
  assumes "doprnt False m 0 fmt args = Ret out" "0 \<notin> set out" "0 <s sz"
  shows "\<exists>m'. snprintf s sz fmt args m = Ret (of_nat (min (length out) (nat (sint sz) - 1)), m') \<and>
    cstr m' s (take (nat (sint sz) - 1) out) \<and> (\<forall>b. b \<notin> area s (nat (sint sz)) \<longrightarrow> m' b = m b)"
  using assms by (rule snprintf_cut)

lemma doprnt_verbatim: "37 \<notin> set fmt \<Longrightarrow> doprnt tr m radix fmt args = Ret fmt"
  by (induction fmt) (auto simp: doprnt_plain outcome_simps)

theorem snprintf_bounded_witness:
  "\<exists>m'. snprintf 100 3 [97, 98, 99] [] (\<lambda>_. 7) = Ret (2, m') \<and> cstr m' 100 [97, 98] \<and> m' 103 = 7"
proof -
  have "(103 :: addr) \<notin> area 100 3" by (simp add: area_def)
  then show ?thesis
    using snprintf_bounded [OF doprnt_verbatim [of "[97, 98, 99]" False "\<lambda>_. 7" 0 "[]"], of 3 100] by (fastforce simp: word_sless_alt)
qed

text \<open>
  With size 0 \<open>snprintf\<close> has no bound at all: the computed maximum is -1, which is the constant for \<open>sprintf\<close>'s
  unlimited buffer, so it writes the whole text.
\<close>

theorem snprintf_size_0: "snprintf s 0 fmt args m = sprintf s fmt args m"
  by (simp add: snprintf_def vsnprintf_def sprintf_def vsprintf_def)

section \<open>printf\<close>

definition full_chunk :: "byte list \<Rightarrow> bool" where
  "full_chunk c \<longleftrightarrow> c \<noteq> [] \<and> length c \<le> 128 \<and> 10 \<notin> set (butlast c) \<and> (last c = 10 \<or> length c = 128)"

definition printf_inv :: "byte list \<Rightarrow> printf_state \<times> console \<Rightarrow> bool" where
  "printf_inv out = (\<lambda>(st, con). length (ps_buf st) = 128 \<and> ps_index st \<le> 128 \<and> concat con @ take (ps_index st) (ps_buf st) = out \<and>
     10 \<notin> set (take (ps_index st) (ps_buf st)) \<and> (\<forall>c \<in> set con. full_chunk c))"

lemma printf_char_inv:
  assumes "printf_inv out s"
  shows "printf_inv (out @ [c]) (printf_char c s)"
proof -
  obtain st con where s: "s = (st, con)" by (cases s)
  let ?buf = "take (ps_index st) (ps_buf st)"
  have i: "length (ps_buf st) = 128" "ps_index st \<le> 128" "concat con @ ?buf = out" "10 \<notin> set ?buf" "\<forall>c \<in> set con. full_chunk c"
    using assms by (auto simp: printf_inv_def s)
  define t where "t = (if printf_bufmax \<le> ps_index st then flush s else s)"
  obtain st' con' where t': "t = (st', con')" by (cases t)
  have t: "length (ps_buf st') = 128" "ps_index st' < 128" "concat con' @ take (ps_index st') (ps_buf st') = out"
    "10 \<notin> set (take (ps_index st') (ps_buf st'))" "\<forall>c \<in> set con'. full_chunk c"
  proof -
    have "full_chunk ?buf" if "128 \<le> ps_index st"
      using that i(1,2,4) by (auto simp: full_chunk_def dest: in_set_butlastD)
    then show "length (ps_buf st') = 128" "ps_index st' < 128" "concat con' @ take (ps_index st') (ps_buf st') = out"
      "10 \<notin> set (take (ps_index st') (ps_buf st'))" "\<forall>c \<in> set con'. full_chunk c"
      using i t' by (auto simp: t_def s flush_def printf_bufmax_def split: if_splits)
  qed
  let ?b = "(ps_buf st')[ps_index st' := c]"
  have b: "take (ps_index st' + 1) ?b = take (ps_index st') (ps_buf st') @ [c]"
    using t(1,2) by (simp add: take_Suc_conv_app_nth)
  have "full_chunk (take (ps_index st') (ps_buf st') @ [10])" using t(1,2,4) by (simp add: full_chunk_def)
  moreover have "printf_char c s = (let st = st'\<lparr>ps_buf := ?b, ps_index := ps_index st' + 1\<rparr> in
      if c = 10 then flush (st, con') else (st, con'))"
    unfolding printf_char_def t_def [symmetric, unfolded s] Let_def
    using t' by (simp add: t_def s Let_def)
  ultimately have p: "printf_char c s = (if c = 10 then (st'\<lparr>ps_buf := ?b, ps_index := 0\<rparr>, con' @ [take (ps_index st' + 1) ?b])
      else (st'\<lparr>ps_buf := ?b, ps_index := ps_index st' + 1\<rparr>, con'))"
    and full: "full_chunk (take (ps_index st') (ps_buf st') @ [10])"
    by (simp_all add: flush_def Let_def)
  show ?thesis
  proof (cases "c = 10")
    case True
    with p full t b show ?thesis by (simp add: printf_inv_def del: Suc_eq_plus1_left add_Suc_right)
  next
    case False
    with p t b show ?thesis by (simp add: printf_inv_def)
  qed
qed

lemma printf_fold_inv: "printf_inv out s \<Longrightarrow> printf_inv (out @ cs) (fold printf_char cs s)"
proof (induction cs arbitrary: out s)
  case (Cons c cs)
  from Cons.IH [OF printf_char_inv [OF Cons.prems, of c]] show ?case by simp
qed simp

lemma printf_run:
  assumes "doprnt False m 0 fmt args = Ret out"
  shows "\<exists>con. printf fmt args m = Ret con \<and> concat con = out \<and>
    (\<forall>c \<in> set con. c \<noteq> [] \<and> length c \<le> 128 \<and> 10 \<notin> set (butlast c)) \<and> (\<forall>c \<in> set (butlast con). last c = 10 \<or> length c = 128)"
proof -
  let ?s0 = "(\<lparr>ps_buf = replicate printf_bufmax 0, ps_index = 0\<rparr>, [] :: console)"
  have "printf_inv [] ?s0" by (simp add: printf_inv_def printf_bufmax_def)
  from printf_fold_inv [OF this, of out] obtain st con where f: "fold printf_char out ?s0 = (st, con)"
    and inv: "printf_inv out (st, con)" by (cases "fold printf_char out ?s0") auto
  let ?buf = "take (ps_index st) (ps_buf st)"
  let ?con = "if ps_index st \<noteq> 0 then con @ [?buf] else con"
  have run: "printf fmt args m = Ret ?con"
    using assms f by (simp add: printf_def vprintf_def flush_def outcome_simps)
  from inv have i: "length (ps_buf st) = 128" "ps_index st \<le> 128" "concat con @ ?buf = out" "10 \<notin> set ?buf" "\<forall>c \<in> set con. full_chunk c"
    by (simp_all add: printf_inv_def)
  have "concat ?con = out" using i(3) by (cases "ps_index st = 0") auto
  moreover have "\<forall>c \<in> set ?con. c \<noteq> [] \<and> length c \<le> 128 \<and> 10 \<notin> set (butlast c)"
    using i by (auto simp: full_chunk_def dest: in_set_butlastD)
  moreover have "\<forall>c \<in> set (butlast ?con). last c = 10 \<or> length c = 128"
    using i(5) by (auto simp: full_chunk_def dest: in_set_butlastD)
  ultimately show ?thesis using run by blast
qed

text \<open>
  \<open>printf\<close> prints exactly the formatted text, line by line: every \<open>print\<close> system call has between 1 and 128 bytes
  and a newline only at its end, and every call but the last ends a line or fills the buffer.
\<close>

theorem printf_line_buffered:
  assumes "doprnt False m 0 fmt args = Ret out"
  shows "\<exists>con. printf fmt args m = Ret con \<and> concat con = out \<and>
    (\<forall>c \<in> set con. c \<noteq> [] \<and> length c \<le> 128 \<and> 10 \<notin> set (butlast c)) \<and> (\<forall>c \<in> set (butlast con). last c = 10 \<or> length c = 128)"
  using assms by (rule printf_run)

theorem printf_line_buffered_witness: "\<exists>con. printf [97, 10, 98] [] (\<lambda>_. 0) = Ret con \<and> concat con = [97, 10, 98]"
  using printf_line_buffered [OF doprnt_verbatim [of "[97, 10, 98]" False "\<lambda>_. 0" 0 "[]"]] by auto

section \<open>Fields\<close>

text \<open>
  The field of %s: the string, cut to the precision and padded with blanks to the width (\<open>string_field\<close>), except that a
  left-adjusted string that the precision cuts gets one blank too few.
\<close>

theorem print_str_field:
  assumes "cstr m p s" "p \<noteq> 0" "sp_prec sp = -1 \<or> \<not> neg32 (sp_prec sp)"
  shows "convert tr m radix sp 115 (p # args) = Ret (string_field sp s, args)"
  using print_str_cstr [OF assms] by (simp add: convert_def)

theorem print_str_field_witness:
  "convert False demo_strings 0 (spec0\<lparr>sp_prec := 2, sp_length := 4, sp_ladjust := True\<rparr>) 115 [1000] = Ret ([97, 44, 32], [])"
proof -
  have "string_field (spec0\<lparr>sp_prec := 2, sp_length := 4, sp_ladjust := True\<rparr>) [97, 44, 44, 98, 99] = [97, 44, 32]"
  proof -
    have p: "precision (spec0\<lparr>sp_prec := 2, sp_length := 4, sp_ladjust := True\<rparr>) = 2" by (simp add: precision_def)
    show ?thesis unfolding string_field_def p Let_def by (simp add: spec0_def take_Cons numeral_2_eq_2)
  qed
  then show ?thesis using print_str_field [OF demo_strings(1)] by (simp add: word_sless_alt)
qed

text \<open>
  The fields of %o, %u and %x: the prefix of the alternate form and the digits of the argument in the base, without
  leading zeros, padded to the width with zeros after the prefix, or with blanks on the side that the flags ask for.
\<close>

theorem print_number_field:
  assumes "(c, b) \<in> {(111, 8), (117, 10), (120, 16)}" "sp_padc sp = 32 \<or> sp_padc sp = 48" "\<not> neg32 (sp_length sp)"
    "\<not> 1 <s sp_longopt sp"
  shows "\<exists>ds. convert False m radix sp c (n # args) =
      Ret (number_field sp (altfmt_prefix sp (of_nat b) (ucast n)) (map digit_char ds), args) \<and>
    digits_value b ds = unat n \<and> (\<forall>d \<in> set ds. d < b) \<and> ds \<noteq> [] \<and> (hd ds = 0 \<longrightarrow> ds = [0])"
proof -
  have b: "b = 8 \<or> b = 10 \<or> b = 16" using assms(1) by auto
  have un: "unat (ucast n :: u64) = unat n"
    using unsigned_less [of n, where 'a = nat] by (simp add: unsigned_ucast_eq take_bit_nat_eq_self)
  have "unat n < 2 ^ 64" using unsigned_less [of n, where 'a = nat] by simp
  then have "unat (ucast n :: u64) < 2 ^ 64" by (simp only: un)
  from conv_32 [OF b this] obtain ds where ds: "conv 32 (of_nat b) (ucast n) [] = Ret (map digit_char ds)" "ds \<noteq> []"
    "\<forall>d \<in> set ds. d < b" "digits_value b ds = unat n" "hd ds = 0 \<longrightarrow> ds = [0]" "length ds \<le> 32"
    unfolding un by (elim exE conjE) (rule that, assumption+)
  have "(scast (of_nat b :: i32) :: u64) = of_nat b" using b by auto
  then have "print_num False sp (of_nat b) 0 (ucast n) =
      Ret (number_field sp (altfmt_prefix sp (of_nat b) (ucast n)) (map digit_char ds))"
    using print_num_layout [of "of_nat b" "ucast n" "map digit_char ds" sp 0] ds(1,6) assms(2,3) by simp
  then have "print_unsigned False sp (of_nat b) (n # args) =
      Ret (number_field sp (altfmt_prefix sp (of_nat b) (ucast n)) (map digit_char ds), args)"
    using assms(4) by (simp add: print_unsigned_def va_arg32_def outcome_simps)
  then have "convert False m radix sp c (n # args) =
      Ret (number_field sp (altfmt_prefix sp (of_nat b) (ucast n)) (map digit_char ds), args)"
    using assms(1) by (auto simp: convert_def)
  from this ds(4,3,2,5) show ?thesis by (intro exI conjI)
qed

theorem print_number_field_witness:
  "\<exists>ds. convert False (\<lambda>_. 0) 0 (spec0\<lparr>sp_altfmt := True, sp_length := 8\<rparr>) 120 [255] =
     Ret (number_field (spec0\<lparr>sp_altfmt := True, sp_length := 8\<rparr>) [48, 120] (map digit_char ds), []) \<and> digits_value 16 ds = 255"
proof -
  let ?sp = "spec0\<lparr>sp_altfmt := True, sp_length := 8\<rparr>"
  have 1: "((120 :: byte), (16 :: nat)) \<in> {(111, 8), (117, 10), (120, 16)}" by simp
  have 2: "sp_padc ?sp = 32 \<or> sp_padc ?sp = 48" "\<not> neg32 (sp_length ?sp)" "\<not> 1 <s sp_longopt ?sp"
    by (simp_all add: spec0_def word_sless_alt)
  have 3: "altfmt_prefix ?sp (of_nat 16) (ucast (255 :: u32)) = [48, 120]" by (simp add: altfmt_prefix_def)
  have 4: "unat (255 :: u32) = 255" by simp
  from print_number_field [OF 1 2, of "\<lambda>_. 0" 0 255 "[]"] show ?thesis unfolding 3 4 by metis
qed

end
