(* ===== verification/Mersenne.thy ===== *)
theory Mersenne
  imports Prelude
begin

text \<open>
  410user/libRNG/mt19937int.c: the Mersenne Twister. The array \<open>mt\<close> is a list of 624 words, updated by index, and
  \<open>mti\<close> the position of the next word to give out; 625 says that no seed was set. The main result is that the
  generator, which recomputes the array in place every 624 calls, gives out the words of one linear recurrence.
\<close>

section \<open>The code\<close>

record mt_state =
  mt_array :: "u32 list"
  mti :: nat

definition mt_start :: mt_state where
  "mt_start = \<lparr>mt_array = replicate 624 0, mti = 625\<rparr>"

definition sgenrand :: "u32 \<Rightarrow> mt_state \<Rightarrow> mt_state" where
  "sgenrand seed s =
     \<lparr>mt_array = fold (\<lambda>i mt. mt[i := (69069 * mt ! (i - 1)) AND 0xffffffff]) [1..<624] ((mt_array s)[0 := seed AND 0xffffffff]),
      mti = 624\<rparr>"

definition mag01 :: "u32 \<Rightarrow> u32" where
  "mag01 i = (if i = 0 then 0 else 0x9908b0df)"

text \<open>The words of the two neighbours joined, and the body of the loops with the index \<open>j\<close> of the third word.\<close>

definition mt_join :: "u32 \<Rightarrow> u32 \<Rightarrow> u32" where
  "mt_join a b = (a AND 0x80000000) OR (b AND 0x7fffffff)"

definition mt_twist :: "u32 \<Rightarrow> u32" where
  "mt_twist y = drop_bit 1 y XOR mag01 (y AND 0x1)"

definition mt_step :: "nat \<Rightarrow> nat \<Rightarrow> nat \<Rightarrow> u32 list \<Rightarrow> u32 list" where
  "mt_step kk next_kk j mt = mt[kk := mt ! j XOR mt_twist (mt_join (mt ! kk) (mt ! next_kk))]"

definition mt_refill :: "u32 list \<Rightarrow> u32 list" where
  "mt_refill mt =
     (let mt = fold (\<lambda>kk. mt_step kk (kk + 1) (kk + 397)) [0..<624 - 397] mt;
          mt = fold (\<lambda>kk. mt_step kk (kk + 1) (kk + 397 - 624)) [624 - 397..<624 - 1] mt in
      mt_step (624 - 1) 0 (397 - 1) mt)"

definition mt_temper :: "u32 \<Rightarrow> u32" where
  "mt_temper y =
     (let y = y XOR drop_bit 11 y;
          y = y XOR (push_bit 7 y AND 0x9d2c5680);
          y = y XOR (push_bit 15 y AND 0xefc60000) in
      y XOR drop_bit 18 y)"

definition genrand :: "mt_state \<Rightarrow> u32 \<times> mt_state" where
  "genrand s =
     (let s = (if 624 \<le> mti s then
                 let s = (if mti s = 625 then sgenrand 4357 s else s) in
                 \<lparr>mt_array = mt_refill (mt_array s), mti = 0\<rparr>
               else s) in
      (mt_temper (mt_array s ! mti s), s\<lparr>mti := mti s + 1\<rparr>))"

section \<open>The recurrence\<close>

function mt_word :: "u32 \<Rightarrow> nat \<Rightarrow> u32" where
  "mt_word seed k =
     (if k = 0 then seed
      else if k < 624 then 69069 * mt_word seed (k - 1)
      else mt_word seed (k - 227) XOR mt_twist (mt_join (mt_word seed (k - 624)) (mt_word seed (k - 623))))"
  by pat_completeness auto
termination by (relation "measure snd") auto

declare mt_word.simps [simp del]

lemma mt_word_0: "mt_word seed 0 = seed"
  by (subst mt_word.simps) simp

lemma mt_word_seed: "0 < k \<Longrightarrow> k < 624 \<Longrightarrow> mt_word seed k = 69069 * mt_word seed (k - 1)"
  by (subst mt_word.simps) simp

lemma mt_word_next:
  "mt_word seed (k + 624) = mt_word seed (k + 397) XOR mt_twist (mt_join (mt_word seed k) (mt_word seed (k + 1)))"
  by (subst mt_word.simps) (simp add: add.commute)

text \<open>The array holds the 624 words from \<open>b\<close> on, of which the first \<open>j\<close> are already replaced by the next ones.\<close>

definition window :: "u32 \<Rightarrow> nat \<Rightarrow> nat \<Rightarrow> u32 list \<Rightarrow> bool" where
  "window seed b j mt \<longleftrightarrow> length mt = 624 \<and> (\<forall>i < 624. mt ! i = mt_word seed (if i < j then b + 624 + i else b + i))"

lemma window_step:
  assumes w: "window seed b kk mt" and kk: "kk < 624"
    and next_kk: "next_kk = (if kk = 623 then 0 else kk + 1)"
    and j: "j = (if kk < 227 then kk + 397 else kk - 227)"
  shows "window seed b (Suc kk) (mt_step kk next_kk j mt)"
proof -
  have nth: "mt ! i = mt_word seed (if i < kk then b + 624 + i else b + i)" if "i < 624" for i
    using w that by (simp add: window_def)
  have "mt ! kk = mt_word seed (b + kk)" using nth [of kk] kk by simp
  moreover have "mt ! next_kk = mt_word seed (b + kk + 1)" using nth [of next_kk] kk next_kk by (auto simp: ac_simps)
  moreover have "mt ! j = mt_word seed (b + kk + 397)" using nth [of j] kk j by (auto simp: ac_simps)
  ultimately have "mt ! j XOR mt_twist (mt_join (mt ! kk) (mt ! next_kk)) = mt_word seed (b + 624 + kk)"
    using mt_word_next [of seed "b + kk"] by (simp add: ac_simps)
  then show ?thesis using w kk by (auto simp: window_def mt_step_def nth_list_update less_Suc_eq)
qed

lemma window_fold:
  assumes "a \<le> n" "window seed b a mt"
    and "\<And>kk mt. a \<le> kk \<Longrightarrow> kk < n \<Longrightarrow> window seed b kk mt \<Longrightarrow> window seed b (Suc kk) (f kk mt)"
  shows "window seed b n (fold f [a..<n] mt)"
  using assms
proof (induction n rule: dec_induct)
  case (step k)
  then have "window seed b k (fold f [a..<k] mt)" by simp
  with step.prems(2) [of k] step.hyps show ?case by (simp add: upt_Suc_append)
qed simp

lemma window_refill:
  assumes "window seed b 0 mt"
  shows "window seed (b + 624) 0 (mt_refill mt)"
proof -
  let ?a = "fold (\<lambda>kk. mt_step kk (kk + 1) (kk + 397)) [0..<227] mt"
  let ?b = "fold (\<lambda>kk. mt_step kk (kk + 1) (kk + 397 - 624)) [227..<623] ?a"
  have "window seed b 227 ?a" using assms by (intro window_fold) (auto intro: window_step)
  then have "window seed b 623 ?b" by (rule window_fold [rotated]) (auto intro: window_step)
  then have "window seed b (Suc 623) (mt_step 623 0 396 ?b)" by (rule window_step) simp_all
  then have "window seed b 624 (mt_refill mt)" by (simp add: mt_refill_def)
  then show ?thesis by (simp add: window_def)
qed

lemma window_sgenrand: "length (mt_array s) = 624 \<Longrightarrow> window seed 0 0 (mt_array (sgenrand seed s))"
proof -
  assume len: "length (mt_array s) = 624"
  let ?f = "\<lambda>i mt. mt[i := (69069 * mt ! (i - 1)) AND 0xffffffff] :: u32 list"
  have max: "(0xffffffff :: u32) = -1" by simp
  have ones: "x AND 0xffffffff = x" for x :: u32 unfolding max by simp
  have len': "length (fold ?f xs w) = length w" for xs w by (induction xs arbitrary: w) auto
  have "n \<le> 624 \<Longrightarrow> \<forall>i < n. fold ?f [1..<n] ((mt_array s)[0 := seed]) ! i = mt_word seed i" if "0 < n" for n
    using that
  proof (induction n rule: nat_induct_non_zero)
    case 1
    then show ?case using len by (simp add: mt_word_0)
  next
    case (Suc n)
    let ?w = "fold ?f [1..<n] ((mt_array s)[0 := seed])"
    have "fold ?f [1..<Suc n] ((mt_array s)[0 := seed]) = ?w[n := 69069 * ?w ! (n - 1)]"
      using Suc.hyps by (simp add: upt_Suc_append ones)
    moreover have "?w ! (n - 1) = mt_word seed (n - 1)" using Suc by simp
    ultimately show ?case using Suc len len' mt_word_seed [of n seed] by (auto simp: nth_list_update less_Suc_eq)
  qed
  from this [of 624] show ?thesis using len len' by (simp add: window_def sgenrand_def ones)
qed

text \<open>The state after \<open>n\<close> words were given out.\<close>

definition mt_at :: "u32 \<Rightarrow> nat \<Rightarrow> mt_state \<Rightarrow> bool" where
  "mt_at seed n s \<longleftrightarrow> (\<exists>b. window seed b 0 (mt_array s) \<and> mti s \<le> 624 \<and> b + mti s = n + 624)"

lemma mt_at_genrand:
  assumes "mt_at seed n s"
  shows "fst (genrand s) = mt_temper (mt_word seed (n + 624)) \<and> mt_at seed (Suc n) (snd (genrand s))"
proof -
  from assms obtain b where b: "window seed b 0 (mt_array s)" "mti s \<le> 624" "b + mti s = n + 624" by (auto simp: mt_at_def)
  show ?thesis
  proof (cases "mti s = 624")
    case True
    then have g: "genrand s = (mt_temper (mt_refill (mt_array s) ! 0), \<lparr>mt_array = mt_refill (mt_array s), mti = 1\<rparr>)"
      by (simp add: genrand_def)
    have w: "window seed (b + 624) 0 (mt_refill (mt_array s))" using b(1) by (rule window_refill)
    then have "mt_refill (mt_array s) ! 0 = mt_word seed (b + 624)" by (simp add: window_def)
    then show ?thesis using g w b(3) True by (auto simp: mt_at_def add.commute)
  next
    case False
    then have g: "genrand s = (mt_temper (mt_array s ! mti s), s\<lparr>mti := mti s + 1\<rparr>)" using b(2) by (simp add: genrand_def)
    have "mt_array s ! mti s = mt_word seed (n + 624)" using b False by (simp add: window_def)
    then show ?thesis using g b False by (auto simp: mt_at_def)
  qed
qed

primrec genrands :: "nat \<Rightarrow> mt_state \<Rightarrow> u32 list" where
  "genrands 0 s = []"
| "genrands (Suc n) s = (case genrand s of (y, s) \<Rightarrow> y # genrands n s)"

lemma genrands_at: "mt_at seed k s \<Longrightarrow> genrands n s = map (\<lambda>i. mt_temper (mt_word seed (i + 624))) [k..<k + n]"
proof (induction n arbitrary: k s)
  case (Suc n)
  have "[k..<k + Suc n] = k # [Suc k..<Suc k + n]" by (simp add: upt_conv_Cons)
  with mt_at_genrand [OF Suc.prems] Suc.IH [of "Suc k" "snd (genrand s)"]
  show ?case by (simp add: case_prod_beta del: upt_Suc)
qed simp

lemma mt_at_sgenrand: "length (mt_array s) = 624 \<Longrightarrow> mt_at seed 0 (sgenrand seed s)"
  using window_sgenrand [of s seed] by (auto simp: mt_at_def sgenrand_def)

text \<open>
  C29: The numbers that \<open>genrand\<close> gives after \<open>sgenrand(seed)\<close>, as many as are asked for, are the tempered words of the
  recurrence \<open>x(k + 624) = x(k + 397) XOR twist(x(k), x(k + 1))\<close> that starts with the 624 words of the seed; without
  \<open>sgenrand\<close> they are those of the seed 4357.
\<close>

theorem genrand_recurrence:
  "genrands n (sgenrand seed mt_start) = map (\<lambda>i. mt_temper (mt_word seed (i + 624))) [0..<n] \<and>
   genrands n mt_start = map (\<lambda>i. mt_temper (mt_word 4357 (i + 624))) [0..<n]"
proof -
  have "length (mt_array mt_start) = 624" by (simp add: mt_start_def)
  from mt_at_sgenrand [OF this] have at: "mt_at seed 0 (sgenrand seed mt_start)" for seed .
  have "genrand mt_start = genrand (sgenrand 4357 mt_start)" by (simp add: genrand_def mt_start_def sgenrand_def Let_def)
  then have "genrands n mt_start = genrands n (sgenrand 4357 mt_start)" by (cases n) simp_all
  then show ?thesis using genrands_at [OF at] by simp
qed

end
