(* ===== verification/Thrgrp.thy ===== *)
theory Thrgrp
  imports Thread
begin

text \<open>
  410user/libthrgrp/thrgrp.c: groups of threads that are joined in the order they exit. A
  \<open>thrgrp_data_t\<close> is a union: first the arguments of the new thread (\<open>Tmp\<close>), later its element of the
  queue of zombies (\<open>Qel\<close>); the blocks of this type are the map \<open>zs\<close>. The threads' functions are code of the
  caller, so \<open>thrgrp_bottom\<close> is split at the call of \<open>func\<close>; \<open>thrgrp_join\<close> is split where \<open>cond_wait\<close> blocks and
  at its last statement, the call of \<open>thr_join\<close> on the thread ID that the model returns.
\<close>

section \<open>The functions\<close>

datatype thrgrp_data =
    Qel (q_next: addr) (q_tid: i32)
  | Tmp (t_func: addr) (t_arg: addr) (t_tg: addr)

type_synonym zombies = "addr \<Rightarrow> thrgrp_data option"

record thrgrp_group =
  tg_cv :: cond
  tg_zombie_in :: addr
  tg_zombie_out :: addr
  tg_lock :: mutex

definition thrgrp_init_group :: "thrgrp_group \<Rightarrow> i32 \<times> thrgrp_group" where
  "thrgrp_init_group eg =
     (let eg = eg\<lparr>tg_zombie_in := 0, tg_zombie_out := 0\<rparr> in
      case mutex_init (Some (tg_lock eg)) of (ret, mp) \<Rightarrow>
        let eg = eg\<lparr>tg_lock := the mp\<rparr> in
        if ret \<noteq> 0 then (ret, eg)
        else case cond_init (Some (tg_cv eg)) of (ret, cp) \<Rightarrow>
          let eg = eg\<lparr>tg_cv := the cp\<rparr> in
          if ret \<noteq> 0 then (ret, (case mutex_destroy (tg_lock eg) of Ret m \<Rightarrow> eg\<lparr>tg_lock := m\<rparr> | _ \<Rightarrow> eg))
          else (0, eg))"

definition thrgrp_destroy_group ::
  "(mutex \<Rightarrow> mutex) list \<Rightarrow> (mutex \<Rightarrow> mutex) list \<Rightarrow> thrgrp_group \<Rightarrow> heap \<Rightarrow> (i32 \<times> thrgrp_group \<times> heap) outcome" where
  "thrgrp_destroy_group env cenv eg h =
     bnd (mutex_lock env (tg_lock eg)) (\<lambda>m.
     let ret = (if tg_zombie_in eg \<noteq> 0 \<or> tg_zombie_out eg \<noteq> 0 then 1 else 0) in
     bnd (mutex_unlock m) (\<lambda>m.
     if ret = 0 then
       bnd (mutex_destroy m) (\<lambda>m.
       bnd (cond_destroy cenv (tg_cv eg) h) (\<lambda>(c, h). Ret (ret, eg\<lparr>tg_lock := m, tg_cv := c\<rparr>, h)))
     else Ret (ret, eg\<lparr>tg_lock := m\<rparr>, h)))"

text \<open>\<open>thrgrp_bottom\<close> up to the call \<open>func(arg)\<close>: the function, its argument, the group, and the block reused.\<close>

definition thrgrp_bottom_start :: "addr \<Rightarrow> i32 \<Rightarrow> zombies \<Rightarrow> (addr \<times> addr \<times> addr \<times> zombies) outcome" where
  "thrgrp_bottom_start data tid zs =
     (case zs data of
        Some (Tmp func arg tg) \<Rightarrow> Ret (func, arg, tg, zs(data \<mapsto> Qel 0 (thr_getid tid)))
      | _ \<Rightarrow> Fault)"

definition zombie_link :: "addr \<Rightarrow> addr \<Rightarrow> zombies \<Rightarrow> zombies outcome" where
  "zombie_link z data zs = (case zs z of Some (Qel nx t) \<Rightarrow> Ret (zs(z \<mapsto> Qel data t)) | _ \<Rightarrow> Fault)"

text \<open>\<open>thrgrp_bottom\<close> after \<open>func\<close> returned; the result is the threads that \<open>cond_signal\<close> makes runnable.\<close>

definition thrgrp_bottom_end ::
  "(mutex \<Rightarrow> mutex) list \<Rightarrow> (mutex \<Rightarrow> mutex) list \<Rightarrow> addr \<Rightarrow> thrgrp_group \<Rightarrow> zombies \<Rightarrow> heap
   \<Rightarrow> (i32 list \<times> thrgrp_group \<times> zombies \<times> heap) outcome" where
  "thrgrp_bottom_end env cenv data tg zs h =
     bnd (mutex_lock env (tg_lock tg)) (\<lambda>m.
     bnd (if tg_zombie_in tg \<noteq> 0 then zombie_link (tg_zombie_in tg) data zs else Ret zs) (\<lambda>zs.
     let tg = tg\<lparr>tg_zombie_in := data\<rparr>;
         tg = (if tg_zombie_out tg = 0 then tg\<lparr>tg_zombie_out := data\<rparr> else tg) in
     bnd (cond_signal cenv (tg_cv tg) h) (\<lambda>(tids, c, h).
     bnd (mutex_unlock m) (\<lambda>m. Ret (tids, tg\<lparr>tg_cv := c, tg_lock := m\<rparr>, zs, h)))))"

text \<open>\<open>thrgrp_create\<close>: \<open>malloc\<close> returned \<open>data\<close>; the arguments after \<open>bottom\<close> are those of the model of \<open>thr_create\<close>.\<close>

definition thrgrp_create ::
  "addr \<Rightarrow> addr \<Rightarrow> addr \<Rightarrow> addr \<Rightarrow> zombies \<Rightarrow> addr \<Rightarrow>
   'k vm \<Rightarrow> (mutex \<Rightarrow> mutex) list \<Rightarrow> addr \<Rightarrow> thread \<Rightarrow> addr \<Rightarrow> thr \<Rightarrow> 'k
   \<Rightarrow> (i32 \<times> zombies \<times> thr \<times> 'k) outcome" where
  "thrgrp_create data tg func arg zs bottom K env p t0 p2 s k =
     (if data = 0 then Ret (-1, zs, s, k)
      else
        let zs = zs(data \<mapsto> Tmp func arg tg) in
        bnd (thr_create K env bottom data p t0 p2 s k) (\<lambda>(tid, s, k).
        if neg32 tid then Ret (tid, zs(data := None), s, k)
        else Ret (0, zs, s, k)))"

datatype 'a thrgrp_wait = G_Wait 'a | G_Join i32 'a

text \<open>The loop test of \<open>thrgrp_join\<close> with the lock held, and what follows: wait, or take the oldest zombie.\<close>

definition thrgrp_join_try ::
  "(mutex \<Rightarrow> mutex) list \<Rightarrow> addr \<Rightarrow> addr \<Rightarrow> i32 \<Rightarrow> thrgrp_group \<Rightarrow> zombies \<Rightarrow> heap
   \<Rightarrow> (thrgrp_group \<times> zombies \<times> heap) thrgrp_wait outcome" where
  "thrgrp_join_try cenv p1 p2 self eg zs h =
     (if tg_zombie_out eg = 0 then
        bnd (cond_wait_enter cenv p1 p2 self (tg_cv eg) (tg_lock eg) h) (\<lambda>(c, m, h).
        Ret (G_Wait (eg\<lparr>tg_cv := c, tg_lock := m\<rparr>, zs, h)))
      else
        let thr_data = tg_zombie_out eg in
        case zs thr_data of
          Some (Qel nx tid) \<Rightarrow>
            let eg = (if tg_zombie_out eg = tg_zombie_in eg then eg\<lparr>tg_zombie_in := 0, tg_zombie_out := 0\<rparr>
                      else eg\<lparr>tg_zombie_out := nx\<rparr>) in
            bnd (mutex_unlock (tg_lock eg)) (\<lambda>m. Ret (G_Join tid (eg\<lparr>tg_lock := m\<rparr>, zs(thr_data := None), h)))
        | _ \<Rightarrow> Fault)"

definition thrgrp_join_enter ::
  "(mutex \<Rightarrow> mutex) list \<Rightarrow> (mutex \<Rightarrow> mutex) list \<Rightarrow> addr \<Rightarrow> addr \<Rightarrow> i32 \<Rightarrow> thrgrp_group \<Rightarrow> zombies \<Rightarrow> heap
   \<Rightarrow> (thrgrp_group \<times> zombies \<times> heap) thrgrp_wait outcome" where
  "thrgrp_join_enter env cenv p1 p2 self eg zs h =
     bnd (mutex_lock env (tg_lock eg)) (\<lambda>m. thrgrp_join_try cenv p1 p2 self (eg\<lparr>tg_lock := m\<rparr>) zs h)"

text \<open>After the while loop of \<open>cond_wait\<close>: the record \<open>p\<close> is freed, the lock taken again, the test repeated.\<close>

definition thrgrp_join_wake ::
  "(mutex \<Rightarrow> mutex) list \<Rightarrow> (mutex \<Rightarrow> mutex) list \<Rightarrow> addr \<Rightarrow> addr \<Rightarrow> addr \<Rightarrow> i32 \<Rightarrow> thrgrp_group \<Rightarrow> zombies \<Rightarrow> heap
   \<Rightarrow> (thrgrp_group \<times> zombies \<times> heap) thrgrp_wait outcome" where
  "thrgrp_join_wake env cenv p p1 p2 self eg zs h =
     bnd (cond_wait_exit env p (tg_lock eg) h) (\<lambda>(m, h). thrgrp_join_try cenv p1 p2 self (eg\<lparr>tg_lock := m\<rparr>) zs h)"

section \<open>The queue of zombies\<close>

text \<open>\<open>zseg zs a es b\<close>: from \<open>a\<close> the \<open>next\<close> pointers lead through the elements \<open>es\<close> to \<open>b\<close>, the last element.\<close>

fun zseg :: "zombies \<Rightarrow> addr \<Rightarrow> (addr \<times> i32) list \<Rightarrow> addr \<Rightarrow> bool" where
  "zseg zs a [] b = (a = 0 \<and> b = 0)"
| "zseg zs a [(p, tid)] b = (p \<noteq> 0 \<and> a = p \<and> b = p \<and> (\<exists>nx. zs p = Some (Qel nx tid)))"
| "zseg zs a ((p, tid) # e # es) b = (p \<noteq> 0 \<and> a = p \<and> (\<exists>nx. zs p = Some (Qel nx tid) \<and> zseg zs nx (e # es) b))"

definition group_rep :: "thrgrp_group \<Rightarrow> zombies \<Rightarrow> heap \<Rightarrow> (addr \<times> i32) list \<Rightarrow> entry list \<Rightarrow> bool" where
  "group_rep g zs h q ws \<longleftrightarrow> mx_free (tg_lock g) \<and> cond_rep (tg_cv g) h ws \<and> distinct (map fst q) \<and>
     zseg zs (tg_zombie_out g) q (tg_zombie_in g)"

lemma zseg_ends: "zseg zs a q b \<Longrightarrow> (a = 0 \<longleftrightarrow> q = []) \<and> (b = 0 \<longleftrightarrow> q = [])"
  by (induction zs a q b rule: zseg.induct) auto

lemma zseg_last: "zseg zs a q b \<Longrightarrow> q \<noteq> [] \<Longrightarrow> b = fst (last q) \<and> (\<exists>nx. zs b = Some (Qel nx (snd (last q))))"
  by (induction zs a q b rule: zseg.induct) auto

lemma zseg_cong: "(\<And>p. p \<in> fst ` set q \<Longrightarrow> zs' p = zs p) \<Longrightarrow> zseg zs a q b \<Longrightarrow> zseg zs' a q b"
  by (induction zs a q b rule: zseg.induct) auto

lemma zseg_snoc:
  "zseg zs a q b \<Longrightarrow> distinct (map fst q) \<Longrightarrow> p \<notin> fst ` set q \<Longrightarrow> p \<noteq> 0 \<Longrightarrow> zs p = Some (Qel nx tid) \<Longrightarrow> q \<noteq> [] \<Longrightarrow>
   zseg (zs(b \<mapsto> Qel p (snd (last q)))) a (q @ [(p, tid)]) p"
proof (induction zs a q b rule: zseg.induct)
  case (2 zs a r t b)
  then show ?case by auto
next
  case (3 zs a r t e es b)
  from 3(2) obtain n where n: "zs r = Some (Qel n t)" "zseg zs n (e # es) b" "a = r" "r \<noteq> 0" by auto
  have b: "b \<noteq> r" using zseg_last [OF n(2)] 3(3) by (metis distinct.simps(2) image_eqI last_in_set list.distinct(1) list.simps(9) prod.sel(1) set_map)
  have "zseg (zs(b \<mapsto> Qel p (snd (last (e # es))))) n ((e # es) @ [(p, tid)]) p"
    using 3 n(2) by (intro "3.IH") auto
  then have "zseg (zs(b \<mapsto> Qel p (snd (last ((r, t) # e # es))))) n (e # es @ [(p, tid)]) p" by simp
  moreover have "(zs(b \<mapsto> Qel p (snd (last ((r, t) # e # es))))) r = Some (Qel n t)" using n b by simp
  ultimately show ?case using n by (simp del: fun_upd_apply last.simps)
qed simp

text \<open>A new zombie goes to the end of the queue.\<close>

lemma zombie_insert:
  assumes "zseg zs a q b" "distinct (map fst q)" "p \<notin> fst ` set q" "p \<noteq> 0" "zs p = Some (Qel nx tid)"
  shows "\<exists>zs'. (if b \<noteq> 0 then zombie_link b p zs else Ret zs) = Ret zs' \<and>
    zseg zs' (if a = 0 then p else a) (q @ [(p, tid)]) p \<and> (\<forall>r. r \<notin> fst ` set q \<longrightarrow> zs' r = zs r)"
proof (cases "q = []")
  case True
  with assms show ?thesis by simp
next
  case False
  with zseg_ends [OF assms(1)] have ab: "a \<noteq> 0" "b \<noteq> 0" by simp_all
  from zseg_last [OF assms(1) False] obtain n where b: "b = fst (last q)" "zs b = Some (Qel n (snd (last q)))" by blast
  then have "b \<in> fst ` set q" using False by simp
  with zseg_snoc [OF assms(1-5) False] ab b(2) show ?thesis by (auto simp: zombie_link_def)
qed

lemma zombie_take:
  assumes "zseg zs a ((p, tid) # q) b" "distinct (map fst ((p, tid) # q))"
  obtains nx where "a = p" "p \<noteq> 0" "zs p = Some (Qel nx tid)"
    "zseg (zs(p := None)) (if a = b then 0 else nx) q (if a = b then 0 else b)"
proof (cases q)
  case Nil
  with assms(1) obtain nx where "p \<noteq> 0" "a = p" "b = p" "zs p = Some (Qel nx tid)" by auto
  with Nil show thesis by (intro that [of nx]) simp_all
next
  case (Cons e es)
  with assms(1) obtain nx where n: "a = p" "p \<noteq> 0" "zs p = Some (Qel nx tid)" "zseg zs nx q b" by (cases e) auto
  have "b = fst (last q)" using zseg_last [OF n(4)] Cons by simp
  then have "b \<in> fst ` set q" using Cons by simp
  with assms(2) have "p \<noteq> b" by auto
  moreover have "zseg (zs(p := None)) nx q b"
  proof (rule zseg_cong [OF _ n(4)])
    fix r assume "r \<in> fst ` set q"
    with assms(2) show "(zs(p := None)) r = zs r" by auto
  qed
  ultimately show thesis using n(1-3) by (intro that [of nx]) simp_all
qed

section \<open>What the functions do\<close>

lemma cond_signal_group:
  assumes "cond_rep c h ws"
  shows "\<exists>c' h'. cond_signal env c h = Ret (map tid_of (rev (drop (length ws - 1) ws)), c', h') \<and> cond_rep c' h' (butlast ws)"
proof (cases ws rule: rev_cases)
  case Nil
  with assms cond_signal_none [of c h env] show ?thesis by auto
next
  case (snoc ws' w)
  with cond_signal_rep [of c h ws' w env] assms show ?thesis by auto
qed

lemma thrgrp_exit_rep:
  assumes g: "group_rep g zs h q ws" and p: "p \<notin> fst ` set q" "p \<noteq> 0" "zs p = Some (Qel nx tid)"
  shows "\<exists>g' zs' h'. thrgrp_bottom_end env cenv p g zs h = Ret (map tid_of (rev (drop (length ws - 1) ws)), g', zs', h') \<and>
    group_rep g' zs' h' (q @ [(p, tid)]) (butlast ws)"
proof -
  from g have r: "mx_free (tg_lock g)" "cond_rep (tg_cv g) h ws" "distinct (map fst q)" "zseg zs (tg_zombie_out g) q (tg_zombie_in g)"
    by (simp_all add: group_rep_def)
  from zombie_insert [OF r(4,3) p] obtain zs' where z: "(if tg_zombie_in g \<noteq> 0 then zombie_link (tg_zombie_in g) p zs else Ret zs) = Ret zs'"
    "zseg zs' (if tg_zombie_out g = 0 then p else tg_zombie_out g) (q @ [(p, tid)]) p" by blast
  from cond_signal_group [OF r(2)] obtain c' h' where
    c: "cond_signal cenv (tg_cv g) h = Ret (map tid_of (rev (drop (length ws - 1) ws)), c', h')" "cond_rep c' h' (butlast ws)" by blast
  show ?thesis using r(1,3) z c p(1)
    by (auto simp: thrgrp_bottom_end_def outcome_simps Let_def group_rep_def simp del: bnd_Ret_iff)
qed

lemma thrgrp_join_rep:
  assumes g: "group_rep g zs h ((p, tid) # q) ws"
  shows "\<exists>g' zs'. thrgrp_join_enter env cenv p1 p2 self g zs h = Ret (G_Join tid (g', zs', h)) \<and>
    group_rep g' zs' h q ws \<and> zs' = zs(p := None)"
proof -
  from g have r: "mx_free (tg_lock g)" "cond_rep (tg_cv g) h ws" "distinct (map fst ((p, tid) # q))"
    "zseg zs (tg_zombie_out g) ((p, tid) # q) (tg_zombie_in g)" by (simp_all only: group_rep_def)
  from zombie_take [OF r(4,3)] obtain nx where z: "tg_zombie_out g = p" "p \<noteq> 0" "zs p = Some (Qel nx tid)"
    "zseg (zs(p := None)) (if tg_zombie_out g = tg_zombie_in g then 0 else nx) q (if tg_zombie_out g = tg_zombie_in g then 0 else tg_zombie_in g)" .
  show ?thesis using r(1-3) z
    by (auto simp: thrgrp_join_enter_def thrgrp_join_try_def outcome_simps Let_def group_rep_def simp del: bnd_Ret_iff)
qed

lemma thrgrp_wait_rep:
  assumes g: "group_rep g zs h [] ws" and f: "fresh h p1" "fresh h p2" "p1 \<noteq> p2"
  shows "\<exists>g' h'. thrgrp_join_enter env cenv p1 p2 self g zs h = Ret (G_Wait (g', zs, h')) \<and>
    group_rep g' zs h' [] ((p2, p1, self) # ws)"
proof -
  from g have r: "mx_free (tg_lock g)" "cond_rep (tg_cv g) h ws" "tg_zombie_out g = 0" "tg_zombie_in g = 0" by (simp_all add: group_rep_def)
  then have held: "mx_held ((tg_lock g)\<lparr>mx_lockFlag := 1\<rparr>)" by simp
  from cond_wait_enter_rep [OF r(2) held f, of cenv self] obtain c' h' where
    c: "cond_wait_enter cenv p1 p2 self (tg_cv g) ((tg_lock g)\<lparr>mx_lockFlag := 1\<rparr>) h = Ret (c', (tg_lock g)\<lparr>mx_lockFlag := 0\<rparr>, h')"
      "cond_rep c' h' ((p2, p1, self) # ws)" by auto
  show ?thesis using r c
    by (auto simp: thrgrp_join_enter_def thrgrp_join_try_def outcome_simps Let_def group_rep_def simp del: bnd_Ret_iff)
qed

section \<open>Joins come in the order of the exits\<close>

type_synonym group_state = "thrgrp_group \<times> zombies \<times> heap"

text \<open>Threads with the blocks \<open>p\<close> and the IDs \<open>tid\<close> run and exit one after the other.\<close>

fun group_exits :: "(addr \<times> i32) list \<Rightarrow> group_state \<Rightarrow> group_state outcome" where
  "group_exits [] s = Ret s"
| "group_exits ((p, tid) # ps) (g, zs, h) =
     bnd (thrgrp_bottom_start p tid zs) (\<lambda>(func, arg, tg, zs).
     bnd (thrgrp_bottom_end [] [] p g zs h) (\<lambda>(tids, s). group_exits ps s))"

text \<open>One thread joins \<open>n\<close> times; \<open>Hang\<close> when it has to wait.\<close>

fun group_joins :: "nat \<Rightarrow> group_state \<Rightarrow> (i32 list \<times> group_state) outcome" where
  "group_joins 0 s = Ret ([], s)"
| "group_joins (Suc n) (g, zs, h) =
     bnd (thrgrp_join_enter [] [] 0 0 0 g zs h) (\<lambda>r.
     case r of
       G_Wait s \<Rightarrow> Hang
     | G_Join tid s \<Rightarrow> bnd (group_joins n s) (\<lambda>(tids, s). Ret (tid # tids, s)))"

definition new_data :: "zombies \<Rightarrow> addr \<Rightarrow> bool" where
  "new_data zs p \<longleftrightarrow> p \<noteq> 0 \<and> (\<exists>func arg tg. zs p = Some (Tmp func arg tg))"

lemma zseg_Qel: "zseg zs a q b \<Longrightarrow> (p, tid) \<in> set q \<Longrightarrow> \<exists>nx. zs p = Some (Qel nx tid)"
  by (induction zs a q b rule: zseg.induct) auto

lemma thrgrp_bottom_rep:
  assumes g: "group_rep g zs h q ws" and p: "new_data zs p"
  shows "\<exists>f a t zs1 tids g' zs' h'. thrgrp_bottom_start p tid zs = Ret (f, a, t, zs1) \<and>
    thrgrp_bottom_end [] [] p g zs1 h = Ret (tids, g', zs', h') \<and> group_rep g' zs' h' (q @ [(p, tid)]) (butlast ws) \<and>
    (\<forall>r. r \<noteq> p \<and> new_data zs r \<longrightarrow> new_data zs' r)"
proof -
  from p obtain f a t where d: "p \<noteq> 0" "zs p = Some (Tmp f a t)" by (auto simp: new_data_def)
  let ?zs1 = "zs(p \<mapsto> Qel 0 tid)"
  have seg: "zseg zs (tg_zombie_out g) q (tg_zombie_in g)" using g by (simp add: group_rep_def)
  have pq: "p \<notin> fst ` set q" using zseg_Qel [OF seg] d(2) by fastforce
  have "zseg ?zs1 (tg_zombie_out g) q (tg_zombie_in g)"
  proof (rule zseg_cong [OF _ seg])
    fix r assume "r \<in> fst ` set q"
    with pq show "?zs1 r = zs r" by auto
  qed
  then have "group_rep g ?zs1 h q ws" using g by (simp add: group_rep_def)
  with pq obtain tids g' zs' h' where e: "thrgrp_bottom_end [] [] p g ?zs1 h = Ret (tids, g', zs', h')"
    "group_rep g' zs' h' (q @ [(p, tid)]) (butlast ws)"
    using thrgrp_exit_rep [of g ?zs1 h q ws p 0 tid "[]" "[]"] d(1) by auto
  have "new_data zs' r" if r: "r \<noteq> p" "new_data zs r" for r
  proof -
    have "mx_free (tg_lock g)" using g by (simp add: group_rep_def)
    with e(1) have "(if tg_zombie_in g \<noteq> 0 then zombie_link (tg_zombie_in g) p ?zs1 else Ret ?zs1) = Ret zs'"
      by (auto simp: thrgrp_bottom_end_def outcome_simps Let_def)
    with r show ?thesis by (auto simp: zombie_link_def new_data_def split: if_splits option.splits thrgrp_data.splits)
  qed
  moreover have "thrgrp_bottom_start p tid zs = Ret (f, a, t, ?zs1)" using d(2) by (simp add: thrgrp_bottom_start_def thr_getid_def)
  ultimately show ?thesis using e by blast
qed

lemma group_exits_rep:
  "group_rep g zs h q ws \<Longrightarrow> distinct (map fst ps) \<Longrightarrow> \<forall>p \<in> fst ` set ps. new_data zs p \<Longrightarrow>
   \<exists>g' zs' h'. group_exits ps (g, zs, h) = Ret (g', zs', h') \<and> group_rep g' zs' h' (q @ ps) (take (length ws - length ps) ws)"
proof (induction ps arbitrary: g zs h q ws)
  case (Cons e ps)
  obtain p tid where e: "e = (p, tid)" by (cases e)
  from thrgrp_bottom_rep [OF Cons.prems(1), of p tid] Cons.prems(3) e obtain f a t zs1 tids g1 zs2 h1 where
    r: "thrgrp_bottom_start p tid zs = Ret (f, a, t, zs1)" "thrgrp_bottom_end [] [] p g zs1 h = Ret (tids, g1, zs2, h1)"
      "group_rep g1 zs2 h1 (q @ [(p, tid)]) (butlast ws)" "\<forall>r. r \<noteq> p \<and> new_data zs r \<longrightarrow> new_data zs2 r" by auto
  have "\<forall>r \<in> fst ` set ps. new_data zs2 r" using r(4) Cons.prems(2,3) e by auto
  from Cons.IH [OF r(3) _ this] Cons.prems(2) obtain g' zs' h' where
    "group_exits ps (g1, zs2, h1) = Ret (g', zs', h')"
    "group_rep g' zs' h' ((q @ [(p, tid)]) @ ps) (take (length (butlast ws) - length ps) (butlast ws))" by auto
  moreover have "take (length (butlast ws) - length ps) (butlast ws) = take (length ws - length (e # ps)) ws"
    by (simp add: butlast_conv_take)
  ultimately show ?case using r(1,2) e by (simp add: outcome_simps del: bnd_Ret_iff)
qed simp

lemma group_joins_rep:
  "group_rep g zs h q ws \<Longrightarrow> \<exists>g' zs'. group_joins (length q) (g, zs, h) = Ret (map snd q, g', zs', h) \<and>
    group_rep g' zs' h [] ws \<and> (\<forall>r. zs' r = (if r \<in> fst ` set q then None else zs r))"
proof (induction q arbitrary: g zs)
  case (Cons e q)
  obtain p tid where e: "e = (p, tid)" by (cases e)
  from thrgrp_join_rep [of g zs h p tid q ws "[]" "[]" 0 0 0] Cons.prems e obtain g1 zs1 where
    r: "thrgrp_join_enter [] [] 0 0 0 g zs h = Ret (G_Join tid (g1, zs1, h))" "group_rep g1 zs1 h q ws" "zs1 = zs(p := None)" by auto
  from Cons.IH [OF r(2)] obtain g' zs' where
    j: "group_joins (length q) (g1, zs1, h) = Ret (map snd q, g', zs', h)" "group_rep g' zs' h [] ws"
      "\<forall>r. zs' r = (if r \<in> fst ` set q then None else zs1 r)" by blast
  have "group_joins (length (e # q)) (g, zs, h) = Ret (map snd (e # q), g', zs', h)"
    using r(1) j(1) e by (simp add: outcome_simps del: bnd_Ret_iff)
  moreover have "\<forall>r. zs' r = (if r \<in> fst ` set (e # q) then None else zs r)" using j(3) r(3) e by auto
  ultimately show ?case using j(2) by blast
qed simp

text \<open>
  C37: A thread group hands out its threads in the order in which they exited: when the threads \<open>ps\<close> have exited behind
  the zombies \<open>q\<close>, the next \<open>length q + length ps\<close> joins return without waiting, on the thread IDs of \<open>q\<close> and then of
  \<open>ps\<close>, free exactly their blocks and leave the group empty; each exit has woken the longest waiting joiner.
\<close>

theorem thrgrp_fifo:
  assumes "group_rep g zs h q ws" "distinct (map fst ps)" "\<forall>p \<in> fst ` set ps. new_data zs p"
  shows "\<exists>g' zs' h'. bnd (group_exits ps (g, zs, h)) (group_joins (length (q @ ps))) = Ret (map snd (q @ ps), g', zs', h') \<and>
    group_rep g' zs' h' [] (take (length ws - length ps) ws) \<and> (\<forall>p \<in> fst ` set (q @ ps). zs' p = None)"
proof -
  from group_exits_rep [OF assms] obtain g1 zs1 h1 where
    x: "group_exits ps (g, zs, h) = Ret (g1, zs1, h1)" "group_rep g1 zs1 h1 (q @ ps) (take (length ws - length ps) ws)" by blast
  from group_joins_rep [OF x(2)] x(1) show ?thesis by (fastforce simp: outcome_simps simp del: bnd_Ret_iff)
qed

lemma thrgrp_init_rep:
  "\<exists>g'. thrgrp_init_group g = (0, g') \<and> group_rep g' zs h [] []"
proof -
  from cond_init_rep [of "tg_cv g" h] obtain c where "cond_init (Some (tg_cv g)) = (0, Some c)" "cond_rep c h []" by blast
  then show ?thesis by (simp add: thrgrp_init_group_def mutex_init_def group_rep_def mx_free_def Let_def)
qed

theorem thrgrp_fifo_witness:
  "\<forall>g. \<exists>g' s. thrgrp_init_group g = (0, g') \<and>
     bnd (group_exits [(8, 1), (16, 2)] (g', [8 \<mapsto> Tmp 3 4 5, 16 \<mapsto> Tmp 3 4 5], Map.empty)) (group_joins 2) = Ret ([1, 2], s)"
proof
  fix g
  obtain g' where g: "thrgrp_init_group g = (0, g')" "group_rep g' [8 \<mapsto> Tmp 3 4 5, 16 \<mapsto> Tmp 3 4 5] Map.empty [] []"
    using thrgrp_init_rep by blast
  have "distinct (map fst [(8 :: addr, 1 :: i32), (16, 2)])"
    "\<forall>p \<in> fst ` set [(8 :: addr, 1 :: i32), (16, 2)]. new_data [8 \<mapsto> Tmp 3 4 5, 16 \<mapsto> Tmp 3 4 5] p"
    by (simp_all add: new_data_def)
  from thrgrp_fifo [OF g(2) this] g(1) show "\<exists>g' s. thrgrp_init_group g = (0, g') \<and>
     bnd (group_exits [(8, 1), (16, 2)] (g', [8 \<mapsto> Tmp 3 4 5, 16 \<mapsto> Tmp 3 4 5], Map.empty)) (group_joins 2) = Ret ([1, 2], s)" by (auto simp: numeral_2_eq_2)
qed

end
