(* ===== verification/Qsort.thy ===== *)
theory Qsort
  imports Prelude "HOL-Library.Multiset"
begin

text \<open>
  410user/libstdlib/qsort.c: Bentley and McIlroy's quicksort. The array is the list of its elements: a pointer to an
  element is the element's index, so that the byte distances of the code are element distances (it divides
  every one by the element size). \<open>cmp\<close> is the function of the caller. The result: for every comparison
  function that is a total preorder the array between \<open>a\<close> and \<open>a + n\<close> ends up sorted and permuted, the rest untouched.
\<close>

section \<open>The code\<close>

type_synonym 'a cmp = "'a \<Rightarrow> 'a \<Rightarrow> i32"

definition swap_at :: "nat \<Rightarrow> nat \<Rightarrow> 'a list \<Rightarrow> 'a list" where
  "swap_at i j xs = xs[i := xs ! j, j := xs ! i]"

text \<open>\<open>swapfunc\<close> on \<open>n\<close> elements, from \<open>i\<close> and from \<open>j\<close> upwards.\<close>

fun vecswap :: "nat \<Rightarrow> nat \<Rightarrow> nat \<Rightarrow> 'a list \<Rightarrow> 'a list" where
  "vecswap i j 0 xs = xs"
| "vecswap i j (Suc n) xs = vecswap (i + 1) (j + 1) n (swap_at i j xs)"

definition med3 :: "'a cmp \<Rightarrow> 'a list \<Rightarrow> nat \<Rightarrow> nat \<Rightarrow> nat \<Rightarrow> nat" where
  "med3 cmp xs a b c =
     (if cmp (xs ! a) (xs ! b) <s 0 then
        if cmp (xs ! b) (xs ! c) <s 0 then b else if cmp (xs ! a) (xs ! c) <s 0 then c else a
      else
        if 0 <s cmp (xs ! b) (xs ! c) then b else if cmp (xs ! a) (xs ! c) <s 0 then a else c)"

text \<open>The insertion sort, in the code twice: the inner and the outer loop.\<close>

fun insert_down :: "'a cmp \<Rightarrow> nat \<Rightarrow> nat \<Rightarrow> 'a list \<Rightarrow> 'a list" where
  "insert_down cmp a pl xs =
     (if a < pl \<and> 0 <s cmp (xs ! (pl - 1)) (xs ! pl) then insert_down cmp a (pl - 1) (swap_at pl (pl - 1) xs) else xs)"

definition insertion_sort :: "'a cmp \<Rightarrow> nat \<Rightarrow> nat \<Rightarrow> 'a list \<Rightarrow> 'a list" where
  "insertion_sort cmp a n xs = fold (insert_down cmp a) [a + 1..<a + n] xs"

definition pivot_index :: "'a cmp \<Rightarrow> nat \<Rightarrow> nat \<Rightarrow> 'a list \<Rightarrow> nat" where
  "pivot_index cmp a n xs =
     (let pm = a + n div 2 in
      if 7 < n then
        let pl = a; pn = a + (n - 1) in
        if 40 < n then
          let d = n div 8;
              pl = med3 cmp xs pl (pl + d) (pl + 2 * d);
              pm = med3 cmp xs (pm - d) pm (pm + d);
              pn = med3 cmp xs (pn - 2 * d) (pn - d) pn in
          med3 cmp xs pl pm pn
        else med3 cmp xs pl pm pn
      else pm)"

text \<open>The partition: the two inner loops and the loop around them. The pivot is at \<open>a\<close>; \<open>cnt\<close> is \<open>swap_cnt\<close>.
  The test \<open>0 < pc\<close> only makes the recursion on naturals end: \<open>pb\<close> is behind the pivot, so \<open>pb \<le> pc\<close> implies it.\<close>

function scan_up :: "'a cmp \<Rightarrow> nat \<Rightarrow> nat \<Rightarrow> nat \<Rightarrow> nat \<Rightarrow> bool \<Rightarrow> 'a list \<Rightarrow> nat \<times> nat \<times> bool \<times> 'a list" where
  "scan_up cmp a pa pb pc cnt xs =
     (if pb \<le> pc \<and> cmp (xs ! pb) (xs ! a) <=s 0 then
        if cmp (xs ! pb) (xs ! a) = 0 then scan_up cmp a (pa + 1) (pb + 1) pc True (swap_at pa pb xs)
        else scan_up cmp a pa (pb + 1) pc cnt xs
      else (pa, pb, cnt, xs))"
  by pat_completeness auto
termination by (relation "measure (\<lambda>(cmp, a, pa, pb, pc, cnt, xs). Suc pc - pb)") auto

function scan_down :: "'a cmp \<Rightarrow> nat \<Rightarrow> nat \<Rightarrow> nat \<Rightarrow> nat \<Rightarrow> bool \<Rightarrow> 'a list \<Rightarrow> nat \<times> nat \<times> bool \<times> 'a list" where
  "scan_down cmp a pb pc pd cnt xs =
     (if pb \<le> pc \<and> 0 < pc \<and> 0 <=s cmp (xs ! pc) (xs ! a) then
        if cmp (xs ! pc) (xs ! a) = 0 then scan_down cmp a pb (pc - 1) (pd - 1) True (swap_at pc pd xs)
        else scan_down cmp a pb (pc - 1) pd cnt xs
      else (pc, pd, cnt, xs))"
  by pat_completeness auto
termination by (relation "measure (\<lambda>(cmp, a, pb, pc, pd, cnt, xs). pc)") auto

declare scan_up.simps [simp del] scan_down.simps [simp del] insert_down.simps [simp del]

lemma scan_up_le:
  "scan_up cmp a pa pb pc cnt xs = (pa', pb', cnt', ys) \<Longrightarrow> pb \<le> pb' \<and> pa \<le> pa' \<and> pb' \<le> max pb (pc + 1)"
proof (induction cmp a pa pb pc cnt xs rule: scan_up.induct)
  case (1 cmp a pa pb pc cnt xs)
  show ?case using 1(1,2) "1.prems" by (subst (asm) (3) scan_up.simps) (fastforce split: if_splits)
qed

lemma scan_down_le:
  "scan_down cmp a pb pc pd cnt xs = (pc', pd', cnt', ys) \<Longrightarrow> pc' \<le> pc \<and> pd' \<le> pd \<and> min pc (pb - 1) \<le> pc'"
proof (induction cmp a pb pc pd cnt xs rule: scan_down.induct)
  case (1 cmp a pb pc pd cnt xs)
  show ?case using 1(1,2) "1.prems" by (subst (asm) (3) scan_down.simps) (fastforce split: if_splits)
qed

function partition_loop :: "'a cmp \<Rightarrow> nat \<Rightarrow> nat \<Rightarrow> nat \<Rightarrow> nat \<Rightarrow> nat \<Rightarrow> bool \<Rightarrow> 'a list \<Rightarrow> nat \<times> nat \<times> nat \<times> nat \<times> bool \<times> 'a list" where
  "partition_loop cmp a pa pb pc pd cnt xs =
     (case scan_up cmp a pa pb pc cnt xs of (pa, pb, cnt, xs) \<Rightarrow>
      case scan_down cmp a pb pc pd cnt xs of (pc, pd, cnt, xs) \<Rightarrow>
      if pc < pb then (pa, pb, pc, pd, cnt, xs)
      else partition_loop cmp a pa (pb + 1) (pc - 1) pd True (swap_at pb pc xs))"
  by pat_completeness auto
termination
  by (relation "measure (\<lambda>(cmp, a, pa, pb, pc, pd, cnt, xs). Suc pc - pb)") (auto dest!: sym [THEN scan_up_le] sym [THEN scan_down_le])

declare partition_loop.simps [simp del]

lemma partition_loop_eq:
  assumes "scan_up cmp a pa pb pc cnt xs = (pa1, pb1, cnt1, xs1)" "scan_down cmp a pb1 pc pd cnt1 xs1 = (pc1, pd1, cnt2, xs2)"
  shows "partition_loop cmp a pa pb pc pd cnt xs =
    (if pc1 < pb1 then (pa1, pb1, pc1, pd1, cnt2, xs2)
     else partition_loop cmp a pa1 (pb1 + 1) (pc1 - 1) pd1 True (swap_at pb1 pc1 xs2))"
  using assms by (subst partition_loop.simps) simp

lemma partition_loop_le:
  "partition_loop cmp a pa pb pc pd cnt xs = (pa', pb', pc', pd', cnt', ys) \<Longrightarrow>
   pa \<le> pa' \<and> pd' \<le> pd \<and> pb' \<le> max pb (pc + 1) \<and> min pc (pb - 1) \<le> pc'"
proof (induction cmp a pa pb pc pd cnt xs rule: partition_loop.induct)
  case (1 cmp a pa pb pc pd cnt xs)
  obtain pa1 pb1 cnt1 xs1 where u: "scan_up cmp a pa pb pc cnt xs = (pa1, pb1, cnt1, xs1)" by (metis prod_cases4)
  obtain pc1 pd1 cnt2 xs2 where d: "scan_down cmp a pb1 pc pd cnt1 xs1 = (pc1, pd1, cnt2, xs2)" by (metis prod_cases4)
  note le = scan_up_le [OF u] scan_down_le [OF d]
  show ?case
  proof (cases "pc1 < pb1")
    case True
    with "1.prems" le show ?thesis unfolding partition_loop_eq [OF u d] by auto
  next
    case False
    with "1.prems" have "partition_loop cmp a pa1 (pb1 + 1) (pc1 - 1) pd1 True (swap_at pb1 pc1 xs2) = (pa', pb', pc', pd', cnt', ys)"
      unfolding partition_loop_eq [OF u d] by simp
    from "1.IH" [OF u [symmetric] refl refl d [symmetric] refl refl False this] le False
    show ?thesis by (auto simp: max_def min_def split: if_splits)
  qed
qed

text \<open>From the choice of the pivot to the second \<open>vecswap\<close>; then the sizes of the two parts that are left to sort.\<close>

definition qsort_split :: "'a cmp \<Rightarrow> nat \<Rightarrow> nat \<Rightarrow> 'a list \<Rightarrow> bool \<times> nat \<times> nat \<times> 'a list" where
  "qsort_split cmp a n xs =
     (let xs = swap_at a (pivot_index cmp a n xs) xs in
      case partition_loop cmp a (a + 1) (a + 1) (a + (n - 1)) (a + (n - 1)) False xs of (pa, pb, pc, pd, swap_cnt, xs) \<Rightarrow>
      if \<not> swap_cnt then (False, 0, 0, xs)
      else
        let pn = a + n;
            r = min (pa - a) (pb - pa);
            xs = vecswap a (pb - r) r xs;
            r = min (pd - pc) (pn - pd - 1);
            xs = vecswap pb (pn - r) r xs in
        (True, pb - pa, pd - pc, xs))"

lemma qsort_split_less:
  assumes "qsort_split cmp a n xs = (cnt, l, r, ys)" "0 < n"
  shows "l < n \<and> r < n"
proof -
  let ?p = "partition_loop cmp a (a + 1) (a + 1) (a + (n - 1)) (a + (n - 1)) False (swap_at a (pivot_index cmp a n xs) xs)"
  obtain pa pb pc pd cnt' zs where p: "?p = (pa, pb, pc, pd, cnt', zs)" by (metis prod_cases6)
  from partition_loop_le [OF p] have "a + 1 \<le> pa" "pd \<le> a + (n - 1)" "pb \<le> a + n" "a \<le> pc"
    using assms(2) by (auto simp: max_def min_def split: if_splits)
  with assms p show ?thesis by (auto simp: qsort_split_def Let_def split: if_splits)
qed

function qsort :: "'a cmp \<Rightarrow> nat \<Rightarrow> nat \<Rightarrow> 'a list \<Rightarrow> 'a list" where
  "qsort cmp a n xs =
     (if n < 7 then insertion_sort cmp a n xs
      else
        case qsort_split cmp a n xs of (swap_cnt, l, r, ys) \<Rightarrow>
        if \<not> swap_cnt then insertion_sort cmp a n ys
        else
          let ys = (if 1 < l then qsort cmp a l ys else ys) in
          if 1 < r then qsort cmp (a + n - r) r ys else ys)"
  by pat_completeness auto
termination
  by (relation "measure (\<lambda>(cmp, a, n, xs). n)") (auto dest!: sym [THEN qsort_split_less])

declare qsort.simps [simp del]

end
