(* ===== verification/Qsort_Props.thy ===== *)
theory Qsort_Props
  imports Qsort
begin

text \<open>
  qsort sorts: the invariants of the insertion sort and of the four-region partition, and the main theorem.
\<close>

section \<open>Rearranging a segment\<close>

definition rearr :: "nat \<Rightarrow> nat \<Rightarrow> 'a list \<Rightarrow> 'a list \<Rightarrow> bool" where
  "rearr lo hi xs ys \<longleftrightarrow> length ys = length xs \<and> mset ys = mset xs \<and> (\<forall>i < length xs. i < lo \<or> hi \<le> i \<longrightarrow> ys ! i = xs ! i)"

lemma rearr_refl [simp]: "rearr lo hi xs xs"
  by (simp add: rearr_def)

lemma rearr_length: "rearr lo hi xs ys \<Longrightarrow> length ys = length xs"
  by (simp add: rearr_def)

lemma rearr_trans: "rearr lo hi xs ys \<Longrightarrow> rearr lo hi ys zs \<Longrightarrow> rearr lo hi xs zs"
  by (auto simp: rearr_def)

lemma rearr_mono: "rearr lo hi xs ys \<Longrightarrow> lo' \<le> lo \<Longrightarrow> hi \<le> hi' \<Longrightarrow> rearr lo' hi' xs ys"
  by (auto simp: rearr_def)

lemma rearr_out: "rearr lo hi xs ys \<Longrightarrow> i < length xs \<Longrightarrow> i < lo \<or> hi \<le> i \<Longrightarrow> ys ! i = xs ! i"
  by (auto simp: rearr_def)

lemma swap_at_simps [simp]: "length (swap_at i j xs) = length xs"
  by (simp add: swap_at_def)

lemma swap_at_nth:
  "i < length xs \<Longrightarrow> j < length xs \<Longrightarrow> swap_at i j xs ! k = (if k = i then xs ! j else if k = j then xs ! i else xs ! k)"
  by (auto simp: swap_at_def nth_list_update)

lemma rearr_swap_at: "lo \<le> i \<Longrightarrow> i < hi \<Longrightarrow> lo \<le> j \<Longrightarrow> j < hi \<Longrightarrow> hi \<le> length xs \<Longrightarrow> rearr lo hi xs (swap_at i j xs)"
  by (auto simp: rearr_def swap_at_nth) (simp add: swap_at_def mset_swap)

lemma rearr_segment:
  assumes "rearr lo hi xs ys" "lo \<le> hi" "hi \<le> length xs"
  shows "mset (take (hi - lo) (drop lo ys)) = mset (take (hi - lo) (drop lo xs))"
proof -
  have split: "mset zs = mset (take lo zs) + mset (take (hi - lo) (drop lo zs)) + mset (drop hi zs)" for zs :: "'a list"
  proof -
    have "zs = take lo zs @ take (hi - lo) (drop lo zs) @ drop hi zs"
      using assms(2) by (metis append_take_drop_id drop_drop le_add_diff_inverse2)
    then show ?thesis by (metis mset_append add.assoc)
  qed
  have "take lo ys = take lo xs" "drop hi ys = drop hi xs"
    using assms by (auto simp: rearr_def list_eq_iff_nth_eq)
  with split [of xs] split [of ys] assms(1) show ?thesis by (simp add: rearr_def)
qed

lemma rearr_all:
  assumes "rearr lo hi xs ys" "hi \<le> length xs" "\<forall>i. lo \<le> i \<and> i < hi \<longrightarrow> P (xs ! i)"
  shows "\<forall>i. lo \<le> i \<and> i < hi \<longrightarrow> P (ys ! i)"
proof (intro allI impI)
  fix i assume i: "lo \<le> i \<and> i < hi"
  then have len: "length (take (hi - lo) (drop lo ys)) = hi - lo" using assms by (simp add: rearr_def)
  have "ys ! i = take (hi - lo) (drop lo ys) ! (i - lo)" using i assms(1,2) by (simp add: rearr_def less_diff_conv2 nth_drop)
  then have "ys ! i \<in> set (take (hi - lo) (drop lo ys))" using i len by (metis diff_less_mono nth_mem)
  then have "ys ! i \<in> set (take (hi - lo) (drop lo xs))"
    using rearr_segment [OF assms(1) _ assms(2)] i by (metis less_imp_le order.trans set_mset_mset)
  then obtain k where "k < hi - lo" "ys ! i = xs ! (lo + k)" using assms(2) by (auto simp: in_set_conv_nth)
  with assms(3) show "P (ys ! i)" by simp
qed

section \<open>Comparison functions\<close>

text \<open>What C99 7.20.5.2 asks of the function: antisymmetric in sign, and transitive.\<close>

definition cmp_ok :: "'a cmp \<Rightarrow> bool" where
  "cmp_ok cmp \<longleftrightarrow> (\<forall>x y. cmp x y <s 0 \<longleftrightarrow> 0 <s cmp y x) \<and> (\<forall>x y z. cmp x y <=s 0 \<longrightarrow> cmp y z <=s 0 \<longrightarrow> cmp x z <=s 0)"

lemma sless_iff: "(x <s (0 :: i32)) \<longleftrightarrow> sint x < 0" "(0 <s x) \<longleftrightarrow> 0 < sint x" "(x <=s 0) \<longleftrightarrow> sint x \<le> 0" "(0 <=s x) \<longleftrightarrow> 0 \<le> sint x"
  by (simp_all add: word_sless_alt word_sle_eq)

lemma cmp_flip: "cmp_ok cmp \<Longrightarrow> 0 <s cmp y x \<longleftrightarrow> cmp x y <s 0"
  by (simp add: cmp_ok_def)

lemma cmp_trans: "cmp_ok cmp \<Longrightarrow> cmp x y <=s 0 \<Longrightarrow> cmp y z <=s 0 \<Longrightarrow> cmp x z <=s 0"
  unfolding cmp_ok_def by blast

lemma cmp_total: "cmp_ok cmp \<Longrightarrow> \<not> cmp x y <=s 0 \<Longrightarrow> cmp y x <=s 0"
  using cmp_flip [of cmp x y] by (simp add: sless_iff)

lemma cmp_self: "cmp_ok cmp \<Longrightarrow> cmp x x = 0"
  using cmp_flip [of cmp x x] sint_0_iff [of "cmp x x"] by (simp add: sless_iff) linarith

lemma cmp_eq_flip: "cmp_ok cmp \<Longrightarrow> cmp x y = 0 \<Longrightarrow> cmp y x = 0"
  using cmp_flip [of cmp x y] cmp_flip [of cmp y x] sint_0_iff [of "cmp y x"] by (simp add: sless_iff)

definition sorted_seg :: "'a cmp \<Rightarrow> nat \<Rightarrow> nat \<Rightarrow> 'a list \<Rightarrow> bool" where
  "sorted_seg cmp lo hi xs \<longleftrightarrow> (\<forall>i j. lo \<le> i \<and> i < j \<and> j < hi \<longrightarrow> cmp (xs ! i) (xs ! j) <=s 0)"

section \<open>Insertion sort\<close>

text \<open>Sorted from \<open>a\<close> to \<open>up\<close>, except that the element at \<open>pl\<close> may be too small for its place.\<close>

definition ins_inv :: "'a cmp \<Rightarrow> nat \<Rightarrow> nat \<Rightarrow> nat \<Rightarrow> 'a list \<Rightarrow> bool" where
  "ins_inv cmp a pl up xs \<longleftrightarrow>
     (\<forall>i j. a \<le> i \<and> i < j \<and> j \<le> up \<and> j \<noteq> pl \<longrightarrow> cmp (xs ! i) (xs ! j) <=s 0)"

lemma insert_down_sorts:
  "cmp_ok cmp \<Longrightarrow> a \<le> pl \<Longrightarrow> pl \<le> up \<Longrightarrow> up < length xs \<Longrightarrow> ins_inv cmp a pl up xs \<Longrightarrow>
   sorted_seg cmp a (Suc up) (insert_down cmp a pl xs) \<and> rearr a (Suc up) xs (insert_down cmp a pl xs)"
proof (induction cmp a pl xs rule: insert_down.induct)
  case (1 cmp a pl xs)
  show ?case
  proof (cases "a < pl \<and> 0 <s cmp (xs ! (pl - 1)) (xs ! pl)")
    case True
    then have apl: "a < pl" ..
    then have apl': "a \<le> pl - 1" "pl - 1 \<le> up" "pl - 1 < up" using "1.prems"(3) by linarith+
    let ?ys = "swap_at pl (pl - 1) xs"
    have nth: "?ys ! k = (if k = pl then xs ! (pl - 1) else if k = pl - 1 then xs ! pl else xs ! k)" for k
      using "1.prems"(3,4) by (intro swap_at_nth) auto
    have le: "cmp (xs ! pl) (xs ! (pl - 1)) <=s 0"
      using cmp_total [OF "1.prems"(1)] True by (simp add: sless_iff)
    have "ins_inv cmp a (pl - 1) up ?ys"
      unfolding ins_inv_def
    proof (intro allI impI)
      fix i j assume ij: "a \<le> i \<and> i < j \<and> j \<le> up \<and> j \<noteq> pl - 1"
      have o: "cmp (xs ! i') (xs ! j') <=s 0" if "a \<le> i'" "i' < j'" "j' \<le> up" "j' \<noteq> pl" for i' j'
        using "1.prems"(5) that by (simp add: ins_inv_def)
      consider "i = pl - 1" "j = pl" | "i < pl - 1" "j = pl" | "i = pl" | "i = pl - 1" "pl < j" | "i \<noteq> pl" "i \<noteq> pl - 1" "j \<noteq> pl"
        using ij by linarith
      then show "cmp (?ys ! i) (?ys ! j) <=s 0"
      proof cases
        case 1
        moreover have "pl - 1 \<noteq> pl" using True by auto
        ultimately show ?thesis using le nth by simp
      next
        case 2
        with o [of i "pl - 1"] ij True "1.prems"(3) nth show ?thesis by simp
      next
        case 3
        moreover have "a \<le> pl - 1" "pl - 1 < j" "j \<noteq> pl" using ij True 3 by auto
        ultimately show ?thesis using o [of "pl - 1" j] ij nth by simp
      next
        case 4
        with o [of pl j] ij True nth show ?thesis by simp
      next
        case 5
        with o [of i j] ij nth show ?thesis by simp
      qed
    qed
    then have "sorted_seg cmp a (Suc up) (insert_down cmp a (pl - 1) ?ys) \<and> rearr a (Suc up) ?ys (insert_down cmp a (pl - 1) ?ys)"
      using "1.prems" True apl' by (intro "1.IH") auto
    moreover have "rearr a (Suc up) xs ?ys" using "1.prems" apl' by (intro rearr_swap_at) auto
    moreover have "insert_down cmp a pl xs = insert_down cmp a (pl - 1) ?ys" using True by (subst insert_down.simps) simp
    ultimately show ?thesis using rearr_trans by metis
  next
    case False
    then have e: "insert_down cmp a pl xs = xs" by (subst insert_down.simps) auto
    have "cmp (xs ! i) (xs ! j) <=s 0" if ij: "a \<le> i" "i < j" "j < Suc up" for i j
    proof (cases "j = pl")
      case True
      with False ij have le: "cmp (xs ! (pl - 1)) (xs ! pl) <=s 0" by (auto simp: sless_iff)
      show ?thesis
      proof (cases "i = pl - 1")
        case False
        then have "i < pl - 1" "pl - 1 \<le> up" "pl - 1 \<noteq> pl" using ij True by linarith+
        with ij(1) "1.prems"(5) have "cmp (xs ! i) (xs ! (pl - 1)) <=s 0" unfolding ins_inv_def by blast
        with le True cmp_trans [OF "1.prems"(1)] show ?thesis by metis
      qed (use le True in simp)
    next
      case False
      with ij "1.prems"(5) show ?thesis by (simp add: ins_inv_def)
    qed
    then show ?thesis unfolding e by (simp add: sorted_seg_def)
  qed
qed

lemma insertion_sort_sorts:
  assumes "cmp_ok cmp" "a + n \<le> length xs"
  shows "sorted_seg cmp a (a + n) (insertion_sort cmp a n xs) \<and> rearr a (a + n) xs (insertion_sort cmp a n xs)"
proof -
  have "k \<le> n \<Longrightarrow> sorted_seg cmp a (a + k) (fold (insert_down cmp a) [a + 1..<a + k] xs) \<and>
      rearr a (a + n) xs (fold (insert_down cmp a) [a + 1..<a + k] xs)" for k
  proof (induction k)
    case 0
    have "sorted_seg cmp a (a + 0) ys" for ys by (auto simp: sorted_seg_def)
    then show ?case by simp
  next
    case (Suc k)
    show ?case
    proof (cases "k = 0")
      case True
      then show ?thesis by (auto simp: sorted_seg_def)
    next
      case False
      let ?ys = "fold (insert_down cmp a) [a + 1..<a + k] xs"
      have s: "sorted_seg cmp a (a + k) ?ys" "rearr a (a + n) xs ?ys" using Suc by simp_all
      have f: "fold (insert_down cmp a) [a + 1..<a + Suc k] xs = insert_down cmp a (a + k) ?ys" using False by simp
      have "ins_inv cmp a (a + k) (a + k) ?ys" using s(1) by (auto simp: ins_inv_def sorted_seg_def)
      with insert_down_sorts [OF assms(1), of a "a + k" "a + k" ?ys] s(2) assms(2) Suc.prems
      have i: "sorted_seg cmp a (Suc (a + k)) (insert_down cmp a (a + k) ?ys)" "rearr a (Suc (a + k)) ?ys (insert_down cmp a (a + k) ?ys)"
        by (simp_all add: rearr_def)
      have "rearr a (a + n) ?ys (insert_down cmp a (a + k) ?ys)" by (rule rearr_mono [OF i(2)]) (use Suc.prems in simp_all)
      with i(1) s(2) show ?thesis unfolding f using rearr_trans by (metis add_Suc_right)
    qed
  qed
  from this [of n] show ?thesis by (simp add: insertion_sort_def)
qed

section \<open>The partition\<close>

text \<open>
  The four regions around the unknown part \<open>pb\<close> to \<open>pc\<close>: equal to the pivot, smaller, and from the right end equal,
  greater.
\<close>

definition part_inv :: "'a cmp \<Rightarrow> 'a \<Rightarrow> nat \<Rightarrow> nat \<Rightarrow> nat \<Rightarrow> nat \<Rightarrow> nat \<Rightarrow> nat \<Rightarrow> 'a list \<Rightarrow> bool" where
  "part_inv cmp x a n pa pb pc pd xs \<longleftrightarrow>
     a < pa \<and> pa \<le> pb \<and> pb \<le> pc + 1 \<and> pc \<le> pd \<and> pd < a + n \<and> a + n \<le> length xs \<and> xs ! a = x \<and>
     (\<forall>i. a \<le> i \<and> i < pa \<longrightarrow> cmp (xs ! i) x = 0) \<and> (\<forall>i. pa \<le> i \<and> i < pb \<longrightarrow> cmp (xs ! i) x <s 0) \<and>
     (\<forall>i. pc < i \<and> i \<le> pd \<longrightarrow> 0 <s cmp (xs ! i) x) \<and> (\<forall>i. pd < i \<and> i < a + n \<longrightarrow> cmp (xs ! i) x = 0)"

lemma scan_up_inv:
  "part_inv cmp x a n pa pb pc pd xs \<Longrightarrow> scan_up cmp a pa pb pc cnt xs = (pa', pb', cnt', ys) \<Longrightarrow>
   part_inv cmp x a n pa' pb' pc pd ys \<and> rearr a (a + n) xs ys \<and> (pb' \<le> pc \<longrightarrow> 0 <s cmp (ys ! pb') x)"
proof (induction cmp a pa pb pc cnt xs rule: scan_up.induct)
  case (1 cmp a pa pb pc cnt xs)
  note inv = "1.prems"(1) [unfolded part_inv_def]
  then have x: "xs ! a = x" by simp
  show ?case
  proof (cases "pb \<le> pc \<and> cmp (xs ! pb) (xs ! a) <=s 0")
    case False
    with "1.prems"(2) have "pa' = pa" "pb' = pb" "ys = xs" by (auto simp: scan_up.simps [of cmp a pa])
    with "1.prems"(1) False x show ?thesis by (auto simp: sless_iff)
  next
    case go: True
    show ?thesis
    proof (cases "cmp (xs ! pb) (xs ! a) = 0")
      case True
      let ?zs = "swap_at pa pb xs"
      have nth: "?zs ! k = (if k = pa then xs ! pb else if k = pb then xs ! pa else xs ! k)" for k
        using inv go by (intro swap_at_nth) auto
      have "part_inv cmp x a n (pa + 1) (pb + 1) pc pd ?zs"
        using inv go True x by (auto simp: part_inv_def nth less_Suc_eq)
      moreover have "scan_up cmp a (pa + 1) (pb + 1) pc True ?zs = (pa', pb', cnt', ys)"
        using "1.prems"(2) go True by (simp add: scan_up.simps [of cmp a pa])
      ultimately have "part_inv cmp x a n pa' pb' pc pd ys \<and> rearr a (a + n) ?zs ys \<and> (pb' \<le> pc \<longrightarrow> 0 <s cmp (ys ! pb') x)"
        using "1.IH"(1) [OF go True] by blast
      moreover have "rearr a (a + n) xs ?zs" using inv go by (intro rearr_swap_at) auto
      ultimately show ?thesis using rearr_trans by blast
    next
      case False
      then have "cmp (xs ! pb) x <s 0" using go x sint_0_iff [of "cmp (xs ! pb) x"] by (simp add: sless_iff)
      then have "part_inv cmp x a n pa (pb + 1) pc pd xs"
        using inv go by (auto simp: part_inv_def less_Suc_eq)
      moreover have "scan_up cmp a pa (pb + 1) pc cnt xs = (pa', pb', cnt', ys)"
        using "1.prems"(2) go False by (simp add: scan_up.simps [of cmp a pa])
      ultimately show ?thesis using "1.IH"(2) [OF go False] by blast
    qed
  qed
qed

lemma scan_down_inv:
  "part_inv cmp x a n pa pb pc pd xs \<Longrightarrow> scan_down cmp a pb pc pd cnt xs = (pc', pd', cnt', ys) \<Longrightarrow>
   part_inv cmp x a n pa pb pc' pd' ys \<and> rearr a (a + n) xs ys \<and> (pb \<le> pc' \<longrightarrow> cmp (ys ! pc') x <s 0) \<and>
   (pb \<le> pc' \<longrightarrow> ys ! pb = xs ! pb)"
proof (induction cmp a pb pc pd cnt xs rule: scan_down.induct)
  case (1 cmp a pb pc pd cnt xs)
  note inv = "1.prems"(1) [unfolded part_inv_def]
  then have x: "xs ! a = x" by simp
  show ?case
  proof (cases "pb \<le> pc \<and> 0 < pc \<and> 0 <=s cmp (xs ! pc) (xs ! a)")
    case False
    with "1.prems"(2) have "pc' = pc" "pd' = pd" "ys = xs" by (auto simp: scan_down.simps [of cmp a pb])
    with "1.prems"(1) False x inv show ?thesis by (auto simp: sless_iff)
  next
    case go: True
    show ?thesis
    proof (cases "cmp (xs ! pc) (xs ! a) = 0")
      case True
      let ?zs = "swap_at pc pd xs"
      have nth: "?zs ! k = (if k = pc then xs ! pd else if k = pd then xs ! pc else xs ! k)" for k
        using inv go by (intro swap_at_nth) auto
      have gt: "0 <s cmp (xs ! i) x" if "pc - Suc 0 < i" "i \<noteq> pc" "i \<le> pd - Suc 0" for i
      proof -
        have "pc < i" "i \<le> pd" using that by linarith+
        with inv show ?thesis by blast
      qed
      have "part_inv cmp x a n pa pb (pc - 1) (pd - 1) ?zs"
        using inv go True x gt by (auto simp: part_inv_def nth)
      moreover have run: "scan_down cmp a pb (pc - 1) (pd - 1) True ?zs = (pc', pd', cnt', ys)"
        using "1.prems"(2) go True by (simp add: scan_down.simps [of cmp a pb])
      ultimately have "part_inv cmp x a n pa pb pc' pd' ys \<and> rearr a (a + n) ?zs ys \<and> (pb \<le> pc' \<longrightarrow> cmp (ys ! pc') x <s 0) \<and>
          (pb \<le> pc' \<longrightarrow> ys ! pb = ?zs ! pb)"
        using "1.IH"(1) [OF go True] by blast
      moreover have "rearr a (a + n) xs ?zs" using inv go by (intro rearr_swap_at) auto
      moreover have "?zs ! pb = xs ! pb" if "pb \<le> pc'" 
      proof -
        have "pc' \<le> pc - 1" using scan_down_le [OF run] by simp
        with that go inv show ?thesis by (auto simp: nth)
      qed
      ultimately show ?thesis using rearr_trans by metis
    next
      case False
      then have "0 <s cmp (xs ! pc) x" using go x sint_0_iff [of "cmp (xs ! pc) x"] by (simp add: sless_iff)
      then have gt: "0 <s cmp (xs ! i) x" if "pc - Suc 0 < i" "i \<le> pd" for i
      proof (cases "i = pc")
        case False
        with that have "pc < i" by linarith
        with that inv show ?thesis by blast
      qed simp
      have "part_inv cmp x a n pa pb (pc - 1) pd xs"
        using inv go gt by (auto simp: part_inv_def)
      moreover have "scan_down cmp a pb (pc - 1) pd cnt xs = (pc', pd', cnt', ys)"
        using "1.prems"(2) go False by (simp add: scan_down.simps [of cmp a pb])
      ultimately show ?thesis using "1.IH"(2) [OF go False] by blast
    qed
  qed
qed

lemma partition_loop_inv:
  "part_inv cmp x a n pa pb pc pd xs \<Longrightarrow> partition_loop cmp a pa pb pc pd cnt xs = (pa', pb', pc', pd', cnt', ys) \<Longrightarrow>
   part_inv cmp x a n pa' pb' pc' pd' ys \<and> pb' = pc' + 1 \<and> rearr a (a + n) xs ys"
proof (induction cmp a pa pb pc pd cnt xs rule: partition_loop.induct)
  case (1 cmp a pa pb pc pd cnt xs)
  obtain pa1 pb1 cnt1 xs1 where u: "scan_up cmp a pa pb pc cnt xs = (pa1, pb1, cnt1, xs1)" by (metis prod_cases4)
  obtain pc1 pd1 cnt2 xs2 where d: "scan_down cmp a pb1 pc pd cnt1 xs1 = (pc1, pd1, cnt2, xs2)" by (metis prod_cases4)
  from scan_up_inv [OF "1.prems"(1) u]
  have i1: "part_inv cmp x a n pa1 pb1 pc pd xs1" "rearr a (a + n) xs xs1" "pb1 \<le> pc \<longrightarrow> 0 <s cmp (xs1 ! pb1) x" by simp_all
  from scan_down_inv [OF i1(1) d]
  have i2: "part_inv cmp x a n pa1 pb1 pc1 pd1 xs2" "rearr a (a + n) xs1 xs2" "pb1 \<le> pc1 \<longrightarrow> cmp (xs2 ! pc1) x <s 0"
    "pb1 \<le> pc1 \<longrightarrow> xs2 ! pb1 = xs1 ! pb1" by simp_all
  note inv = i2(1) [unfolded part_inv_def]
  have r: "rearr a (a + n) xs xs2" using i1(2) i2(2) by (rule rearr_trans)
  show ?case
  proof (cases "pc1 < pb1")
    case True
    then have "pb1 = pc1 + 1" using inv by linarith
    with True "1.prems"(2) i2(1) r show ?thesis unfolding partition_loop_eq [OF u d] by auto
  next
    case False
    let ?zs = "swap_at pb1 pc1 xs2"
    have "pc1 \<le> pc" using scan_down_le [OF d] by simp
    with False have gt: "0 <s cmp (xs2 ! pb1) x" and lt: "cmp (xs2 ! pc1) x <s 0" using i1(3) i2(3,4) by simp_all
    then have "pb1 \<noteq> pc1" by (auto simp: sless_iff)
    with False have less: "pb1 < pc1" by simp
    have nth: "?zs ! k = (if k = pb1 then xs2 ! pc1 else if k = pc1 then xs2 ! pb1 else xs2 ! k)" for k
      using inv less by (intro swap_at_nth) auto
    have "0 <s cmp (?zs ! i) x" if "pc1 - 1 < i" "i \<le> pd1" for i
    proof (cases "i = pc1")
      case True
      with gt less show ?thesis by (simp add: nth)
    next
      case False
      with that have "pc1 < i" by linarith
      with that inv less show ?thesis by (auto simp: nth)
    qed
    moreover have "cmp (?zs ! i) x <s 0" if "pa1 \<le> i" "i < pb1 + 1" for i
      using that inv lt less by (cases "i = pb1") (auto simp: nth)
    ultimately have "part_inv cmp x a n pa1 (pb1 + 1) (pc1 - 1) pd1 ?zs"
      using inv less by (auto simp: part_inv_def nth)
    moreover from False "1.prems"(2)
    have "partition_loop cmp a pa1 (pb1 + 1) (pc1 - 1) pd1 True ?zs = (pa', pb', pc', pd', cnt', ys)"
      unfolding partition_loop_eq [OF u d] by simp
    ultimately have "part_inv cmp x a n pa' pb' pc' pd' ys \<and> pb' = pc' + 1 \<and> rearr a (a + n) ?zs ys"
      by (rule "1.IH" [OF u [symmetric] refl refl d [symmetric] refl refl False])
    moreover have "rearr a (a + n) xs2 ?zs" using inv less by (intro rearr_swap_at) auto
    ultimately show ?thesis using r rearr_trans by blast
  qed
qed

section \<open>The two block swaps\<close>

lemma vecswap_rearr: "lo \<le> i \<Longrightarrow> i + n \<le> j \<Longrightarrow> j + n \<le> hi \<Longrightarrow> hi \<le> length xs \<Longrightarrow> rearr lo hi xs (vecswap i j n xs)"
proof (induction i j n xs rule: vecswap.induct)
  case (2 i j n xs)
  have "rearr lo hi xs (swap_at i j xs)" using 2(2-) by (intro rearr_swap_at) simp_all
  moreover have "rearr lo hi (swap_at i j xs) (vecswap (i + 1) (j + 1) n (swap_at i j xs))" using 2(2-) by (intro 2(1)) simp_all
  ultimately show ?case using rearr_trans by simp blast
qed simp

lemma vecswap_nth:
  "i + n \<le> j \<Longrightarrow> j + n \<le> length xs \<Longrightarrow> vecswap i j n xs ! k =
    (if i \<le> k \<and> k < i + n then xs ! (j + (k - i)) else if j \<le> k \<and> k < j + n then xs ! (i + (k - j)) else xs ! k)"
proof (induction i j n xs rule: vecswap.induct)
  case (2 i j n xs)
  have nth: "swap_at i j xs ! l = (if l = i then xs ! j else if l = j then xs ! i else xs ! l)" for l
    using 2(2-) by (intro swap_at_nth) simp_all
  have IH: "vecswap (i + 1) (j + 1) n (swap_at i j xs) ! k =
    (if i + 1 \<le> k \<and> k < i + 1 + n then swap_at i j xs ! (j + 1 + (k - (i + 1)))
     else if j + 1 \<le> k \<and> k < j + 1 + n then swap_at i j xs ! (i + 1 + (k - (j + 1))) else swap_at i j xs ! k)"
    using 2(2-) by (intro 2(1)) simp_all
  consider "k = i" | "k = j" | "i < k" "k < i + 1 + n" | "j < k" "k < j + 1 + n" | "k < i \<or> (i + n < k \<and> k < j) \<or> j + n < k"
    by linarith
  then show ?case
  proof cases
    case 3
    then obtain d where "k = i + 1 + d" by (metis add.assoc add.commute less_iff_Suc_add plus_1_eq_Suc)
    with 3 2(2) show ?thesis unfolding vecswap.simps(2) IH nth by auto
  next
    case 4
    then obtain d where "k = j + 1 + d" by (metis add.assoc add.commute less_iff_Suc_add plus_1_eq_Suc)
    with 4 2(2) show ?thesis unfolding vecswap.simps(2) IH nth by auto
  qed (use 2(2) in \<open>unfold vecswap.simps(2) IH nth, auto\<close>)
qed auto

lemma block_exchange:
  assumes P: "\<forall>i. s \<le> i \<and> i < m \<longrightarrow> P (xs ! i)" and Q: "\<forall>i. m \<le> i \<and> i < e \<longrightarrow> Q (xs ! i)"
    and "s \<le> m" "m \<le> e" "e \<le> length xs" and r: "r = min (m - s) (e - m)"
  shows "(\<forall>i. s \<le> i \<and> i < s + (e - m) \<longrightarrow> Q (vecswap s (e - r) r xs ! i)) \<and>
    (\<forall>i. s + (e - m) \<le> i \<and> i < e \<longrightarrow> P (vecswap s (e - r) r xs ! i)) \<and>
    (\<forall>i. i < s \<or> e \<le> i \<longrightarrow> vecswap s (e - r) r xs ! i = xs ! i)"
proof -
  have b: "s + r \<le> e - r" "e - r + r = e" "e \<le> length xs" using assms by linarith+
  have nth: "vecswap s (e - r) r xs ! k = (if s \<le> k \<and> k < s + r then xs ! (e - r + (k - s))
      else if e - r \<le> k \<and> k < e then xs ! (s + (k - (e - r))) else xs ! k)" for k
    using vecswap_nth [of s r "e - r" xs k] b by simp
  have "Q (vecswap s (e - r) r xs ! i)" if i: "s \<le> i" "i < s + (e - m)" for i
  proof (cases "i < s + r")
    case True
    with i r assms(3,4) have "m \<le> e - r + (i - s)" "e - r + (i - s) < e" by linarith+
    with Q True i show ?thesis by (simp add: nth)
  next
    case False
    with i r assms(3,4) have "m \<le> i" "i < e - r" "i < e" by linarith+
    with Q False show ?thesis by (simp add: nth)
  qed
  moreover have "P (vecswap s (e - r) r xs ! i)" if i: "s + (e - m) \<le> i" "i < e" for i
  proof (cases "e - r \<le> i")
    case True
    with i r assms(3,4) b have "s \<le> s + (i - (e - r))" "s + (i - (e - r)) < m" "\<not> i < s + r" by linarith+
    with P True i show ?thesis by (simp add: nth)
  next
    case False
    with i r assms(3,4) b have "s \<le> i" "i < m" "\<not> i < s + r" by linarith+
    with P False show ?thesis by (simp add: nth)
  qed
  moreover have "vecswap s (e - r) r xs ! i = xs ! i" if "i < s \<or> e \<le> i" for i
    using that b by (auto simp: nth)
  ultimately show ?thesis by blast
qed

text \<open>After the block swaps: smaller, equal, greater.\<close>

lemma qsort_split_regions:
  assumes "qsort_split cmp a n xs = (True, l, r, ys)" "7 \<le> n" "a + n \<le> length xs" "cmp_ok cmp"
    and pivot: "a \<le> pivot_index cmp a n xs" "pivot_index cmp a n xs < a + n"
  shows "\<exists>x. rearr a (a + n) xs ys \<and> l + r < n \<and> (\<forall>i. a \<le> i \<and> i < a + l \<longrightarrow> cmp (ys ! i) x <s 0) \<and>
    (\<forall>i. a + l \<le> i \<and> i < a + n - r \<longrightarrow> cmp (ys ! i) x = 0) \<and> (\<forall>i. a + n - r \<le> i \<and> i < a + n \<longrightarrow> 0 <s cmp (ys ! i) x)"
proof -
  let ?xs = "swap_at a (pivot_index cmp a n xs) xs"
  define x where "x = ?xs ! a"
  obtain pa pb pc pd cnt zs where
    p: "partition_loop cmp a (a + 1) (a + 1) (a + (n - 1)) (a + (n - 1)) False ?xs = (pa, pb, pc, pd, cnt, zs)" by (metis prod_cases6)
  have "part_inv cmp x a n (a + 1) (a + 1) (a + (n - 1)) (a + (n - 1)) ?xs"
    using assms(2,3) cmp_self [OF assms(4)] by (auto simp: part_inv_def x_def le_Suc_eq less_Suc_eq)
  from partition_loop_inv [OF this p] have inv: "part_inv cmp x a n pa pb pc pd zs" "pb = pc + 1" "rearr a (a + n) ?xs zs" by blast+
  note i = inv(1) [unfolded part_inv_def]
  have "rearr a (a + n) xs ?xs" using pivot assms(2,3) by (intro rearr_swap_at) simp_all
  with inv(3) have r0: "rearr a (a + n) xs zs" using rearr_trans by blast
  define r1 s1 where "r1 = min (pa - a) (pb - pa)" and "s1 = min (pd - pc) (a + n - pd - 1)"
  let ?us = "vecswap a (pb - r1) r1 zs"
  let ?ys = "vecswap pb (a + n - s1) s1 ?us"
  from assms(1) p have res: "ys = ?ys" "l = pb - pa" "r = pd - pc" by (auto simp: qsort_split_def Let_def r1_def s1_def split: if_splits)
  have b: "a + r1 \<le> pb - r1" "pb - r1 + r1 = pb" "pb + s1 \<le> a + n - s1" "a + n - s1 + s1 = a + n"
    "pb \<le> a + n" "a + n \<le> length zs"
  proof -
    have f: "a < pa" "pa \<le> pb" "pc \<le> pd" "pd < a + n" using i by blast+
    have r: "r1 \<le> pa - a" "r1 \<le> pb - pa" "s1 \<le> pd - pc" "s1 \<le> a + n - pd - 1" by (simp_all add: r1_def s1_def)
    from r(1,2) f(1,2) show "a + r1 \<le> pb - r1" "pb - r1 + r1 = pb" by linarith+
    from r(3,4) f(3,4) inv(2) show "pb + s1 \<le> a + n - s1" "a + n - s1 + s1 = a + n" by linarith+
    from f inv(2) show "pb \<le> a + n" by linarith
    from i show "a + n \<le> length zs" by blast
  qed
  have lr: "l + r < n"
  proof -
    have "a < pa" "pa \<le> pb" "pc \<le> pd" "pd < a + n" using i by blast+
    with res(2,3) inv(2) show ?thesis by linarith
  qed
  have len: "length ?us = length zs" using vecswap_rearr [of 0 a r1 "pb - r1" "length zs" zs] b by (simp add: rearr_def)
  have "rearr a (a + n) zs ?us" using b by (intro vecswap_rearr) simp_all
  moreover have "rearr a (a + n) ?us ?ys" using b len by (intro vecswap_rearr) simp_all
  ultimately have "rearr a (a + n) xs ys" unfolding res using r0 rearr_trans by blast
  moreover have 1: "(\<forall>i. a \<le> i \<and> i < a + l \<longrightarrow> cmp (?us ! i) x <s 0) \<and> (\<forall>i. a + l \<le> i \<and> i < pb \<longrightarrow> cmp (?us ! i) x = 0) \<and>
      (\<forall>i. i < a \<or> pb \<le> i \<longrightarrow> ?us ! i = zs ! i)"
  proof -
    have "\<forall>i. a \<le> i \<and> i < pa \<longrightarrow> cmp (zs ! i) x = 0" "\<forall>i. pa \<le> i \<and> i < pb \<longrightarrow> cmp (zs ! i) x <s 0" using i by blast+
    moreover have "a < pa" "pa \<le> pb" using i by blast+
    then have "a \<le> pa" "pa \<le> pb" "pb \<le> length zs" using b by linarith+
    ultimately show ?thesis unfolding res(2)
      by (rule block_exchange [where P = "\<lambda>y. cmp y x = 0" and Q = "\<lambda>y. cmp y x <s 0", OF _ _ _ _ _ r1_def])
  qed
  have eq: "s1 = min (pd + 1 - pb) (a + n - (pd + 1))" "r = pd + 1 - pb" "pb + (a + n - (pd + 1)) = a + n - r"
  proof -
    have f: "a < pa" "pa \<le> pb" "pc \<le> pd" "pd < a + n" using i by blast+
    from f inv(2) have "pd - pc = pd + 1 - pb" "a + n - pd - 1 = a + n - (pd + 1)" by linarith+
    then show "s1 = min (pd + 1 - pb) (a + n - (pd + 1))" by (simp only: s1_def)
    from f inv(2) res(3) show "r = pd + 1 - pb" "pb + (a + n - (pd + 1)) = a + n - r" by linarith+
  qed
  have "(\<forall>i. pb \<le> i \<and> i < pb + (a + n - (pd + 1)) \<longrightarrow> cmp (?ys ! i) x = 0) \<and>
      (\<forall>i. pb + (a + n - (pd + 1)) \<le> i \<and> i < a + n \<longrightarrow> 0 <s cmp (?ys ! i) x) \<and> (\<forall>i. i < pb \<or> a + n \<le> i \<longrightarrow> ?ys ! i = ?us ! i)"
  proof -
    have f: "pc \<le> pd" "pd < a + n" using i by blast+
    have "0 <s cmp (?us ! k) x" if k: "pb \<le> k \<and> k < pd + 1" for k
    proof -
      have "pc < k \<and> k \<le> pd" using k inv(2) by linarith
      with i have "0 <s cmp (zs ! k) x" by blast
      with 1 k show ?thesis by metis
    qed
    moreover have "cmp (?us ! k) x = 0" if k: "pd + 1 \<le> k \<and> k < a + n" for k
    proof -
      have "pd < k \<and> k < a + n" "pb \<le> k" using k inv(2) f by linarith+
      with i have "cmp (zs ! k) x = 0" by blast
      with 1 \<open>pb \<le> k\<close> show ?thesis by metis
    qed
    ultimately have "\<forall>i. pb \<le> i \<and> i < pd + 1 \<longrightarrow> 0 <s cmp (?us ! i) x" "\<forall>i. pd + 1 \<le> i \<and> i < a + n \<longrightarrow> cmp (?us ! i) x = 0"
      by blast+
    moreover have "pb \<le> pd + 1" "pd + 1 \<le> a + n" "a + n \<le> length ?us" using f inv(2) len b by linarith+
    ultimately show ?thesis
      by (rule block_exchange [where P = "\<lambda>y. 0 <s cmp y x" and Q = "\<lambda>y. cmp y x = 0", OF _ _ _ _ _ eq(1)])
  qed
  note 2 = this [unfolded eq(3)]
  have "a < pa" "pa \<le> pb" using i by blast+
  then have al: "a + l \<le> pb" using res(2) by linarith
  have "cmp (?ys ! k) x <s 0" if "a \<le> k" "k < a + l" for k
    using 1 2 that al by (metis less_le_trans)
  moreover have "cmp (?ys ! i) x = 0" if "a + l \<le> i" "i < a + n - r" for i
    using that 1 2 by (cases "i < pb") (metis not_le)+
  moreover have "\<forall>i. a + n - r \<le> i \<and> i < a + n \<longrightarrow> 0 <s cmp (?ys ! i) x" using 2 by blast
  ultimately show ?thesis using lr unfolding res(1) by blast
qed

lemma qsort_split_unswapped:
  assumes "qsort_split cmp a n xs = (False, l, r, ys)" "7 \<le> n" "a + n \<le> length xs" "cmp_ok cmp"
    and pivot: "a \<le> pivot_index cmp a n xs" "pivot_index cmp a n xs < a + n"
  shows "rearr a (a + n) xs ys"
proof -
  let ?xs = "swap_at a (pivot_index cmp a n xs) xs"
  obtain pa pb pc pd cnt zs where
    p: "partition_loop cmp a (a + 1) (a + 1) (a + (n - 1)) (a + (n - 1)) False ?xs = (pa, pb, pc, pd, cnt, zs)" by (metis prod_cases6)
  have "part_inv cmp (?xs ! a) a n (a + 1) (a + 1) (a + (n - 1)) (a + (n - 1)) ?xs"
    using assms(2,3) cmp_self [OF assms(4)] by (auto simp: part_inv_def le_Suc_eq less_Suc_eq)
  from partition_loop_inv [OF this p] have "rearr a (a + n) ?xs zs" by blast
  moreover have "rearr a (a + n) xs ?xs" using pivot assms(2,3) by (intro rearr_swap_at) simp_all
  moreover have "ys = zs" using assms(1) p by (auto simp: qsort_split_def Let_def split: if_splits)
  ultimately show ?thesis using rearr_trans by blast
qed

lemma med3_cases: "med3 cmp xs a b c = a \<or> med3 cmp xs a b c = b \<or> med3 cmp xs a b c = c"
  by (simp add: med3_def)

lemma med3_range: "lo \<le> a \<Longrightarrow> a < hi \<Longrightarrow> lo \<le> b \<Longrightarrow> b < hi \<Longrightarrow> lo \<le> c \<Longrightarrow> c < hi \<Longrightarrow>
    lo \<le> med3 cmp xs a b c \<and> med3 cmp xs a b c < hi"
  using med3_cases [of cmp xs a b c] by auto

lemma pivot_index_range:
  assumes "7 \<le> n"
  shows "a \<le> pivot_index cmp a n xs \<and> pivot_index cmp a n xs < a + n"
proof (cases "40 < n")
  case True
  define d where "d = n div 8"
  have d: "d \<le> n div 2" "n div 2 + d < n" "2 * d < n" using True unfolding d_def by linarith+
  let ?pl = "med3 cmp xs a (a + d) (a + 2 * d)" and ?pm = "med3 cmp xs (a + n div 2 - d) (a + n div 2) (a + n div 2 + d)"
    and ?pn = "med3 cmp xs (a + (n - 1) - 2 * d) (a + (n - 1) - d) (a + (n - 1))"
  have "a \<le> ?pl \<and> ?pl < a + n" by (rule med3_range) (use d True in linarith)+
  moreover have "a \<le> ?pm \<and> ?pm < a + n" by (rule med3_range) (use d True in linarith)+
  moreover have "a \<le> ?pn \<and> ?pn < a + n" by (rule med3_range) (use d True in linarith)+
  ultimately have "a \<le> med3 cmp xs ?pl ?pm ?pn \<and> med3 cmp xs ?pl ?pm ?pn < a + n" by (intro med3_range) simp_all
  then show ?thesis using True by (simp add: pivot_index_def Let_def d_def)
next
  case False
  have "a \<le> med3 cmp xs a (a + n div 2) (a + (n - 1)) \<and> med3 cmp xs a (a + n div 2) (a + (n - 1)) < a + n"
    by (rule med3_range) (use assms in linarith)+
  then show ?thesis using False assms by (simp add: pivot_index_def Let_def)
qed

section \<open>qsort\<close>

lemma sorted_seg_cong: "sorted_seg cmp lo hi xs \<Longrightarrow> (\<And>i. lo \<le> i \<Longrightarrow> i < hi \<Longrightarrow> ys ! i = xs ! i) \<Longrightarrow> sorted_seg cmp lo hi ys"
  by (auto simp: sorted_seg_def)

lemma sorted_seg_short: "hi \<le> lo + 1 \<Longrightarrow> sorted_seg cmp lo hi xs"
  by (auto simp: sorted_seg_def)

text \<open>Two sorted ends around a middle part of pivots are a sorted segment.\<close>

lemma sorted_seg_join:
  assumes "cmp_ok cmp" "sorted_seg cmp a b xs" "sorted_seg cmp c d xs"
    and lt: "\<forall>i. a \<le> i \<and> i < b \<longrightarrow> cmp (xs ! i) x <s 0" and eq: "\<forall>i. b \<le> i \<and> i < c \<longrightarrow> cmp (xs ! i) x = 0"
    and gt: "\<forall>i. c \<le> i \<and> i < d \<longrightarrow> 0 <s cmp (xs ! i) x"
  shows "sorted_seg cmp a d xs"
  unfolding sorted_seg_def
proof (intro allI impI)
  fix i j assume ij: "a \<le> i \<and> i < j \<and> j < d"
  have left: "cmp (xs ! i) x <=s 0" if "i < c"
    using that ij lt eq by (cases "i < b") (auto simp: sless_iff)
  have right: "cmp x (xs ! j) <=s 0" if "b \<le> j"
  proof (cases "j < c")
    case True
    then have "cmp (xs ! j) x = 0" using that eq by blast
    then show ?thesis using cmp_eq_flip [OF assms(1)] by (metis order.refl sint_0 sless_iff(3))
  next
    case False
    then have "0 <s cmp (xs ! j) x" using ij gt by auto
    then show ?thesis using cmp_flip [OF assms(1)] by (simp add: sless_iff)
  qed
  consider "j < b" | "c \<le> i" | "b \<le> j" "i < c" by linarith
  then show "cmp (xs ! i) (xs ! j) <=s 0"
  proof cases
    case 1
    with assms(2) ij show ?thesis by (simp add: sorted_seg_def)
  next
    case 2
    with assms(3) ij show ?thesis by (simp add: sorted_seg_def)
  next
    case 3
    with left right cmp_trans [OF assms(1)] show ?thesis by blast
  qed
qed

lemma qsort_step:
  assumes ok: "cmp_ok cmp" and n: "a + n \<le> length xs" "\<not> n < 7"
    and split: "qsort_split cmp a n xs = (True, l, r, ys)"
    and L: "\<And>zs. a + l \<le> length zs \<Longrightarrow> sorted_seg cmp a (a + l) (f zs) \<and> rearr a (a + l) zs (f zs)"
    and R: "\<And>zs. a + n \<le> length zs \<Longrightarrow> sorted_seg cmp (a + n - r) (a + n) (g zs) \<and> rearr (a + n - r) (a + n) zs (g zs)"
  shows "sorted_seg cmp a (a + n) (g (f ys)) \<and> rearr a (a + n) xs (g (f ys))"
proof -
  have "7 \<le> n" using n(2) by simp
  from qsort_split_regions [OF split this n(1) ok] pivot_index_range [OF this] obtain x where
    ys: "rearr a (a + n) xs ys" "l + r < n" "\<forall>i. a \<le> i \<and> i < a + l \<longrightarrow> cmp (ys ! i) x <s 0"
      "\<forall>i. a + l \<le> i \<and> i < a + n - r \<longrightarrow> cmp (ys ! i) x = 0" "\<forall>i. a + n - r \<le> i \<and> i < a + n \<longrightarrow> 0 <s cmp (ys ! i) x" by blast
  have len: "length ys = length xs" using ys(1) by (rule rearr_length)
  have fl: "sorted_seg cmp a (a + l) (f ys)" "rearr a (a + l) ys (f ys)" using L [of ys] len n ys(2) by simp_all
  have lenf: "length (f ys) = length xs" using rearr_length [OF fl(2)] len by simp
  have gr: "sorted_seg cmp (a + n - r) (a + n) (g (f ys))" "rearr (a + n - r) (a + n) (f ys) (g (f ys))"
    using R [of "f ys"] lenf n(1) by simp_all
  let ?zs = "g (f ys)"
  have mid: "a + l \<le> a + n - r" "a + l \<le> length ys" "a + n \<le> length (f ys)" using ys(2) n(1) len lenf by linarith+
  have low: "?zs ! i = f ys ! i" if "i < a + n - r" for i
    using that mid(3) by (intro rearr_out [OF gr(2)]) linarith+
  have high: "f ys ! i = ys ! i" if "a + l \<le> i" "i < a + n" for i
    using that mid(3) lenf len by (intro rearr_out [OF fl(2)]) linarith+
  have lt: "\<forall>i. a \<le> i \<and> i < a + l \<longrightarrow> cmp (?zs ! i) x <s 0"
    using rearr_all [OF fl(2) mid(2) ys(3)] low mid(1) by (metis less_le_trans)
  have eq: "\<forall>i. a + l \<le> i \<and> i < a + n - r \<longrightarrow> cmp (?zs ! i) x = 0"
    using ys(4) low high by (metis diff_le_self less_le_trans)
  have "\<forall>i. a + n - r \<le> i \<and> i < a + n \<longrightarrow> 0 <s cmp (f ys ! i) x"
    using ys(5) high mid(1) by (metis le_trans)
  from rearr_all [OF gr(2) mid(3) this] have gt: "\<forall>i. a + n - r \<le> i \<and> i < a + n \<longrightarrow> 0 <s cmp (?zs ! i) x" .
  have "sorted_seg cmp a (a + l) ?zs" using fl(1) by (rule sorted_seg_cong) (use low mid(1) in simp)
  from sorted_seg_join [OF ok this gr(1) lt eq gt] have "sorted_seg cmp a (a + n) ?zs" .
  moreover have "rearr a (a + n) ys (f ys)" using fl(2) by (rule rearr_mono) (use mid(1) in simp_all)
  moreover have "rearr a (a + n) (f ys) ?zs" using gr(2) by (rule rearr_mono) (use mid(1) in simp_all)
  ultimately show ?thesis using ys(1) rearr_trans by blast
qed

lemma qsort_sorts_segment:
  "cmp_ok cmp \<Longrightarrow> a + n \<le> length xs \<Longrightarrow> sorted_seg cmp a (a + n) (qsort cmp a n xs) \<and> rearr a (a + n) xs (qsort cmp a n xs)"
proof (induction n arbitrary: a xs rule: less_induct)
  case (less n)
  show ?case
  proof (cases "n < 7")
    case True
    then have "qsort cmp a n xs = insertion_sort cmp a n xs" by (subst qsort.simps) simp
    then show ?thesis using insertion_sort_sorts [OF less.prems] by simp
  next
    case False
    obtain cnt l r ys where split: "qsort_split cmp a n xs = (cnt, l, r, ys)" by (metis prod_cases4)
    show ?thesis
    proof (cases cnt)
      case True
      let ?f = "\<lambda>ys. if 1 < l then qsort cmp a l ys else ys"
      let ?g = "\<lambda>ys. if 1 < r then qsort cmp (a + n - r) r ys else ys"
      have lr: "l < n" "r < n" using qsort_split_less [OF split] False by simp_all
      have "qsort cmp a n xs = ?g (?f ys)" using False True split by (subst qsort.simps) (simp add: Let_def)
      moreover have "sorted_seg cmp a (a + l) (?f zs) \<and> rearr a (a + l) zs (?f zs)" if "a + l \<le> length zs" for zs
        using less.IH [OF lr(1) less.prems(1) that] sorted_seg_short [of "a + l" a cmp zs] by simp
      moreover have "sorted_seg cmp (a + n - r) (a + n) (?g zs) \<and> rearr (a + n - r) (a + n) zs (?g zs)" if "a + n \<le> length zs" for zs
        using less.IH [OF lr(2) less.prems(1), of "a + n - r" zs] that lr(2) sorted_seg_short [of "a + n" "a + n - r" cmp zs] by simp
      moreover have split': "qsort_split cmp a n xs = (True, l, r, ys)" using split True by simp
      ultimately show ?thesis using qsort_step [OF less.prems False split', of ?f ?g] by presburger
    next
      case cnt: False
      have "7 \<le> n" using False by simp
      have split': "qsort_split cmp a n xs = (False, l, r, ys)" using split cnt by simp
      from qsort_split_unswapped [OF split' \<open>7 \<le> n\<close> less.prems(2,1)] pivot_index_range [OF \<open>7 \<le> n\<close>, of a cmp xs]
      have "rearr a (a + n) xs ys" by blast
      moreover have "qsort cmp a n xs = insertion_sort cmp a n ys" using False cnt split by (subst qsort.simps) simp
      moreover have "a + n \<le> length ys" using calculation(1) less.prems(2) by (simp add: rearr_def)
      ultimately show ?thesis using insertion_sort_sorts [OF less.prems(1), of a n ys] rearr_trans by metis
    qed
  qed
qed

text \<open>
  C28: For a comparison function that is a total preorder, \<open>qsort\<close> terminates with the \<open>n\<close> elements from \<open>a\<close> on in
  ascending order, a permutation of what they were, and changes nothing outside them, for every length:
  insertion sort, three-way partition and both recursions together.
\<close>

theorem qsort_correct:
  assumes "cmp_ok cmp" "a + n \<le> length xs"
  shows "sorted_wrt (\<lambda>x y. cmp x y <=s 0) (take n (drop a (qsort cmp a n xs))) \<and>
    mset (take n (drop a (qsort cmp a n xs))) = mset (take n (drop a xs)) \<and>
    take a (qsort cmp a n xs) = take a xs \<and> drop (a + n) (qsort cmp a n xs) = drop (a + n) xs"
proof -
  from qsort_sorts_segment [OF assms] have s: "sorted_seg cmp a (a + n) (qsort cmp a n xs)" "rearr a (a + n) xs (qsort cmp a n xs)" by simp_all
  have "length (qsort cmp a n xs) = length xs" using s(2) by (rule rearr_length)
  then have "sorted_wrt (\<lambda>x y. cmp x y <=s 0) (take n (drop a (qsort cmp a n xs)))"
    using s(1) assms(2) by (auto simp: sorted_wrt_iff_nth_less sorted_seg_def)
  moreover have "mset (take n (drop a (qsort cmp a n xs))) = mset (take n (drop a xs))"
    using rearr_segment [OF s(2)] assms(2) by simp
  moreover have "take a (qsort cmp a n xs) = take a xs" "drop (a + n) (qsort cmp a n xs) = drop (a + n) xs"
    using s(2) assms(2) by (auto simp: rearr_def list_eq_iff_nth_eq)
  ultimately show ?thesis by blast
qed

definition nat_cmp :: "nat cmp" where
  "nat_cmp x y = (if x < y then -1 else if x = y then 0 else 1)"

lemma nat_cmp_ok: "cmp_ok nat_cmp"
  by (auto simp: cmp_ok_def nat_cmp_def sless_iff split: if_splits)

theorem qsort_correct_witness:
  "sorted_wrt (\<le>) (take 8 (drop 1 (qsort nat_cmp 1 8 [9, 5, 3, 8, 1, 2, 7, 6, 4, 0]))) \<and>
   take 1 (qsort nat_cmp 1 8 [9, 5, 3, 8, 1, 2, 7, 6, 4, 0]) = [9]"
proof -
  have le: "nat_cmp x y <=s 0 \<longleftrightarrow> x \<le> y" for x y by (auto simp: nat_cmp_def sless_iff)
  have "1 + 8 \<le> length [9, 5, 3, 8, 1, 2, 7, 6, 4, 0 :: nat]" by simp
  from qsort_correct [OF nat_cmp_ok this] show ?thesis unfolding le by (elim conjE) (simp add: take_Cons)
qed

end
