(* ===== verification/Quad_Div.thy ===== *)
theory Quad_Div
  imports Prelude
begin

text \<open>
  410user/libx86/gccisms.c: division of 64-bit numbers, which the compiler calls for every 64-bit \<open>/\<close> and \<open>%\<close> (so
  does the formatter of doprnt.c). \<open>__qdivrem\<close> is Knuth's Algorithm D with digits of 16 bits, each kept in 32. The
  arrays \<open>uspace\<close>, \<open>vspace\<close> and \<open>qspace\<close> are lists of five words, and the pointers \<open>u\<close>, \<open>v\<close> and \<open>q\<close> into them are
  offsets, so that \<open>u[i]\<close> is \<open>us ! (uo + i)\<close>. The cells of \<open>qspace\<close> and \<open>vspace[0]\<close> that the code leaves uninitialised
  are 0 here; none is read before it is written.
\<close>

definition digit_base :: u32 where
  "digit_base = 0x10000"

definition hhalf :: "u32 \<Rightarrow> u32" where
  "hhalf x = drop_bit 16 x"

definition lhalf :: "u32 \<Rightarrow> u32" where
  "lhalf x = x AND 0xffff"

definition combine :: "u32 \<Rightarrow> u32 \<Rightarrow> u32" where
  "combine a b = push_bit 16 a OR b"

text \<open>The halves \<open>ul[H]\<close> and \<open>ul[L]\<close> of the union, and back.\<close>

definition quad_h :: "u64 \<Rightarrow> u32" where
  "quad_h q = ucast (drop_bit 32 q)"

definition quad_l :: "u64 \<Rightarrow> u32" where
  "quad_l q = ucast q"

definition quad :: "u32 \<Rightarrow> u32 \<Rightarrow> u64" where
  "quad h l = push_bit 32 (ucast h) OR ucast l"

definition split_digits :: "u64 \<Rightarrow> u32 list" where
  "split_digits q = [0, hhalf (quad_h q), lhalf (quad_h q), hhalf (quad_l q), lhalf (quad_l q)]"

text \<open>The change of plan for a divisor of one digit \<open>t\<close>.\<close>

definition short_div :: "u32 list \<Rightarrow> u32 \<Rightarrow> u64 \<times> u64" where
  "short_div u t =
     (let q1 = u ! 1 div t;
          rbj = combine (u ! 1 mod t) (u ! 2);
          q2 = rbj div t;
          rbj = combine (rbj mod t) (u ! 3);
          q3 = rbj div t;
          rbj = combine (rbj mod t) (u ! 4);
          q4 = rbj div t in
      (quad (combine q1 q2) (combine q3 q4), ucast (rbj mod t)))"

text \<open>The loop that finds \<open>n\<close> and moves \<open>v\<close>; \<open>None\<close> is the branch to the change of plan.\<close>

fun find_n :: "u32 list \<Rightarrow> nat \<Rightarrow> nat \<Rightarrow> (nat \<times> nat) option" where
  "find_n vs vo 0 = None"
| "find_n vs vo (Suc n) =
     (if vs ! (vo + 1) = 0 then if n = 1 then None else find_n vs (vo + 1) n else Some (vo, Suc n))"

text \<open>The loop that moves \<open>u\<close> over leading zeros and counts \<open>m\<close> down.\<close>

partial_function (option) skip_u :: "u32 list \<Rightarrow> nat \<Rightarrow> int \<Rightarrow> (nat \<times> int) option" where
  "skip_u us uo m = (if us ! (uo + 1) = 0 then skip_u us (uo + 1) (m - 1) else Some (uo, m))"

text \<open>D1: \<open>for (t = v[1]; t < B / 2; t <<= 1) d++;\<close>\<close>

partial_function (option) shift_count :: "u32 \<Rightarrow> nat \<Rightarrow> nat option" where
  "shift_count t d = (if t < 0x8000 then shift_count (push_bit 1 t) (d + 1) else Some d)"

definition shl_step :: "nat \<Rightarrow> nat \<Rightarrow> nat \<Rightarrow> u32 list \<Rightarrow> u32 list" where
  "shl_step p sh i us = us[p + i := lhalf (push_bit sh (us ! (p + i))) OR drop_bit (16 - sh) (us ! (p + i + 1))]"

definition shl :: "nat \<Rightarrow> nat \<Rightarrow> nat \<Rightarrow> u32 list \<Rightarrow> u32 list" where
  "shl p len sh us =
     (let us = fold (shl_step p sh) [0..<len] us in us[p + len := lhalf (push_bit sh (us ! (p + len)))])"

text \<open>
  D3: the loop \<open>while (v2 * qhat > COMBINE(rhat, uj2))\<close>; \<open>too_big\<close> says that it is entered by the jump to
  \<open>qhat_too_big\<close>, behind the test.
\<close>

partial_function (option) qhat_loop :: "u32 \<Rightarrow> u32 \<Rightarrow> u32 \<Rightarrow> bool \<Rightarrow> u32 \<Rightarrow> u32 \<Rightarrow> u32 option" where
  "qhat_loop v1 v2 uj2 too_big qhat rhat =
     (if too_big \<or> combine rhat uj2 < v2 * qhat then
        let qhat = qhat - 1; rhat = rhat + v1 in
        if digit_base \<le> rhat then Some qhat else qhat_loop v1 v2 uj2 False qhat rhat
      else Some qhat)"

definition qhat_of :: "u32 \<Rightarrow> u32 \<Rightarrow> u32 \<Rightarrow> u32 \<Rightarrow> u32 \<Rightarrow> u32 option" where
  "qhat_of v1 v2 uj0 uj1 uj2 =
     (if uj0 = v1 then qhat_loop v1 v2 uj2 True digit_base uj1
      else let nn = combine uj0 uj1 in qhat_loop v1 v2 uj2 False (nn div v1) (nn mod v1))"

text \<open>D4: multiply and subtract; the loop runs over \<open>i\<close> from \<open>n\<close> down to 1. \<open>uj\<close> is the offset of \<open>u[j]\<close>.\<close>

fun mul_sub :: "nat \<Rightarrow> u32 list \<Rightarrow> nat \<Rightarrow> u32 \<Rightarrow> nat \<Rightarrow> u32 \<Rightarrow> u32 list \<Rightarrow> u32 \<times> u32 list" where
  "mul_sub vo vs uj qhat 0 t us = (t, us)"
| "mul_sub vo vs uj qhat (Suc i) t us =
     (let t = us ! (uj + Suc i) - vs ! (vo + Suc i) * qhat - t in
      mul_sub vo vs uj qhat i ((digit_base - hhalf t) AND (digit_base - 1)) (us[uj + Suc i := lhalf t]))"

text \<open>D6: add back.\<close>

fun add_back :: "nat \<Rightarrow> u32 list \<Rightarrow> nat \<Rightarrow> nat \<Rightarrow> u32 \<Rightarrow> u32 list \<Rightarrow> u32 \<times> u32 list" where
  "add_back vo vs uj 0 t us = (t, us)"
| "add_back vo vs uj (Suc i) t us =
     (let t = t + (us ! (uj + Suc i) + vs ! (vo + Suc i)) in
      add_back vo vs uj i (hhalf t) (us[uj + Suc i := lhalf t]))"

text \<open>One iteration of the main loop: the digit of the quotient and the new \<open>uspace\<close>.\<close>

definition div_step :: "nat \<Rightarrow> u32 list \<Rightarrow> nat \<Rightarrow> nat \<Rightarrow> u32 list \<Rightarrow> (u32 \<times> u32 list) option" where
  "div_step vo vs n uj us =
     (case qhat_of (vs ! (vo + 1)) (vs ! (vo + 2)) (us ! uj) (us ! (uj + 1)) (us ! (uj + 2)) of
        None \<Rightarrow> None
      | Some qhat \<Rightarrow>
        (case mul_sub vo vs uj qhat n 0 us of (t, us) \<Rightarrow>
           let t = us ! uj - t; us = us[uj := lhalf t] in
           if hhalf t \<noteq> 0 then
             (case add_back vo vs uj n 0 us of (t, us) \<Rightarrow> Some (qhat - 1, us[uj := lhalf (us ! uj + t)]))
           else Some (qhat, us)))"

text \<open>D7: the main loop, with \<open>k\<close> iterations left; the digits of the quotient go to \<open>q[j]\<close>, \<open>q[j + 1]\<close>, ...\<close>

fun div_loop :: "nat \<Rightarrow> u32 list \<Rightarrow> nat \<Rightarrow> nat \<Rightarrow> nat \<Rightarrow> nat \<Rightarrow> u32 list \<Rightarrow> u32 list \<Rightarrow> (u32 list \<times> u32 list) option" where
  "div_loop vo vs n uj qj 0 us qs = Some (us, qs)"
| "div_loop vo vs n uj qj (Suc k) us qs =
     (case div_step vo vs n uj us of None \<Rightarrow> None
      | Some (qhat, us) \<Rightarrow> div_loop vo vs n (uj + 1) (qj + 1) k us (qs[qj := qhat]))"

text \<open>The remainder is shifted back: the loop over \<open>i\<close> from \<open>m + n\<close> down to \<open>m + 1\<close>; \<open>p\<close> is the offset of \<open>u[m]\<close>.\<close>

fun unshift :: "nat \<Rightarrow> nat \<Rightarrow> nat \<Rightarrow> u32 list \<Rightarrow> u32 list" where
  "unshift p d 0 us = us[p := 0]"
| "unshift p d (Suc i) us =
     unshift p d i (us[p + Suc i := drop_bit d (us ! (p + Suc i)) OR lhalf (push_bit (16 - d) (us ! (p + i)))])"

text \<open>From the choice of \<open>m\<close> to the end, with \<open>v\<close> at offset \<open>vo\<close> and \<open>n\<close> digits.\<close>

definition long_div :: "u32 list \<Rightarrow> u32 list \<Rightarrow> nat \<Rightarrow> nat \<Rightarrow> (u64 \<times> u64) option" where
  "long_div us vs vo n =
     (case skip_u us 0 (4 - int n) of None \<Rightarrow> None
      | Some (uo, m) \<Rightarrow>
        let m = nat m in
        (case shift_count (vs ! (vo + 1)) 0 of None \<Rightarrow> None
         | Some d \<Rightarrow>
           let us = (if 0 < d then shl uo (m + n) d us else us);
               vs = (if 0 < d then shl (vo + 1) (n - 1) d vs else vs) in
           (case div_loop vo vs n uo (4 - m) (m + 1) us (replicate 5 0) of None \<Rightarrow> None
            | Some (us, qs) \<Rightarrow>
              let us = (if 0 < d then unshift (uo + m) d n us else us) in
              Some (quad (combine (qs ! 1) (qs ! 2)) (combine (qs ! 3) (qs ! 4)),
                    quad (combine (us ! 1) (us ! 2)) (combine (us ! 3) (us ! 4))))))"

text \<open>The result is the quotient and what is stored through \<open>arq\<close> when it is not NULL.\<close>

definition qdivrem :: "u64 \<Rightarrow> u64 \<Rightarrow> (u64 \<times> u64) outcome" where
  "qdivrem uq vq =
     (if vq = 0 then Fault
      else if uq < vq then Ret (0, uq)
      else
        let us = split_digits uq; vs = split_digits vq in
        case find_n vs 0 4 of
          None \<Rightarrow> Ret (short_div us (vs ! 4))
        | Some (vo, n) \<Rightarrow> (case long_div us vs vo n of None \<Rightarrow> Hang | Some r \<Rightarrow> Ret r))"

definition umoddi3 :: "u64 \<Rightarrow> u64 \<Rightarrow> u64 outcome" where
  "umoddi3 a b = bnd (qdivrem a b) (\<lambda>(q, r). Ret r)"

definition udivdi3 :: "u64 \<Rightarrow> u64 \<Rightarrow> u64 outcome" where
  "udivdi3 a b = bnd (qdivrem a b) (\<lambda>(q, r). Ret q)"

end
