(* ===== verification/Quad_Div_Props.thy ===== *)
theory Quad_Div_Props
  imports Quad_Div
begin

text \<open>
  \<open>__qdivrem\<close> computes quotient and remainder. Words are read as integers (\<open>uint\<close>), a run of digits as its value in
  base 65536; each part of Algorithm D is a lemma on these values.
\<close>

section \<open>Halves and runs of digits\<close>

lemma lhalf_uint: "uint (lhalf x) = uint x mod 65536"
proof -
  have "uint x AND 65535 = uint x mod 65536"
    using take_bit_eq_mask [of 16 "uint x"] take_bit_eq_mod [of 16 "uint x"] by (simp add: mask_eq_exp_minus_1)
  then show ?thesis by (simp add: lhalf_def unsigned_and_eq)
qed

lemma hhalf_uint: "uint (hhalf x) = uint x div 65536"
proof -
  have "take_bit 32 (uint x) = uint x" using uint_less32 [of x] by (intro take_bit_int_eq_self) simp_all
  moreover have "uint (hhalf x) = drop_bit 16 (take_bit 32 (uint x))" unfolding hhalf_def unsigned_drop_bit_eq by simp
  ultimately show ?thesis by (simp add: drop_bit_eq_div)
qed

lemma lhalf_less: "uint (lhalf x) < 65536"
  by (simp add: lhalf_uint)

lemma or_disjoint_uint:
  "a mod 2 ^ n = 0 \<Longrightarrow> 0 \<le> b \<Longrightarrow> b < 2 ^ n \<Longrightarrow> a OR b = a + (b :: int)"
proof -
  assume a: "a mod 2 ^ n = 0" and b: "0 \<le> b" "b < 2 ^ n"
  have "bit a k \<Longrightarrow> n \<le> k" for k
  proof (rule ccontr)
    assume "bit a k" "\<not> n \<le> k"
    then have "bit (take_bit n a) k" by (simp add: bit_take_bit_iff)
    with a show False by (simp add: take_bit_eq_mod)
  qed
  moreover have "bit b k \<Longrightarrow> k < n" for k
  proof -
    assume "bit b k"
    have "take_bit n b = b" using b by (simp add: take_bit_int_eq_self)
    with \<open>bit b k\<close> show "k < n" by (metis bit_take_bit_iff)
  qed
  ultimately have "a AND b = 0" by (intro bit_eqI) (auto simp: bit_and_iff dest: leD)
  then show ?thesis by (simp add: disjunctive_add_eq_or)
qed

lemma combine_uint:
  assumes "uint a < 65536" "uint b < 65536"
  shows "uint (combine a b) = uint a * 65536 + uint b"
proof -
  have "uint (push_bit 16 a) = uint a * 65536"
  proof -
    have "uint (push_bit 16 a) = take_bit 32 (push_bit 16 (uint a))" by (rule unsigned_push_bit_eq [where 'b = 32, simplified])
    also have "push_bit 16 (uint a) = uint a * 65536" by (simp add: push_bit_eq_mult)
    also have "take_bit 32 (uint a * 65536) = uint a * 65536" using assms(1) by (intro take_bit_int_eq_self) simp_all
    finally show ?thesis .
  qed
  moreover have "(uint a * 65536) OR uint b = uint a * 65536 + uint b"
    using assms(2) by (intro or_disjoint_uint [of _ 16]) simp_all
  ultimately show ?thesis by (simp add: combine_def unsigned_or_eq)
qed

primrec seg :: "u32 list \<Rightarrow> nat \<Rightarrow> nat \<Rightarrow> int" where
  "seg us a 0 = 0"
| "seg us a (Suc n) = seg us a n * 65536 + uint (us ! (a + n))"

definition digits_ok :: "u32 list \<Rightarrow> nat \<Rightarrow> nat \<Rightarrow> bool" where
  "digits_ok us a n \<longleftrightarrow> (\<forall>i < n. uint (us ! (a + i)) < 65536)"

lemma seg_cong: "(\<And>i. i < n \<Longrightarrow> us' ! (a + i) = us ! (a + i)) \<Longrightarrow> seg us' a n = seg us a n"
  by (induction n) simp_all

lemma seg_bounds: "digits_ok us a n \<Longrightarrow> 0 \<le> seg us a n \<and> seg us a n < 65536 ^ n"
proof (induction n)
  case (Suc n)
  then have "0 \<le> seg us a n" "seg us a n \<le> 65536 ^ n - 1" "uint (us ! (a + n)) < 65536" by (auto simp: digits_ok_def)
  then show ?case by simp
qed simp

lemma seg_add: "seg us a (k + l) = seg us a k * 65536 ^ l + seg us (a + k) l"
  by (induction l) (simp_all add: algebra_simps)

lemma seg_head: "seg us a (Suc n) = uint (us ! a) * 65536 ^ n + seg us (a + 1) n"
  using seg_add [of us a 1 n] by simp

section \<open>The estimate of a digit\<close>

text \<open>
  One step of the long division: \<open>V\<close> is the divisor with the leading digits \<open>v1\<close>, \<open>v2\<close> and the rest below \<open>P\<close>, \<open>W\<close> the
  window with the leading digits \<open>u0\<close>, \<open>u1\<close>, \<open>u2\<close>.
\<close>

lemma qhat_upper:
  fixes V W P :: int
  assumes "(v1 * 65536 + v2) * P \<le> V" "W < (u0 * 65536 * 65536 + u1 * 65536 + u2 + 1) * P" "0 < P" "0 < V" "0 \<le> q"
    and "u0 * 65536 * 65536 + u1 * 65536 + u2 < q * (v1 * 65536 + v2)"
  shows "W div V \<le> q - 1"
proof -
  have "W < q * (v1 * 65536 + v2) * P"
    using assms(2,3,6) by (smt (verit) mult_right_mono)
  also have "\<dots> \<le> q * V" using assms(1,5) by (simp add: mult.assoc mult_left_mono)
  finally have "W < q * V" .
  moreover have "W div V * V \<le> W" using assms(4) pos_mod_sign [OF assms(4), of W] div_mult_mod_eq [of W V] by linarith
  ultimately have "W div V * V < q * V" by linarith
  then show ?thesis using assms(4) by simp
qed

lemma qhat_lower:
  fixes V W P :: int
  assumes "V < (v1 * 65536 + v2 + 1) * P" "(u0 * 65536 * 65536 + u1 * 65536 + u2) * P \<le> W" "0 < P" "0 < V" "0 \<le> q"
    and "q * (v1 * 65536 + v2) \<le> u0 * 65536 * 65536 + u1 * 65536 + u2" "q * P \<le> V"
  shows "q \<le> W div V + 1"
proof -
  have "q * V \<le> q * ((v1 * 65536 + v2) * P + P)" using assms(1,5) by (intro mult_left_mono) (simp_all add: algebra_simps)
  also have "\<dots> = q * (v1 * 65536 + v2) * P + q * P" by (simp add: algebra_simps)
  also have "\<dots> \<le> W + V"
  proof -
    have "q * (v1 * 65536 + v2) * P \<le> (u0 * 65536 * 65536 + u1 * 65536 + u2) * P" using assms(3,6) by (intro mult_right_mono) simp_all
    with assms(2,7) show ?thesis by linarith
  qed
  finally have "(q - 1) * V \<le> W" by (simp add: algebra_simps)
  then have "((q - 1) * V) div V \<le> W div V" using assms(4) by (rule zdiv_mono1)
  then have "q - 1 \<le> W div V" using assms(4) by simp
  then show ?thesis by simp
qed

lemma uint_mult_small: "uint a * uint b < 2 ^ 32 \<Longrightarrow> uint (a * b :: u32) = uint a * uint b"
  by (simp add: uint_word_ariths)

lemma uint_add_small: "uint a + uint b < 2 ^ 32 \<Longrightarrow> uint (a + b :: u32) = uint a + uint b"
  by (simp add: uint_word_ariths)

lemma uint_minus_1: "0 < uint (a :: u32) \<Longrightarrow> uint (a - 1) = uint a - 1"
  using uint_less32 [of a] by (simp add: uint_word_ariths)

lemma uint_pos: "0 \<le> uint (a :: u32)"
  by simp

lemma mult_less_square: "0 \<le> a \<Longrightarrow> a < 65536 \<Longrightarrow> 0 \<le> b \<Longrightarrow> b < 65536 \<Longrightarrow> a * b \<le> 65535 * (65535 :: int)"
  by (rule mult_mono) simp_all

lemma qhat_loop_run:
  assumes v1: "0 < uint v1" "uint v1 < 65536" and v2: "uint v2 < 65536" and u2: "uint u2 < 65536"
  shows "uint qhat < 65536 \<Longrightarrow> uint rhat < 65536 \<Longrightarrow> uint qhat * uint v1 + uint rhat = N \<Longrightarrow>
    \<exists>q. qhat_loop v1 v2 u2 False qhat rhat = Some q \<and> uint q \<le> uint qhat \<and>
      uint q * (uint v1 * 65536 + uint v2) \<le> N * 65536 + uint u2 \<and>
      (q = qhat \<or> N * 65536 + uint u2 < (uint q + 1) * (uint v1 * 65536 + uint v2))"
proof (induction "nat (65536 - uint rhat)" arbitrary: qhat rhat rule: less_induct)
  case less
  have vq: "uint (v2 * qhat) = uint v2 * uint qhat" "uint v2 * uint qhat \<le> 65535 * 65535"
    using mult_less_square [of "uint v2" "uint qhat"] v2 less.prems(1) by (simp_all add: uint_mult_small)
  have D: "uint qhat * (uint v1 * 65536 + uint v2) = (N - uint rhat) * 65536 + uint v2 * uint qhat"
    using less.prems(3) by (simp add: algebra_simps)
  show ?case
  proof (cases "combine rhat u2 < v2 * qhat")
    case False
    then have "uint v2 * uint qhat \<le> uint rhat * 65536 + uint u2"
      using vq(1) combine_uint [OF less.prems(2) u2] by (simp add: word_less_def)
    with D have "uint qhat * (uint v1 * 65536 + uint v2) \<le> N * 65536 + uint u2" by (simp add: algebra_simps)
    moreover have "qhat_loop v1 v2 u2 False qhat rhat = Some qhat" using False by (subst qhat_loop.simps) simp
    ultimately show ?thesis by simp
  next
    case True
    then have gt: "uint rhat * 65536 + uint u2 < uint v2 * uint qhat"
      using vq(1) combine_uint [OF less.prems(2) u2] by (simp add: word_less_def)
    have "uint qhat \<noteq> 0"
    proof
      assume "uint qhat = 0"
      with gt show False by (simp add: not_less) (use uint_pos [of rhat] uint_pos [of u2] in linarith)
    qed
    then have q1: "uint (qhat - 1) = uint qhat - 1" "0 < uint qhat" using uint_pos [of qhat] uint_minus_1 [of qhat] by linarith+
    have r1: "uint (rhat + v1) = uint rhat + uint v1" using less.prems(2) v1(2) by (intro uint_add_small) simp
    have N1: "uint (qhat - 1) * uint v1 + uint (rhat + v1) = N"
      unfolding q1(1) r1 less.prems(3) [symmetric] left_diff_distrib by simp
    have over: "N * 65536 + uint u2 < (uint (qhat - 1) + 1) * (uint v1 * 65536 + uint v2)"
      using D gt q1 by (simp add: algebra_simps)
    show ?thesis
    proof (cases "digit_base \<le> rhat + v1")
      case True
      then have big: "65536 \<le> uint (rhat + v1)" by (simp add: digit_base_def word_le_def)
      have "uint (qhat - 1) * uint v2 \<le> 65535 * 65535"
        using q1 less.prems(1) v2 by (intro mult_less_square) simp_all
      then have "uint (qhat - 1) * uint v2 \<le> uint (rhat + v1) * 65536" using big by linarith
      moreover have "uint (qhat - 1) * (uint v1 * 65536 + uint v2) = (N - uint (rhat + v1)) * 65536 + uint (qhat - 1) * uint v2"
        using N1 by (simp add: algebra_simps)
      ultimately have "uint (qhat - 1) * (uint v1 * 65536 + uint v2) \<le> N * 65536 + uint u2"
        using uint_pos [of u2] unfolding left_diff_distrib by linarith
      moreover have "qhat_loop v1 v2 u2 False qhat rhat = Some (qhat - 1)"
        using True \<open>combine rhat u2 < v2 * qhat\<close> by (subst qhat_loop.simps) (simp add: Let_def)
      ultimately show ?thesis using over q1 by auto
    next
      case False
      then have small: "uint (rhat + v1) < 65536" by (simp add: digit_base_def word_le_def)
      have "nat (65536 - uint (rhat + v1)) < nat (65536 - uint rhat)" using r1 v1(1) small by linarith
      from less.hyps [OF this _ small N1] q1 less.prems(1) obtain q where
        q: "qhat_loop v1 v2 u2 False (qhat - 1) (rhat + v1) = Some q" "uint q \<le> uint (qhat - 1)"
          "uint q * (uint v1 * 65536 + uint v2) \<le> N * 65536 + uint u2"
          "q = qhat - 1 \<or> N * 65536 + uint u2 < (uint q + 1) * (uint v1 * 65536 + uint v2)" by auto
      have "qhat_loop v1 v2 u2 False qhat rhat = Some q"
        using False \<open>combine rhat u2 < v2 * qhat\<close> q(1) by (subst qhat_loop.simps) (simp add: Let_def)
      with q over q1 show ?thesis by auto
    qed
  qed
qed

lemma div_less_mult: "0 < b \<Longrightarrow> a < b * c \<Longrightarrow> a div b < (c :: int)"
proof (rule ccontr)
  assume b: "0 < b" and a: "a < b * c" "\<not> a div b < c"
  then have "c * b \<le> a div b * b" by (intro mult_right_mono) simp_all
  with a(1) pos_mod_sign [OF b, of a] div_mult_mod_eq [of a b] show False by (simp only: mult.commute [of b c])
qed

lemma div_mult_upper: "0 < b \<Longrightarrow> a < (a div b + 1) * (b :: int)"
  using pos_mod_bound [of b a] div_mult_mod_eq [of a b] unfolding distrib_right by linarith

lemma mult_less_mult_div: "a < (k + 1) * b \<Longrightarrow> 0 \<le> k \<Longrightarrow> 0 \<le> c \<Longrightarrow> e < 65536 \<Longrightarrow>
    a * 65536 + e < (k + 1) * (b * 65536 + (c :: int))"
proof -
  assume a: "a < (k + 1) * b" and k: "0 \<le> k" "0 \<le> c" and e: "e < 65536"
  have "a + 1 \<le> (k + 1) * b" using a by simp
  moreover have "0 \<le> (k + 1) * c" using k by simp
  moreover have "(k + 1) * (b * 65536 + c) = 65536 * ((k + 1) * b) + (k + 1) * c"
    by (simp only: distrib_left)
  ultimately show ?thesis using e by (simp only:)
qed

text \<open>The estimate is right or one too large, and at most 65535.\<close>

lemma qhat_of_bounds:
  assumes v1: "32768 \<le> uint v1" "uint v1 < 65536" and v2: "uint v2 < 65536"
    and u: "uint u0 < 65536" "uint u1 < 65536" "uint u2 < 65536"
    and V: "(uint v1 * 65536 + uint v2) * P \<le> V" "V < (uint v1 * 65536 + uint v2 + 1) * P"
    and W: "(uint u0 * 65536 * 65536 + uint u1 * 65536 + uint u2) * P \<le> W"
      "W < (uint u0 * 65536 * 65536 + uint u1 * 65536 + uint u2 + 1) * P"
    and P: "0 < P" and WV: "W < V * 65536"
  shows "\<exists>q. qhat_of v1 v2 u0 u1 u2 = Some q \<and> uint q < 65536 \<and> W div V \<le> uint q \<and> uint q \<le> W div V + 1"
proof -
  let ?D = "uint v1 * 65536 + uint v2" and ?N = "uint u0 * 65536 + uint u1"
  have D: "0 < ?D" using v1(1) uint_pos [of v2] by linarith
  have V0: "0 < V" using V(1) mult_pos_pos [OF D P] by linarith
  have U3: "uint u0 * 65536 * 65536 + uint u1 * 65536 + uint u2 = ?N * 65536 + uint u2" by (simp add: algebra_simps)
  have "W div V * V \<le> W" using V0 pos_mod_sign [OF V0, of W] div_mult_mod_eq [of W V] by linarith
  then have "W div V * V < 65536 * V" using WV by linarith
  then have WB: "W div V < 65536" using V0 by simp
  have u0: "uint u0 \<le> uint v1"
  proof (rule ccontr)
    assume "\<not> uint u0 \<le> uint v1"
    then have "?D + 1 \<le> uint u0 * 65536" using v2 by linarith
    then have "(?D + 1) * 65536 \<le> uint u0 * 65536 * 65536" by (rule mult_right_mono) simp
    then have "(?D + 1) * 65536 \<le> uint u0 * 65536 * 65536 + uint u1 * 65536 + uint u2"
      using uint_pos [of u1] uint_pos [of u2] by linarith
    then have "(?D + 1) * 65536 * P \<le> (uint u0 * 65536 * 65536 + uint u1 * 65536 + uint u2) * P"
      using P by (intro mult_right_mono) simp_all
    with W(1) WV V(2) show False by (simp add: algebra_simps)
  qed
  have fin: "uint q < 65536 \<and> W div V \<le> uint q \<and> uint q \<le> W div V + 1"
    if q: "uint q < 65536" "uint q * ?D \<le> ?N * 65536 + uint u2" and up: "W div V \<le> uint q \<or> ?N * 65536 + uint u2 < (uint q + 1) * ?D" for q :: u32
  proof -
    have "W div V \<le> uint q"
      using up qhat_upper [OF V(1) W(2) P V0, of "uint q + 1"] unfolding U3 by auto
    moreover have "uint q * P \<le> V"
    proof -
      have "uint q * P \<le> ?D * P" using q(1) v1(1) P uint_pos [of v2] by (intro mult_right_mono) linarith+
      with V(1) show ?thesis by linarith
    qed
    with qhat_lower [OF V(2) W(1) P V0 uint_pos] q(2) have "uint q \<le> W div V + 1" unfolding U3 by blast
    ultimately show ?thesis using q(1) by blast
  qed
  have v1': "0 < uint v1" using v1(1) by linarith
  show ?thesis
  proof (cases "u0 = v1")
    case True
    have B: "uint (digit_base - 1) = 65535" "digit_base - 1 = 65535" by (simp_all add: digit_base_def)
    have r: "uint (u1 + v1) = uint u1 + uint v1" using u(2) v1(2) by (intro uint_add_small) simp
    have N: "uint (digit_base - 1) * uint v1 + uint (u1 + v1) = ?N" unfolding B(1) r True by (simp add: algebra_simps)
    have run: "qhat_of v1 v2 u0 u1 u2 = (if digit_base \<le> u1 + v1 then Some (digit_base - 1) else qhat_loop v1 v2 u2 False (digit_base - 1) (u1 + v1))"
      using True by (simp add: qhat_of_def Let_def qhat_loop.simps [of v1 v2 u2 True])
    show ?thesis
    proof (cases "digit_base \<le> u1 + v1")
      case big: True
      then have "65536 \<le> uint u1 + uint v1" using r by (simp add: digit_base_def word_le_def)
      then have "65535 * ?D \<le> ?N * 65536 + uint u2" using v2 uint_pos [of u2] unfolding True distrib_left distrib_right by linarith
      then have "uint (digit_base - 1) * ?D \<le> ?N * 65536 + uint u2" unfolding B(1) .
      from fin [OF _ this] show ?thesis using run big WB B(1) by auto
    next
      case False
      then have "uint (u1 + v1) < 65536" by (simp add: digit_base_def word_le_def)
      from qhat_loop_run [OF v1' v1(2) v2 u(3) _ this N] B(1) obtain q where
        q: "qhat_loop v1 v2 u2 False (digit_base - 1) (u1 + v1) = Some q" "uint q \<le> 65535"
          "uint q * ?D \<le> ?N * 65536 + uint u2" "q = digit_base - 1 \<or> ?N * 65536 + uint u2 < (uint q + 1) * ?D" by auto
      from fin [of q] q WB B(1) run False show ?thesis by auto
    qed
  next
    case False
    then have less: "uint u0 < uint v1" using u0 by (simp add: word_uint_eq_iff)
    let ?nn = "combine u0 u1"
    have nn: "uint ?nn = ?N" by (rule combine_uint [OF u(1,2)])
    have q0: "uint (?nn div v1) = ?N div uint v1" "uint (?nn mod v1) = ?N mod uint v1" by (simp_all add: uint_div uint_mod nn)
    have "?N < uint v1 * 65536" using less u(2) by linarith
    then have q1: "?N div uint v1 < 65536" by (rule div_less_mult [OF v1'])
    have r1: "?N mod uint v1 < 65536" using pos_mod_bound [OF v1', of ?N] v1(2) by linarith
    have "uint (?nn div v1) * uint v1 + uint (?nn mod v1) = ?N" unfolding q0 by simp
    from qhat_loop_run [OF v1' v1(2) v2 u(3) _ _ this] q0 q1 r1 obtain q where
      q: "qhat_loop v1 v2 u2 False (?nn div v1) (?nn mod v1) = Some q" "uint q \<le> ?N div uint v1"
        "uint q * ?D \<le> ?N * 65536 + uint u2" "q = ?nn div v1 \<or> ?N * 65536 + uint u2 < (uint q + 1) * ?D" by auto
    have "?N * 65536 + uint u2 < (?N div uint v1 + 1) * ?D"
    proof -
      have "?N < (?N div uint v1 + 1) * uint v1" by (rule div_mult_upper [OF v1'])
      moreover have "0 \<le> ?N div uint v1"
        using uint_pos [of u0] uint_pos [of u1] by (intro pos_imp_zdiv_nonneg_iff [OF v1', THEN iffD2]) linarith
      ultimately show ?thesis using u(3) by (intro mult_less_mult_div uint_pos)
    qed
    with q(4) q0(1) have "?N * 65536 + uint u2 < (uint q + 1) * ?D" by auto
    moreover have "qhat_of v1 v2 u0 u1 u2 = Some q" using False q(1) by (simp add: qhat_of_def Let_def)
    ultimately show ?thesis using fin [of q] q(2,3) q1 by auto
  qed
qed

section \<open>Multiply and subtract, add back\<close>

lemma borrow_digit:
  assumes "uint u < 65536" "uint v < 65536" "uint q < 65536" "uint t < 65536"
  defines "x \<equiv> uint u - uint v * uint q - uint t"
  shows "uint (lhalf (u - v * q - t)) = x mod 65536"
    and "uint ((digit_base - hhalf (u - v * q - t)) AND (digit_base - 1)) = - (x div 65536)"
    and "- (x div 65536) < 65536" "0 \<le> - (x div 65536)"
proof -
  let ?w = "u - v * q - t"
  have w: "uint ?w = x mod 4294967296" by (simp add: uint_word_ariths mod_simps x_def)
  have vq: "0 \<le> uint v * uint q" "uint v * uint q \<le> 65535 * 65535"
    using mult_less_square [OF uint_pos assms(2) uint_pos assms(3)] by simp_all
  have x: "- (65535 * 65536) \<le> x" "x \<le> 65535"
    using vq assms(1,4) uint_pos [of u] uint_pos [of t] unfolding x_def by linarith+
  then have k: "- 65535 \<le> x div 65536" "x div 65536 \<le> 0" by linarith+
  then show "- (x div 65536) < 65536" "0 \<le> - (x div 65536)" by simp_all
  have x2: "x mod 4294967296 = 65536 * (x div 65536 mod 65536) + x mod 65536"
    using zmod_zmult2_eq [of 65536 x 65536] by simp
  show "uint (lhalf ?w) = x mod 65536" unfolding lhalf_uint w x2 by simp
  have h: "uint (hhalf ?w) = x div 65536 mod 65536" unfolding hhalf_uint w x2 by simp
  have "(digit_base - hhalf ?w) AND (digit_base - 1) = lhalf (digit_base - hhalf ?w)" by (simp add: lhalf_def digit_base_def)
  then have "uint ((digit_base - hhalf ?w) AND (digit_base - 1)) = uint (digit_base - hhalf ?w) mod 65536" by (simp add: lhalf_uint)
  also have "uint (digit_base - hhalf ?w) = (65536 - x div 65536 mod 65536) mod 4294967296"
    using h by (simp add: uint_word_ariths digit_base_def)
  also have "\<dots> mod 65536 = (65536 - x div 65536 mod 65536) mod 65536" by (simp add: mod_mod_cancel)
  also have "\<dots> = (65536 - x div 65536) mod 65536" by (simp only: mod_diff_right_eq)
  also have "\<dots> = - (x div 65536) mod 65536" by (metis minus_mod_self1 uminus_add_conv_diff add.commute)
  also have "\<dots> = - (x div 65536)" using k by (intro mod_pos_pos_trivial) simp_all
  finally show "uint ((digit_base - hhalf ?w) AND (digit_base - 1)) = - (x div 65536)" .
qed

lemma mul_sub_run:
  assumes q: "uint qhat < 65536"
  shows "digits_ok us (uj + 1) i \<Longrightarrow> digits_ok vs (vo + 1) i \<Longrightarrow> uint t < 65536 \<Longrightarrow> uj + i < length us \<Longrightarrow>
    mul_sub vo vs uj qhat i t us = (t', us') \<Longrightarrow>
    uint t' < 65536 \<and> length us' = length us \<and> digits_ok us' (uj + 1) i \<and>
    (\<forall>k. k \<le> uj \<or> uj + i < k \<longrightarrow> us' ! k = us ! k) \<and>
    seg us (uj + 1) i - uint qhat * seg vs (vo + 1) i - uint t = seg us' (uj + 1) i - uint t' * 65536 ^ i"
proof (induction i arbitrary: t us)
  case 0
  then show ?case by (simp add: digits_ok_def)
next
  case (Suc i)
  let ?u = "us ! (uj + Suc i)" and ?v = "vs ! (vo + Suc i)"
  let ?w = "?u - ?v * qhat - t"
  let ?us = "us[uj + Suc i := lhalf ?w]" and ?t = "(digit_base - hhalf ?w) AND (digit_base - 1)"
  define x where "x = uint ?u - uint ?v * uint qhat - uint t"
  have d: "uint ?u < 65536" "uint ?v < 65536" using Suc.prems(1,2) by (auto simp: digits_ok_def)
  note bd = borrow_digit [OF d q Suc.prems(3), folded x_def]
  have t: "uint ?t < 65536" using bd(2,3) by simp
  have us: "digits_ok ?us (uj + 1) i" and vs: "digits_ok vs (vo + 1) i" using Suc.prems(1,2) by (auto simp: digits_ok_def)
  have run: "mul_sub vo vs uj qhat i ?t ?us = (t', us')" using Suc.prems(5) by (simp add: Let_def)
  have len: "uj + i < length ?us" using Suc.prems(4) by simp
  have ih1: "uint t' < 65536" and ih2: "length us' = length us" and ih3: "digits_ok us' (uj + 1) i"
    and ih4: "\<forall>k. k \<le> uj \<or> uj + i < k \<longrightarrow> us' ! k = ?us ! k"
    and ih5: "seg ?us (uj + 1) i - uint qhat * seg vs (vo + 1) i - uint ?t = seg us' (uj + 1) i - uint t' * 65536 ^ i"
    using Suc.IH [OF us vs t len run] by simp_all
  have last: "us' ! (uj + Suc i) = lhalf ?w" using ih4 Suc.prems(4) by simp
  have seg: "seg ?us (uj + 1) i = seg us (uj + 1) i" by (rule seg_cong) simp
  have "digits_ok us' (uj + 1) (Suc i)" using ih3 last lhalf_less by (auto simp: digits_ok_def less_Suc_eq)
  moreover have "\<forall>k. k \<le> uj \<or> uj + Suc i < k \<longrightarrow> us' ! k = us ! k" using ih4 by auto
  moreover have "seg us (uj + 1) (Suc i) - uint qhat * seg vs (vo + 1) (Suc i) - uint t
      = seg us' (uj + 1) (Suc i) - uint t' * 65536 ^ Suc i"
  proof -
    define A where "A = seg us (uj + 1) i" define C where "C = uint qhat * seg vs (vo + 1) i"
    define A' where "A' = seg us' (uj + 1) i" define P where "P = uint t' * 65536 ^ i"
    have e: "A - C + x div 65536 = A' - P" using ih5 unfolding seg bd(2) A_def C_def A'_def P_def by simp
    have "seg us (uj + 1) (Suc i) - uint qhat * seg vs (vo + 1) (Suc i) - uint t = (A - C) * 65536 + x"
      by (simp add: A_def C_def x_def algebra_simps)
    also have "\<dots> = (A - C + x div 65536) * 65536 + x mod 65536" by (simp add: distrib_right)
    also have "\<dots> = (A' - P) * 65536 + x mod 65536" unfolding e ..
    also have "\<dots> = seg us' (uj + 1) (Suc i) - uint t' * 65536 ^ Suc i"
      using last bd(1) by (simp add: A'_def P_def algebra_simps)
    finally show ?thesis .
  qed
  ultimately show ?case using ih1 ih2 by blast
qed

lemma add_back_run:
  "digits_ok us (uj + 1) i \<Longrightarrow> digits_ok vs (vo + 1) i \<Longrightarrow> uint t \<le> 1 \<Longrightarrow> uj + i < length us \<Longrightarrow>
    add_back vo vs uj i t us = (t', us') \<Longrightarrow>
    uint t' \<le> 1 \<and> length us' = length us \<and> digits_ok us' (uj + 1) i \<and>
    (\<forall>k. k \<le> uj \<or> uj + i < k \<longrightarrow> us' ! k = us ! k) \<and>
    seg us (uj + 1) i + seg vs (vo + 1) i + uint t = seg us' (uj + 1) i + uint t' * 65536 ^ i"
proof (induction i arbitrary: t us)
  case 0
  then show ?case by (simp add: digits_ok_def)
next
  case (Suc i)
  let ?u = "us ! (uj + Suc i)" and ?v = "vs ! (vo + Suc i)"
  let ?w = "t + (?u + ?v)"
  let ?us = "us[uj + Suc i := lhalf ?w]"
  have d: "uint ?u < 65536" "uint ?v < 65536" using Suc.prems(1,2) by (auto simp: digits_ok_def)
  have "uint (?u + ?v) = uint ?u + uint ?v" using d by (intro uint_add_small) simp
  then have w: "uint ?w = uint t + uint ?u + uint ?v" using d Suc.prems(3) uint_add_small [of t "?u + ?v"] by simp
  have t: "uint (hhalf ?w) \<le> 1" using w d Suc.prems(3) by (simp add: hhalf_uint)
  have us: "digits_ok ?us (uj + 1) i" and vs: "digits_ok vs (vo + 1) i" using Suc.prems(1,2) by (auto simp: digits_ok_def)
  have run: "add_back vo vs uj i (hhalf ?w) ?us = (t', us')" using Suc.prems(5) by (simp add: Let_def)
  have len: "uj + i < length ?us" using Suc.prems(4) by simp
  have ih1: "uint t' \<le> 1" and ih2: "length us' = length us" and ih3: "digits_ok us' (uj + 1) i"
    and ih4: "\<forall>k. k \<le> uj \<or> uj + i < k \<longrightarrow> us' ! k = ?us ! k"
    and ih5: "seg ?us (uj + 1) i + seg vs (vo + 1) i + uint (hhalf ?w) = seg us' (uj + 1) i + uint t' * 65536 ^ i"
    using Suc.IH [OF us vs t len run] by simp_all
  have last: "us' ! (uj + Suc i) = lhalf ?w" using ih4 Suc.prems(4) by simp
  have seg: "seg ?us (uj + 1) i = seg us (uj + 1) i" by (rule seg_cong) simp
  have "digits_ok us' (uj + 1) (Suc i)" using ih3 last lhalf_less by (auto simp: digits_ok_def less_Suc_eq)
  moreover have "\<forall>k. k \<le> uj \<or> uj + Suc i < k \<longrightarrow> us' ! k = us ! k" using ih4 by auto
  moreover have "seg us (uj + 1) (Suc i) + seg vs (vo + 1) (Suc i) + uint t
      = seg us' (uj + 1) (Suc i) + uint t' * 65536 ^ Suc i"
  proof -
    define A where "A = seg us (uj + 1) i" define C where "C = seg vs (vo + 1) i"
    define A' where "A' = seg us' (uj + 1) i" define P where "P = uint t' * 65536 ^ i"
    have e: "A + C + uint ?w div 65536 = A' + P" using ih5 unfolding seg hhalf_uint A_def C_def A'_def P_def .
    have "seg us (uj + 1) (Suc i) + seg vs (vo + 1) (Suc i) + uint t = (A + C) * 65536 + uint ?w"
      unfolding w by (simp add: A_def C_def algebra_simps)
    also have "\<dots> = (A + C + uint ?w div 65536) * 65536 + uint ?w mod 65536" by (simp add: distrib_right)
    also have "\<dots> = (A' + P) * 65536 + uint ?w mod 65536" unfolding e ..
    also have "\<dots> = seg us' (uj + 1) (Suc i) + uint t' * 65536 ^ Suc i"
      using last by (simp add: A'_def P_def lhalf_uint algebra_simps)
    finally show ?thesis .
  qed
  ultimately show ?case using ih1 ih2 by blast
qed

section \<open>One digit of the quotient\<close>

lemma seg_window:
  assumes "digits_ok us (a + m) k"
  shows "seg us a m * 65536 ^ k \<le> seg us a (m + k)" "seg us a (m + k) < (seg us a m + 1) * 65536 ^ k"
  using seg_bounds [OF assms] unfolding seg_add distrib_right by linarith+

lemma digits_ok_mono: "digits_ok us a n \<Longrightarrow> b + m \<le> n \<Longrightarrow> digits_ok us (a + b) m"
  by (auto simp: digits_ok_def add.assoc)

lemma mod_from_digit:
  assumes "0 < (V :: int)" "W div V \<le> q" "q \<le> W div V + 1"
  shows "q = W div V \<and> 0 \<le> W - q * V \<and> W - q * V = W mod V \<or> q = W div V + 1 \<and> W - q * V < 0 \<and> W - q * V + V = W mod V"
proof (cases "q = W div V")
  case True
  then show ?thesis using pos_mod_sign [OF assms(1), of W] by (simp add: minus_div_mult_eq_mod)
next
  case False
  then have q: "q = W div V + 1" using assms(2,3) by linarith
  then have "W - q * V = W mod V - V" by (simp add: minus_div_mult_eq_mod [symmetric] algebra_simps)
  then show ?thesis using q pos_mod_bound [OF assms(1), of W] by linarith
qed

lemma small_signed_word:
  assumes "uint a < 65536" "uint b < 65536"
  shows "hhalf (a - b) = 0 \<longleftrightarrow> uint b \<le> uint a"
    and "uint (lhalf (a - b)) = (uint a - uint b) mod 65536"
proof -
  have w: "uint (a - b) = (uint a - uint b) mod 4294967296" by (simp add: uint_word_ariths)
  show "uint (lhalf (a - b)) = (uint a - uint b) mod 65536" by (simp add: lhalf_uint w mod_mod_cancel)
  show "hhalf (a - b) = 0 \<longleftrightarrow> uint b \<le> uint a"
  proof (cases "uint b \<le> uint a")
    case True
    then have "uint (a - b) = uint a - uint b" using w assms uint_pos [of a] uint_pos [of b] by (simp add: mod_pos_pos_trivial)
    then have "uint (hhalf (a - b)) = 0" using True assms(1) uint_pos [of b] by (simp only: hhalf_uint)
    then show ?thesis using True by (simp add: uint_0_iff)
  next
    case False
    then have "(uint a - uint b) mod 4294967296 = uint a - uint b + 4294967296"
      using assms uint_pos [of a] by (subst mod_add_self2 [symmetric], intro mod_pos_pos_trivial) linarith+
    then have "65535 \<le> uint (hhalf (a - b))" using w assms uint_pos [of a] by (simp only: hhalf_uint)
    then show ?thesis using False by auto
  qed
qed

text \<open>
  One iteration: the window of \<open>n + 1\<close> digits with the value \<open>W\<close> gives the digit \<open>W div V\<close> and leaves \<open>W mod V\<close> in its last \<open>n\<close>.
\<close>

lemma div_step_run:
  assumes n: "n = Suc (Suc k)" and us: "digits_ok us uj (n + 1)" and vs: "digits_ok vs (vo + 1) n"
    and v1: "32768 \<le> uint (vs ! (vo + 1))" and W: "seg us uj (n + 1) < seg vs (vo + 1) n * 65536" and len: "uj + n < length us"
  defines "W \<equiv> seg us uj (n + 1)" and "V \<equiv> seg vs (vo + 1) n"
  shows "\<exists>q us'. div_step vo vs n uj us = Some (q, us') \<and> uint q = W div V \<and> length us' = length us \<and>
    digits_ok us' uj (n + 1) \<and> us' ! uj = 0 \<and> seg us' (uj + 1) n = W mod V \<and> (\<forall>i. i < uj \<or> uj + n < i \<longrightarrow> us' ! i = us ! i)"
proof -
  have d: "uint (us ! uj) < 65536" "uint (us ! (uj + 1)) < 65536" "uint (us ! (uj + 2)) < 65536"
    "uint (vs ! (vo + 1)) < 65536" "uint (vs ! (vo + 2)) < 65536"
    using us vs unfolding n digits_ok_def by (force dest: spec [of _ 0] spec [of _ 1] spec [of _ 2])+
  have Vw: "(uint (vs ! (vo + 1)) * 65536 + uint (vs ! (vo + 2))) * 65536 ^ k \<le> V"
      "V < (uint (vs ! (vo + 1)) * 65536 + uint (vs ! (vo + 2)) + 1) * 65536 ^ k"
    using seg_window [of vs "vo + 1" 2 k] digits_ok_mono [OF vs, of 2 k] by (simp_all add: n V_def numeral_2_eq_2)
  have Ww: "(uint (us ! uj) * 65536 * 65536 + uint (us ! (uj + 1)) * 65536 + uint (us ! (uj + 2))) * 65536 ^ k \<le> W"
      "W < (uint (us ! uj) * 65536 * 65536 + uint (us ! (uj + 1)) * 65536 + uint (us ! (uj + 2)) + 1) * 65536 ^ k"
    using seg_window [of us uj 3 k] digits_ok_mono [OF us, of 3 k]
    by (simp_all add: n W_def numeral_3_eq_3 numeral_2_eq_2 algebra_simps)
  have P: "(0 :: int) < 65536 ^ k" by simp
  have WV: "W < V * 65536" using W unfolding W_def V_def .
  from qhat_of_bounds [OF v1 d(4) d(5) d(1-3) Vw Ww P WV] obtain q where
    q: "qhat_of (vs ! (vo + 1)) (vs ! (vo + 2)) (us ! uj) (us ! (uj + 1)) (us ! (uj + 2)) = Some q" "uint q < 65536"
      "W div V \<le> uint q" "uint q \<le> W div V + 1" by blast
  have V0: "0 < V"
  proof -
    have "0 < (uint (vs ! (vo + 1)) * 65536 + uint (vs ! (vo + 2))) * (65536 :: int) ^ k"
      using v1 uint_pos [of "vs ! (vo + 2)"] by (intro mult_pos_pos P) linarith
    with Vw(1) show ?thesis by linarith
  qed
  have Vn: "V < 65536 ^ n" using seg_bounds [OF vs] by (simp add: V_def)
  note R = mod_from_digit [OF V0 q(3,4)]
  obtain t us1 where ms: "mul_sub vo vs uj q n 0 us = (t, us1)" by (cases "mul_sub vo vs uj q n 0 us")
  have us0: "digits_ok us (uj + 1) n" using digits_ok_mono [OF us, of 1 n] by simp
  have m1: "uint t < 65536" and m2: "length us1 = length us" and m3: "digits_ok us1 (uj + 1) n"
    and m4: "\<forall>k. k \<le> uj \<or> uj + n < k \<longrightarrow> us1 ! k = us ! k"
    and m5: "seg us (uj + 1) n - uint q * V = seg us1 (uj + 1) n - uint t * 65536 ^ n"
    using mul_sub_run [OF q(2) us0 vs _ len ms] by (simp_all add: V_def)
  let ?w = "us1 ! uj - t"
  let ?us = "us1[uj := lhalf ?w]"
  have u: "us1 ! uj = us ! uj" using m4 by simp
  have W': "W - uint q * V = (uint (us ! uj) - uint t) * 65536 ^ n + seg us1 (uj + 1) n"
    using m5 seg_head [of us uj n] by (simp add: W_def algebra_simps)
  have b: "0 \<le> seg us1 (uj + 1) n" "seg us1 (uj + 1) n < 65536 ^ n" using seg_bounds [OF m3] by simp_all
  have Pn: "(0 :: int) < 65536 ^ n" by simp
  note sw = small_signed_word [OF d(1) m1]
  have seg1: "seg ?us (uj + 1) n = seg us1 (uj + 1) n" by (rule seg_cong) simp
  have ok1: "digits_ok ?us (uj + 1) n" using m3 by (simp add: digits_ok_def)
  show ?thesis
  proof (cases "uint t \<le> uint (us ! uj)")
    case True
    then have nn: "0 \<le> (uint (us ! uj) - uint t) * 65536 ^ n" by simp
    have q': "uint q = W div V" "W - uint q * V = W mod V" using R W' nn b(1) by linarith+
    have "(uint (us ! uj) - uint t) * 65536 ^ n < 1 * 65536 ^ n"
      using q'(2) W' b(1) Vn pos_mod_bound [OF V0, of W] by linarith
    then have "uint (us ! uj) - uint t < 1" using Pn by (simp only: mult_less_cancel_right)
    with True have e: "uint (us ! uj) = uint t" by linarith
    then have l: "lhalf ?w = 0" using sw(2) by (simp add: u uint_0_iff [symmetric])
    have "div_step vo vs n uj us = Some (q, ?us)" using q(1) ms sw(1) True by (simp add: div_step_def Let_def u)
    moreover have "digits_ok ?us uj (n + 1)" using ok1 l m2 len by (auto simp: digits_ok_def less_Suc_eq_0_disj)
    moreover have "seg ?us (uj + 1) n = W mod V" using seg1 W' q'(2) e by simp
    moreover have "\<forall>i. i < uj \<or> uj + n < i \<longrightarrow> ?us ! i = us ! i" using m4 by auto
    ultimately show ?thesis using q'(1) l m2 len by (intro exI [of _ q] exI [of _ ?us] conjI) simp_all
  next
    case False
    then have "uint (us ! uj) - uint t \<le> - 1" by linarith
    then have "(uint (us ! uj) - uint t) * 65536 ^ n \<le> - 1 * 65536 ^ n" using Pn by (intro mult_right_mono) simp_all
    then have neg: "W - uint q * V < 0" using W' b(2) by linarith
    then have q': "uint q = W div V + 1" "W - uint q * V + V = W mod V" using R by linarith+
    obtain t2 us2 where ab: "add_back vo vs uj n 0 ?us = (t2, us2)" by (cases "add_back vo vs uj n 0 ?us")
    have len1: "uj + n < length ?us" using len m2 by simp
    have a1: "uint t2 \<le> 1" and a2: "length us2 = length us" and a3: "digits_ok us2 (uj + 1) n"
      and a4: "\<forall>k. k \<le> uj \<or> uj + n < k \<longrightarrow> us2 ! k = ?us ! k"
      and a5: "seg us1 (uj + 1) n + V = seg us2 (uj + 1) n + uint t2 * 65536 ^ n"
      using add_back_run [OF ok1 vs _ len1 ab] seg1 by (simp_all add: V_def m2)
    have b2: "0 \<le> seg us2 (uj + 1) n" "seg us2 (uj + 1) n < 65536 ^ n" using seg_bounds [OF a3] by simp_all
    define X where "X = uint (us ! uj) - uint t + uint t2"
    have X: "X * 65536 ^ n + seg us2 (uj + 1) n = W mod V" using W' a5 q'(2) by (simp add: X_def algebra_simps)
    have "X = 0"
    proof -
      have "X * 65536 ^ n < 1 * 65536 ^ n" "- 1 * 65536 ^ n < X * 65536 ^ n"
        using X b2 pos_mod_bound [OF V0, of W] pos_mod_sign [OF V0, of W] Vn by linarith+
      then have "X < 1" "- 1 < X" using Pn by (simp_all only: mult_less_cancel_right)
      then show ?thesis by linarith
    qed
    then have r: "seg us2 (uj + 1) n = W mod V" using X by simp
    let ?us2 = "us2[uj := lhalf (us2 ! uj + t2)]"
    have l: "lhalf (us2 ! uj + t2) = 0"
    proof -
      have "us2 ! uj = lhalf ?w" using a4 len m2 by simp
      then have "uint (us2 ! uj) = (uint (us ! uj) - uint t) mod 65536" using sw(2) u by simp
      then have "uint (us2 ! uj + t2) = (uint (us ! uj) - uint t) mod 65536 + uint t2"
        using a1 by (simp add: uint_add_small)
      then have "uint (lhalf (us2 ! uj + t2)) = X mod 65536" by (simp add: lhalf_uint X_def mod_add_left_eq)
      then show ?thesis using \<open>X = 0\<close> by (simp add: uint_0_iff)
    qed
    have "div_step vo vs n uj us = Some (q - 1, ?us2)" using q(1) ms sw(1) False ab by (simp add: div_step_def Let_def u)
    moreover have "uint (q - 1) = W div V"
    proof -
      have "0 \<le> W div V"
      proof (rule pos_imp_zdiv_nonneg_iff [OF V0, THEN iffD2])
        show "0 \<le> W" using seg_bounds [OF us] by (simp add: W_def)
      qed
      then show ?thesis using q'(1) uint_minus_1 [of q] by simp
    qed
    moreover have "digits_ok ?us2 uj (n + 1)" using a3 l a2 len by (auto simp: digits_ok_def less_Suc_eq_0_disj)
    moreover have "seg ?us2 (uj + 1) n = W mod V" unfolding r [symmetric] by (rule seg_cong) simp
    moreover have "\<forall>i. i < uj \<or> uj + n < i \<longrightarrow> ?us2 ! i = us ! i" using m4 a4 by auto
    ultimately show ?thesis using l a2 len m2 by (intro exI [of _ "q - 1"] exI [of _ ?us2] conjI) simp_all
  qed
qed

end
