(* ===== verification/Quad_Div_Correct.thy ===== *)
theory Quad_Div_Correct
  imports Quad_Div_Props
begin

text \<open>
  The rest of \<open>__qdivrem\<close>: the main loop, the shifts before and after it, the divisor of one digit, and the theorem that
  the routine returns quotient and remainder.
\<close>

section \<open>The main loop\<close>

lemma seg_Suc_less: "digits_ok us a (n + 1) \<Longrightarrow> seg us a n < V \<Longrightarrow> seg us a (n + 1) < V * 65536"
proof -
  assume "digits_ok us a (n + 1)" "seg us a n < V"
  then have "uint (us ! (a + n)) < 65536" "(seg us a n + 1) * 65536 \<le> V * 65536" by (auto simp: digits_ok_def)
  then show ?thesis by simp
qed

lemma digits_ok_Suc: "digits_ok us a (Suc n) \<longleftrightarrow> uint (us ! a) < 65536 \<and> digits_ok us (a + 1) n"
  by (auto simp: digits_ok_def All_less_Suc2)

lemma digits_ok_cong: "(\<And>i. i < n \<Longrightarrow> us' ! (a + i) = us ! (a + i)) \<Longrightarrow> digits_ok us' a n = digits_ok us a n"
  by (simp add: digits_ok_def)

lemma digits_okD: "digits_ok us a n \<Longrightarrow> i < n \<Longrightarrow> uint (us ! (a + i)) < 65536"
  by (simp add: digits_ok_def)

lemma digits_ok_add: "digits_ok us a (k + l) \<longleftrightarrow> digits_ok us a k \<and> digits_ok us (a + k) l"
  by (induction k arbitrary: a) (auto simp: digits_ok_Suc, simp_all add: digits_ok_def)

lemma div_loop_run:
  assumes n: "n = Suc (Suc l)" and vs: "digits_ok vs (vo + 1) n" and v1: "32768 \<le> uint (vs ! (vo + 1))"
    and V: "V = seg vs (vo + 1) n"
  shows "digits_ok us uj (n + k) \<Longrightarrow> seg us uj n < V \<Longrightarrow> uj + n + k \<le> length us \<Longrightarrow> qj + k \<le> length qs \<Longrightarrow>
    \<exists>us' qs'. div_loop vo vs n uj qj k us qs = Some (us', qs') \<and> length us' = length us \<and> length qs' = length qs \<and>
      digits_ok us' uj (n + k) \<and> digits_ok qs' qj k \<and>
      seg us uj (n + k) = seg qs' qj k * V + seg us' (uj + k) n \<and> seg us' (uj + k) n < V \<and>
      (\<forall>i < k. us' ! (uj + i) = 0) \<and> (\<forall>i. i < uj \<longrightarrow> us' ! i = us ! i) \<and> (\<forall>i. i < qj \<longrightarrow> qs' ! i = qs ! i)"
proof (induction k arbitrary: uj qj us qs)
  case 0
  then show ?case by (simp add: digits_ok_def)
next
  case (Suc k)
  have ok: "digits_ok us uj (n + 1)" "digits_ok us (uj + (n + 1)) k"
    using Suc.prems(1) digits_ok_add [of us uj "n + 1" k] by simp_all
  let ?W = "seg us uj (n + 1)"
  have W: "?W < seg vs (vo + 1) n * 65536" using seg_Suc_less [OF ok(1) Suc.prems(2)] unfolding V .
  have len: "uj + n < length us" using Suc.prems(3) by simp
  from div_step_run [OF n ok(1) vs v1 W len] obtain q us1 where
    st: "div_step vo vs n uj us = Some (q, us1)" "uint q = ?W div V" "length us1 = length us" "digits_ok us1 uj (n + 1)"
      "us1 ! uj = 0" "seg us1 (uj + 1) n = ?W mod V" "\<forall>i. i < uj \<or> uj + n < i \<longrightarrow> us1 ! i = us ! i"
    unfolding V [symmetric] by blast
  have V0: "0 < V" using Suc.prems(2) seg_bounds [OF digits_ok_mono [OF ok(1), of 0 n]] by simp
  have WB: "?W div V < 65536" using W unfolding V [symmetric] by (intro div_less_mult V0)
  have rest: "\<And>i. i < k \<Longrightarrow> us1 ! (uj + (n + 1) + i) = us ! (uj + (n + 1) + i)" using st(7) by simp
  have "digits_ok us1 (uj + (n + 1)) k" using ok(2) digits_ok_cong [of k us1 "uj + (n + 1)" us, OF rest] by simp
  with st(4) have all: "digits_ok us1 uj (n + 1 + k)" by (simp only: digits_ok_add)
  then have ok1: "digits_ok us1 (uj + 1) (n + k)" using digits_ok_Suc [of us1 uj "n + k"] by simp
  have less: "seg us1 (uj + 1) n < V" using st(6) V0 by simp
  from Suc.IH [OF ok1 less, of "qj + 1" "qs[qj := q]"] Suc.prems(3,4) st(3) obtain us' qs' where
    ih: "div_loop vo vs n (uj + 1) (qj + 1) k us1 (qs[qj := q]) = Some (us', qs')" "length us' = length us" "length qs' = length qs"
      "digits_ok us' (uj + 1) (n + k)" "digits_ok qs' (qj + 1) k"
      "seg us1 (uj + 1) (n + k) = seg qs' (qj + 1) k * V + seg us' (uj + 1 + k) n" "seg us' (uj + 1 + k) n < V"
      "\<forall>i < k. us' ! (uj + 1 + i) = 0" "\<forall>i. i < uj + 1 \<longrightarrow> us' ! i = us1 ! i" "\<forall>i. i < qj + 1 \<longrightarrow> qs' ! i = qs[qj := q] ! i"
    by auto
  have qj: "qs' ! qj = q" using ih(10) Suc.prems(4) by simp
  have uj0: "us' ! uj = 0" using ih(9) st(5) by simp
  have "div_loop vo vs n uj qj (Suc k) us qs = Some (us', qs')" using st(1) ih(1) by simp
  moreover have "digits_ok us' uj (n + Suc k)" using ih(4) uj0 by (simp add: digits_ok_Suc)
  moreover have "digits_ok qs' qj (Suc k)" using ih(5) qj st(2) WB by (simp add: digits_ok_Suc)
  moreover have "seg us uj (n + Suc k) = seg qs' qj (Suc k) * V + seg us' (uj + Suc k) n"
  proof -
    have "seg us uj (n + Suc k) = ?W * 65536 ^ k + seg us (uj + (n + 1)) k" using seg_add [of us uj "n + 1" k] by simp
    also have "\<dots> = (?W div V) * 65536 ^ k * V + (?W mod V * 65536 ^ k + seg us (uj + (n + 1)) k)"
      by (subst div_mult_mod_eq [of ?W V, symmetric]) (simp only: distrib_right mult.assoc mult.commute [of V] add.assoc)
    also have "?W mod V * 65536 ^ k + seg us (uj + (n + 1)) k = seg us1 (uj + 1) (n + k)"
      using seg_cong [of k us1 "uj + (n + 1)" us, OF rest] unfolding seg_add st(6) by simp
    also have "(?W div V) * 65536 ^ k * V + seg us1 (uj + 1) (n + k) = seg qs' qj (Suc k) * V + seg us' (uj + Suc k) n"
      unfolding ih(6) seg_head qj st(2) by (simp add: distrib_right)
    finally show ?thesis .
  qed
  moreover have "\<forall>i < Suc k. us' ! (uj + i) = 0" using ih(8) uj0 by (simp add: All_less_Suc2)
  moreover have "\<forall>i. i < uj \<longrightarrow> us' ! i = us ! i" "\<forall>i. i < qj \<longrightarrow> qs' ! i = qs ! i" using ih(9,10) st(7) by simp_all
  ultimately show ?case using ih(2,3,7) by (intro exI [of _ us'] exI [of _ qs'] conjI) simp_all
qed

section \<open>The shift before the loop\<close>

lemma uint_push_small: "uint x * 2 ^ s < 2 ^ 32 \<Longrightarrow> uint (push_bit s x :: u32) = uint x * 2 ^ s"
proof -
  assume a: "uint x * 2 ^ s < 2 ^ 32"
  have "uint (push_bit s x) = take_bit 32 (push_bit s (uint x))" by (rule unsigned_push_bit_eq [where 'b = 32, simplified])
  also have "push_bit s (uint x) = uint x * 2 ^ s" by (simp add: push_bit_eq_mult)
  also have "take_bit 32 (uint x * 2 ^ s) = uint x * 2 ^ s" using a by (intro take_bit_int_eq_self) simp_all
  finally show ?thesis .
qed

lemma uint_drop: "uint (drop_bit s x :: u32) = uint x div 2 ^ s"
proof -
  have "take_bit 32 (uint x) = uint x" using uint_less32 [of x] by (intro take_bit_int_eq_self) simp_all
  then show ?thesis unfolding unsigned_drop_bit_eq by (simp add: drop_bit_eq_div)
qed

lemma lhalf_push: "uint x < 65536 \<Longrightarrow> s \<le> 16 \<Longrightarrow> uint (lhalf (push_bit s x)) = uint x * 2 ^ s mod 65536"
proof -
  assume x: "uint x < 65536" and s: "s \<le> 16"
  have "(2 :: int) ^ s \<le> 2 ^ 16" using s by (intro power_increasing) simp_all
  then have "uint x * 2 ^ s \<le> 65535 * 2 ^ 16" using x by (intro mult_mono) simp_all
  then show ?thesis by (simp add: lhalf_uint uint_push_small)
qed

lemma pow_split: "s \<le> 16 \<Longrightarrow> (65536 :: int) = 2 ^ s * 2 ^ (16 - s)"
  by (simp add: power_add [symmetric])

lemma div_shift:
  assumes "s \<le> 16"
  shows "a div 2 ^ (16 - s) = a * 2 ^ s div (65536 :: int)"
  using div_mult_mult1 [of "2 ^ s" a "2 ^ (16 - s)"] unfolding pow_split [OF assms, symmetric] mult.commute [of "2 ^ s" a] by simp

lemma mod_shift:
  assumes "s \<le> 16"
  shows "a * 2 ^ s mod (65536 :: int) = 2 ^ s * (a mod 2 ^ (16 - s))"
  using mult_mod_right [of "2 ^ s" a "2 ^ (16 - s)"] unfolding pow_split [OF assms, symmetric] mult.commute [of "2 ^ s" a] by simp

lemma shl_digit:
  assumes "uint x < 65536" "uint y < 65536" "s \<le> 16"
  shows "uint (lhalf (push_bit s x) OR drop_bit (16 - s) y) = uint x * 2 ^ s mod 65536 + uint y * 2 ^ s div 65536"
proof -
  have a: "uint x * 2 ^ s mod 65536 mod 2 ^ s = 0" unfolding mod_shift [OF assms(3)] by simp
  have d: "uint (drop_bit (16 - s) y) = uint y * 2 ^ s div 65536" unfolding uint_drop by (rule div_shift [OF assms(3)])
  have b: "uint y * 2 ^ s div 65536 < 2 ^ s" using assms(2) by (intro div_less_mult) simp_all
  have c: "0 \<le> uint y * 2 ^ s div 65536" by (simp add: pos_imp_zdiv_nonneg_iff)
  show ?thesis unfolding unsigned_or_eq lhalf_push [OF assms(1,3)] d by (rule or_disjoint_uint [OF a c b])
qed

lemma shl_digit_less:
  assumes "uint y < 65536" "s \<le> 16"
  shows "a * 2 ^ s mod 65536 + uint y * 2 ^ s div 65536 < (65536 :: int)"
proof -
  have "2 ^ s * (a mod 2 ^ (16 - s)) \<le> 2 ^ s * (2 ^ (16 - s) - 1)" by (intro mult_left_mono) simp_all
  moreover have "(2 :: int) ^ s * (2 ^ (16 - s) - 1) = 65536 - 2 ^ s" using pow_split [OF assms(2)] by (simp add: right_diff_distrib)
  moreover have "uint y * 2 ^ s div 65536 < 2 ^ s" using assms(1) by (intro div_less_mult) simp_all
  ultimately show ?thesis unfolding mod_shift [OF assms(2)] by linarith
qed

lemma fold_shl_step:
  "p + k \<le> length us \<Longrightarrow> length (fold (shl_step p s) [0..<k] us) = length us \<and>
    (\<forall>i. fold (shl_step p s) [0..<k] us ! i =
      (if p \<le> i \<and> i < p + k then lhalf (push_bit s (us ! i)) OR drop_bit (16 - s) (us ! (i + 1)) else us ! i))"
  by (induction k) (auto simp: shl_step_def nth_list_update less_Suc_eq)

lemma shl_nth:
  assumes "p + len < length us"
  shows "length (shl p len s us) = length us"
    and "shl p len s us ! i = (if p \<le> i \<and> i < p + len then lhalf (push_bit s (us ! i)) OR drop_bit (16 - s) (us ! (i + 1))
      else if i = p + len then lhalf (push_bit s (us ! i)) else us ! i)"
  using fold_shl_step [of p len us s] assms by (simp_all add: shl_def Let_def)

lemma shl_run:
  assumes len: "p + n < length us" and ok: "digits_ok us p (n + 1)" and s: "s \<le> 16" and top: "uint (us ! p) * 2 ^ s < 65536"
  shows "digits_ok (shl p n s us) p (n + 1)" "seg (shl p n s us) p (n + 1) = seg us p (n + 1) * 2 ^ s"
proof -
  let ?us = "shl p n s us"
  have d: "i \<le> n \<Longrightarrow> uint (us ! (p + i)) < 65536" for i using ok by (simp add: digits_ok_def)
  have inner: "uint (?us ! (p + i)) = uint (us ! (p + i)) * 2 ^ s mod 65536 + uint (us ! (p + i + 1)) * 2 ^ s div 65536" if "i < n" for i
    using shl_digit [OF d [of i] d [of "i + 1"] s] that by (simp add: shl_nth(2) [OF len])
  have last: "uint (?us ! (p + n)) = uint (us ! (p + n)) * 2 ^ s mod 65536"
    using lhalf_push [OF d [of n] s] by (simp add: shl_nth(2) [OF len])
  have part: "k \<le> n \<Longrightarrow> seg ?us p k = seg us p k * 2 ^ s + uint (us ! (p + k)) * 2 ^ s div 65536" for k
  proof (induction k)
    case 0
    then show ?case using top by (simp add: div_pos_pos_trivial)
  next
    case (Suc k)
    then have "seg ?us p (Suc k) = (seg us p k * 2 ^ s + uint (us ! (p + k)) * 2 ^ s div 65536) * 65536 +
        (uint (us ! (p + k)) * 2 ^ s mod 65536 + uint (us ! (p + k + 1)) * 2 ^ s div 65536)"
      using inner [of k] by simp
    also have "\<dots> = seg us p k * 2 ^ s * 65536 + uint (us ! (p + k)) * 2 ^ s + uint (us ! (p + k + 1)) * 2 ^ s div 65536"
      by (simp add: distrib_right)
    finally show ?case by (simp add: algebra_simps)
  qed
  have "seg ?us p (n + 1) = (seg us p n * 2 ^ s + uint (us ! (p + n)) * 2 ^ s div 65536) * 65536 + uint (us ! (p + n)) * 2 ^ s mod 65536"
    using part [of n] last by simp
  also have "\<dots> = seg us p n * 2 ^ s * 65536 + uint (us ! (p + n)) * 2 ^ s" by (simp add: distrib_right)
  finally show "seg ?us p (n + 1) = seg us p (n + 1) * 2 ^ s" by (simp add: algebra_simps)
  show "digits_ok ?us p (n + 1)"
  proof -
    have "uint (?us ! (p + i)) < 65536" if "i < n + 1" for i
    proof (cases "i = n")
      case True
      then show ?thesis using last by simp
    next
      case False
      then have i: "i < n" using that by simp
      show ?thesis using inner [OF i] shl_digit_less [OF d [of "i + 1"] s] i by (simp add: add.assoc)
    qed
    then show ?thesis by (simp add: digits_ok_def)
  qed
qed

lemma shift_count_run:
  "0 < uint t \<Longrightarrow> uint t < 65536 \<Longrightarrow>
    \<exists>k. shift_count t d = Some (d + k) \<and> 32768 \<le> uint t * 2 ^ k \<and> uint t * 2 ^ k < 65536 \<and> (k = 0 \<longrightarrow> 32768 \<le> uint t)"
proof (induction "nat (65536 - uint t)" arbitrary: t d rule: less_induct)
  case less
  show ?case
  proof (cases "t < 0x8000")
    case True
    then have small: "uint t < 32768" by (simp add: word_less_def)
    then have p: "uint (push_bit 1 t) = uint t * 2" using uint_push_small [of t 1] by simp
    have "nat (65536 - uint (push_bit 1 t)) < nat (65536 - uint t)" using p small less.prems(1) by simp
    from less.hyps [OF this, of "d + 1"] p small less.prems(1) obtain k where
      k: "shift_count (push_bit 1 t) (d + 1) = Some (d + 1 + k)" "32768 \<le> uint t * 2 ^ Suc k" "uint t * 2 ^ Suc k < 65536"
      by (auto simp: mult.assoc)
    have "shift_count t d = Some (d + Suc k)" using True k(1) by (subst shift_count.simps) simp
    with k(2,3) show ?thesis by blast
  next
    case False
    then have "shift_count t d = Some (d + 0)" by (subst shift_count.simps) simp
    moreover have "32768 \<le> uint t" using False by (simp add: word_less_def)
    ultimately show ?thesis using less.prems(2) by (intro exI [of _ 0]) simp
  qed
qed

section \<open>The shift back of the remainder\<close>

lemma unshift_nth:
  "p + n < length us \<Longrightarrow> length (unshift p d n us) = length us \<and>
    (\<forall>i. unshift p d n us ! i =
      (if i = p then 0
       else if p < i \<and> i \<le> p + n then drop_bit d (us ! i) OR lhalf (push_bit (16 - d) (us ! (i - 1))) else us ! i))"
proof (induction n arbitrary: us)
  case (Suc n)
  let ?us = "us[p + Suc n := drop_bit d (us ! (p + Suc n)) OR lhalf (push_bit (16 - d) (us ! (p + n)))]"
  have "p + n < length ?us" using Suc.prems by simp
  from Suc.IH [OF this] Suc.prems show ?case by (auto simp: nth_list_update le_Suc_eq)
qed auto

lemma or_commute_u32: "(a :: u32) OR b = b OR a"
  by (rule or.commute)

lemma unshift_digit:
  assumes "p + n < length us" "digits_ok us p (n + 1)" "d \<le> 16" "i < n"
  shows "uint (unshift p d n us ! (p + Suc i)) =
    uint (us ! (p + i)) * 2 ^ (16 - d) mod 65536 + uint (us ! (p + Suc i)) * 2 ^ (16 - d) div 65536"
proof -
  have "unshift p d n us ! (p + Suc i) = lhalf (push_bit (16 - d) (us ! (p + i))) OR drop_bit (16 - (16 - d)) (us ! (p + Suc i))"
    using unshift_nth [OF assms(1), of d] assms(3,4) by (simp add: or_commute_u32)
  then show ?thesis
    using shl_digit [OF digits_okD [OF assms(2), of i] digits_okD [OF assms(2), of "Suc i"], of "16 - d"] assms(4) by simp
qed

lemma unshift_ok:
  assumes "p + n < length us" "digits_ok us p (n + 1)" "d \<le> 16"
  shows "digits_ok (unshift p d n us) (p + 1) n"
  using unshift_digit [OF assms] shl_digit_less [OF digits_okD [OF assms(2)], of "Suc _" "16 - d"] by (simp add: digits_ok_def)

lemma unshift_run:
  assumes len: "p + n < length us" and ok: "digits_ok us p (n + 1)" and d: "d \<le> 16" and z: "us ! p = 0"
  shows "seg (unshift p d n us) (p + 1) n = seg us (p + 1) n div 2 ^ d"
proof -
  let ?us = "unshift p d n us"
  have u: "i \<le> n \<Longrightarrow> uint (us ! (p + i)) < 65536" for i using ok by (simp add: digits_ok_def)
  have e: "(65536 :: int) = 2 ^ (16 - d) * 2 ^ d" using pow_split [of "16 - d"] d by simp
  have "k \<le> n \<Longrightarrow> seg ?us (p + 1) k = seg us (p + 1) k div 2 ^ d" for k
  proof (induction k)
    case (Suc k)
    define X where "X = seg us (p + 1) k"
    define y where "y = uint (us ! (p + k))"
    define x where "x = uint (us ! (p + Suc k))"
    have dig: "uint (?us ! (p + Suc k)) = y * 2 ^ (16 - d) mod 65536 + x div 2 ^ d"
      using unshift_digit [OF len ok d, of k] Suc.prems d div_shift [of "16 - d" x] by (simp add: x_def y_def)
    have low: "X mod 2 ^ d = y mod 2 ^ d"
    proof (cases k)
      case 0
      then show ?thesis using z by (simp add: X_def y_def)
    next
      case (Suc k')
      then have "X = (seg us (p + 1) k' * 2 ^ (16 - d)) * 2 ^ d + y" using e by (simp add: X_def y_def)
      then show ?thesis by simp
    qed
    have "y * 2 ^ (16 - d) mod 65536 = X * 2 ^ (16 - d) mod 65536"
      using mod_shift [of "16 - d" y] mod_shift [of "16 - d" X] low d by simp
    then have "seg ?us (p + 1) (Suc k) = (X div 2 ^ d) * 65536 + X * 2 ^ (16 - d) mod 65536 + x div 2 ^ d"
      using Suc dig by (simp add: X_def)
    also have "(X div 2 ^ d) * 65536 = X * 2 ^ (16 - d) div 65536 * 65536" using div_shift [of "16 - d" X] d by simp
    also have "\<dots> + X * 2 ^ (16 - d) mod 65536 + x div 2 ^ d = X * 2 ^ (16 - d) + x div 2 ^ d" by simp
    also have "\<dots> = (X * 2 ^ (16 - d) * 2 ^ d + x) div 2 ^ d" by simp
    also have "X * 2 ^ (16 - d) * 2 ^ d + x = seg us (p + 1) (Suc k)" using e by (simp add: X_def x_def mult.assoc)
    finally show ?case .
  qed simp
  then show ?thesis by simp
qed

section \<open>Splitting and joining quads\<close>

lemma seg_zero: "(\<And>i. i < k \<Longrightarrow> us ! (a + i) = 0) \<Longrightarrow> seg us a k = 0"
  by (induction k) simp_all

lemma uint_ucast_64: "uint (ucast (x :: u32) :: u64) = uint x"
  by (simp add: unsigned_ucast_eq take_bit_int_eq_self uint_less32 less_trans [OF uint_less32])

lemma quad_uint: "uint (quad h l) = uint h * 4294967296 + uint l"
proof -
  have "uint (push_bit 32 (ucast h :: u64)) = uint h * 4294967296"
  proof -
    have "uint (push_bit 32 (ucast h :: u64)) = take_bit 64 (push_bit 32 (uint (ucast h :: u64)))" by (rule unsigned_push_bit_eq [where 'b = 64, simplified])
    also have "uint (ucast h :: u64) = uint h" by (rule uint_ucast_64)
    also have "push_bit 32 (uint h) = uint h * 4294967296" by (simp add: push_bit_eq_mult)
    also have "take_bit 64 (uint h * 4294967296) = uint h * 4294967296" using uint_less32 [of h] by (intro take_bit_int_eq_self) simp_all
    finally show ?thesis .
  qed
  moreover have "uint (ucast l :: u64) = uint l" by (rule uint_ucast_64)
  moreover have "uint h * 4294967296 OR uint l = uint h * 4294967296 + uint l"
    using uint_less32 [of l] by (intro or_disjoint_uint [of _ 32]) simp_all
  ultimately show ?thesis by (simp add: quad_def unsigned_or_eq)
qed

lemma digits4: "digits_ok xs 1 4 \<Longrightarrow>
    uint (xs ! 1) < 65536 \<and> uint (xs ! 2) < 65536 \<and> uint (xs ! 3) < 65536 \<and> uint (xs ! 4) < 65536"
  using digits_okD [of xs 1 4 0] digits_okD [of xs 1 4 1] digits_okD [of xs 1 4 2] digits_okD [of xs 1 4 3]
  by (simp add: eval_nat_numeral)

lemma seg4: "seg xs 1 4 = uint (xs ! 1) * 281474976710656 + uint (xs ! 2) * 4294967296 + uint (xs ! 3) * 65536 + uint (xs ! 4)"
  by (simp add: eval_nat_numeral)

lemma quad_seg:
  assumes "digits_ok xs 1 4"
  shows "uint (quad (combine (xs ! 1) (xs ! 2)) (combine (xs ! 3) (xs ! 4))) = seg xs 1 4"
proof -
  have d: "uint (xs ! 1) < 65536" "uint (xs ! 2) < 65536" "uint (xs ! 3) < 65536" "uint (xs ! 4) < 65536"
    using digits4 [OF assms] by blast+
  have "seg xs 1 4 = uint (xs ! 1) * 281474976710656 + uint (xs ! 2) * 4294967296 + uint (xs ! 3) * 65536 + uint (xs ! 4)"
    by (rule seg4)
  then show ?thesis unfolding quad_uint combine_uint [OF d(1,2)] combine_uint [OF d(3,4)] by simp
qed

lemma split_digits_ok: "digits_ok (split_digits q) 0 5" "length (split_digits q) = 5"
  using uint_less32 [of "quad_h q"] uint_less32 [of "quad_l q"]
  by (auto simp: digits_ok_def split_digits_def lhalf_uint hhalf_uint All_less_Suc eval_nat_numeral)

lemma quad_split: "quad (quad_h q) (quad_l q) = q"
  unfolding quad_def quad_h_def quad_l_def
  by (rule bit_word_eqI) (auto simp: bit_or_iff bit_push_bit_iff bit_ucast_iff bit_drop_bit_eq)

lemma split_digits_seg: "seg (split_digits q) 1 4 = uint q"
proof -
  have w: "combine (hhalf x) (lhalf x) = x" for x
  proof -
    have "uint (hhalf x) < 65536" using uint_less32 [of x] by (simp add: hhalf_uint)
    then have "uint (combine (hhalf x) (lhalf x)) = uint x" by (simp add: combine_uint lhalf_less) (simp add: hhalf_uint lhalf_uint)
    then show ?thesis by (simp add: word_uint_eq_iff)
  qed
  have "uint (quad (combine (split_digits q ! 1) (split_digits q ! 2)) (combine (split_digits q ! 3) (split_digits q ! 4)))
      = seg (split_digits q) 1 4"
    using split_digits_ok(1) [of q] by (intro quad_seg) (auto simp: digits_ok_def)
  then show ?thesis by (simp add: split_digits_def w quad_split)
qed

section \<open>A divisor of one digit\<close>

lemma short_step:
  assumes "uint r < uint t" "uint t < 65536" "uint u < 65536"
  shows "uint (combine r u div t) < 65536" "uint (combine r u mod t) < uint t"
    and "uint (combine r u div t) * uint t + uint (combine r u mod t) = uint r * 65536 + uint u"
proof -
  have c: "uint (combine r u) = uint r * 65536 + uint u" using assms by (intro combine_uint) simp_all
  have t: "0 < uint t" using assms(1) uint_pos [of r] by linarith
  show "uint (combine r u mod t) < uint t" unfolding uint_mod using t by simp
  show "uint (combine r u div t) * uint t + uint (combine r u mod t) = uint r * 65536 + uint u" unfolding uint_mod uint_div c by simp
  have "uint r * 65536 + uint u < uint t * 65536" using assms(1,3) by linarith
  then show "uint (combine r u div t) < 65536" unfolding uint_div c by (rule div_less_mult [OF t])
qed

lemma short_div_run:
  assumes u: "digits_ok us 1 4" and t: "0 < uint t" "uint t < 65536"
  shows "short_div us t = (q, r) \<Longrightarrow> uint q = seg us 1 4 div uint t \<and> uint r = seg us 1 4 mod uint t"
proof -
  assume sd: "short_div us t = (q, r)"
  have d: "uint (us ! 1) < 65536" "uint (us ! 2) < 65536" "uint (us ! 3) < 65536" "uint (us ! 4) < 65536"
    using digits4 [OF u] by blast+
  define q1 where "q1 = us ! 1 div t"
  define r1 where "r1 = us ! 1 mod t"
  define q2 where "q2 = combine r1 (us ! 2) div t"
  define r2 where "r2 = combine r1 (us ! 2) mod t"
  define q3 where "q3 = combine r2 (us ! 3) div t"
  define r3 where "r3 = combine r2 (us ! 3) mod t"
  define q4 where "q4 = combine r3 (us ! 4) div t"
  define r4 where "r4 = combine r3 (us ! 4) mod t"
  have s1: "uint r1 < uint t" "uint q1 * uint t + uint r1 = uint (us ! 1)" using t by (simp_all add: r1_def q1_def uint_mod uint_div)
  have q1: "uint q1 < 65536" using d(1) t unfolding q1_def uint_div by (intro div_less_mult) (auto intro: less_le_trans)
  note s2 = short_step [OF s1(1) t(2) d(2), folded q2_def r2_def]
  note s3 = short_step [OF s2(2) t(2) d(3), folded q3_def r3_def]
  note s4 = short_step [OF s3(2) t(2) d(4), folded q4_def r4_def]
  have qr: "q = quad (combine q1 q2) (combine q3 q4)" "r = ucast r4"
    using sd unfolding short_div_def Let_def q1_def r1_def q2_def r2_def q3_def r3_def q4_def r4_def by simp_all
  have q: "uint q = uint q1 * 281474976710656 + uint q2 * 4294967296 + uint q3 * 65536 + uint q4"
    unfolding qr(1) quad_uint combine_uint [OF q1 s2(1)] combine_uint [OF s3(1) s4(1)] by simp
  have r: "uint r = uint r4" unfolding qr(2) by (rule uint_ucast_64)
  have u1: "uint (us ! 1) = uint q1 * uint t + uint r1"
    and u2: "uint (us ! 2) = uint q2 * uint t + uint r2 - uint r1 * 65536"
    and u3: "uint (us ! 3) = uint q3 * uint t + uint r3 - uint r2 * 65536"
    and u4: "uint (us ! 4) = uint q4 * uint t + uint r4 - uint r3 * 65536"
    using s1(2) s2(3) s3(3) s4(3) by simp_all
  have e: "seg us 1 4 = uint q * uint t + uint r"
    unfolding seg4 u1 u2 u3 u4 q r by (simp add: algebra_simps)
  have "0 \<le> uint r" "uint r < uint t" using s4(2) r by simp_all
  then show ?thesis using t(1) unfolding e by (metis add.commute div_mult_self3 div_pos_pos_trivial add_0_right less_irrefl mod_mult_self3 mod_pos_pos_trivial)
qed

section \<open>The long division\<close>

lemma skip_u_run:
  "(\<And>i. i < k \<Longrightarrow> us ! (uo + i + 1) = 0) \<Longrightarrow> us ! (uo + k + 1) \<noteq> 0 \<Longrightarrow> skip_u us uo m = Some (uo + k, m - int k)"
proof (induction k arbitrary: uo m)
  case 0
  then show ?case by (subst skip_u.simps) simp
next
  case (Suc k)
  have z: "us ! (uo + 1 + i + 1) = 0" if "i < k" for i using Suc.prems(1) [of "i + 1"] that by simp
  have "skip_u us (uo + 1) (m - 1) = Some (uo + Suc k, m - int (Suc k))"
    using Suc.IH [of "uo + 1" "m - 1"] z Suc.prems(2) by simp
  then show ?case using Suc.prems(1) [of 0] by (subst skip_u.simps) simp
qed

text \<open>The dividend is not below the divisor, so the leading zeros that are skipped leave at least \<open>n\<close> digits.\<close>

lemma skip_u_enough:
  assumes us: "digits_ok us 0 5" and n: "2 \<le> n" "n \<le> 4" and big: "65536 ^ (n - 1) \<le> seg us 1 4"
  shows "\<exists>uo. uo + n \<le> 4 \<and> skip_u us 0 (4 - int n) = Some (uo, 4 - int n - int uo) \<and> (\<forall>i < uo. us ! (i + 1) = 0) \<and> us ! (uo + 1) \<noteq> 0"
proof -
  have ex: "\<exists>i. i + n \<le> 4 \<and> us ! (i + 1) \<noteq> 0"
  proof (rule ccontr)
    assume "\<nexists>i. i + n \<le> 4 \<and> us ! (i + 1) \<noteq> 0"
    then have z: "\<And>i. i < 5 - n \<Longrightarrow> us ! (1 + i) = 0" using n by auto
    have "seg us 1 4 = seg us 1 ((5 - n) + (n - 1))" using n by simp
    also have "\<dots> = seg us (1 + (5 - n)) (n - 1)" using seg_zero [of "5 - n" us 1] z unfolding seg_add by simp
    also have "\<dots> < 65536 ^ (n - 1)"
    proof -
      have "digits_ok us (0 + (1 + (5 - n))) (n - 1)" using n by (intro digits_ok_mono [OF us]) simp
      then show ?thesis using seg_bounds by simp
    qed
    finally show False using big by simp
  qed
  define uo where "uo = (LEAST i. us ! (i + 1) \<noteq> 0)"
  obtain i where i: "i + n \<le> 4" "us ! (i + 1) \<noteq> 0" using ex by blast
  have "uo \<le> i" unfolding uo_def using i(2) by (rule Least_le)
  moreover have nz: "us ! (uo + 1) \<noteq> 0" unfolding uo_def using i(2) by (rule LeastI [of "\<lambda>i. us ! (i + 1) \<noteq> 0"])
  moreover have z: "\<And>j. j < uo \<Longrightarrow> us ! (j + 1) = 0" unfolding uo_def using not_less_Least by blast
  moreover have "skip_u us 0 (4 - int n) = Some (uo, 4 - int n - int uo)" using skip_u_run [of uo us 0 "4 - int n"] z nz by simp
  ultimately show ?thesis using i(1) by (intro exI [of _ uo]) simp
qed

lemma div_mod_scaled:
  assumes "U * c = Q * (V * c) + R'" "0 \<le> R'" "R' < V * c" "0 < (c :: int)"
  shows "Q = U div V" "R' div c = U mod V"
proof -
  have R: "R' = (U - Q * V) * c" using assms(1) by (simp add: algebra_simps)
  then have d: "R' div c = U - Q * V" using assms(4) by simp
  have "0 \<le> U - Q * V" "U - Q * V < V" using assms(2,3,4) unfolding R by (simp_all add: zero_le_mult_iff)
  then show "Q = U div V" "R' div c = U mod V"
    using div_mult_self3 [of V Q "U - Q * V"] mod_mult_self3 [of Q V "U - Q * V"] d by (simp_all add: div_pos_pos_trivial mod_pos_pos_trivial)
qed

lemma long_div_run:
  assumes us: "digits_ok us 0 5" "length us = 5" "us ! 0 = 0" and vs: "digits_ok vs (vo + 1) n" "length vs = 5"
    and n: "vo + n = 4" "2 \<le> n" and v1: "vs ! (vo + 1) \<noteq> 0"
    and UV: "seg vs (vo + 1) n \<le> seg us 1 4"
  shows "\<exists>q r. long_div us vs vo n = Some (q, r) \<and>
    uint q = seg us 1 4 div seg vs (vo + 1) n \<and> uint r = seg us 1 4 mod seg vs (vo + 1) n"
proof -
  let ?U = "seg us 1 4" and ?V = "seg vs (vo + 1) n"
  obtain l where l: "n = Suc (Suc l)" using n(2) by (metis Suc_le_D numeral_2_eq_2 Suc_le_mono)
  have "uint (vs ! (vo + 1)) \<noteq> 0" using v1 by (simp add: uint_0_iff)
  then have v1': "0 < uint (vs ! (vo + 1))" "uint (vs ! (vo + 1)) < 65536"
    using uint_pos [of "vs ! (vo + 1)"] digits_okD [OF vs(1), of 0] n(2) by (linarith, simp)
  have Vlow: "65536 ^ (n - 1) \<le> ?V"
  proof -
    have "1 * 65536 ^ (n - 1) \<le> uint (vs ! (vo + 1)) * 65536 ^ (n - 1)" using v1'(1) by (intro mult_right_mono) simp_all
    moreover have "0 \<le> seg vs (vo + 2) (n - 1)"
      using seg_bounds [OF digits_ok_mono [OF vs(1), of 1 "n - 1"]] n(2) by simp
    moreover have "?V = uint (vs ! (vo + 1)) * 65536 ^ (n - 1) + seg vs (vo + 2) (n - 1)"
      using seg_head [of vs "vo + 1" "n - 1"] n(2) by simp
    ultimately show ?thesis by linarith
  qed
  have n4: "n \<le> 4" using n by simp
  from skip_u_enough [OF us(1) n(2) n4 order_trans [OF Vlow UV]] obtain uo where
    uo: "uo + n \<le> 4" "skip_u us 0 (4 - int n) = Some (uo, 4 - int n - int uo)" "\<forall>i < uo. us ! (i + 1) = 0" by blast
  define m where "m = 4 - n - uo"
  have m: "uo + m + n = 4" "nat (4 - int n - int uo) = m" "m + n + 1 = n + (m + 1)" using uo(1) by (simp_all add: m_def)
  have uz: "us ! i = 0" if "i \<le> uo" for i using uo(3) us(3) that by (cases i) auto
  have okuo: "digits_ok us uo (m + n + 1)" using digits_ok_mono [OF us(1), of uo "m + n + 1"] m(1) by simp
  have U: "seg us uo (m + n + 1) = ?U"
  proof -
    have "uo + (m + n + 1) = 1 + 4" using m(1) by simp
    then have e: "seg us 0 (uo + (m + n + 1)) = seg us 0 (1 + 4)" by (rule arg_cong)
    have z: "seg us 0 uo = 0" "seg us 0 1 = 0" using uz us(3) by (auto intro!: seg_zero)
    from e show ?thesis unfolding seg_add [of us 0] z by simp
  qed
  from shift_count_run [OF v1', of 0] obtain d where
    d: "shift_count (vs ! (vo + 1)) 0 = Some d" "32768 \<le> uint (vs ! (vo + 1)) * 2 ^ d" "uint (vs ! (vo + 1)) * 2 ^ d < 65536"
    by auto
  have d16: "d \<le> 16"
  proof (rule ccontr)
    assume "\<not> d \<le> 16"
    then have "(2 :: int) ^ 16 \<le> 2 ^ d" by (intro power_increasing) simp_all
    then have "1 * 2 ^ 16 \<le> uint (vs ! (vo + 1)) * 2 ^ d" using v1'(1) by (intro mult_mono) simp_all
    with d(3) show False by simp
  qed
  define us1 where "us1 = (if 0 < d then shl uo (m + n) d us else us)"
  define vs1 where "vs1 = (if 0 < d then shl (vo + 1) (n - 1) d vs else vs)"
  have us1: "digits_ok us1 uo (m + n + 1)" "seg us1 uo (m + n + 1) = ?U * 2 ^ d" "length us1 = 5" "\<forall>i < uo. us1 ! i = 0"
  proof -
    have len: "uo + (m + n) < length us" using m(1) us(2) by simp
    have top: "uint (us ! uo) * 2 ^ d < 65536" using uz by simp
    from shl_run [OF len okuo d16 top] U okuo us(2) uz shl_nth [OF len, of d]
    show "digits_ok us1 uo (m + n + 1)" "seg us1 uo (m + n + 1) = ?U * 2 ^ d" "length us1 = 5" "\<forall>i < uo. us1 ! i = 0"
      unfolding us1_def by auto
  qed
  have vs1: "digits_ok vs1 (vo + 1) n" "seg vs1 (vo + 1) n = ?V * 2 ^ d" "32768 \<le> uint (vs1 ! (vo + 1))"
  proof -
    have len: "vo + 1 + (n - 1) < length vs" and n1: "n - 1 + 1 = n" using n vs(2) by simp_all
    have ok: "digits_ok vs (vo + 1) (n - 1 + 1)" using vs(1) n1 by simp
    note run = shl_run [OF len ok d16 d(3), unfolded n1]
    show ok1: "digits_ok vs1 (vo + 1) n" and sg1: "seg vs1 (vo + 1) n = ?V * 2 ^ d" using run vs(1) by (simp_all add: vs1_def)
    show "32768 \<le> uint (vs1 ! (vo + 1))"
    proof (rule ccontr)
      assume "\<not> 32768 \<le> uint (vs1 ! (vo + 1))"
      then have "uint (vs1 ! (vo + 1)) + 1 \<le> uint (vs ! (vo + 1)) * 2 ^ d" using d(2) by linarith
      then have "(uint (vs1 ! (vo + 1)) + 1) * 65536 ^ (n - 1) \<le> uint (vs ! (vo + 1)) * 2 ^ d * 65536 ^ (n - 1)"
        by (intro mult_right_mono) simp_all
      moreover have "uint (vs ! (vo + 1)) * 65536 ^ (n - 1) \<le> ?V"
        using seg_head [of vs "vo + 1" "n - 1"] seg_bounds [OF digits_ok_mono [OF vs(1), of 1 "n - 1"]] n(2) by simp
      then have "uint (vs ! (vo + 1)) * 65536 ^ (n - 1) * 2 ^ d \<le> ?V * 2 ^ d" by (intro mult_right_mono) simp_all
      moreover have "seg vs1 (vo + 1) n < (uint (vs1 ! (vo + 1)) + 1) * 65536 ^ (n - 1)"
        using seg_window(2) [of vs1 "vo + 1" 1 "n - 1"] digits_ok_mono [OF ok1, of 1 "n - 1"] n(2) by simp
      moreover have "uint (vs ! (vo + 1)) * 2 ^ d * 65536 ^ (n - 1) = uint (vs ! (vo + 1)) * 65536 ^ (n - 1) * 2 ^ d"
        by (simp only: mult_ac)
      ultimately show False using sg1 by linarith
    qed
  qed
  have P2: "(0 :: int) < 2 ^ d" by simp
  have fits: "seg us1 uo n < seg vs1 (vo + 1) n"
  proof -
    have "?U < 65536 ^ (m + n)"
      using seg_head [of us uo "m + n"] uz [of uo] U seg_bounds [OF digits_ok_mono [OF okuo, of 1 "m + n"]] by simp
    then have "seg us1 uo (m + n + 1) < 65536 ^ (m + n) * 2 ^ d" unfolding us1(2) using P2 by (intro mult_strict_right_mono)
    moreover have "seg us1 uo n * 65536 ^ (m + 1) \<le> seg us1 uo (m + n + 1)"
      unfolding m(3) by (rule seg_window(1)) (rule digits_ok_mono [OF us1(1)], simp)
    moreover have "(65536 :: int) ^ (m + n) * 2 ^ d = 65536 ^ (n - 1) * 2 ^ d * 65536 ^ (m + 1)"
    proof -
      have "m + n = (n - 1) + (m + 1)" using n(2) by simp
      then have "(65536 :: int) ^ (m + n) = 65536 ^ (n - 1) * 65536 ^ (m + 1)" by (simp only: power_add)
      then show ?thesis by (simp only: mult_ac)
    qed
    ultimately have "seg us1 uo n * 65536 ^ (m + 1) < 65536 ^ (n - 1) * 2 ^ d * 65536 ^ (m + 1)" by linarith
    then have "seg us1 uo n < 65536 ^ (n - 1) * 2 ^ d" by simp
    also have "\<dots> \<le> ?V * 2 ^ d" using Vlow by (intro mult_right_mono) simp_all
    finally show ?thesis unfolding vs1(2) .
  qed
  have lens: "uo + n + (m + 1) \<le> length us1" "4 - m + (m + 1) \<le> length (replicate 5 (0 :: u32))" using m(1) us1(3) by simp_all
  from div_loop_run [OF l vs1(1,3) refl us1(1) [unfolded m(3)] fits lens] obtain us2 qs where
    dl: "div_loop vo vs1 n uo (4 - m) (m + 1) us1 (replicate 5 0) = Some (us2, qs)" "length us2 = 5" "length qs = 5"
      "digits_ok us2 uo (n + (m + 1))" "digits_ok qs (4 - m) (m + 1)"
      "seg us1 uo (n + (m + 1)) = seg qs (4 - m) (m + 1) * seg vs1 (vo + 1) n + seg us2 (uo + (m + 1)) n"
      "seg us2 (uo + (m + 1)) n < seg vs1 (vo + 1) n" "\<forall>i < m + 1. us2 ! (uo + i) = 0" "\<forall>i < uo. us2 ! i = us1 ! i"
      "\<forall>i < 4 - m. qs ! i = 0"
    using us1(3) by auto
  define R' where "R' = seg us2 (uo + (m + 1)) n"
  have okR: "digits_ok us2 (uo + m) (n + 1)" using digits_ok_mono [OF dl(4), of m "n + 1"] by simp
  have R0: "0 \<le> R'" using seg_bounds [OF digits_ok_mono [OF okR, of 1 n]] by (simp add: R'_def)
  have eq: "?U * 2 ^ d = seg qs (4 - m) (m + 1) * (?V * 2 ^ d) + R'"
    using dl(6) us1(2) unfolding vs1(2) m(3) R'_def by simp
  have less: "R' < ?V * 2 ^ d" using dl(7) unfolding vs1(2) R'_def .
  note res = div_mod_scaled [OF eq R0 less P2]
  define us3 where "us3 = (if 0 < d then unshift (uo + m) d n us2 else us2)"
  have ld: "long_div us vs vo n = Some (quad (combine (qs ! 1) (qs ! 2)) (combine (qs ! 3) (qs ! 4)),
      quad (combine (us3 ! 1) (us3 ! 2)) (combine (us3 ! 3) (us3 ! 4)))"
    unfolding long_div_def uo(2) option.case prod.case Let_def unfolding m(2) d(1) option.case
    unfolding us1_def [symmetric] vs1_def [symmetric] unfolding dl(1) option.case prod.case unfolding us3_def [symmetric] ..
  have q: "digits_ok qs 1 4" "seg qs 1 4 = seg qs (4 - m) (m + 1)"
  proof -
    have e: "3 - m + (m + 1) = 4" "1 + (3 - m) = 4 - m" using m(1) n(2) by simp_all
    have z: "qs ! (1 + i) = 0" if "i < 3 - m" for i using dl(10) that by simp
    then have "digits_ok qs 1 (3 - m)" by (simp add: digits_ok_def)
    then show "digits_ok qs 1 4" using dl(5) digits_ok_add [of qs 1 "3 - m" "m + 1"] unfolding e by blast
    show "seg qs 1 4 = seg qs (4 - m) (m + 1)"
      using seg_add [of qs 1 "3 - m" "m + 1"] seg_zero [of "3 - m" qs 1] z unfolding e by simp
  qed
  have len2: "uo + m + n < length us2" using m(1) dl(2) by simp
  have z2: "us2 ! i = 0" if "i \<le> uo + m" for i
  proof (cases "i < uo")
    case True
    then show ?thesis using dl(9) us1(4) by simp
  next
    case False
    then have "i - uo < m + 1" "uo + (i - uo) = i" using that by simp_all
    then show ?thesis using dl(8) by metis
  qed
  have z3: "us3 ! i = 0" if "i \<le> uo + m" for i using z2 [OF that] unshift_nth [OF len2, of d] that by (simp add: us3_def)
  have tail: "seg us3 (uo + m + 1) n = R' div 2 ^ d"
  proof (cases "0 < d")
    case True
    then show ?thesis using unshift_run [OF len2 okR d16 z2 [of "uo + m"]] by (simp add: us3_def R'_def add.assoc)
  qed (simp add: us3_def R'_def add.assoc)
  have okt: "digits_ok us3 (uo + m + 1) n"
    using unshift_ok [OF len2 okR d16] digits_ok_mono [OF okR, of 1 n] by (simp add: us3_def)
  have r: "digits_ok us3 1 4" "seg us3 1 4 = R' div 2 ^ d"
  proof -
    have z: "us3 ! (1 + i) = 0" if "i < uo + m" for i using z3 [of "1 + i"] that by simp
    have e: "uo + m + n = 4" "1 + (uo + m) = uo + m + 1" using m(1) by simp_all
    from z have "digits_ok us3 1 (uo + m)" by (simp add: digits_ok_def)
    then show "digits_ok us3 1 4" using okt digits_ok_add [of us3 1 "uo + m" n] unfolding e by blast
    show "seg us3 1 4 = R' div 2 ^ d"
      using seg_add [of us3 1 "uo + m" n] seg_zero [of "uo + m" us3 1] z tail unfolding e by simp
  qed
  show ?thesis unfolding ld using quad_seg [OF q(1)] quad_seg [OF r(1)] q(2) r(2) res by simp
qed

section \<open>Quotient and remainder\<close>

lemma find_n_4: "find_n vs 0 4 =
    (if vs ! 1 = 0 then if vs ! 2 = 0 then if vs ! 3 = 0 then None else Some (2, 2) else Some (1, 3) else Some (0, 4))"
  by (simp add: eval_nat_numeral)

lemma qdivrem_uint:
  assumes vq: "vq \<noteq> 0"
  shows "\<exists>q r. qdivrem uq vq = Ret (q, r) \<and> uint q = uint uq div uint vq \<and> uint r = uint uq mod uint vq"
proof (cases "uq < vq")
  case True
  then have "uint uq < uint vq" by (simp add: word_less_def)
  then show ?thesis using vq True by (simp add: qdivrem_def div_pos_pos_trivial mod_pos_pos_trivial)
next
  case False
  then have UV: "uint vq \<le> uint uq" by (simp add: word_less_def)
  let ?us = "split_digits uq" and ?vs = "split_digits vq"
  have us0: "?us ! 0 = 0" "?vs ! 0 = 0" by (simp_all add: split_digits_def)
  have vs14: "digits_ok ?vs 1 4" "digits_ok ?us 1 4"
    using digits_ok_mono [OF split_digits_ok(1), of 1 4] by simp_all
  show ?thesis
  proof (cases "find_n ?vs 0 4")
    case None
    then have z: "?vs ! 1 = 0" "?vs ! 2 = 0" "?vs ! 3 = 0" by (auto simp: find_n_4 split: if_splits)
    have v: "uint vq = uint (?vs ! 4)" using seg4 [of ?vs] z split_digits_seg [of vq] by simp
    then have t: "0 < uint (?vs ! 4)" "uint (?vs ! 4) < 65536"
      using vq digits4 [OF vs14(1)] uint_pos [of "?vs ! 4"] by (auto simp: uint_0_iff less_le)
    obtain q r where qr: "short_div ?us (?vs ! 4) = (q, r)" by (cases "short_div ?us (?vs ! 4)")
    have "qdivrem uq vq = Ret (q, r)" using vq False None qr by (simp add: qdivrem_def Let_def)
    then show ?thesis using short_div_run [OF vs14(2) t qr] v split_digits_seg [of uq] by simp
  next
    case (Some p)
    then obtain vo n where p: "p = (vo, n)" "vo + n = 4" "2 \<le> n" "?vs ! (vo + 1) \<noteq> 0" "\<forall>i < vo. ?vs ! (1 + i) = 0"
      by (auto simp: find_n_4 eval_nat_numeral less_Suc_eq split: if_splits)
    have V: "seg ?vs (vo + 1) n = uint vq"
      using seg_add [of ?vs 1 vo n] seg_zero [of vo ?vs 1] p(2,5) split_digits_seg [of vq] by simp
    have ok: "digits_ok ?vs (vo + 1) n" using digits_ok_mono [OF vs14(1), of vo n] p(2) by simp
    have le: "seg ?vs (vo + 1) n \<le> seg ?us 1 4" unfolding V split_digits_seg by (rule UV)
    from long_div_run [OF split_digits_ok us0(1) ok split_digits_ok(2) p(2-4) le] obtain q r where
      qr: "long_div ?us ?vs vo n = Some (q, r)" "uint q = uint uq div uint vq" "uint r = uint uq mod uint vq"
      unfolding V split_digits_seg by blast
    have "qdivrem uq vq = Ret (q, r)" using vq False Some p(1) qr(1) by (simp add: qdivrem_def Let_def)
    then show ?thesis using qr(2,3) by blast
  qed
qed

text \<open>
  C31: for every divisor but 0, \<open>__qdivrem\<close> terminates and returns the quotient and the remainder of the two 64-bit numbers.
\<close>

theorem qdivrem_correct: "vq \<noteq> 0 \<Longrightarrow> qdivrem uq vq = Ret (uq div vq, uq mod vq)"
proof -
  assume "vq \<noteq> 0"
  from qdivrem_uint [OF this, of uq] obtain q r where
    qr: "qdivrem uq vq = Ret (q, r)" "uint q = uint uq div uint vq" "uint r = uint uq mod uint vq" by blast
  have "q = uq div vq" "r = uq mod vq" using qr(2,3) by (simp_all add: word_uint_eq_iff uint_div uint_mod)
  then show ?thesis using qr(1) by simp
qed

theorem qdivrem_correct_witness:
  "qdivrem 0xfedcba9876543210 0x123456789a = Ret (0xfedcba9876543210 div 0x123456789a, 0xfedcba9876543210 mod 0x123456789a)"
  by (rule qdivrem_correct) simp

end
