(* ===== verification/Report.thy ===== *)
theory Report
  imports Stdio_Props
begin

text \<open>
  The reporting of the test programs: 410user/libtest/report.c, the wrappers of 410user/libsimics/simics_c.c it prints
  with, and 410user/libstdlib/exit.c. What leaves the program is a list of events: the strings handed to the simulator,
  and the two system calls of \<open>exit\<close>. The strings that the code names by macros and the extern \<open>test_name\<close> lie in
  memory, and \<open>report_data\<close> holds their addresses; the local arrays of 256 bytes are passed as their addresses.
\<close>

datatype sim_event = Sim_Puts "byte list" | Sim_Test_Report "byte list" i32 | Sim_Op u32 "i32 list" | Set_Status i32 | Vanish

record report_data =
  test_pfx :: addr
  test_name :: addr
  start_msgs :: "addr list"
  end_msgs :: "addr list"

section \<open>simics_c.c and exit.c\<close>

text \<open>The string at an address, which the simulator reads.\<close>

definition text_at :: "mem \<Rightarrow> addr \<Rightarrow> byte list outcome" where
  "text_at m a = bnd (the_loop (strlen m a)) (\<lambda>n. Ret (load_range m a (unat n)))"

definition sim_puts :: "addr \<Rightarrow> mem \<Rightarrow> sim_event list outcome" where
  "sim_puts a m = bnd (text_at m a) (\<lambda>s. Ret [Sim_Puts s])"

definition sim_update_scoreboard :: "addr \<Rightarrow> i32 \<Rightarrow> mem \<Rightarrow> sim_event list outcome" where
  "sim_update_scoreboard a ok m = bnd (text_at m a) (\<lambda>s. Ret [Sim_Test_Report s ok])"

text \<open>\<open>sizeof(str) - 1\<close> is 255, and vsnprintf keeps one of them for the NUL.\<close>

definition sim_vprintf :: "addr \<Rightarrow> byte list \<Rightarrow> u32 list \<Rightarrow> mem \<Rightarrow> (sim_event list \<times> mem) outcome" where
  "sim_vprintf str fmt args m = bnd (vsnprintf str 255 fmt args m) (\<lambda>(_, m). bnd (sim_puts str m) (\<lambda>ev. Ret (ev, m)))"

definition sim_printf :: "addr \<Rightarrow> byte list \<Rightarrow> u32 list \<Rightarrow> mem \<Rightarrow> (sim_event list \<times> mem) outcome" where
  "sim_printf str fmt args m = sim_vprintf str fmt args m"

text \<open>The other wrappers: \<open>answer\<close> is what the simulator returns for a call number, the rest are calls without a result.\<close>

definition sim_in_simics :: "(u32 \<Rightarrow> i32) \<Rightarrow> i32" where
  "sim_in_simics answer = answer 0x04100000"

definition sim_memsize :: "(u32 \<Rightarrow> i32) \<Rightarrow> i32" where
  "sim_memsize answer = answer 0x04100001"

definition sim_breakpoint :: "sim_event list" where
  "sim_breakpoint = [Sim_Op 0x04100003 []]"

definition sim_halt :: "sim_event list" where
  "sim_halt = [Sim_Op 0x04100004 []]"

definition sim_ck1 :: "sim_event list" where
  "sim_ck1 = [Sim_Op 0x04108000 []]"

definition sim_fr_prog :: "i32 \<Rightarrow> sim_event list" where
  "sim_fr_prog a = [Sim_Op 0x04108006 [a]]"

definition sim_fr_here :: "sim_event list" where
  "sim_fr_here = [Sim_Op 0x04108007 []]"

definition magic_readline :: "(i32 \<Rightarrow> addr \<Rightarrow> mem \<Rightarrow> i32 \<times> mem) \<Rightarrow> i32 \<Rightarrow> addr \<Rightarrow> mem \<Rightarrow> sim_event list \<times> i32 \<times> mem" where
  "magic_readline readline sz buf m = ([Sim_Op 0x04108004 []], readline sz buf m)"

text \<open>The events of \<open>exit\<close>; it does not return.\<close>

definition c_exit :: "i32 \<Rightarrow> sim_event list" where
  "c_exit status = [Set_Status status, Vanish]"

text \<open>
  410user/crt0.c: \<open>_main\<close> calls \<open>main\<close>, a parameter that gives what it does and its result, if it returns, and then
  \<open>exit\<close>.
\<close>

definition crt0_main :: "(i32 \<Rightarrow> addr \<Rightarrow> sim_event list \<times> i32 option) \<Rightarrow> i32 \<Rightarrow> addr \<Rightarrow> sim_event list" where
  "crt0_main main argc argv =
     (case main argc argv of (ev, None) \<Rightarrow> ev | (ev, Some status) \<Rightarrow> ev @ c_exit status)"

section \<open>report.c\<close>

text \<open>An index into \<open>start_msgs\<close> or \<open>end_msgs\<close>.\<close>

definition msg_at :: "addr list \<Rightarrow> i32 \<Rightarrow> addr outcome" where
  "msg_at xs t = (if neg32 t \<or> length xs \<le> nat (sint t) then Fault else Ret (xs ! nat (sint t)))"

definition fmt3 :: "byte list" where
  "fmt3 = bytes ''%s%s%s''"

definition format_start :: "report_data \<Rightarrow> addr \<Rightarrow> i32 \<Rightarrow> i32 \<Rightarrow> mem \<Rightarrow> (i32 \<times> mem) outcome" where
  "format_start d buf len t m = bnd (msg_at (start_msgs d) t) (\<lambda>msg. snprintf buf len fmt3 [test_pfx d, test_name d, msg] m)"

definition format_end :: "report_data \<Rightarrow> addr \<Rightarrow> i32 \<Rightarrow> i32 \<Rightarrow> mem \<Rightarrow> (i32 \<times> mem) outcome" where
  "format_end d buf len t m = bnd (msg_at (end_msgs d) t) (\<lambda>msg. snprintf buf len fmt3 [test_pfx d, test_name d, msg] m)"

definition format_misc :: "report_data \<Rightarrow> addr \<Rightarrow> i32 \<Rightarrow> addr \<Rightarrow> mem \<Rightarrow> (i32 \<times> mem) outcome" where
  "format_misc d buf len msg m = snprintf buf len fmt3 [test_pfx d, test_name d, msg] m"

definition format_err :: "report_data \<Rightarrow> addr \<Rightarrow> i32 \<Rightarrow> addr \<Rightarrow> i32 \<Rightarrow> mem \<Rightarrow> (i32 \<times> mem) outcome" where
  "format_err d buf len msg code m = snprintf buf len (bytes ''%s%s%s%d'') [test_pfx d, test_name d, msg, code] m"

text \<open>What every report does with the formatted buffer.\<close>

definition put_buf :: "addr \<Rightarrow> (i32 \<times> mem) outcome \<Rightarrow> (sim_event list \<times> mem) outcome" where
  "put_buf buf r = bnd r (\<lambda>(_, m). bnd (sim_puts buf m) (\<lambda>ev. Ret (ev, m)))"

definition report_start :: "report_data \<Rightarrow> addr \<Rightarrow> i32 \<Rightarrow> mem \<Rightarrow> (sim_event list \<times> mem) outcome" where
  "report_start d buf t m = put_buf buf (format_start d buf 256 t m)"

definition report_end :: "report_data \<Rightarrow> addr \<Rightarrow> i32 \<Rightarrow> mem \<Rightarrow> (sim_event list \<times> mem) outcome" where
  "report_end d buf t m =
     bnd (put_buf buf (format_end d buf 256 t m)) (\<lambda>(ev, m).
     bnd (sim_update_scoreboard (test_name d) (c_bool (t = 0)) m) (\<lambda>ev'. Ret (ev @ ev', m)))"

definition report_misc :: "report_data \<Rightarrow> addr \<Rightarrow> addr \<Rightarrow> mem \<Rightarrow> (sim_event list \<times> mem) outcome" where
  "report_misc d buf msg m = put_buf buf (format_misc d buf 256 msg m)"

definition report_fmt :: "report_data \<Rightarrow> addr \<Rightarrow> addr \<Rightarrow> byte list \<Rightarrow> u32 list \<Rightarrow> mem \<Rightarrow> (sim_event list \<times> mem) outcome" where
  "report_fmt d b buf fmt args m =
     bnd (vsnprintf b 256 fmt args m) (\<lambda>(_, m). put_buf buf (snprintf buf 256 fmt3 [test_pfx d, test_name d, b] m))"

definition report_err :: "report_data \<Rightarrow> addr \<Rightarrow> addr \<Rightarrow> i32 \<Rightarrow> mem \<Rightarrow> (sim_event list \<times> mem) outcome" where
  "report_err d buf msg code m = put_buf buf (format_err d buf 256 msg code m)"

definition report_fatal :: "report_data \<Rightarrow> addr \<Rightarrow> addr \<Rightarrow> i32 \<Rightarrow> mem \<Rightarrow> (sim_event list \<times> mem) outcome" where
  "report_fatal d buf msg code m =
     bnd (report_err d buf msg code m) (\<lambda>(ev, m). bnd (report_end d buf 1 m) (\<lambda>(ev', m). Ret (ev @ ev', m)))"

definition report_on_err :: "report_data \<Rightarrow> addr \<Rightarrow> addr \<Rightarrow> i32 \<Rightarrow> i32 \<Rightarrow> mem \<Rightarrow> (sim_event list \<times> mem) outcome" where
  "report_on_err d buf expr line v m =
     (if \<not> neg32 v then Ret ([], m)
      else put_buf buf (snprintf buf 256 (bytes ''%s%sErr %d on line %d: `%s'' @ [39]) [test_pfx d, test_name d, v, line, expr] m))"

definition fatal_on_err :: "report_data \<Rightarrow> addr \<Rightarrow> addr \<Rightarrow> i32 \<Rightarrow> i32 \<Rightarrow> mem \<Rightarrow> (sim_event list \<times> mem) outcome" where
  "fatal_on_err d buf expr line v m =
     bnd (report_on_err d buf expr line v m) (\<lambda>(ev, m).
     if \<not> neg32 v then Ret (ev, m)
     else bnd (report_end d buf 1 m) (\<lambda>(ev', m). Ret (ev @ ev' @ c_exit v, m)))"

section \<open>The lines that are reported\<close>

text \<open>The contents of the strings the data points to, and that they lie outside the buffer.\<close>

definition kept :: "addr \<Rightarrow> mem \<Rightarrow> addr \<Rightarrow> byte list \<Rightarrow> bool" where
  "kept buf m a s \<longleftrightarrow> cstr m a s \<and> a \<noteq> 0 \<and> length s < 2 ^ 31 \<and> area a (Suc (length s)) \<inter> area buf 256 = {}"

lemma kept_frame: "kept buf m a s \<Longrightarrow> (\<And>b. b \<notin> area buf 256 \<Longrightarrow> m' b = m b) \<Longrightarrow> kept buf m' a s"
  unfolding kept_def
proof (elim conjE, intro conjI)
  assume m: "\<And>b. b \<notin> area buf 256 \<Longrightarrow> m' b = m b" and a: "cstr m a s" "length s < 2 ^ 31" "area a (Suc (length s)) \<inter> area buf 256 = {}"
  show "cstr m' a s" using m a by (intro cstr_cong [of a s m' m]) auto
qed auto

lemma cstr_no_nul: "cstr m a s \<Longrightarrow> 0 \<notin> set s"
  by (induction s arbitrary: a) auto

lemma load_range_cstr: "cstr m a s \<Longrightarrow> load_range m a (length s) = s"
proof (induction s arbitrary: a)
  case Nil
  then show ?case by (simp add: load_range_def)
next
  case (Cons c s)
  have "load_range m a (length (c # s)) = m a # load_range m (a + 1) (length s)"
    unfolding load_range_def by (simp add: upt_conv_Cons map_Suc_upt [symmetric] comp_def ac_simps del: upt_Suc)
  with Cons show ?case by simp
qed

lemma string_field_bare: "length s < 2 ^ 31 \<Longrightarrow> string_field spec0 s = s"
  by (simp add: string_field_def precision_def spec0_def)

lemma doprnt_s:
  assumes "cstr m p s" "p \<noteq> 0" "length s < 2 ^ 31" "doprnt False m 0 fmt args = Ret out"
  shows "doprnt False m 0 (37 # 115 # fmt) (p # args) = Ret (s @ out)"
proof -
  have "sp_prec spec0 = -1" by (simp add: spec0_def)
  then have "print_str m spec0 (p # args) = Ret (s, args)"
    using print_str_cstr [OF assms(1,2), of spec0 args] string_field_bare [OF assms(3)] by simp
  then show ?thesis
    using assms(4) by (simp add: doprnt_plain doprnt_spec_bare is_digit_def convert_def outcome_simps del: bnd_Ret_iff)
qed

lemma doprnt_dec: "doprnt False m 0 fmt args = Ret out \<Longrightarrow> doprnt False m 0 (37 # 100 # fmt) (n # args) = Ret (signed_decimal n @ out)"
  by (simp add: doprnt_plain doprnt_spec_bare is_digit_def convert_d outcome_simps del: bnd_Ret_iff)

lemma doprnt_char: "c \<noteq> 37 \<Longrightarrow> doprnt False m 0 fmt args = Ret out \<Longrightarrow> doprnt False m 0 (c # fmt) args = Ret (c # out)"
  by (simp add: doprnt_plain outcome_simps del: bnd_Ret_iff)

lemma text_at_cstr: "cstr m a s \<Longrightarrow> length s < 2 ^ 32 \<Longrightarrow> text_at m a = Ret s"
  using strlen_cstr [of m a s] by (simp add: text_at_def the_loop_def load_range_cstr unat_of_nat outcome_simps del: bnd_Ret_iff)

lemma sim_puts_cstr: "cstr m a s \<Longrightarrow> length s < 2 ^ 32 \<Longrightarrow> sim_puts a m = Ret [Sim_Puts s]"
  using text_at_cstr by (simp add: sim_puts_def outcome_simps del: bnd_Ret_iff)

text \<open>A formatted line reaches the simulator cut to 255 characters, and nothing outside the buffer is written.\<close>

lemma put_snprintf:
  assumes "doprnt False m 0 fmt args = Ret out" "0 \<notin> set out"
  shows "\<exists>m'. put_buf buf (snprintf buf 256 fmt args m) = Ret ([Sim_Puts (take 255 out)], m') \<and> (\<forall>b. b \<notin> area buf 256 \<longrightarrow> m' b = m b)"
proof -
  have "0 <s (256 :: i32)" "nat (sint (256 :: i32)) = 256" by (simp_all add: word_sless_alt)
  with snprintf_cut [OF assms, of 256 buf] obtain m' where
    m': "snprintf buf 256 fmt args m = Ret (of_nat (min (length out) 255), m')" "cstr m' buf (take 255 out)" "\<forall>b. b \<notin> area buf 256 \<longrightarrow> m' b = m b"
    by auto
  then show ?thesis using sim_puts_cstr [OF m'(2)] by (simp add: put_buf_def outcome_simps del: bnd_Ret_iff)
qed

lemma bytes_simps: "bytes [] = []" "bytes (c # s) = of_char c # bytes s"
  by (simp_all add: bytes_def)

lemma doprnt_kept:
  "kept buf m p s \<Longrightarrow> doprnt False m 0 fmt args = Ret out \<Longrightarrow> doprnt False m 0 (37 # 115 # fmt) (p # args) = Ret (s @ out)"
  unfolding kept_def by (blast intro: doprnt_s)

lemma doprnt_fmt3:
  assumes "kept buf m p s" "kept buf m q t" "kept buf m r u"
  shows "doprnt False m 0 fmt3 [p, q, r] = Ret (s @ t @ u)"
proof -
  have f: "fmt3 = [37, 115, 37, 115, 37, 115]" by (simp add: fmt3_def bytes_simps)
  have "doprnt False m 0 [37, 115] [r] = Ret (u @ [])" using doprnt_kept [OF assms(3)] by simp
  then show ?thesis unfolding f using doprnt_kept [OF assms(1)] doprnt_kept [OF assms(2)] by simp
qed

lemma report_end_fail:
  assumes d: "kept buf m (test_pfx d) pfx" "kept buf m (test_name d) name" "kept buf m (end_msgs d ! 1) msg" "1 < length (end_msgs d)"
  shows "\<exists>m'. report_end d buf 1 m = Ret ([Sim_Puts (take 255 (pfx @ name @ msg)), Sim_Test_Report name 0], m')"
proof -
  have "doprnt False m 0 fmt3 [test_pfx d, test_name d, end_msgs d ! 1] = Ret (pfx @ name @ msg)"
    using doprnt_fmt3 [OF d(1-3)] .
  moreover have "0 \<notin> set (pfx @ name @ msg)" using d(1-3) cstr_no_nul unfolding kept_def by fastforce
  ultimately obtain m' where m': "put_buf buf (snprintf buf 256 fmt3 [test_pfx d, test_name d, end_msgs d ! 1] m) = Ret ([Sim_Puts (take 255 (pfx @ name @ msg))], m')"
      "\<forall>b. b \<notin> area buf 256 \<longrightarrow> m' b = m b"
    using put_snprintf by blast
  have "kept buf m' (test_name d) name" using kept_frame [OF d(2)] m'(2) by blast
  then have "text_at m' (test_name d) = Ret name"
    unfolding kept_def by (intro text_at_cstr) simp_all
  moreover have "msg_at (end_msgs d) 1 = Ret (end_msgs d ! 1)" using d(4) by (simp add: msg_at_def)
  ultimately show ?thesis using m'(1)
    by (simp add: report_end_def format_end_def sim_update_scoreboard_def outcome_simps del: bnd_Ret_iff)
qed

lemma doprnt_text: "37 \<notin> set xs \<Longrightarrow> doprnt False m 0 fmt args = Ret out \<Longrightarrow> doprnt False m 0 (xs @ fmt) args = Ret (xs @ out)"
  by (induction xs) (simp_all add: doprnt_char)

lemma doprnt_on_err:
  assumes "kept buf m p s" "kept buf m q t" "kept buf m r u"
  shows "doprnt False m 0 (bytes ''%s%sErr %d on line %d: `%s'' @ [39]) [p, q, v, line, r] =
    Ret (s @ t @ bytes ''Err '' @ signed_decimal v @ bytes '' on line '' @ signed_decimal line @ bytes '': `'' @ u @ [39])"
proof -
  have "doprnt False m 0 [39] [] = Ret [39]" using doprnt_char [of 39 m "[]"] by simp
  from doprnt_kept [OF assms(3) this] have e: "doprnt False m 0 (37 # 115 # [39]) [r] = Ret (u @ [39])" .
  have f: "bytes ''%s%sErr %d on line %d: `%s'' @ [39] = 37 # 115 # 37 # 115 # bytes ''Err '' @ 37 # 100 # bytes '' on line '' @
      37 # 100 # bytes '': `'' @ 37 # 115 # [39]" by (simp add: bytes_simps)
  have t: "37 \<notin> set (bytes ''Err '')" "37 \<notin> set (bytes '' on line '')" "37 \<notin> set (bytes '': `'')" by (simp_all add: bytes_simps)
  show ?thesis unfolding f
    by (intro doprnt_kept [OF assms(1)] doprnt_kept [OF assms(2)] doprnt_text t doprnt_dec e)
qed

definition on_err_line :: "byte list \<Rightarrow> byte list \<Rightarrow> i32 \<Rightarrow> i32 \<Rightarrow> byte list \<Rightarrow> byte list" where
  "on_err_line pfx name v line expr =
     pfx @ name @ bytes ''Err '' @ signed_decimal v @ bytes '' on line '' @ signed_decimal line @ bytes '': `'' @ expr @ [39]"

lemma on_err_line_no_nul:
  assumes "kept buf m p pfx" "kept buf m q name" "kept buf m r expr"
  shows "0 \<notin> set (on_err_line pfx name v line expr)"
proof -
  have "0 \<notin> set pfx" "0 \<notin> set name" "0 \<notin> set expr" using assms cstr_no_nul unfolding kept_def by blast+
  then show ?thesis using signed_decimal_text [of v] signed_decimal_text [of line] by (simp add: on_err_line_def bytes_simps)
qed

text \<open>
  a failing expression under \<open>REPORT_FAILOUT_ON_ERR\<close> (\<open>v\<close> negative) prints one line with the test's name, the value, the
  line number and the expression, then the line of the failed test, then reports the failure to the score board and exits
  with status \<open>v\<close>; both lines are cut to 255 characters.
\<close>

theorem fatal_on_err_reports:
  assumes "kept buf m (test_pfx d) pfx" "kept buf m (test_name d) name" "kept buf m expr e"
    and "1 < length (end_msgs d)" "kept buf m (end_msgs d ! 1) msg" "neg32 v"
  shows "\<exists>m'. fatal_on_err d buf expr line v m =
    Ret ([Sim_Puts (take 255 (on_err_line pfx name v line e)), Sim_Puts (take 255 (pfx @ name @ msg)), Sim_Test_Report name 0,
          Set_Status v, Vanish], m')"
proof -
  from put_snprintf [OF doprnt_on_err [OF assms(1-3)] on_err_line_no_nul [OF assms(1-3), unfolded on_err_line_def], of buf v line]
  obtain m1 where m1: "report_on_err d buf expr line v m = Ret ([Sim_Puts (take 255 (on_err_line pfx name v line e))], m1)"
      "\<And>b. b \<notin> area buf 256 \<Longrightarrow> m1 b = m b"
    using assms(6) by (auto simp: report_on_err_def on_err_line_def)
  note k = kept_frame [OF assms(1) m1(2)] kept_frame [OF assms(2) m1(2)] kept_frame [OF assms(5) m1(2)]
  from report_end_fail [OF k assms(4)] obtain m2 where
    "report_end d buf 1 m1 = Ret ([Sim_Puts (take 255 (pfx @ name @ msg)), Sim_Test_Report name 0], m2)" by blast
  then show ?thesis using m1(1) assms(6) by (simp add: fatal_on_err_def c_exit_def outcome_simps del: bnd_Ret_iff)
qed

definition demo_report :: report_data where
  "demo_report = \<lparr>test_pfx = 1000, test_name = 2000, start_msgs = [], end_msgs = [0, 4000]\<rparr>"

definition demo_report_mem :: mem where
  "demo_report_mem = write_bytes 1000 (bytes ''(^_^)_'' @ [0]) (write_bytes 2000 (bytes ''t:'' @ [0])
     (write_bytes 3000 (bytes ''f()'' @ [0]) (write_bytes 4000 (bytes '' END__FAIL'' @ [0]) (\<lambda>_. 0))))"

lemma demo_report_kept:
  "kept 5000 demo_report_mem 1000 (bytes ''(^_^)_'')" "kept 5000 demo_report_mem 2000 (bytes ''t:'')"
  "kept 5000 demo_report_mem 3000 (bytes ''f()'')" "kept 5000 demo_report_mem 4000 (bytes '' END__FAIL'')"
  unfolding kept_def by (simp_all add: demo_report_mem_def bytes_simps area_apart)

theorem fatal_on_err_reports_witness:
  "\<exists>m'. fatal_on_err demo_report 5000 3000 7 (-3) demo_report_mem =
    Ret ([Sim_Puts (take 255 (on_err_line (bytes ''(^_^)_'') (bytes ''t:'') (-3) 7 (bytes ''f()''))),
          Sim_Puts (take 255 (bytes ''(^_^)_'' @ bytes ''t:'' @ bytes '' END__FAIL'')), Sim_Test_Report (bytes ''t:'') 0,
          Set_Status (-3), Vanish], m')"
proof -
  have "neg32 (-3)" by (simp add: word_sless_alt)
  from fatal_on_err_reports [of 5000 demo_report_mem demo_report, OF _ _ demo_report_kept(3) _ _ this] demo_report_kept
  show ?thesis by (simp add: demo_report_def)
qed

end
