(* ===== verification/Nibbles.thy ===== *)
theory Nibbles
  imports Stdio Mersenne
begin

text \<open>
  410user/progs/nibbles.c: the snake game, a client of the random numbers and of the console calls. The snake lies in a
  ring of 100 cells. A function that draws returns what it sends to the console, in order. \<open>set_cursor_pos\<close> is a system
  call: the parameter \<open>on_screen row col\<close> says that it succeeds. Coordinates are integers: they stay next to the console.
  The global \<open>last_key\<close> is written by the other thread at any time, so the values the game reads from it are an input.
\<close>

datatype term_op = Set_Color i32 | Set_Cursor int int | Print "byte list" | Printf "byte list" "u32 list" | Sleep i32

definition snake_max :: int where
  "snake_max = 100"

definition snake_min :: int where
  "snake_min = 10"

definition snake_up :: i32 where
  "snake_up = 119"

definition snake_down :: i32 where
  "snake_down = 115"

definition snake_left :: i32 where
  "snake_left = 97"

definition snake_right :: i32 where
  "snake_right = 100"

record snake =
  sn_length :: int
  sn_start :: int
  sn_spot :: "(int \<times> int) list"
  sn_direction :: i32

record apple =
  ap_x :: int
  ap_y :: int
  ap_valid :: i32

section \<open>The board and the snake\<close>

definition draw_row :: "int \<Rightarrow> int \<Rightarrow> term_op list" where
  "draw_row w i =
     [Set_Color 0, Set_Cursor i 0, Print (replicate (nat w) 32), Set_Color 0x30, Set_Cursor i 0, Print [32],
      Set_Cursor i (w - 1), Print [32]]"

text \<open>With a console wider than the buffer of 1024 characters the first loop would write behind it.\<close>

definition draw_border :: "int \<Rightarrow> int \<Rightarrow> term_op list outcome" where
  "draw_border w h =
     (if 1024 < w then Fault
      else Ret ([Set_Color 0, Set_Cursor (h - 1) 0, Print (replicate (nat w) 32), Set_Color 0x30, Set_Cursor 0 0,
        Print (replicate (nat w) 32)] @ concat (map (draw_row w) [1..h - 3]) @
        [Set_Cursor (h - 2) 0, Print (replicate (nat w) 32), Set_Cursor (h - 1) 0, Set_Color 2, Printf (bytes ''score: %d'') [0]]))"

text \<open>The cells beyond the first ten keep what \<open>old\<close> holds: the snake is a local variable.\<close>

definition init_snake :: "(int \<times> int) list \<Rightarrow> snake" where
  "init_snake old = \<lparr>sn_length = snake_min, sn_start = snake_min - 1, sn_spot = replicate 10 (10, 10) @ drop 10 old, sn_direction = snake_right\<rparr>"

text \<open>An index into the ring, computed with C's \<open>%\<close>.\<close>

definition ring :: "int \<Rightarrow> int" where
  "ring i = (i + snake_max) smod snake_max"

text \<open>An access to a cell outside the ring is undefined.\<close>

definition in_spot :: "(int \<times> int) list \<Rightarrow> int \<Rightarrow> bool" where
  "in_spot spot i \<longleftrightarrow> 0 \<le> i \<and> i < int (length spot)"

partial_function (option) bite_loop :: "(int \<times> int) list \<Rightarrow> int \<times> int \<Rightarrow> int \<Rightarrow> int \<Rightarrow> bool outcome option" where
  "bite_loop spot p stop i =
     (if i = stop then Some (Ret False) else if \<not> in_spot spot i then Some Fault
      else if spot ! nat i = p then Some (Ret True) else bite_loop spot p stop (ring (i - 1)))"

definition snake_disaster :: "int \<Rightarrow> int \<Rightarrow> snake \<Rightarrow> i32 outcome" where
  "snake_disaster w h s =
     (if \<not> in_spot (sn_spot s) (sn_start s) then Fault
      else let (x, y) = sn_spot s ! nat (sn_start s) in
        if x \<le> 0 \<or> w - 1 \<le> x \<or> y \<le> 0 \<or> h - 2 \<le> y then Ret (-1)
        else bnd (bnd (the_loop (bite_loop (sn_spot s) (x, y) (ring (sn_start s - sn_length s)) (ring (sn_start s - 1)))) (\<lambda>r. r))
               (\<lambda>bite. Ret (if bite then -1 else 0)))"

text \<open>The cell next to \<open>(x, y)\<close> in a direction; \<open>None\<close> is the panic of the default case.\<close>

definition slither :: "i32 \<Rightarrow> int \<times> int \<Rightarrow> (int \<times> int) option" where
  "slither d = (\<lambda>(x, y).
     if d = snake_up then Some (x, y - 1) else if d = snake_down then Some (x, y + 1)
     else if d = snake_left then Some (x - 1, y) else if d = snake_right then Some (x + 1, y) else None)"

definition eat_apple :: "int \<times> int \<Rightarrow> nat \<Rightarrow> snake \<times> apple list \<times> int \<Rightarrow> snake \<times> apple list \<times> int" where
  "eat_apple p i = (\<lambda>(s, apples, score).
     if ap_valid (apples ! i) = 1 \<and> (ap_x (apples ! i), ap_y (apples ! i)) = p then
       (s\<lparr>sn_length := min snake_max (sn_length s + 1)\<rparr>, apples[i := (apples ! i)\<lparr>ap_valid := 0\<rparr>], score + 10)
     else (s, apples, score))"

definition move_snake :: "(int \<Rightarrow> int \<Rightarrow> bool) \<Rightarrow> snake \<Rightarrow> apple list \<Rightarrow> int \<Rightarrow> (term_op list \<times> snake \<times> apple list \<times> int) outcome" where
  "move_snake on_screen s apples score =
     (let start = (sn_start s + 1) smod snake_max; tail = ring (start - sn_length s) in
      if \<not> (in_spot (sn_spot s) (sn_start s) \<and> in_spot (sn_spot s) start \<and> in_spot (sn_spot s) tail) then Fault
      else
        let old = sn_spot s ! nat (sn_start s); (rx, ry) = sn_spot s ! nat tail in
        case slither (sn_direction s) old of
          None \<Rightarrow> Panic
        | Some (x, y) \<Rightarrow>
          let s = s\<lparr>sn_start := start, sn_spot := (sn_spot s)[nat start := (x, y)]\<rparr>;
              out = [Set_Cursor ry rx] @ (if on_screen ry rx then [Set_Color 0, Print [32]] else []) @
                [Set_Cursor y x] @ (if on_screen y x then [Set_Color 0x60, Print [32]] else []) in
          Ret (out, fold (eat_apple (x, y)) [0..<10] (s, apples, score)))"

section \<open>The game\<close>

text \<open>A random number scaled to a range, \<open>genrand() / ((unsigned int)(-1) / n)\<close>.\<close>

definition scaled :: "u32 \<Rightarrow> i32 \<Rightarrow> u32 outcome" where
  "scaled r n = (if n = 0 \<or> (-1) div n = 0 then Fault else Ret (r div ((-1) div n)))"

definition free_apple :: "apple list \<Rightarrow> nat option" where
  "free_apple apples = find (\<lambda>i. ap_valid (apples ! i) = 0) [0..<10]"

definition new_apple :: "int \<Rightarrow> int \<Rightarrow> apple list \<Rightarrow> mt_state \<Rightarrow> (term_op list \<times> apple list \<times> mt_state) outcome" where
  "new_apple w h apples mt =
     (case free_apple apples of
        None \<Rightarrow> Ret ([], apples, mt)
      | Some spot \<Rightarrow>
        let (r1, mt) = genrand mt; (r2, mt) = genrand mt in
        bnd (scaled r1 (word_of_int (w - 2))) (\<lambda>x.
        bnd (scaled r2 (word_of_int (h - 3))) (\<lambda>y.
        let x = sint (x + 1); y = sint (y + 1) in
        Ret ([Set_Color 4, Set_Cursor y x, Print [64]], apples[spot := \<lparr>ap_x = x, ap_y = y, ap_valid = 1\<rparr>], mt))))"

text \<open>The switch on the last key: a key that would reverse the snake is ignored.\<close>

definition steer :: "i32 \<Rightarrow> i32 \<Rightarrow> i32" where
  "steer key d =
     (if key = snake_up then if d \<noteq> snake_down then snake_up else d
      else if key = snake_down then if d \<noteq> snake_up then snake_down else d
      else if key = snake_left then if d \<noteq> snake_right then snake_left else d
      else if key = snake_right then if d \<noteq> snake_left then snake_right else d
      else d)"

record game =
  gm_snake :: snake
  gm_apples :: "apple list"
  gm_next_apple :: int
  gm_score :: int
  gm_mt :: mt_state

text \<open>The body of the game loop up to the test; \<open>key\<close> is what it reads from \<open>last_key\<close>.\<close>

definition apple_turn :: "int \<Rightarrow> int \<Rightarrow> game \<Rightarrow> (term_op list \<times> game) outcome" where
  "apple_turn w h g =
     (if gm_next_apple g = 0 then
        bnd (new_apple w h (gm_apples g) (gm_mt g)) (\<lambda>(out, apples, mt).
        let (r, mt) = genrand mt in
        bnd (scaled r 20) (\<lambda>k. Ret (out, g\<lparr>gm_apples := apples, gm_next_apple := sint (k + 20), gm_mt := mt\<rparr>)))
      else Ret ([], g))"

definition game_turn :: "(int \<Rightarrow> int \<Rightarrow> bool) \<Rightarrow> int \<Rightarrow> int \<Rightarrow> i32 \<Rightarrow> i32 \<Rightarrow> game \<Rightarrow> (term_op list \<times> game) outcome" where
  "game_turn on_screen w h ticks key g =
     (let s = (gm_snake g)\<lparr>sn_direction := steer key (sn_direction (gm_snake g))\<rparr> in
      bnd (apple_turn w h (g\<lparr>gm_snake := s\<rparr>)) (\<lambda>(out1, g).
      bnd (move_snake on_screen (gm_snake g) (gm_apples g) (gm_score g)) (\<lambda>(out2, s, apples, score).
      Ret (out1 @ out2 @ [Set_Cursor (h - 1) 7, Set_Color 2, Printf (bytes ''%d'') [word_of_int score], Sleep ticks],
           g\<lparr>gm_snake := s, gm_apples := apples, gm_score := score, gm_next_apple := gm_next_apple g - 1\<rparr>))))"

text \<open>
  The loop. The list holds the values read from \<open>last_key\<close>, one for each turn; the result tells whether the game is over
  (\<open>Some\<close>, with the keys that were not read) or goes on after the last of them.
\<close>

fun game_loop :: "(int \<Rightarrow> int \<Rightarrow> bool) \<Rightarrow> int \<Rightarrow> int \<Rightarrow> i32 \<Rightarrow> i32 list \<Rightarrow> game \<Rightarrow> (term_op list \<times> game \<times> i32 list option) outcome" where
  "game_loop on_screen w h ticks [] g = Ret ([], g, None)"
| "game_loop on_screen w h ticks (key # keys) g =
     bnd (game_turn on_screen w h ticks key g) (\<lambda>(out, g).
     bnd (snake_disaster w h (gm_snake g)) (\<lambda>dead.
     if dead \<noteq> 0 then Ret (out, g, Some keys)
     else bnd (game_loop on_screen w h ticks keys g) (\<lambda>(out', g, r). Ret (out @ out', g, r))))"

text \<open>\<open>play_game\<close>: \<open>apples\<close> are the uninitialised local cells, of which the loop clears the flags.\<close>

definition play_game :: "(int \<Rightarrow> int \<Rightarrow> bool) \<Rightarrow> int \<Rightarrow> int \<Rightarrow> i32 \<Rightarrow> i32 list \<Rightarrow> snake \<Rightarrow> apple list \<Rightarrow> int \<Rightarrow> mt_state \<Rightarrow>
    (term_op list \<times> game \<times> i32 list option) outcome" where
  "play_game on_screen w h ticks keys s apples score mt =
     game_loop on_screen w h ticks keys
       \<lparr>gm_snake = s, gm_apples = map (\<lambda>a. a\<lparr>ap_valid := 0\<rparr>) apples, gm_next_apple = 0, gm_score = score, gm_mt = mt\<rparr>"

text \<open>The question at the end: read \<open>last_key\<close> until it is one of the four letters.\<close>

fun ask_again :: "i32 list \<Rightarrow> (bool \<times> i32 list) option" where
  "ask_again [] = None"
| "ask_again (key # keys) =
     (let again = ucast key :: byte in
      if again \<noteq> 121 \<and> again \<noteq> 89 \<and> again \<noteq> 110 \<and> again \<noteq> 78 then ask_again keys else Some (again = 121 \<or> again = 89, keys))"

lemma ask_again_len: "ask_again keys = Some (b, ks) \<Longrightarrow> length ks < length keys"
  by (induction keys) (auto simp: Let_def split: if_splits)

lemma game_loop_len: "game_loop on_screen w h ticks keys g = Ret (out, g', Some ks) \<Longrightarrow> length ks < length keys"
  by (induction keys arbitrary: g out) (auto simp: outcome_simps split: if_splits intro: less_SucI)

text \<open>
  \<open>nibbles\<close>: games until the player declines. The snake is a local of this function, so its ring keeps the old cells;
  \<open>apples\<close> are the local cells of \<open>play_game\<close>. \<open>None\<close> says that the values read from \<open>last_key\<close> were used up before the end.
\<close>

function nibbles :: "(int \<Rightarrow> int \<Rightarrow> bool) \<Rightarrow> int \<Rightarrow> int \<Rightarrow> i32 \<Rightarrow> apple list \<Rightarrow> (int \<times> int) list \<Rightarrow> mt_state \<Rightarrow> i32 list \<Rightarrow>
    (term_op list \<times> i32 list option) outcome" where
  "nibbles on_screen w h ticks apples spot mt keys =
     bnd (draw_border w h) (\<lambda>out1.
     bnd (play_game on_screen w h ticks keys (init_snake spot) apples 0 mt) (\<lambda>(out2, g, rest).
     case rest of
       None \<Rightarrow> Ret (out1 @ out2, None)
     | Some keys1 \<Rightarrow>
       let out = out1 @ out2 @ [Set_Color 2, Set_Cursor (h sdiv 2) ((w - 11) sdiv 2), Print (bytes ''Play again?'')] in
       case ask_again keys1 of
         None \<Rightarrow> Ret (out, None)
       | Some (again, keys2) \<Rightarrow>
         if again then
           bnd (nibbles on_screen w h ticks apples (sn_spot (gm_snake g)) (gm_mt g) keys2) (\<lambda>(out', r). Ret (out @ out', r))
         else Ret (out, Some keys2)))"
  by pat_completeness auto
termination
  by (relation "measure (\<lambda>(_, _, _, _, _, _, _, keys). length keys)")
    (auto simp: play_game_def dest!: game_loop_len ask_again_len)

declare nibbles.simps [simp del]

text \<open>The console is as wide as the columns that accept the cursor, at most 1024, and as high as its rows.\<close>

partial_function (option) find_width :: "(int \<Rightarrow> int \<Rightarrow> bool) \<Rightarrow> int \<Rightarrow> int option" where
  "find_width on_screen w = (if on_screen 0 w then find_width on_screen (w + 1) else Some w)"

definition con_width_of :: "(int \<Rightarrow> int \<Rightarrow> bool) \<Rightarrow> int option" where
  "con_width_of on_screen = map_option (min 1024) (find_width on_screen 0)"

partial_function (option) find_height :: "(int \<Rightarrow> int \<Rightarrow> bool) \<Rightarrow> int \<Rightarrow> int option" where
  "find_height on_screen h = (if on_screen h 0 then find_height on_screen (h + 1) else Some h)"

section \<open>The program\<close>

definition print_directions :: "term_op list" where
  "print_directions =
     [Printf (bytes ''Move the snake using the controls listed below.'' @ [10]) [],
      Printf (bytes ''Eat the apples to get points, but don'' @ [39] @ bytes ''t hit the'' @ [10]) [],
      Printf (bytes ''wall or let the snake bite himself.'' @ [10]) [],
      Printf (bytes ''UP - w'' @ [10]) [], Printf (bytes ''DOWN - s'' @ [10]) [], Printf (bytes ''LEFT - a'' @ [10]) [],
      Printf (bytes ''RIGHT - d'' @ [10]) [], Printf [10, 10] []]"

text \<open>\<open>for (rand_seed = 0; last_key == -1; rand_seed++) sleep(1);\<close> on the values read from \<open>last_key\<close>.\<close>

fun seed_loop :: "i32 \<Rightarrow> i32 list \<Rightarrow> (term_op list \<times> i32 \<times> i32 list) option" where
  "seed_loop seed [] = None"
| "seed_loop seed (key # keys) =
     (if key = -1 then map_option (\<lambda>(out, r). (Sleep 1 # out, r)) (seed_loop (seed + 1) keys) else Some ([], seed, keys))"

text \<open>
  How the program ends: \<open>task_vanish\<close> with a status, or not before the values read from \<open>last_key\<close> are used up.
  \<open>arg\<close> is \<open>argv[1]\<close> when there is one. The assembly of \<open>spawn_key_grabber\<close> sets \<open>last_key\<close> to -1 and forks; \<open>child\<close> is the
  result of the system call, and the new thread stores one character after the other into \<open>last_key\<close>.
\<close>

datatype game_end = Vanished i32 | Running

definition sleep_ticks_of :: "addr option \<Rightarrow> mem \<Rightarrow> i32 outcome" where
  "sleep_ticks_of arg m = (case arg of None \<Rightarrow> Ret 75 | Some a \<Rightarrow> bnd (the_loop (atol a m)) (\<lambda>(n, _). Ret n))"

definition nibbles_main :: "(int \<Rightarrow> int \<Rightarrow> bool) \<Rightarrow> addr option \<Rightarrow> mem \<Rightarrow> i32 \<Rightarrow> apple list \<Rightarrow> (int \<times> int) list \<Rightarrow> mt_state \<Rightarrow>
    i32 list \<Rightarrow> (term_op list \<times> game_end) outcome" where
  "nibbles_main on_screen arg m child apples spot mt keys =
     bnd (sleep_ticks_of arg m) (\<lambda>ticks.
     bnd (the_loop (con_width_of on_screen)) (\<lambda>w.
     bnd (the_loop (find_height on_screen 0)) (\<lambda>h.
     if neg32 child then Ret ([Printf (bytes ''Cannot launch \"thread\" (%d)'' @ [10]) [child]], Vanished child)
     else
       let out = print_directions @ [Printf (bytes ''Press any key to begin nibbles'' @ [10]) []] in
       case seed_loop 0 keys of
         None \<Rightarrow> Ret (out, Running)
       | Some (out1, seed, keys) \<Rightarrow>
         bnd (nibbles on_screen w h ticks apples spot (sgenrand seed mt) keys) (\<lambda>(out2, rest).
         Ret (out @ out1 @ out2, if rest = None then Running else Vanished 0)))))"

end
