(* ===== verification/Nibbles_Props.thy ===== *)
theory Nibbles_Props
  imports Nibbles
begin

text \<open>
  The ring of nibbles.c as the list of the cells of the snake, head first: a move puts the new head in front and drops the
  tail unless an apple was eaten, and the test for the end looks at exactly these cells. From the initial snake on no turn
  fails on a console with room for a board.
\<close>

section \<open>The cells of the snake\<close>

definition cell :: "snake \<Rightarrow> nat \<Rightarrow> int \<times> int" where
  "cell s i = sn_spot s ! nat ((sn_start s - int i) mod 100)"

definition snake_body :: "snake \<Rightarrow> (int \<times> int) list" where
  "snake_body s = map (cell s) [0..<nat (sn_length s)]"

definition ring_ok :: "snake \<Rightarrow> bool" where
  "ring_ok s \<longleftrightarrow> length (sn_spot s) = 100 \<and> 0 \<le> sn_start s \<and> sn_start s < 100 \<and> 1 \<le> sn_length s \<and> sn_length s \<le> 100"

lemma smod_nonneg: "0 \<le> a \<Longrightarrow> 0 < b \<Longrightarrow> a smod b = a mod (b :: int)"
  by (auto simp: smod_int_alt_def sgn_if)

lemma ring_mod: "- 100 \<le> i \<Longrightarrow> ring i = i mod 100"
  by (simp add: ring_def snake_max_def smod_nonneg)

lemma body_hd_tl:
  "1 \<le> sn_length s \<Longrightarrow> hd (snake_body s) = cell s 0 \<and> set (tl (snake_body s)) = cell s ` {1..<nat (sn_length s)}"
proof -
  assume "1 \<le> sn_length s"
  then have "[0..<nat (sn_length s)] = 0 # [1..<nat (sn_length s)]" by (simp add: upt_conv_Cons)
  then show ?thesis by (simp add: snake_body_def)
qed

lemma bite_loop_run:
  assumes "0 \<le> start" "start < 100" "L \<le> 100" "length spot = 100"
  shows "1 \<le> j \<Longrightarrow> j \<le> L \<Longrightarrow> bite_loop spot p ((start - int L) mod 100) ((start - int j) mod 100) =
    Some (Ret (\<exists>i \<in> {j..<L}. spot ! nat ((start - int i) mod 100) = p))"
proof (induction "L - j" arbitrary: j)
  case 0
  then show ?case by (subst bite_loop.simps) simp
next
  case (Suc k)
  then have lt: "j < L" by simp
  have ne: "(start - int j) mod 100 \<noteq> (start - int L) mod 100"
  proof
    assume "(start - int j) mod 100 = (start - int L) mod 100"
    then have "(100 :: int) dvd (start - int j) - (start - int L)" by (simp add: mod_eq_dvd_iff)
    then have "100 dvd int (L - j)" using lt by (simp add: of_nat_diff)
    then have "100 dvd L - j" by presburger
    then show False using lt Suc.prems assms by (auto dest: dvd_imp_le)
  qed
  have r: "ring ((start - int j) mod 100 - 1) = (start - int (Suc j)) mod 100"
  proof -
    have "0 \<le> (start - int j) mod 100" by simp
    then have "ring ((start - int j) mod 100 - 1) = ((start - int j) mod 100 - 1) mod 100" by (intro ring_mod) linarith
    also have "\<dots> = (start - int (Suc j)) mod 100" by (simp add: mod_diff_left_eq algebra_simps)
    finally show ?thesis .
  qed
  have set: "{j..<L} = insert j {Suc j..<L}" using lt by auto
  have "k = L - Suc j" "1 \<le> Suc j" "Suc j \<le> L" using Suc.hyps(2) lt by simp_all
  moreover have "in_spot spot ((start - int j) mod 100)" using assms(4) by (simp add: in_spot_def)
  ultimately show ?case using Suc.hyps(1) [of "Suc j"] ne unfolding set
    by (subst bite_loop.simps) (simp add: r del: of_nat_Suc)
qed

text \<open>The end of the game: the head is outside the board, or on another cell of the snake.\<close>

definition crashed :: "int \<Rightarrow> int \<Rightarrow> (int \<times> int) list \<Rightarrow> bool" where
  "crashed w h cells \<longleftrightarrow>
     \<not> (1 \<le> fst (hd cells) \<and> fst (hd cells) \<le> w - 2 \<and> 1 \<le> snd (hd cells) \<and> snd (hd cells) \<le> h - 3) \<or> hd cells \<in> set (tl cells)"

text \<open>\<open>snake_disaster\<close> terminates and tells whether the snake has left the board or bitten itself.\<close>

theorem snake_disaster_iff: "ring_ok s \<Longrightarrow> snake_disaster w h s = Ret (if crashed w h (snake_body s) then -1 else 0)"
proof -
  assume ok: "ring_ok s"
  then have L: "sn_length s = int (nat (sn_length s))" "1 \<le> nat (sn_length s)" "nat (sn_length s) \<le> 100" by (auto simp: ring_ok_def)
  have st: "0 \<le> sn_start s" "sn_start s < 100" using ok by (simp_all add: ring_ok_def)
  have sp: "length (sn_spot s) = 100" "in_spot (sn_spot s) (sn_start s)" using ok by (simp_all add: ring_ok_def in_spot_def)
  have 0: "sn_spot s ! nat (sn_start s) = cell s 0" using st by (simp add: cell_def)
  have "bite_loop (sn_spot s) p (ring (sn_start s - sn_length s)) (ring (sn_start s - 1)) = Some (Ret (\<exists>i \<in> {1..<nat (sn_length s)}. cell s i = p))" for p
    using bite_loop_run [OF st L(3) sp(1), of 1 p] L st by (simp add: ring_mod cell_def)
  then have b: "bite_loop (sn_spot s) (cell s 0) (ring (sn_start s - sn_length s)) (ring (sn_start s - 1)) = Some (Ret (cell s 0 \<in> set (tl (snake_body s))))"
    using body_hd_tl [of s] L(2) by (simp add: image_iff) (metis (no_types))
  have hd: "hd (snake_body s) = cell s 0" using body_hd_tl [of s] L by simp
  obtain x y where xy: "cell s 0 = (x, y)" by (cases "cell s 0")
  show ?thesis using b sp(2) unfolding snake_disaster_def 0 xy Let_def prod.case crashed_def hd
    by (auto simp: the_loop_def outcome_simps simp del: bnd_Ret_iff)
qed


section \<open>A move\<close>

definition hit :: "int \<times> int \<Rightarrow> apple \<Rightarrow> bool" where
  "hit p a \<longleftrightarrow> ap_valid a = 1 \<and> (ap_x a, ap_y a) = p"

definition eaten :: "int \<times> int \<Rightarrow> apple list \<Rightarrow> nat" where
  "eaten p apples = length (filter (hit p) apples)"

definition uneat :: "int \<times> int \<Rightarrow> apple \<Rightarrow> apple" where
  "uneat p a = (if hit p a then a\<lparr>ap_valid := 0\<rparr> else a)"

lemma eat_apple_iff: "eat_apple p i (s, apples, score) =
    (if hit p (apples ! i) then (s\<lparr>sn_length := min 100 (sn_length s + 1)\<rparr>, apples[i := (apples ! i)\<lparr>ap_valid := 0\<rparr>], score + 10)
     else (s, apples, score))"
  by (simp add: eat_apple_def hit_def snake_max_def)

lemma eat_run:
  assumes "sn_length s \<le> 100"
  shows "n \<le> length apples \<Longrightarrow> fold (eat_apple p) [0..<n] (s, apples, score) =
    (s\<lparr>sn_length := min 100 (sn_length s + int (eaten p (take n apples)))\<rparr>, map (uneat p) (take n apples) @ drop n apples,
     score + 10 * int (eaten p (take n apples)))"
proof (induction n)
  case 0
  then show ?case using assms by (simp add: eaten_def min_def)
next
  case (Suc n)
  have nth: "(map (uneat p) (take n apples) @ drop n apples) ! n = apples ! n" using Suc.prems by (simp add: nth_append)
  have t: "take (Suc n) apples = take n apples @ [apples ! n]" using Suc.prems by (simp add: take_Suc_conv_app_nth)
  have d: "drop n apples = apples ! n # drop (Suc n) apples" using Suc.prems by (simp add: Cons_nth_drop_Suc)
  have up: "(map (uneat p) (take n apples) @ drop n apples)[n := a] = map (uneat p) (take n apples) @ a # drop (Suc n) apples" for a
    using Suc.prems by (simp add: list_update_append d)
  show ?case
  proof (cases "hit p (apples ! n)")
    case True
    then have "uneat p (apples ! n) = (apples ! n)\<lparr>ap_valid := 0\<rparr>" "eaten p (take n apples @ [apples ! n]) = Suc (eaten p (take n apples))"
      by (simp_all add: uneat_def eaten_def)
    with True Suc nth up show ?thesis unfolding t by (simp add: eat_apple_iff min_def)
  next
    case False
    then have "uneat p (apples ! n) = apples ! n" "eaten p (take n apples @ [apples ! n]) = eaten p (take n apples)"
      by (simp_all add: uneat_def eaten_def)
    with False Suc nth d show ?thesis unfolding t by (simp add: eat_apple_iff)
  qed
qed


lemma eaten_all: "length apples = 10 \<Longrightarrow> sn_length s \<le> 100 \<Longrightarrow> fold (eat_apple p) [0..<10] (s, apples, score) =
    (s\<lparr>sn_length := min 100 (sn_length s + int (eaten p apples))\<rparr>, map (uneat p) apples, score + 10 * int (eaten p apples))"
  using eat_run [of s 10 apples p score] by simp

lemma cell_after_move:
  assumes ok: "ring_ok s" and s': "sn_start s' = (sn_start s + 1) mod 100" "sn_spot s' = (sn_spot s)[nat ((sn_start s + 1) mod 100) := p]"
  shows "cell s' 0 = p" "i < 99 \<Longrightarrow> cell s' (Suc i) = cell s i"
proof -
  have len: "nat ((sn_start s + 1) mod 100) < length (sn_spot s)" using ok by (simp add: ring_ok_def nat_less_iff)
  then show "cell s' 0 = p" by (simp add: cell_def s')
  have e: "(sn_start s' - int (Suc i)) mod 100 = (sn_start s - int i) mod 100"
    unfolding s' by (simp add: mod_diff_left_eq)
  assume "i < 99"
  have "(sn_start s - int i) mod 100 \<noteq> (sn_start s + 1) mod 100"
  proof
    assume "(sn_start s - int i) mod 100 = (sn_start s + 1) mod 100"
    then have "(100 :: int) dvd (sn_start s + 1) - (sn_start s - int i)" by (simp add: mod_eq_dvd_iff dvd_diff_commute)
    then have "(100 :: int) dvd int (Suc i)" by (simp add: algebra_simps)
    then have "100 dvd Suc i" by presburger
    then show False using \<open>i < 99\<close> by (auto dest: dvd_imp_le)
  qed
  then have "nat ((sn_start s + 1) mod 100) \<noteq> nat ((sn_start s - int i) mod 100)" by (simp add: nat_eq_iff)
  then show "cell s' (Suc i) = cell s i" unfolding cell_def e unfolding s' by simp
qed

text \<open>The new body, as long as the snake has become.\<close>

lemma body_after_move:
  assumes ok: "ring_ok s" and s': "sn_start s' = (sn_start s + 1) mod 100" "sn_spot s' = (sn_spot s)[nat ((sn_start s + 1) mod 100) := p]"
    and l: "sn_length s' \<le> 100"
  shows "take (Suc (nat (sn_length s))) (snake_body s') = take (nat (sn_length s')) (p # snake_body s)"
proof (rule nth_equalityI)
  show "length (take (Suc (nat (sn_length s))) (snake_body s')) = length (take (nat (sn_length s')) (p # snake_body s))"
    by (simp add: snake_body_def min.commute)
  fix i assume "i < length (take (Suc (nat (sn_length s))) (snake_body s'))"
  then have i: "i < Suc (nat (sn_length s))" "i < nat (sn_length s')" by (simp_all add: snake_body_def)
  show "take (Suc (nat (sn_length s))) (snake_body s') ! i = take (nat (sn_length s')) (p # snake_body s) ! i"
  proof (cases i)
    case 0
    then show ?thesis using i cell_after_move(1) [OF ok s'] by (simp add: snake_body_def)
  next
    case (Suc k)
    then have "k < 99" using i(2) l by linarith
    then show ?thesis using i Suc cell_after_move(2) [OF ok s'] by (simp add: snake_body_def)
  qed
qed

definition directions :: "i32 set" where
  "directions = {snake_up, snake_down, snake_left, snake_right}"

lemma move_run:
  assumes ok: "ring_ok s" and p: "slither (sn_direction s) (cell s 0) = Some p" and a: "length apples = 10"
  shows "\<exists>out s'. move_snake on_screen s apples score = Ret (out, s', map (uneat p) apples, score + 10 * int (eaten p apples)) \<and>
    ring_ok s' \<and> sn_direction s' = sn_direction s \<and> sn_length s' = min 100 (sn_length s + int (eaten p apples)) \<and>
    take (Suc (nat (sn_length s))) (snake_body s') = take (nat (sn_length s')) (p # snake_body s)"
proof -
  have st: "0 \<le> sn_start s" "sn_start s < 100" and len: "sn_length s \<le> 100" "1 \<le> sn_length s" "length (sn_spot s) = 100"
    using ok by (simp_all add: ring_ok_def)
  have start: "(sn_start s + 1) smod snake_max = (sn_start s + 1) mod 100" using st by (simp add: snake_max_def smod_nonneg)
  have old: "sn_spot s ! nat (sn_start s) = cell s 0" using st by (simp add: cell_def)
  have "- 100 \<le> (sn_start s + 1) mod 100 - sn_length s" using len pos_mod_sign [of 100 "sn_start s + 1"] by linarith
  then have spots: "in_spot (sn_spot s) (sn_start s)" "in_spot (sn_spot s) ((sn_start s + 1) mod 100)"
    "in_spot (sn_spot s) (ring ((sn_start s + 1) mod 100 - sn_length s))"
    using st len by (simp_all add: in_spot_def ring_mod)
  obtain x y where xy: "p = (x, y)" by (cases p)
  obtain rx ry where r: "sn_spot s ! nat (ring ((sn_start s + 1) mod 100 - sn_length s)) = (rx, ry)" by fastforce
  let ?s = "s\<lparr>sn_start := (sn_start s + 1) mod 100, sn_spot := (sn_spot s)[nat ((sn_start s + 1) mod 100) := (x, y)]\<rparr>"
  let ?s' = "?s\<lparr>sn_length := min 100 (sn_length s + int (eaten p apples))\<rparr>"
  have "fold (eat_apple (x, y)) [0..<10] (?s, apples, score) = (?s', map (uneat p) apples, score + 10 * int (eaten p apples))"
    using eaten_all [OF a, of ?s "(x, y)" score] len(1) xy by simp
  then have "\<exists>out. move_snake on_screen s apples score = Ret (out, ?s', map (uneat p) apples, score + 10 * int (eaten p apples))"
    using p spots unfolding move_snake_def start old xy Let_def by (simp add: r)
  moreover have "ring_ok ?s'" using ok by (auto simp: ring_ok_def)
  moreover have "take (Suc (nat (sn_length s))) (snake_body ?s') = take (nat (sn_length ?s')) (p # snake_body s)"
    using xy by (intro body_after_move [OF ok]) simp_all
  ultimately show ?thesis by fastforce
qed

lemma slither_ok: "d \<in> directions \<Longrightarrow> \<exists>q. slither d p = Some q"
  by (cases p) (auto simp: directions_def slither_def)

text \<open>
  A move puts the next cell in the snake's direction in front of its cells and keeps as many of the old ones as its new
  length allows, which grows by one for each apple on that cell, up to 100; each of these apples scores 10 points and is gone.
\<close>

theorem move_snake_body:
  assumes "ring_ok s" "slither (sn_direction s) (hd (snake_body s)) = Some p" "length apples = 10"
  shows "\<exists>out s'. move_snake on_screen s apples score = Ret (out, s', map (uneat p) apples, score + 10 * int (eaten p apples)) \<and>
    ring_ok s' \<and> sn_length s' = min 100 (sn_length s + int (eaten p apples)) \<and>
    take (Suc (nat (sn_length s))) (snake_body s') = take (nat (sn_length s')) (p # snake_body s)"
proof -
  have "hd (snake_body s) = cell s 0" using body_hd_tl [of s] assms(1) by (simp add: ring_ok_def)
  with assms(2) have "slither (sn_direction s) (cell s 0) = Some p" by simp
  from move_run [OF assms(1) this assms(3), of on_screen score] show ?thesis by blast
qed

definition demo_snake :: snake where
  "demo_snake = init_snake (replicate 100 (0, 0))"

definition demo_apples :: "apple list" where
  "demo_apples = (replicate 10 \<lparr>ap_x = 0, ap_y = 0, ap_valid = 0\<rparr>)[3 := \<lparr>ap_x = 11, ap_y = 10, ap_valid = 1\<rparr>]"

lemma demo_snake: "snake_body demo_snake = replicate 10 (10, 10)" "ring_ok demo_snake" "sn_length demo_snake = 10"
    "slither (sn_direction demo_snake) (10, 10) = Some (11, 10)" "eaten (11, 10) demo_apples = 1" "length demo_apples = 10"
  by code_simp+

theorem move_snake_body_witness:
  "\<exists>out s'. move_snake (\<lambda>_ _. True) demo_snake demo_apples 5 = Ret (out, s', map (uneat (11, 10)) demo_apples, 15) \<and>
    ring_ok s' \<and> sn_length s' = 11 \<and> take 11 (snake_body s') = (11, 10) # replicate 10 (10, 10)"
proof -
  have "slither (sn_direction demo_snake) (hd (snake_body demo_snake)) = Some (11, 10)" using demo_snake(1,4) by simp
  from move_snake_body [OF demo_snake(2) this demo_snake(6), of "\<lambda>_ _. True" 5] show ?thesis
    unfolding demo_snake(1,3,5) by auto
qed

section \<open>The game\<close>

lemma steer_ok: "d \<in> directions \<Longrightarrow> steer key d \<in> directions"
  by (auto simp: directions_def steer_def)

lemma scaled_ok: "n \<noteq> 0 \<Longrightarrow> \<exists>k. scaled r n = Ret k"
proof -
  assume n: "n \<noteq> 0"
  have "(-1 :: u32) div n \<noteq> 0"
  proof
    assume "(-1 :: u32) div n = 0"
    then have "unat (-1 :: u32) div unat n = 0" by (simp add: unat_div [symmetric])
    moreover have "0 < unat n" using n by (simp add: unat_gt_0)
    moreover have "unat n \<le> unat (-1 :: u32)" by (simp add: word_le_nat_alt [symmetric])
    ultimately show False by (simp add: div_eq_0_iff)
  qed
  with n show ?thesis by (simp add: scaled_def)
qed

definition game_ok :: "game \<Rightarrow> bool" where
  "game_ok g \<longleftrightarrow> ring_ok (gm_snake g) \<and> sn_direction (gm_snake g) \<in> directions \<and> length (gm_apples g) = 10"

lemma int_word_ne_0: "0 < i \<Longrightarrow> i < 2 ^ 32 \<Longrightarrow> (word_of_int i :: i32) \<noteq> 0"
proof
  assume i: "0 < i" "i < 2 ^ 32" and z: "(word_of_int i :: i32) = 0"
  from arg_cong [OF z, of uint] i show False by (simp add: uint_word_of_int take_bit_int_eq_self)
qed

lemma new_apple_ok:
  assumes "3 \<le> w" "w \<le> 1024" "4 \<le> h" "h < 2 ^ 31" "length apples = 10"
  shows "\<exists>out apples' mt'. new_apple w h apples mt = Ret (out, apples', mt') \<and> length apples' = 10"
proof (cases "free_apple apples")
  case (Some spot)
  obtain r1 mt1 where 1: "genrand mt = (r1, mt1)" by fastforce
  obtain r2 mt2 where 2: "genrand mt1 = (r2, mt2)" by fastforce
  obtain x where x: "scaled r1 (word_of_int (w - 2)) = Ret x" using scaled_ok [OF int_word_ne_0 [of "w - 2"]] assms by force
  obtain y where y: "scaled r2 (word_of_int (h - 3)) = Ret y" using scaled_ok [OF int_word_ne_0 [of "h - 3"]] assms by force
  show ?thesis using assms(5) unfolding new_apple_def Some Let_def option.case 1 2 prod.case x y by (simp add: outcome_simps)
qed (use assms(5) in \<open>simp add: new_apple_def\<close>)

lemma game_turn_ok:
  assumes "game_ok g" "3 \<le> w" "w \<le> 1024" "4 \<le> h" "h < 2 ^ 31"
  shows "\<exists>out g'. game_turn on_screen w h ticks key g = Ret (out, g') \<and> game_ok g'"
proof -
  let ?s = "(gm_snake g)\<lparr>sn_direction := steer key (sn_direction (gm_snake g))\<rparr>"
  let ?g = "g\<lparr>gm_snake := ?s\<rparr>"
  have "\<exists>out g1. apple_turn w h ?g = Ret (out, g1) \<and> length (gm_apples g1) = 10 \<and> gm_snake g1 = ?s"
  proof (cases "gm_next_apple g = 0")
    case True
    from new_apple_ok [OF assms(2-5), of "gm_apples g" "gm_mt g"] assms(1) obtain out apples mt where
      n: "new_apple w h (gm_apples g) (gm_mt g) = Ret (out, apples, mt)" "length apples = 10" by (auto simp: game_ok_def)
    obtain r mt' where 1: "genrand mt = (r, mt')" by fastforce
    obtain k where "scaled r 20 = Ret k" using scaled_ok [of 20] by auto
    with True n 1 show ?thesis by (simp add: apple_turn_def outcome_simps)
  next
    case False
    then show ?thesis using assms(1) by (simp add: apple_turn_def game_ok_def)
  qed
  then obtain out1 g1 where g1: "apple_turn w h ?g = Ret (out1, g1)" "length (gm_apples g1) = 10" "gm_snake g1 = ?s" by blast
  have ok: "ring_ok ?s" "sn_direction ?s \<in> directions" using assms(1) steer_ok by (auto simp: game_ok_def ring_ok_def)
  obtain p where p: "slither (sn_direction ?s) (cell ?s 0) = Some p" using slither_ok [OF ok(2)] by blast
  from move_run [OF ok(1) p g1(2), of on_screen "gm_score g1"] obtain out2 s' where
    m: "move_snake on_screen ?s (gm_apples g1) (gm_score g1) = Ret (out2, s', map (uneat p) (gm_apples g1), gm_score g1 + 10 * int (eaten p (gm_apples g1)))"
      "ring_ok s'" "sn_direction s' = sn_direction ?s" by blast
  show ?thesis using m(2,3) ok(2) g1(2) unfolding game_turn_def Let_def g1(1)
    by (simp add: outcome_simps g1(3) m(1) game_ok_def del: bnd_Ret_iff)
qed

lemma game_loop_ok:
  assumes "3 \<le> w" "w \<le> 1024" "4 \<le> h" "h < 2 ^ 31"
  shows "game_ok g \<Longrightarrow> \<exists>out g' r. game_loop on_screen w h ticks keys g = Ret (out, g', r) \<and> game_ok g'"
proof (induction keys arbitrary: g)
  case (Cons key keys)
  from game_turn_ok [OF Cons.prems assms] obtain out1 g1 where g1: "game_turn on_screen w h ticks key g = Ret (out1, g1)" "game_ok g1" by blast
  from Cons.IH [OF g1(2)] obtain out2 g2 r where g2: "game_loop on_screen w h ticks keys g1 = Ret (out2, g2, r)" "game_ok g2" by blast
  show ?case using g1 g2 snake_disaster_iff [of "gm_snake g1" w h] by (simp add: game_ok_def outcome_simps del: bnd_Ret_iff)
qed simp

lemma init_snake_ok: "length old = 100 \<Longrightarrow> ring_ok (init_snake old) \<and> sn_direction (init_snake old) \<in> directions"
  by (simp add: ring_ok_def init_snake_def snake_min_def directions_def)

lemma play_game_ok:
  assumes "3 \<le> w" "w \<le> 1024" "4 \<le> h" "h < 2 ^ 31" "length old = 100" "length apples = 10"
  shows "\<exists>out g r. play_game on_screen w h ticks keys (init_snake old) apples score mt = Ret (out, g, r) \<and> game_ok g"
proof -
  have "game_ok \<lparr>gm_snake = init_snake old, gm_apples = map (\<lambda>a. a\<lparr>ap_valid := 0\<rparr>) apples, gm_next_apple = 0, gm_score = score, gm_mt = mt\<rparr>"
    using init_snake_ok [OF assms(5)] assms(6) by (simp add: game_ok_def)
  from game_loop_ok [OF assms(1-4) this] show ?thesis unfolding play_game_def by blast
qed

lemma nibbles_ok:
  assumes "3 \<le> w" "w \<le> 1024" "4 \<le> h" "h < 2 ^ 31" "length apples = 10"
  shows "length spot = 100 \<Longrightarrow> \<exists>out r. nibbles on_screen w h ticks apples spot mt keys = Ret (out, r)"
proof (induction keys arbitrary: spot mt rule: length_induct)
  case (1 keys)
  obtain out1 where d: "draw_border w h = Ret out1" using assms(2) by (simp add: draw_border_def)
  from play_game_ok [OF assms(1-4) 1(2) assms(5)] obtain out2 g rest where
    p: "play_game on_screen w h ticks keys (init_snake spot) apples 0 mt = Ret (out2, g, rest)" "game_ok g" by blast
  show ?case
  proof (cases rest)
    case None
    with d p show ?thesis by (subst nibbles.simps) simp
  next
    case (Some keys1)
    show ?thesis
    proof (cases "ask_again keys1")
      case None
      with Some d p show ?thesis by (subst nibbles.simps) (simp add: Let_def)
    next
      case (Some ak)
      then obtain again keys2 where ak: "ask_again keys1 = Some (again, keys2)" by (cases ak) auto
      have "length keys2 < length keys"
        using ask_again_len [OF ak] game_loop_len [OF p(1) [unfolded \<open>rest = Some keys1\<close> play_game_def]] by simp
      moreover have "length (sn_spot (gm_snake g)) = 100" using p(2) by (simp add: game_ok_def ring_ok_def)
      ultimately obtain out r where
        "nibbles on_screen w h ticks apples (sn_spot (gm_snake g)) (gm_mt g) keys2 = Ret (out, r)" using 1(1) by blast
      with ak \<open>rest = Some keys1\<close> d p show ?thesis by (subst nibbles.simps) (simp add: Let_def)
    qed
  qed
qed

text \<open>A console with the given numbers of columns and rows.\<close>

definition console_of :: "int \<Rightarrow> int \<Rightarrow> int \<Rightarrow> int \<Rightarrow> bool" where
  "console_of cols rows r c \<longleftrightarrow> 0 \<le> r \<and> r < rows \<and> 0 \<le> c \<and> c < cols"

lemma find_width_console: "0 < rows \<Longrightarrow> 0 \<le> w \<Longrightarrow> w \<le> cols \<Longrightarrow> find_width (console_of cols rows) w = Some cols"
proof (induction "nat (cols - w)" arbitrary: w)
  case 0
  then show ?case by (subst find_width.simps) (simp add: console_of_def)
next
  case (Suc k)
  then have "k = nat (cols - (w + 1))" "w < cols" by linarith+
  with Suc have "find_width (console_of cols rows) (w + 1) = Some cols" by simp
  then show ?case using Suc.prems \<open>w < cols\<close> by (subst find_width.simps) (simp add: console_of_def)
qed

lemma find_height_console: "0 < cols \<Longrightarrow> 0 \<le> h \<Longrightarrow> h \<le> rows \<Longrightarrow> find_height (console_of cols rows) h = Some rows"
proof (induction "nat (rows - h)" arbitrary: h)
  case 0
  then show ?case by (subst find_height.simps) (simp add: console_of_def)
next
  case (Suc k)
  then have "k = nat (rows - (h + 1))" "h < rows" by linarith+
  with Suc have "find_height (console_of cols rows) (h + 1) = Some rows" by simp
  then show ?case using Suc.prems \<open>h < rows\<close> by (subst find_height.simps) (simp add: console_of_def)
qed

text \<open>
  C40: On every console of at least 3 columns and 4 rows, started without an argument and whatever keys are pressed at
  whatever time, the program finds the size of the console and plays any number of games without dividing by zero,
  reading or writing outside an array or panicking on a direction.
\<close>

theorem nibbles_main_safe:
  assumes "3 \<le> cols" "4 \<le> rows" "rows < 2 ^ 31" "length spot = 100" "length apples = 10"
  shows "\<exists>out r. nibbles_main (console_of cols rows) None m child apples spot mt keys = Ret (out, r)"
proof -
  have w: "con_width_of (console_of cols rows) = Some (min 1024 cols)"
    using find_width_console [of rows 0 cols] assms(1,2) by (simp add: con_width_of_def)
  have h: "find_height (console_of cols rows) 0 = Some rows" using find_height_console assms(1,2) by simp
  have "\<exists>out r. nibbles (console_of cols rows) (min 1024 cols) rows 75 apples spot (sgenrand seed mt) ks = Ret (out, r)" for seed ks
    using assms by (intro nibbles_ok) auto
  note games = this
  have start: "nibbles_main (console_of cols rows) None m child apples spot mt keys =
      (if neg32 child then Ret ([Printf (bytes ''Cannot launch \"thread\" (%d)'' @ [10]) [child]], Vanished child)
       else case seed_loop 0 keys of
         None \<Rightarrow> Ret (print_directions @ [Printf (bytes ''Press any key to begin nibbles'' @ [10]) []], Running)
       | Some (out1, seed, keys) \<Rightarrow>
         bnd (nibbles (console_of cols rows) (min 1024 cols) rows 75 apples spot (sgenrand seed mt) keys) (\<lambda>(out2, rest).
         Ret ((print_directions @ [Printf (bytes ''Press any key to begin nibbles'' @ [10]) []]) @ out1 @ out2,
           if rest = None then Running else Vanished 0)))"
    unfolding nibbles_main_def w h sleep_ticks_of_def the_loop_def option.case bnd.simps Let_def ..
  show ?thesis
  proof (cases "seed_loop 0 keys")
    case None
    then show ?thesis unfolding start by auto
  next
    case (Some x)
    obtain out1 seed ks where x: "x = (out1, seed, ks)" by (cases x)
    from games [of seed ks] obtain out r where
      "nibbles (console_of cols rows) (min 1024 cols) rows 75 apples spot (sgenrand seed mt) ks = Ret (out, r)" by blast
    then show ?thesis unfolding start Some x option.case prod.case by (cases "neg32 child") simp_all
  qed
qed

theorem nibbles_main_safe_witness:
  "\<exists>out r. nibbles_main (console_of 80 25) None (\<lambda>_. 0) 7 demo_apples (replicate 100 (0, 0)) mt_start [-1, 100, 97, 119] = Ret (out, r)"
  by (rule nibbles_main_safe) (simp_all add: demo_snake(6))

text \<open>
  The random column is not kept inside the board: dividing by the rounded-down quotient gives \<open>n\<close>, the number of columns
  inside the border, for the largest random numbers, and the apple is then drawn on the border, where it cannot be eaten.
\<close>

lemma apple_on_border: "scaled 0xffffffff (80 - 2) = Ret 78"
  by code_simp

end
