(* ===== verification/Shell.thy ===== *)
theory Shell
  imports Stdio String_Copy Block_Copy
begin

text \<open>
  410user/progs/shell.c: reading a line, what the shell does with it, and its \<open>ls\<close>, which sorts the names it lists. The
  names are pointers to strings in memory. The kernel is a record of parameters: \<open>si_readfile\<close> and \<open>si_readline\<close> give the
  result of the call and the memory after it, \<open>si_on_screen\<close> says which rows the cursor can be set to. What the shell does to
  the outside is a list of events.
\<close>

section \<open>The command line\<close>

datatype shell_action = Again | Exit_Shell | List_Files | Run "addr list"

text \<open>\<open>while((cmd_argv[j++] = strtok(NULL, separators)));\<close> A line of 1023 characters has at most 512 words.\<close>

partial_function (option) shell_argv :: "addr list \<Rightarrow> addr \<Rightarrow> addr \<Rightarrow> mem \<Rightarrow> (addr list \<times> addr \<times> mem) option" where
  "shell_argv argv sep lastp m =
     (case strtok 0 sep lastp m of None \<Rightarrow> None
      | Some (t, lastp, m) \<Rightarrow> if t = 0 then Some (argv, lastp, m) else shell_argv (argv @ [t]) sep lastp m)"

text \<open>\<open>exit_s\<close> and \<open>ls_s\<close> are the addresses of the literals the first word is compared with.\<close>

definition shell_line :: "addr \<Rightarrow> addr \<Rightarrow> addr \<Rightarrow> addr \<Rightarrow> addr \<Rightarrow> mem \<Rightarrow> (shell_action \<times> addr \<times> mem) option" where
  "shell_line buf sep exit_s ls_s lastp m =
     (case strtok buf sep lastp m of None \<Rightarrow> None
      | Some (t, lastp, m) \<Rightarrow>
        if t = 0 then Some (Again, lastp, m)
        else
          case strcmp m t exit_s of None \<Rightarrow> None
          | Some r \<Rightarrow>
            if r = 0 then Some (Exit_Shell, lastp, m)
            else
              case strcmp m t ls_s of None \<Rightarrow> None
              | Some r \<Rightarrow>
                if r = 0 then Some (List_Files, lastp, m)
                else map_option (\<lambda>(argv, l, m). (Run argv, l, m)) (shell_argv [t] sep lastp m))"

section \<open>Listing the files\<close>

text \<open>The number of names in the buffer, or a negative number when it could not be read or was filled.\<close>

definition count_names :: "mem \<Rightarrow> addr \<Rightarrow> int \<Rightarrow> nat" where
  "count_names m buf n = length (filter (\<lambda>i. m (buf + word_of_int i) = 0) [0..n - 1])"

definition ls :: "(addr \<Rightarrow> i32 \<Rightarrow> mem \<Rightarrow> i32 \<times> mem) \<Rightarrow> i32 \<Rightarrow> addr \<Rightarrow> mem \<Rightarrow> i32 \<times> mem" where
  "ls readfile sz buf m =
     (let (amt, m) = readfile buf sz m in
      if neg32 amt then (amt, m)
      else if amt = sz then (-1, m)
      else (of_nat (count_names m buf (sint amt - 1)), m))"

text \<open>\<open>while ((len = strlen(bufptr)) > 0) ...\<close>, with the room left in the array of names.\<close>

fun scan_names :: "nat \<Rightarrow> addr \<Rightarrow> mem \<Rightarrow> addr list outcome" where
  "scan_names room bufptr m =
     bnd (the_loop (strlen m bufptr)) (\<lambda>len.
     if \<not> 0 <s len then Ret []
     else case room of 0 \<Rightarrow> Fault | Suc room \<Rightarrow> bnd (scan_names room (bufptr + len + 1) m) (\<lambda>ps. Ret (bufptr # ps)))"

fun sort_pass :: "mem \<Rightarrow> nat list \<Rightarrow> bool \<Rightarrow> addr list \<Rightarrow> (bool \<times> addr list) option" where
  "sort_pass m [] swapped names = Some (swapped, names)"
| "sort_pass m (i # is) swapped names =
     (case strcmp m (names ! i) (names ! (i + 1)) of None \<Rightarrow> None
      | Some r \<Rightarrow>
        if 0 <s r then sort_pass m is True (names[i := names ! (i + 1), i + 1 := names ! i])
        else sort_pass m is swapped names)"

partial_function (option) sort_names :: "mem \<Rightarrow> nat \<Rightarrow> addr list \<Rightarrow> addr list option" where
  "sort_names m num_entries names =
     (case sort_pass m [0..<num_entries - 1] False names of None \<Rightarrow> None
      | Some (swapped, names) \<Rightarrow> if swapped then sort_names m num_entries names else Some names)"

text \<open>The lines that are printed for the sorted names; a prompt before each screen after the first.\<close>

definition ls_line :: "int \<Rightarrow> int \<Rightarrow> addr \<Rightarrow> (byte list \<times> u32 list) list outcome" where
  "ls_line height i name =
     (if i \<noteq> 0 \<and> height - 2 = 0 then Fault
      else Ret ((if i \<noteq> 0 \<and> i smod (height - 2) = 0 then [(bytes ''Hit a key to continue'' @ [10], [])] else []) @
        [(bytes ''%s'' @ [10], [name])]))"

fun ls_lines :: "int \<Rightarrow> int \<Rightarrow> addr list \<Rightarrow> (byte list \<times> u32 list) list outcome" where
  "ls_lines height i [] = Ret []"
| "ls_lines height i (name # names) =
     bnd (ls_line height i name) (\<lambda>l. bnd (ls_lines height (i + 1) names) (\<lambda>ls. Ret (l @ ls)))"

partial_function (option) console_height :: "(int \<Rightarrow> bool) \<Rightarrow> int \<Rightarrow> int option" where
  "console_height on_screen h = (if on_screen h then console_height on_screen (h + 1) else Some h)"

text \<open>\<open>print_ls\<close> from the filled buffer on; an entry without a name is NULL and faults in the first comparison.\<close>

definition print_ls :: "(int \<Rightarrow> bool) \<Rightarrow> nat \<Rightarrow> addr \<Rightarrow> mem \<Rightarrow> console outcome" where
  "print_ls on_screen num_entries buf m =
     bnd (scan_names num_entries buf m) (\<lambda>names.
     bnd (if length names < num_entries \<and> 1 < num_entries then Fault
          else the_loop (sort_names m num_entries (names @ replicate (num_entries - length names) 0))) (\<lambda>names.
     bnd (if num_entries \<le> 1 then Ret 0 else the_loop (console_height on_screen 0)) (\<lambda>height.
     bnd (ls_lines height 0 names) (\<lambda>ls. printfs ls m))))"

section \<open>Reading and running\<close>

datatype shell_event =
    Sh_Print "byte list" | Sh_Console console | Sh_Exec "addr list" | Sh_Exit i32 | Sh_Wait

record shell_in =
  si_simics :: "addr \<Rightarrow> i32 \<Rightarrow> mem \<Rightarrow> mem"
  si_readline :: "i32 \<Rightarrow> addr \<Rightarrow> mem \<Rightarrow> i32 \<times> mem"
  si_readfile :: "addr \<Rightarrow> i32 \<Rightarrow> mem \<Rightarrow> i32 \<times> mem"
  si_malloc :: addr
  si_realloc :: "addr \<Rightarrow> i32 \<Rightarrow> mem \<Rightarrow> addr \<times> mem"
  si_calloc :: bool
  si_on_screen :: "int \<Rightarrow> bool"
  si_fork :: i32
  si_wait :: i32
  si_status :: i32

definition mystical_readline :: "shell_in \<Rightarrow> i32 \<Rightarrow> addr \<Rightarrow> mem \<Rightarrow> (i32 \<times> mem) outcome" where
  "mystical_readline I len buf m =
     (if len <=s 0 then Ret (0, m)
      else
        let m = si_simics I buf len (m(buf := 0)) in
        if m buf \<noteq> 0 then bnd (the_loop (strlen m buf)) (\<lambda>n. Ret (n, m)) else Ret (si_readline I len buf m))"

definition static_getchar :: "shell_in \<Rightarrow> addr \<Rightarrow> mem \<Rightarrow> (i32 \<times> mem) outcome" where
  "static_getchar I buf m = bnd (mystical_readline I 2 buf m) (\<lambda>(_, m). Ret (sx (m buf), m))"

text \<open>
  \<open>while ((num_entries = ls(size, buf)) < 0) ...\<close>: the buffer doubles until the listing fits. A doubling beyond \<open>2 ^ 30\<close>
  overflows the int.
\<close>

partial_function (option) ls_loop :: "shell_in \<Rightarrow> i32 \<Rightarrow> addr \<Rightarrow> mem \<Rightarrow> (i32 \<times> addr \<times> mem) outcome option" where
  "ls_loop I sz buf m =
     (case ls (si_readfile I) sz buf m of (n, m) \<Rightarrow>
      if neg32 n then
        if 0x40000000 <=s sz then Some Fault
        else case si_realloc I buf (sz * 2) m of (buf, m) \<Rightarrow> ls_loop I (sz * 2) buf m
      else Some (Ret (n, buf, m)))"

text \<open>
  \<open>print_ls\<close> from its start. \<open>calloc\<close> is \<open>_calloc\<close> here, which divides by its first argument; without the array the first
  name is stored or read through NULL.
\<close>

definition list_files :: "shell_in \<Rightarrow> mem \<Rightarrow> (console \<times> mem) outcome" where
  "list_files I m =
     bnd (printf (bytes ''Listing the user tests'' @ [10]) [] m) (\<lambda>con.
     bnd (bnd (the_loop (ls_loop I 4096 (si_malloc I) m)) (\<lambda>r. r)) (\<lambda>(n, buf, m).
     if n = 0 \<or> \<not> si_calloc I then Fault
     else bnd (print_ls (si_on_screen I) (nat (sint n)) buf m) (\<lambda>con'. Ret (con @ con', m))))"

text \<open>
  What follows the parsing of a command: the child replaces itself or exits, the parent waits. \<open>sizeof(forkerrmsg)\<close> counts the
  NUL.
\<close>

definition shell_run :: "shell_in \<Rightarrow> addr list \<Rightarrow> mem \<Rightarrow> (shell_event list \<times> bool) outcome" where
  "shell_run I argv m =
     (if neg32 (si_fork I) then Ret ([Sh_Print (bytes ''Shell: Cannot fork process.'' @ [10, 0])], True)
      else if si_fork I = 0 then Ret ([Sh_Exec argv, Sh_Exit (-1)], False)
      else bnd (if neg32 (si_wait I) then printf ([10] @ bytes ''shell: wait on process %d failed!'' @ [10]) [si_fork I] m
          else printf ([10] @ bytes ''shell: process %d finished with exit status %d'' @ [10]) [si_wait I, si_status I] m)
        (\<lambda>con. Ret ([Sh_Wait, Sh_Console con], True)))"

text \<open>One iteration of the loop; the boolean says whether the shell goes on. A negative \<open>n\<close> is an index before \<open>buf\<close>.\<close>

definition shell_iter ::
  "shell_in \<Rightarrow> addr \<Rightarrow> addr \<Rightarrow> addr \<Rightarrow> addr \<Rightarrow> addr \<Rightarrow> mem \<Rightarrow> (shell_event list \<times> bool \<times> addr \<times> mem) outcome" where
  "shell_iter I buf sep exit_s ls_s lastp m =
     bnd (mystical_readline I (1024 - 1) buf (bzero buf 1024 m)) (\<lambda>(n, m).
     let prompt = Sh_Print (bytes ''[410-shell]$ '') in
     if n = 0 then Ret ([prompt, Sh_Print (bytes ''Readline returned nothing!'' @ [10])], True, lastp, m)
     else if 1024 <=s n then Ret ([prompt, Sh_Print (bytes ''That string is too long.'' @ [10]), Sh_Exit (-1)], False, lastp, m)
     else if m (buf + (1024 - 1)) \<noteq> 0
       then Ret ([prompt, Sh_Print (bytes ''I'' @ [39] @ bytes ''ve lost null termination!'' @ [10]), Sh_Exit (-1)], False, lastp, m)
     else if neg32 n then Fault
     else bnd (the_loop (shell_line buf sep exit_s ls_s lastp (m(buf + n := 0)))) (\<lambda>(act, lastp, m).
       case act of
         Again \<Rightarrow> Ret ([prompt], True, lastp, m)
       | Exit_Shell \<Rightarrow> Ret ([prompt, Sh_Print (bytes ''Exiting shell...'' @ [10]), Sh_Exit 0], False, lastp, m)
       | List_Files \<Rightarrow> bnd (list_files I m) (\<lambda>(con, m). Ret ([prompt, Sh_Console con], True, lastp, m))
       | Run argv \<Rightarrow> bnd (shell_run I argv m) (\<lambda>(ev, go). Ret (prompt # ev, go, lastp, m))))"

text \<open>The shell on what the kernel gives in each iteration, as long as there is any.\<close>

fun shell_loop ::
  "shell_in list \<Rightarrow> addr \<Rightarrow> addr \<Rightarrow> addr \<Rightarrow> addr \<Rightarrow> addr \<Rightarrow> mem \<Rightarrow> shell_event list outcome" where
  "shell_loop [] buf sep exit_s ls_s lastp m = Ret []"
| "shell_loop (I # Is) buf sep exit_s ls_s lastp m =
     bnd (shell_iter I buf sep exit_s ls_s lastp m) (\<lambda>(ev, go, lastp, m).
     if go then bnd (shell_loop Is buf sep exit_s ls_s lastp m) (\<lambda>ev'. Ret (ev @ ev')) else Ret ev)"

definition shell_main :: "shell_in list \<Rightarrow> addr \<Rightarrow> addr \<Rightarrow> addr \<Rightarrow> addr \<Rightarrow> mem \<Rightarrow> shell_event list outcome" where
  "shell_main Is buf sep exit_s ls_s m =
     bnd (shell_loop Is buf sep exit_s ls_s 0 m) (\<lambda>ev. Ret (Sh_Print (bytes ''Starting shell...'' @ [10]) # ev))"

end
