(* ===== verification/Shell_Props.thy ===== *)
theory Shell_Props
  imports Shell "HOL-Library.Multiset"
begin

text \<open>
  The sort of the shell's \<open>ls\<close>: exchanges of neighbours that are out of order, until a pass finds none. What it needs of
  strcmp is the contract of a comparison function, the locale \<open>comparator\<close>; the pointers to strings in memory with
  strcmp are an instance. Then the lines: the words of a line reach the child of the shell.
\<close>

section \<open>Comparison functions\<close>

locale comparator =
  fixes cmp :: "'a \<Rightarrow> 'a \<Rightarrow> i32" and A :: "'a set"
  assumes swap: "x \<in> A \<Longrightarrow> y \<in> A \<Longrightarrow> 0 <s cmp x y \<longleftrightarrow> neg32 (cmp y x)"
    and trans: "x \<in> A \<Longrightarrow> y \<in> A \<Longrightarrow> z \<in> A \<Longrightarrow> cmp x y <=s 0 \<Longrightarrow> cmp y z <=s 0 \<Longrightarrow> cmp x z <=s 0"
begin

definition below :: "'a set \<Rightarrow> ('a \<times> 'a) set" where
  "below S = {(x, y). x \<in> S \<and> y \<in> S \<and> 0 <s cmp y x}"

lemma not_pos: "\<not> 0 <s cmp x y \<longleftrightarrow> cmp x y <=s 0"
  by (simp add: word_sless_alt word_sle_eq not_less)

lemma below_trans: "S \<subseteq> A \<Longrightarrow> trans (below S)"
proof (rule transI)
  fix x y z assume S: "S \<subseteq> A" and xy: "(x, y) \<in> below S" and yz: "(y, z) \<in> below S"
  then have m: "x \<in> A" "y \<in> A" "z \<in> A" "x \<in> S" "z \<in> S" and p: "0 <s cmp y x" "0 <s cmp z y" by (auto simp: below_def)
  have "0 <s cmp z x"
  proof (rule ccontr)
    assume "\<not> 0 <s cmp z x"
    then have "cmp z x <=s 0" by (simp add: not_pos)
    moreover have "cmp x y <=s 0" using p(1) swap [OF m(2,1)] by (simp add: word_sless_alt word_sle_eq)
    ultimately have "cmp z y <=s 0" by (rule trans [OF m(3,1,2)])
    with p(2) show False by (simp add: not_pos [symmetric])
  qed
  then show "(x, z) \<in> below S" using m by (simp add: below_def)
qed

lemma below_wf: "finite S \<Longrightarrow> S \<subseteq> A \<Longrightarrow> wf (below S)"
proof (rule finite_acyclic_wf)
  assume S: "finite S" "S \<subseteq> A"
  show "finite (below S)" by (rule finite_subset [OF _ finite_cartesian_product [OF S(1) S(1)]]) (auto simp: below_def)
  have "(x, x) \<notin> below S" for x
  proof
    assume "(x, x) \<in> below S"
    then have "x \<in> A" "0 <s cmp x x" using S(2) by (auto simp: below_def)
    with swap [of x x] show False by (simp add: word_sless_alt)
  qed
  then show "acyclic (below S)" using below_trans [OF S(2)] by (simp add: acyclic_irrefl trancl_id irrefl_def)
qed

lemma exchange_lex:
  assumes "i + 1 < length xs" "set xs \<subseteq> S" "0 <s cmp (xs ! i) (xs ! (i + 1))"
  shows "(xs[i := xs ! (i + 1), i + 1 := xs ! i], xs) \<in> lex (below S)"
proof -
  define p where "p = take i xs"
  define q where "q = drop (i + 2) xs"
  define x where "x = xs ! i"
  define y where "y = xs ! (i + 1)"
  have "drop i xs = x # y # q" using assms(1) by (simp add: x_def y_def q_def Cons_nth_drop_Suc)
  then have xs: "xs = p @ x # y # q" using append_take_drop_id [of i xs] by (simp add: p_def)
  have len: "length p = i" using assms(1) by (simp add: p_def)
  have "(p @ x # y # q)[i := y, i + 1 := x] = p @ y # x # q" by (simp add: list_update_append len [symmetric])
  then have ys: "xs[i := xs ! (i + 1), i + 1 := xs ! i] = p @ y # x # q" unfolding x_def [symmetric] y_def [symmetric] xs [symmetric] .
  have "(y, x) \<in> below S" using assms by (auto simp: below_def x_def y_def)
  then have "(p @ y # x # q, p @ x # y # q) \<in> lex (below S)" unfolding lex_conv by auto
  then show ?thesis unfolding ys xs [symmetric] .
qed

lemma neighbours_sorted:
  assumes "set xs \<subseteq> A" "\<And>i. i + 1 < length xs \<Longrightarrow> cmp (xs ! i) (xs ! (i + 1)) <=s 0"
  shows "sorted_wrt (\<lambda>x y. cmp x y <=s 0) xs"
proof -
  let ?P = "\<lambda>x y. x \<in> A \<and> y \<in> A \<and> cmp x y <=s 0"
  have "transp ?P" using trans by (auto intro!: transpI)
  moreover have "\<forall>i. Suc i < length xs \<longrightarrow> ?P (xs ! i) (xs ! Suc i)" using assms by (auto dest: nth_mem)
  ultimately have "sorted_wrt ?P xs" by (simp add: sorted_wrt_iff_nth_Suc_transp)
  then show ?thesis by (rule sorted_wrt_mono_rel [rotated]) simp
qed

end

section \<open>strcmp as a comparison function\<close>

definition name_cmp :: "mem \<Rightarrow> addr \<Rightarrow> addr \<Rightarrow> i32" where
  "name_cmp m a b = (case strcmp m a b of None \<Rightarrow> 0 | Some r \<Rightarrow> r)"

definition valid_names :: "mem \<Rightarrow> addr set" where
  "valid_names m = {a. \<exists>s. cstr m a s}"

lemma strcmp_name: "cstr m a s \<Longrightarrow> cstr m b t \<Longrightarrow> strcmp m a b = Some (name_cmp m a b)"
  using strcmp_cstr [of m a s b t] by (auto simp: name_cmp_def)

lemma name_cmp_order:
  assumes "cstr m a s" "cstr m b t"
  shows "neg32 (name_cmp m a b) \<longleftrightarrow> ord_class.lexordp s t" "0 <s name_cmp m a b \<longleftrightarrow> ord_class.lexordp t s"
    "name_cmp m a b <=s 0 \<longleftrightarrow> \<not> ord_class.lexordp t s"
proof -
  from strcmp_cstr [OF assms] obtain r where r: "strcmp m a b = Some r" "r = 0 \<longleftrightarrow> s = t" "neg32 r \<longleftrightarrow> ord_class.lexordp s t" by blast
  have n: "name_cmp m a b = r" using r(1) by (simp add: name_cmp_def)
  have lin: "ord_class.lexordp s t \<or> s = t \<or> ord_class.lexordp t s" by (rule lexordp_linear)
  have irr: "\<not> ord_class.lexordp s s" for s :: "byte list" by (rule lexordp_irreflexive')
  have asym: "\<not> (ord_class.lexordp s t \<and> ord_class.lexordp t s)" using lexordp_antisym [of s t] by blast
  have pos: "0 <s r \<longleftrightarrow> \<not> neg32 r \<and> r \<noteq> 0" using sint_0_iff [of r] by (auto simp: word_sless_alt)
  show "neg32 (name_cmp m a b) \<longleftrightarrow> ord_class.lexordp s t" using n r(3) by simp
  show "0 <s name_cmp m a b \<longleftrightarrow> ord_class.lexordp t s" unfolding n pos using r(2,3) lin irr asym by auto
  then show "name_cmp m a b <=s 0 \<longleftrightarrow> \<not> ord_class.lexordp t s" unfolding n by (simp add: word_sless_alt word_sle_eq linorder_not_less [symmetric])
qed

interpretation names: comparator "name_cmp m" "valid_names m" for m
proof
  fix a b c assume "a \<in> valid_names m" "b \<in> valid_names m"
  then obtain s t where st: "cstr m a s" "cstr m b t" by (auto simp: valid_names_def)
  show "0 <s name_cmp m a b \<longleftrightarrow> neg32 (name_cmp m b a)" unfolding name_cmp_order [OF st] name_cmp_order [OF st(2,1)] ..
  assume "c \<in> valid_names m"
  then obtain u where u: "cstr m c u" by (auto simp: valid_names_def)
  assume "name_cmp m a b <=s 0" "name_cmp m b c <=s 0"
  then have "\<not> ord_class.lexordp t s" "\<not> ord_class.lexordp u t" using name_cmp_order(3) [OF st] name_cmp_order(3) [OF st(2) u] by simp_all
  moreover have "ord_class.lexordp s t \<or> s = t \<or> ord_class.lexordp t s" "ord_class.lexordp t u \<or> t = u \<or> ord_class.lexordp u t"
    by (rule lexordp_linear)+
  ultimately have "\<not> ord_class.lexordp u s" using lexordp_trans lexordp_antisym by metis
  then show "name_cmp m a c <=s 0" using name_cmp_order(3) [OF st(1) u] by simp
qed


section \<open>The sort\<close>

lemma exchange_mset: "i + 1 < length xs \<Longrightarrow> mset (xs[i := xs ! (i + 1), i + 1 := xs ! i]) = mset xs"
  using mset_swap [of "i + 1" xs i] by simp

text \<open>A pass only makes the list smaller, and one that exchanges nothing has compared all the neighbours.\<close>

lemma sort_pass_run:
  assumes S: "S \<subseteq> valid_names m"
  shows "\<forall>i \<in> set is. i + 1 < length xs \<Longrightarrow> set xs \<subseteq> S \<Longrightarrow>
    \<exists>sw' ys. sort_pass m is sw xs = Some (sw', ys) \<and> mset ys = mset xs \<and> (sw \<longrightarrow> sw') \<and>
      (ys, xs) \<in> (lex (names.below m S))\<^sup>* \<and> (sw' \<and> \<not> sw \<longrightarrow> (ys, xs) \<in> (lex (names.below m S))\<^sup>+) \<and>
      (\<not> sw' \<longrightarrow> ys = xs \<and> (\<forall>i \<in> set is. name_cmp m (xs ! i) (xs ! (i + 1)) <=s 0))"
proof (induction "is" arbitrary: sw xs)
  case (Cons i "is")
  have i: "i + 1 < length xs" using Cons.prems(1) by simp
  then have "xs ! i \<in> set xs" "xs ! (i + 1) \<in> set xs" by simp_all
  then have "xs ! i \<in> valid_names m" "xs ! (i + 1) \<in> valid_names m" using Cons.prems(2) S by blast+
  then have cmp: "strcmp m (xs ! i) (xs ! (i + 1)) = Some (name_cmp m (xs ! i) (xs ! (i + 1)))"
    by (auto simp: valid_names_def intro: strcmp_name)
  show ?case
  proof (cases "0 <s name_cmp m (xs ! i) (xs ! (i + 1))")
    case True
    let ?xs = "xs[i := xs ! (i + 1), i + 1 := xs ! i]"
    have m: "mset ?xs = mset xs" by (rule exchange_mset [OF i])
    have s: "set ?xs = set xs" "length ?xs = length xs" using mset_eq_setD [OF m] by simp_all
    have "\<forall>i \<in> set is. i + 1 < length ?xs" "set ?xs \<subseteq> S" using Cons.prems s by simp_all
    from Cons.IH [OF this, of True] obtain sw' ys where
      ys: "sort_pass m is True ?xs = Some (sw', ys)" "mset ys = mset ?xs" "sw'" "(ys, ?xs) \<in> (lex (names.below m S))\<^sup>*" by blast
    have "(?xs, xs) \<in> lex (names.below m S)" using names.exchange_lex [OF i Cons.prems(2) True] .
    with ys(4) have "(ys, xs) \<in> (lex (names.below m S))\<^sup>+" by (rule rtrancl_into_trancl1)
    then show ?thesis using ys(1-3) m cmp True by (auto intro: trancl_into_rtrancl)
  next
    case False
    have "\<forall>i \<in> set is. i + 1 < length xs" using Cons.prems(1) by simp
    from Cons.IH [OF this Cons.prems(2), of sw] show ?thesis using cmp False by (auto simp: names.not_pos)
  qed
qed simp

lemma sort_names_run:
  assumes S: "finite S" "S \<subseteq> valid_names m"
  shows "set xs \<subseteq> S \<Longrightarrow> n = length xs \<Longrightarrow>
    \<exists>ys. sort_names m n xs = Some ys \<and> mset ys = mset xs \<and> sorted_wrt (\<lambda>a b. name_cmp m a b <=s 0) ys"
proof (induction xs rule: wf_induct_rule [OF wf_trancl [OF wf_lex [OF names.below_wf [OF S]]]])
  case (1 xs)
  have "\<forall>i \<in> set [0..<n - 1]. i + 1 < length xs" using 1(3) by auto
  from sort_pass_run [OF S(2) this 1(2), of False] obtain sw ys where
    p: "sort_pass m [0..<n - 1] False xs = Some (sw, ys)" "mset ys = mset xs" "sw \<longrightarrow> (ys, xs) \<in> (lex (names.below m S))\<^sup>+"
      "\<not> sw \<longrightarrow> ys = xs \<and> (\<forall>i \<in> set [0..<n - 1]. name_cmp m (xs ! i) (xs ! (i + 1)) <=s 0)" by blast
  show ?case
  proof (cases sw)
    case True
    have "set ys \<subseteq> S" "n = length ys" using 1(2,3) mset_eq_setD [OF p(2)] mset_eq_length [OF p(2)] by simp_all
    from 1(1) [OF p(3) [rule_format, OF True] this] obtain zs where
      "sort_names m n ys = Some zs" "mset zs = mset ys" "sorted_wrt (\<lambda>a b. name_cmp m a b <=s 0) zs" by blast
    then show ?thesis using p(1,2) True by (subst sort_names.simps) simp
  next
    case False
    then have "ys = xs" "\<And>i. i + 1 < length xs \<Longrightarrow> name_cmp m (xs ! i) (xs ! (i + 1)) <=s 0" using p(4) 1(3) by auto
    then have "sorted_wrt (\<lambda>a b. name_cmp m a b <=s 0) xs" using 1(2) S(2) by (intro names.neighbours_sorted) auto
    then show ?thesis using p(1) False \<open>ys = xs\<close> by (subst sort_names.simps) simp
  qed
qed

text \<open>
  the sort of \<open>ls\<close> terminates and returns the pointers in an order in which the strings they point to are sorted
  lexicographically as unsigned bytes; it only rearranges the pointers.
\<close>

theorem sort_names_sorts:
  assumes "\<forall>a \<in> set names. \<exists>s. cstr m a s"
  shows "\<exists>ys. sort_names m (length names) names = Some ys \<and> mset ys = mset names \<and>
    sorted_wrt (\<lambda>a b. \<forall>s t. cstr m a s \<and> cstr m b t \<longrightarrow> \<not> ord_class.lexordp t s) ys"
proof -
  have "set names \<subseteq> valid_names m" using assms by (auto simp: valid_names_def)
  from sort_names_run [OF _ this, of names] obtain ys where
    ys: "sort_names m (length names) names = Some ys" "mset ys = mset names" "sorted_wrt (\<lambda>a b. name_cmp m a b <=s 0) ys" by auto
  have "sorted_wrt (\<lambda>a b. \<forall>s t. cstr m a s \<and> cstr m b t \<longrightarrow> \<not> ord_class.lexordp t s) ys"
    using ys(3) by (rule sorted_wrt_mono_rel [rotated]) (use name_cmp_order(3) in blast)
  with ys show ?thesis by blast
qed

theorem sort_names_sorts_witness:
  "\<exists>ys. sort_names demo_strings (length [1003, 1000 :: addr]) [1003, 1000] = Some ys \<and> mset ys = mset [1003, 1000] \<and>
    sorted_wrt (\<lambda>a b. \<forall>s t. cstr demo_strings a s \<and> cstr demo_strings b t \<longrightarrow> \<not> ord_class.lexordp t s) ys"
proof -
  have "\<exists>s. cstr demo_strings 1003 s" "\<exists>s. cstr demo_strings 1000 s" by (rule exI, rule demo_strings)+
  then have "\<forall>a \<in> set [1003, 1000]. \<exists>s. cstr demo_strings a s" by simp
  then show ?thesis by (rule sort_names_sorts)
qed

section \<open>A line\<close>

text \<open>The loop over the words of a line collects what the loop of a client of strtok does.\<close>

lemma shell_argv_all:
  "strtok_all k 0 sep l m = Some (ps, m') \<Longrightarrow> \<exists>l'. shell_argv argv sep l m = Some (argv @ ps, l', m')"
proof (induction k arbitrary: l m ps argv)
  case (Suc k)
  then obtain t l1 m1 where t: "strtok 0 sep l m = Some (t, l1, m1)" by (auto split: option.splits)
  show ?case
  proof (cases "t = 0")
    case True
    with t Suc.prems show ?thesis by (subst shell_argv.simps) simp
  next
    case False
    with t Suc.prems obtain qs where q: "strtok_all k 0 sep l1 m1 = Some (qs, m')" "ps = t # qs" by auto
    from Suc.IH [OF q(1), of "argv @ [t]"] show ?thesis using t False q(2) by (subst shell_argv.simps) auto
  qed
qed simp

text \<open>The bytes between words: blank, tab and newline.\<close>

definition blanks :: "byte set" where
  "blanks = {32, 9, 10}"

text \<open>A line \<open>s\<close> in \<open>buf\<close>, with the separators and the two literals elsewhere.\<close>

definition line_ready :: "mem \<Rightarrow> addr \<Rightarrow> addr \<Rightarrow> addr \<Rightarrow> addr \<Rightarrow> byte list \<Rightarrow> bool" where
  "line_ready m buf sep exit_s ls_s s \<longleftrightarrow> cstr m buf s \<and> length s + 1 < 2 ^ 32 \<and> 0 \<notin> area buf (Suc (length s)) \<and>
     cstr m sep [32, 9, 10] \<and> area sep 4 \<inter> area buf (Suc (length s)) = {} \<and>
     cstr m exit_s (bytes ''exit'') \<and> area exit_s 5 \<inter> area buf (Suc (length s)) = {} \<and>
     cstr m ls_s (bytes ''ls'') \<and> area ls_s 3 \<inter> area buf (Suc (length s)) = {}"

lemma line_readyD:
  assumes "line_ready m buf sep exit_s ls_s s"
  shows "cstr m buf s" "cstr m sep [32, 9, 10]" "length s + 1 < 2 ^ 32" "length [32, 9, 10 :: byte] + 1 < 2 ^ 32"
    "0 \<notin> area buf (Suc (length s))" "area sep (Suc (length [32, 9, 10 :: byte])) \<inter> area buf (Suc (length s)) = {}"
    "set [32, 9, 10] = blanks"
    "cstr m exit_s (bytes ''exit'')" "area exit_s (Suc (length (bytes ''exit''))) \<inter> area buf (Suc (length s)) = {}"
    "cstr m ls_s (bytes ''ls'')" "area ls_s (Suc (length (bytes ''ls''))) \<inter> area buf (Suc (length s)) = {}"
proof -
  have "Suc (length [32, 9, 10 :: byte]) = 4" "Suc (length (bytes ''exit'')) = 5" "Suc (length (bytes ''ls'')) = 3"
    "length [32, 9, 10 :: byte] + 1 < 2 ^ 32" "set [32, 9, 10] = blanks"
    by (simp_all add: bytes_def blanks_def)
  with assms show "cstr m buf s" "cstr m sep [32, 9, 10]" "length s + 1 < 2 ^ 32" "length [32, 9, 10 :: byte] + 1 < 2 ^ 32"
    "0 \<notin> area buf (Suc (length s))" "area sep (Suc (length [32, 9, 10 :: byte])) \<inter> area buf (Suc (length s)) = {}"
    "set [32, 9, 10] = blanks"
    "cstr m exit_s (bytes ''exit'')" "area exit_s (Suc (length (bytes ''exit''))) \<inter> area buf (Suc (length s)) = {}"
    "cstr m ls_s (bytes ''ls'')" "area ls_s (Suc (length (bytes ''ls''))) \<inter> area buf (Suc (length s)) = {}"
    unfolding line_ready_def by metis+
qed

text \<open>A comparison of the first word with a literal outside the buffer.\<close>

lemma strcmp_literal:
  assumes "cstr m1 t w" "cstr m x lit" "area x (Suc (length lit)) \<inter> A = {}" "\<forall>b. b \<notin> A \<longrightarrow> m1 b = m b" "length lit < 2 ^ 32"
  shows "\<exists>r. strcmp m1 t x = Some r \<and> (r = 0 \<longleftrightarrow> w = lit)"
proof -
  have "cstr m1 x lit" by (rule cstr_cong [OF _ assms(5,2)]) (use assms(3,4) in blast)
  from strcmp_cstr [OF assms(1) this] show ?thesis by blast
qed

lemma shell_line_blank:
  assumes "line_ready m buf sep exit_s ls_s s" "dropWhile (\<lambda>x. x \<in> blanks) s = []"
  shows "shell_line buf sep exit_s ls_s lastp m = Some (Again, 0, m)"
proof -
  note r = line_readyD [OF assms(1)]
  have "buf \<noteq> 0" using r(5) area_head [of "Suc (length s)" buf] by auto
  from strtok_none [OF r(1,2) assms(2) [folded r(7)] this, of buf lastp] show ?thesis by (simp add: shell_line_def)
qed

text \<open>The arguments of a command: the first word and what the loop collects.\<close>

lemma shell_argv_tokens:
  assumes r: "line_ready m buf sep exit_s ls_s s"
    and b: "dropWhile (\<lambda>x. x \<in> blanks) s = tok @ rest" "tok = takeWhile (\<lambda>x. x \<notin> blanks) (tok @ rest)" "tok \<noteq> []"
  shows "\<exists>t l1 m1 ps l' m'. strtok buf sep lastp m = Some (t, l1, m1) \<and> t \<noteq> 0 \<and> cstr m1 t tok \<and>
    (\<forall>b. b \<notin> area buf (Suc (length s)) \<longrightarrow> m1 b = m b) \<and> shell_argv [t] sep l1 m1 = Some (t # ps, l', m') \<and>
    list_all2 (cstr m') (t # ps) (tok # tokens blanks (tl rest)) \<and> (\<forall>b. b \<notin> area buf (Suc (length s)) \<longrightarrow> m' b = m b)"
proof -
  note r = line_readyD [OF r]
  from strtok_first [OF r(1-6) disjI1 [OF refl], of tok rest lastp] b obtain t l1 m1 where
    st: "strtok buf sep lastp m = Some (t, l1, m1)" "t \<noteq> 0" "cstr m1 t tok" "cstr m1 sep [32, 9, 10]"
      "\<forall>b. b \<notin> area buf (Suc (length s)) \<longrightarrow> m1 b = m b"
    and next_tok: "rest = [] \<and> l1 = 0 \<or> rest \<noteq> [] \<and> cstr m1 l1 (tl rest) \<and>
        area l1 (Suc (length (tl rest))) \<subseteq> area buf (Suc (length s)) \<and>
        area t (Suc (length tok)) \<inter> area l1 (Suc (length (tl rest))) = {} \<and> length (tl rest) + 1 < length s"
    unfolding r(7) by blast
  have tl: "length tok < 2 ^ 32" using b(1) length_dropWhile_le [of "\<lambda>x. x \<in> blanks" s] r(3) by simp
  show ?thesis
  proof (cases "rest = []")
    case True
    then have "shell_argv [t] sep l1 m1 = Some ([t], 0, m1)"
      using next_tok by (subst shell_argv.simps) (simp add: strtok_NULL)
    with st True show ?thesis by (simp add: tokens.simps)
  next
    case False
    with next_tok have n: "cstr m1 l1 (tl rest)" "area l1 (Suc (length (tl rest))) \<subseteq> area buf (Suc (length s))"
      "area t (Suc (length tok)) \<inter> area l1 (Suc (length (tl rest))) = {}" "length (tl rest) + 1 < length s" by blast+
    have p: "length (tl rest) + 1 < 2 ^ 32" "0 \<notin> area l1 (Suc (length (tl rest)))"
      "area sep (Suc (length [32, 9, 10 :: byte])) \<inter> area l1 (Suc (length (tl rest))) = {}"
      using r(3,5,6) n(2,4) by auto
    from strtok_all_tokens [OF n(1) st(4) p(1) r(4) p(2,3) disjI2 [OF conjI [OF refl refl]] lessI] obtain ps m' where
      a: "strtok_all (Suc (length (tl rest))) 0 sep l1 m1 = Some (ps, m')" "list_all2 (cstr m') ps (tokens blanks (tl rest))"
      "\<And>b. b \<notin> area l1 (Suc (length (tl rest))) \<Longrightarrow> m' b = m1 b" unfolding r(7) by blast
    obtain l' where "shell_argv [t] sep l1 m1 = Some ([t] @ ps, l', m')" using shell_argv_all [OF a(1)] by blast
    moreover have "cstr m' t tok" by (rule cstr_cong [OF _ tl st(3)]) (use a(3) n(3) in blast)
    moreover have "m' b = m b" if "b \<notin> area buf (Suc (length s))" for b using that a(3) [of b] n(2) st(5) by auto
    ultimately show ?thesis using st a(2) by simp
  qed
qed

text \<open>
  The shell does with a line what its words say: nothing without a word, \<open>exit\<close> and \<open>ls\<close> by themselves, and for any other
  first word the child is given pointers to exactly the words of the line, in order, each terminated, while no byte
  outside the line changes.
\<close>

lemma shell_line_words:
  assumes "line_ready m buf sep exit_s ls_s s"
  shows "case tokens blanks s of [] \<Rightarrow> shell_line buf sep exit_s ls_s lastp m = Some (Again, 0, m)
    | w # ws \<Rightarrow> \<exists>act l m'. shell_line buf sep exit_s ls_s lastp m = Some (act, l, m') \<and>
        (\<forall>b. b \<notin> area buf (Suc (length s)) \<longrightarrow> m' b = m b) \<and>
        (if w = bytes ''exit'' then act = Exit_Shell else if w = bytes ''ls'' then act = List_Files
         else \<exists>ps. act = Run ps \<and> list_all2 (cstr m') ps (w # ws))"
proof (cases "dropWhile (\<lambda>x. x \<in> blanks) s = []")
  case True
  with shell_line_blank [OF assms] show ?thesis by (simp add: tokens.simps)
next
  case False
  note r = line_readyD [OF assms]
  from tokens_first [OF False] obtain w rest where
    b: "dropWhile (\<lambda>x. x \<in> blanks) s = w @ rest" "w = takeWhile (\<lambda>x. x \<notin> blanks) (w @ rest)" "w \<noteq> []"
    and tk: "tokens blanks s = w # tokens blanks (tl rest)" by blast
  from shell_argv_tokens [OF assms b] obtain t l1 m1 ps l' m' where
    st: "strtok buf sep lastp m = Some (t, l1, m1)" "t \<noteq> 0" "cstr m1 t w"
      "\<forall>b. b \<notin> area buf (Suc (length s)) \<longrightarrow> m1 b = m b"
    and run: "shell_argv [t] sep l1 m1 = Some (t # ps, l', m')" "list_all2 (cstr m') (t # ps) (w # tokens blanks (tl rest))"
      "\<forall>b. b \<notin> area buf (Suc (length s)) \<longrightarrow> m' b = m b" by blast
  obtain x y where "strcmp m1 t exit_s = Some x" "x = 0 \<longleftrightarrow> w = bytes ''exit''"
      "strcmp m1 t ls_s = Some y" "y = 0 \<longleftrightarrow> w = bytes ''ls''"
    using strcmp_literal [OF st(3) r(8,9) st(4)] strcmp_literal [OF st(3) r(10,11) st(4)] by (auto simp: bytes_def)
  with st run show ?thesis unfolding tk by (simp add: shell_line_def)
qed

section \<open>One round of the shell\<close>

text \<open>The strings of the program, apart from its buffer.\<close>

definition shell_data :: "mem \<Rightarrow> addr \<Rightarrow> addr \<Rightarrow> addr \<Rightarrow> addr \<Rightarrow> bool" where
  "shell_data m buf sep exit_s ls_s \<longleftrightarrow> 0 \<notin> area buf 1024 \<and>
     cstr m sep [32, 9, 10] \<and> area sep 4 \<inter> area buf 1024 = {} \<and>
     cstr m exit_s (bytes ''exit'') \<and> area exit_s 5 \<inter> area buf 1024 = {} \<and>
     cstr m ls_s (bytes ''ls'') \<and> area ls_s 3 \<inter> area buf 1024 = {}"

text \<open>Outside the test harness the simulator leaves the buffer alone, and the kernel puts the line into it.\<close>

definition reads_line :: "shell_in \<Rightarrow> addr \<Rightarrow> byte list \<Rightarrow> bool" where
  "reads_line I buf s \<longleftrightarrow> (\<forall>m. si_simics I buf 1023 m = m) \<and>
     (\<forall>m. si_readline I 1023 buf m = (of_nat (length s), write_bytes buf s m)) \<and> 0 \<notin> set s \<and> 0 < length s \<and> length s < 1023"

lemma bzero_first: "(bzero buf 1024 m)(buf := 0) = bzero buf 1024 m"
  by (simp add: fun_eq_iff bzero_clears)

text \<open>The memory with the line in the cleared buffer.\<close>

definition line_mem :: "addr \<Rightarrow> byte list \<Rightarrow> mem \<Rightarrow> mem" where
  "line_mem buf s m = write_bytes buf s (bzero buf 1024 m)"

lemma line_mem_tail:
  assumes "length s \<le> k" "k \<le> 1023"
  shows "line_mem buf s m (buf + of_nat k) = 0"
proof -
  have u: "unat (of_nat k :: addr) = k" using assms by (simp add: unat_of_nat take_bit_nat_eq_self)
  then have "buf + of_nat k \<notin> area buf (length s)" using assms(1) by (simp add: area_def)
  moreover have "bzero buf 1024 m (buf + of_nat k) = 0" using u assms(2) by (simp add: bzero_clears)
  moreover have "length s < 2 ^ 32" using assms by simp
  ultimately show ?thesis using write_bytes_out [of s] by (simp add: line_mem_def)
qed

lemma line_mem_out:
  assumes "length s < 1023" "b \<notin> area buf 1024"
  shows "line_mem buf s m b = m b"
proof -
  have "b \<notin> area buf (length s)" using area_mono [of "length s" 1024 buf] assms by auto
  with assms write_bytes_out [of s b buf "bzero buf 1024 m"] show ?thesis by (simp add: line_mem_def bzero_clears area_def)
qed

lemma line_mem_ready:
  assumes "shell_data m buf sep exit_s ls_s" "0 \<notin> set s" "length s < 1023"
  shows "line_ready (line_mem buf s m) buf sep exit_s ls_s s"
proof -
  have sub: "area buf (Suc (length s)) \<subseteq> area buf 1024" using assms(3) by (intro area_mono) simp
  have keep: "cstr (line_mem buf s m) x t" if "cstr m x t" "Suc (length t) = k" "area x k \<inter> area buf 1024 = {}" "k < 2 ^ 32" for x t k
    by (rule cstr_cong [OF _ _ that(1)]) (use that line_mem_out [OF assms(3)] in \<open>simp_all add: disjoint_iff\<close>)
  have "write_bytes buf (s @ [0]) (bzero buf 1024 m) = (line_mem buf s m)(buf + of_nat (length s) := 0)"
    by (simp add: write_bytes_append line_mem_def)
  also have "\<dots> = line_mem buf s m" using line_mem_tail [of s "length s"] assms(3) by (simp add: fun_eq_iff)
  finally have "cstr (line_mem buf s m) buf s" using cstr_write [of s buf "bzero buf 1024 m"] assms(2,3) by simp
  moreover have "cstr (line_mem buf s m) sep [32, 9, 10]" "cstr (line_mem buf s m) exit_s (bytes ''exit'')"
    "cstr (line_mem buf s m) ls_s (bytes ''ls'')"
    using assms(1) keep [of sep "[32, 9, 10]" 4] keep [of exit_s "bytes ''exit''" 5] keep [of ls_s "bytes ''ls''" 3]
    unfolding shell_data_def by (simp_all only: bytes_def) simp_all
  moreover have "0 \<notin> area buf 1024" "area sep 4 \<inter> area buf 1024 = {}" "area exit_s 5 \<inter> area buf 1024 = {}"
    "area ls_s 3 \<inter> area buf 1024 = {}" using assms(1) unfolding shell_data_def by blast+
  moreover have "length s + 1 < 2 ^ 32" using assms(3) by simp
  ultimately show ?thesis using sub unfolding line_ready_def by blast
qed

lemma read_line:
  assumes "reads_line I buf s"
  shows "mystical_readline I (1024 - 1) buf (bzero buf 1024 m) = Ret (of_nat (length s), line_mem buf s m)"
proof -
  have "\<not> 1023 <=s (0 :: i32)" "bzero buf 1024 m buf = 0" by (simp_all add: word_sle_eq bzero_clears)
  with assms show ?thesis by (simp add: mystical_readline_def bzero_first reads_line_def line_mem_def)
qed

lemma shell_iter_line:
  assumes "reads_line I buf s"
  shows "shell_iter I buf sep exit_s ls_s lastp m =
    bnd (the_loop (shell_line buf sep exit_s ls_s lastp (line_mem buf s m))) (\<lambda>(act, lastp, m).
      case act of
        Again \<Rightarrow> Ret ([Sh_Print (bytes ''[410-shell]$ '')], True, lastp, m)
      | Exit_Shell \<Rightarrow> Ret ([Sh_Print (bytes ''[410-shell]$ ''), Sh_Print (bytes ''Exiting shell...'' @ [10]), Sh_Exit 0], False, lastp, m)
      | List_Files \<Rightarrow> bnd (list_files I m) (\<lambda>(con, m). Ret ([Sh_Print (bytes ''[410-shell]$ ''), Sh_Console con], True, lastp, m))
      | Run argv \<Rightarrow> bnd (shell_run I argv m) (\<lambda>(ev, go). Ret (Sh_Print (bytes ''[410-shell]$ '') # ev, go, lastp, m)))"
proof -
  have len: "0 < length s" "length s < 1023" using assms by (simp_all add: reads_line_def)
  then have n: "sint (of_nat (length s) :: i32) = int (length s)" by (intro sint_of_nat32) simp
  have "(of_nat (length s) :: i32) \<noteq> 0" using len by (metis n of_nat_0_less_iff less_irrefl signed_0)
  moreover have "\<not> 1024 <=s (of_nat (length s) :: i32)" "\<not> neg32 (of_nat (length s))"
    using len n by (simp_all add: word_sle_eq word_sless_alt)
  moreover have "line_mem buf s m (buf + (1024 - 1)) = 0" "line_mem buf s m (buf + of_nat (length s)) = 0"
    using line_mem_tail [of s 1023 buf m] line_mem_tail [of s "length s" buf m] len by simp_all
  moreover have "(line_mem buf s m)(buf + of_nat (length s) := 0) = line_mem buf s m" using calculation(5) by (simp add: fun_eq_iff)
  ultimately show ?thesis unfolding shell_iter_def read_line [OF assms] bnd.simps by (simp add: Let_def)
qed

text \<open>
  C39: one round of the shell on a line of 1 to 1022 bytes: it goes on when the line has no word, ends on \<open>exit\<close>, lists the files
  on \<open>ls\<close>, and for any other first word a child replaces itself by that program with exactly the words of the line as
  its arguments, or exits with -1 when it cannot.
\<close>

theorem shell_command:
  assumes "shell_data m buf sep exit_s ls_s" "reads_line I buf s"
  shows "case tokens blanks s of
      [] \<Rightarrow> shell_iter I buf sep exit_s ls_s lastp m = Ret ([Sh_Print (bytes ''[410-shell]$ '')], True, 0, line_mem buf s m)
    | w # ws \<Rightarrow> \<exists>l m'.
        if w = bytes ''exit'' then shell_iter I buf sep exit_s ls_s lastp m =
            Ret ([Sh_Print (bytes ''[410-shell]$ ''), Sh_Print (bytes ''Exiting shell...'' @ [10]), Sh_Exit 0], False, l, m')
        else if w = bytes ''ls'' then shell_iter I buf sep exit_s ls_s lastp m =
            bnd (list_files I m') (\<lambda>(con, m). Ret ([Sh_Print (bytes ''[410-shell]$ ''), Sh_Console con], True, l, m))
        else \<exists>ps. list_all2 (cstr m') ps (w # ws) \<and> (si_fork I = 0 \<longrightarrow> shell_iter I buf sep exit_s ls_s lastp m =
            Ret ([Sh_Print (bytes ''[410-shell]$ ''), Sh_Exec ps, Sh_Exit (-1)], False, l, m'))"
proof -
  have "line_ready (line_mem buf s m) buf sep exit_s ls_s s"
    using assms line_mem_ready by (simp add: reads_line_def)
  note words = shell_line_words [OF this, of lastp]
  show ?thesis
  proof (cases "tokens blanks s")
    case Nil
    with words show ?thesis unfolding shell_iter_line [OF assms(2)] by (simp add: the_loop_def)
  next
    case (Cons w ws)
    with words obtain act l m' where run: "shell_line buf sep exit_s ls_s lastp (line_mem buf s m) = Some (act, l, m')"
      and act: "if w = bytes ''exit'' then act = Exit_Shell else if w = bytes ''ls'' then act = List_Files
         else \<exists>ps. act = Run ps \<and> list_all2 (cstr m') ps (w # ws)" by auto
    show ?thesis unfolding shell_iter_line [OF assms(2)] Cons run the_loop_def list.case
      by (rule exI [of _ l], rule exI [of _ m']) (use act in \<open>fastforce simp: shell_run_def\<close>)
  qed
qed

text \<open>The line \<open>cat x\<close>.\<close>

definition demo_shell_mem :: mem where
  "demo_shell_mem = write_bytes 0x9000 [32, 9, 10, 0] (write_bytes 0x9100 (bytes ''exit'' @ [0])
     (write_bytes 0x9200 (bytes ''ls'' @ [0]) (\<lambda>_. 0)))"

definition demo_shell_in :: shell_in where
  "demo_shell_in = \<lparr>si_simics = (\<lambda>a n m. m), si_readline = (\<lambda>n a m. (6, write_bytes a [99, 97, 116, 32, 120, 10] m)),
     si_readfile = (\<lambda>a n m. (-1, m)), si_malloc = 0, si_realloc = (\<lambda>a n m. (0, m)), si_calloc = False,
     si_on_screen = (\<lambda>_. False), si_fork = 0, si_wait = 0, si_status = 0\<rparr>"

theorem shell_command_witness:
  "\<exists>ps l m'. shell_iter demo_shell_in 0x1000 0x9000 0x9100 0x9200 0 demo_shell_mem =
      Ret ([Sh_Print (bytes ''[410-shell]$ ''), Sh_Exec ps, Sh_Exit (-1)], False, l, m') \<and>
    list_all2 (cstr m') ps [[99, 97, 116], [120]]"
proof -
  have a: "area 0x9000 4 \<inter> area 0x1000 1024 = {}" "area 0x9100 5 \<inter> area 0x1000 1024 = {}" "area 0x9200 3 \<inter> area 0x1000 1024 = {}"
    by (rule area_apart; simp)+
  have "shell_data demo_shell_mem 0x1000 0x9000 0x9100 0x9200"
    unfolding shell_data_def using a by (simp add: demo_shell_mem_def bytes_def) (simp add: area_def)
  moreover have "reads_line demo_shell_in 0x1000 [99, 97, 116, 32, 120, 10]" by (simp add: reads_line_def demo_shell_in_def)
  moreover have "tokens blanks [99, 97, 116, 32, 120, 10] = [[99, 97, 116], [120]]" by (simp add: tokens.simps blanks_def)
  moreover have "si_fork demo_shell_in = 0" by (simp add: demo_shell_in_def)
  ultimately show ?thesis
    using shell_command [where m = demo_shell_mem and buf = "0x1000" and sep = "0x9000" and exit_s = "0x9100" and ls_s = "0x9200"
        and I = demo_shell_in and s = "[99, 97, 116, 32, 120, 10]" and lastp = 0]
    by (simp add: bytes_def) blast
qed

text \<open>The loop that enlarges the buffer of \<open>ls\<close> ends whatever the kernel answers, at the latest with the overflow of the size.\<close>

lemma ls_loop_ends:
  assumes "k \<le> 18"
  shows "\<exists>r. ls_loop I (2 ^ (30 - k)) buf m = Some r"
  using assms
proof (induction k arbitrary: buf m)
  case 0
  have "(0x40000000 :: i32) <=s 2 ^ 30" by (simp add: word_sle_eq)
  then show ?case by (subst ls_loop.simps) (auto split: prod.split)
next
  case (Suc k)
  have "(2 :: i32) ^ (30 - Suc k) * 2 = 2 ^ (30 - k)" 
  proof -
    have "30 - k = Suc (30 - Suc k)" using Suc.prems by simp
    then show ?thesis by simp
  qed
  with Suc show ?case by (subst ls_loop.simps) (auto split: prod.split)
qed

lemma list_files_ends: "\<exists>r. ls_loop I 4096 buf m = Some r"
  using ls_loop_ends [of 18 I buf m] by simp

end
