(* ===== verification/Largetest.thy ===== *)
theory Largetest
  imports Stdio
begin

text \<open>
  410user/progs/largetest.c: waves of threads. In a wave of round \<open>n\<close> each thread creates the two threads with the doubled
  index, until \<open>2 ^ n - 1\<close> exist; thread \<open>idx\<close> then writes its ID into a slot of \<open>free_order\<close> that a linear feedback shift
  register chooses, and main joins the threads in the order of the slots.

  The threads run concurrently, so the function \<open>thr\<close> is cut at its calls of \<open>thr_create\<close>: what it decides
  before them (\<open>thr_decide\<close>), what it does after each (\<open>thr_failed\<close>, \<open>thr_record\<close>), and how it publishes its ID (\<open>thr_publish\<close>).
  \<open>wave_step\<close> interleaves them. The results of \<open>thr_create\<close> and \<open>thr_join\<close> are arguments.
\<close>

section \<open>Powers of two\<close>

text \<open>\<open>1 << n\<close>; the callers pass at most 16.\<close>

definition pow2 :: "i32 \<Rightarrow> i32" where
  "pow2 n = push_bit (unat n) 1"

definition ispow2 :: "i32 \<Rightarrow> bool" where
  "ispow2 n = (length (filter (\<lambda>b. n AND push_bit b 1 \<noteq> 0) [0..<32]) < 2)"

text \<open>A doubling beyond \<open>2 ^ 30\<close> overflows the int.\<close>

partial_function (option) next_pow2_loop :: "i32 \<Rightarrow> i32 \<Rightarrow> i32 outcome option" where
  "next_pow2_loop n ret =
     (if ret \<le>s n then if 0x40000000 \<le>s ret then Some Fault else next_pow2_loop n (ret * 2) else Some (Ret ret))"

definition next_pow2 :: "i32 \<Rightarrow> i32 outcome" where
  "next_pow2 n = bnd (the_loop (next_pow2_loop n 1)) (\<lambda>r. r)"

section \<open>The shift register\<close>

definition terms :: "i32 list" where
  "terms = [0x1, 0x3, 0x6, 0xC, 0x17, 0x33, 0x69, 0x8E, 0x1F4, 0x2E3, 0x4C7, 0xA1B, 0x10F1, 0x20CE, 0x41D7, 0x8233]"

definition lfsr_step :: "i32 \<Rightarrow> i32 \<Rightarrow> i32" where
  "lfsr_step feedback cur =
     (if cur AND 1 \<noteq> 0 then signed_drop_bit 1 cur XOR feedback else signed_drop_bit 1 cur)"

primrec lfsr_loop :: "i32 \<Rightarrow> nat \<Rightarrow> i32 \<Rightarrow> i32" where
  "lfsr_loop feedback 0 cur = cur"
| "lfsr_loop feedback (Suc n) cur = lfsr_loop feedback n (lfsr_step feedback cur)"

definition lfsr :: "i32 \<Rightarrow> i32 \<Rightarrow> i32 \<Rightarrow> i32 outcome" where
  "lfsr round seed n =
     c_assert (1 \<le>s round \<and> round \<le> 16)
     (c_assert (seed \<noteq> 0 \<and> seed \<le>s pow2 round)
       (let cur = lfsr_loop (terms ! unat (round - 1)) (nat (sint n)) seed in
        c_assert (cur \<noteq> 0) (Ret cur)))"

section \<open>One thread\<close>

text \<open>\<open>a[i] = v\<close> on an array of the heap.\<close>

definition put_at :: "i32 list \<Rightarrow> i32 \<Rightarrow> i32 \<Rightarrow> i32 list outcome" where
  "put_at a i v = (if 0 \<le>s i \<and> sint i < int (length a) then Ret (a[unat i := v]) else Fault)"

record wave =
  wv_error :: i32
  wv_spawn :: "i32 list"
  wv_free :: "i32 list"

text \<open>The indices of the threads to create: two, or none when the wave is complete or an error was seen.\<close>

definition thr_decide :: "i32 \<Rightarrow> i32 \<Rightarrow> i32 \<Rightarrow> i32 list outcome" where
  "thr_decide round error idx =
     bnd (next_pow2 idx) (\<lambda>bidx.
     Ret (if error = 0 \<and> bidx <s pow2 round then
            let ridx = idx - sdiv32 bidx 2 in [bidx + 2 * ridx, bidx + 2 * ridx + 1]
          else []))"

text \<open>After a call of \<open>thr_create\<close>: \<open>error = 1\<close> and return, or \<open>spawn_order[idx - 1] = res\<close>.\<close>

definition thr_failed :: "wave \<Rightarrow> wave" where
  "thr_failed s = s\<lparr>wv_error := 1\<rparr>"

definition thr_record :: "i32 \<Rightarrow> i32 \<Rightarrow> wave \<Rightarrow> wave outcome" where
  "thr_record idx res s = bnd (put_at (wv_spawn s) (idx - 1) res) (\<lambda>a. Ret (s\<lparr>wv_spawn := a\<rparr>))"

definition thr_publish :: "i32 \<Rightarrow> i32 \<Rightarrow> i32 \<Rightarrow> i32 \<Rightarrow> wave \<Rightarrow> wave outcome" where
  "thr_publish round seed idx tid s =
     bnd (lfsr round seed idx) (\<lambda>die_idx.
     bnd (put_at (wv_free s) (die_idx - 1) tid) (\<lambda>a. Ret (s\<lparr>wv_free := a\<rparr>)))"

text \<open>The work of a thread: system calls only.\<close>

datatype work = Work_Sleep i32 | Work_Yield i32

definition thr_work :: "i32 \<Rightarrow> work list" where
  "thr_work idx =
     (let r = smod32 idx 2 in
      if r = 0 then [Work_Sleep (smod32 idx 100)] else if r = 1 then replicate 5 (Work_Yield (-1)) else [])"

section \<open>The main thread\<close>

text \<open>
  The joins of one round. For each slot the list gives what main saw there when it stopped waiting (\<open>None\<close>: the error
  flag was set), the result of \<open>thr_join\<close> and the exit status it stored.
\<close>

fun reap_loop :: "(i32 option \<times> i32 \<times> i32) list \<Rightarrow> i32 list \<Rightarrow> i32 \<Rightarrow> i32 \<Rightarrow> (i32 list \<times> i32 \<times> i32) outcome" where
  "reap_loop [] spawn successes error = Ret (spawn, successes, error)"
| "reap_loop ((seen, res, thr_idx) # obs) spawn successes error =
     (if error \<noteq> 0 then Ret (spawn, successes, error)
      else case seen of
        None \<Rightarrow> Ret (spawn, successes, 1)
      | Some tid \<Rightarrow>
        if neg32 res then reap_loop obs spawn successes 1
        else bnd (put_at spawn (thr_idx - 1) 0) (\<lambda>spawn. reap_loop obs spawn (successes + 1) error))"

text \<open>What follows them: the threads left in \<open>spawn_order\<close> are joined after an error; else all must have been joined.\<close>

definition reap_rest :: "i32 list \<Rightarrow> i32 \<Rightarrow> i32 \<Rightarrow> i32 \<Rightarrow> (i32 list \<times> i32) outcome" where
  "reap_rest spawn nthreads successes error =
     (if error \<noteq> 0 then
        let left = filter (\<lambda>t. t \<noteq> 0) spawn in Ret (left, successes + of_nat (length left))
      else c_assert (nthreads = successes) (Ret ([], successes)))"

definition round_end :: "i32 \<Rightarrow> (i32 option \<times> i32 \<times> i32) list \<Rightarrow> i32 list \<Rightarrow> (i32 list \<times> i32 \<times> i32) outcome" where
  "round_end round obs spawn =
     bnd (reap_loop obs spawn 0 0) (\<lambda>(spawn, successes, error).
     bnd (reap_rest spawn (pow2 round - 1) successes error) (\<lambda>(left, successes). Ret (left, successes, error)))"

definition next_seed :: "i32 \<Rightarrow> i32 \<Rightarrow> i32 outcome" where
  "next_seed round seed = lfsr round seed round"

text \<open>
  What one round asks of its surroundings: whether both calls of \<open>calloc\<close> gave memory, the result of the first
  \<open>thr_create\<close>, \<open>spawn_order\<close> as the threads leave it, and what main sees at each slot. Without memory the first store into
  \<open>spawn_order\<close> or the first read of \<open>free_order\<close> is through NULL. A round ends with the seed of the next one, or with
  \<open>break\<close> and the error flag.
\<close>

record round_env =
  re_bufs :: bool
  re_first :: i32
  re_spawn :: "i32 list"
  re_obs :: "(i32 option \<times> i32 \<times> i32) list"

datatype round_result = Round_Break i32 | Round_Next i32

definition main_round :: "i32 \<Rightarrow> i32 \<Rightarrow> round_env \<Rightarrow> round_result outcome" where
  "main_round round seed e =
     (if neg32 (re_first e) then Ret (Round_Break 0)
      else if \<not> re_bufs e then Fault
      else bnd (round_end round (re_obs e) (re_spawn e)) (\<lambda>(left, successes, error).
        if error \<noteq> 0 then Ret (Round_Break error)
        else bnd (next_seed round seed) (\<lambda>seed. Ret (Round_Next seed))))"

text \<open>The rounds from \<open>round\<close> on, \<open>k\<close> of them at most; the result is the error flag.\<close>

primrec main_rounds :: "(i32 \<Rightarrow> round_env) \<Rightarrow> nat \<Rightarrow> i32 \<Rightarrow> i32 \<Rightarrow> i32 outcome" where
  "main_rounds env 0 round seed = Ret 0"
| "main_rounds env (Suc k) round seed =
     bnd (main_round round seed (env round)) (\<lambda>r.
     case r of Round_Break error \<Rightarrow> Ret error | Round_Next seed \<Rightarrow> main_rounds env k (round + 1) seed)"

text \<open>The report that main ends with: the index of \<open>END_SUCCESS\<close> (0) or \<open>END_FAIL\<close> (1).\<close>

definition largetest_main :: "(i32 \<Rightarrow> round_env) \<Rightarrow> i32 outcome" where
  "largetest_main env = bnd (main_rounds env 16 1 1) (\<lambda>error. Ret (if error \<noteq> 0 then 1 else 0))"

section \<open>A wave\<close>

text \<open>
  \<open>W_Create as\<close>: the threads with these indices are still to be created; \<open>W_Store a res as\<close>: thread \<open>a\<close> has been created
  with ID \<open>res\<close>, and its creator is before the store into \<open>spawn_order\<close>.
\<close>

datatype wpc = W_None | W_Start | W_Create "i32 list" | W_Store i32 i32 "i32 list" | W_Publish | W_Done

definition create_or_publish :: "i32 list \<Rightarrow> wpc" where
  "create_or_publish as = (if as = [] then W_Publish else W_Create as)"

record wsys =
  ws_pc :: "nat \<Rightarrow> wpc" \<comment> \<open>by thread index\<close>
  ws_tid :: "nat \<Rightarrow> i32"
  ws_wave :: wave

inductive wave_step :: "i32 \<Rightarrow> i32 \<Rightarrow> wsys \<Rightarrow> wsys \<Rightarrow> bool" for round :: i32 and seed :: i32 where
  w_decide: "\<lbrakk>ws_pc s i = W_Start; thr_decide round (wv_error (ws_wave s)) (of_nat i) = Ret as\<rbrakk>
    \<Longrightarrow> wave_step round seed s (s\<lparr>ws_pc := (ws_pc s)(i := create_or_publish as)\<rparr>)"
| w_create: "\<lbrakk>ws_pc s i = W_Create (a # as); \<not> neg32 res; res \<noteq> 0\<rbrakk>
    \<Longrightarrow> wave_step round seed s (s\<lparr>ws_pc := (ws_pc s)(i := W_Store a res as, unat a := W_Start),
          ws_tid := (ws_tid s)(unat a := res)\<rparr>)"
| w_fail: "\<lbrakk>ws_pc s i = W_Create (a # as)\<rbrakk>
    \<Longrightarrow> wave_step round seed s (s\<lparr>ws_pc := (ws_pc s)(i := W_Done), ws_wave := thr_failed (ws_wave s)\<rparr>)"
| w_store: "\<lbrakk>ws_pc s i = W_Store a res as; thr_record a res (ws_wave s) = Ret w\<rbrakk>
    \<Longrightarrow> wave_step round seed s (s\<lparr>ws_pc := (ws_pc s)(i := create_or_publish as), ws_wave := w\<rparr>)"
| w_publish: "\<lbrakk>ws_pc s i = W_Publish; thr_publish round seed (of_nat i) (ws_tid s i) (ws_wave s) = Ret w\<rbrakk>
    \<Longrightarrow> wave_step round seed s (s\<lparr>ws_pc := (ws_pc s)(i := W_Done), ws_wave := w\<rparr>)"

text \<open>The start of a round: main has created thread 1 with ID \<open>res\<close>; the arrays come zeroed from \<open>calloc\<close>.\<close>

definition wave_start :: "i32 \<Rightarrow> wsys \<Rightarrow> bool" where
  "wave_start round s \<longleftrightarrow> (let n = unat (pow2 round) - 1 in
     ws_pc s = (\<lambda>_. W_None)(1 := W_Start) \<and> ws_tid s 1 \<noteq> 0 \<and> \<not> neg32 (ws_tid s 1) \<and>
     ws_wave s = \<lparr>wv_error = 0, wv_spawn = (replicate n 0)[0 := ws_tid s 1], wv_free = replicate n 0\<rparr>)"

inductive wave_reach :: "i32 \<Rightarrow> i32 \<Rightarrow> wsys \<Rightarrow> bool" for round :: i32 and seed :: i32 where
  wave_reach_start: "wave_start round s \<Longrightarrow> wave_reach round seed s"
| wave_reach_step: "wave_reach round seed s \<Longrightarrow> wave_step round seed s s' \<Longrightarrow> wave_reach round seed s'"

end
