(* ===== verification/Lfsr_Period.thy ===== *)
theory Lfsr_Period
  imports Largetest
begin

text \<open>
  The shift register of largetest.c runs through all its states: for every round the feedback term of the table is
  maximal. The register is read as a linear map on integers; \<open>mix\<close> multiplies two of its powers, so that a power of
  the map with a large exponent is evaluated with few multiplications, and the period is exact when it is not cut by any
  factor of \<open>2 ^ n - 1\<close>.
\<close>

section \<open>The register as a linear map\<close>

definition shift :: "int \<Rightarrow> int \<Rightarrow> int" where
  "shift f v = (if odd v then v div 2 XOR f else v div 2)"

lemma and_one_sint: "cur AND 1 = (0 :: i32) \<longleftrightarrow> even (sint cur)"
proof -
  have "cur AND 1 = (0 :: i32) \<longleftrightarrow> even cur" by (simp add: and_one_eq even_iff_mod_2_eq_zero)
  also have "\<dots> \<longleftrightarrow> even (sint cur)" using bit_0 [of cur] bit_0 [of "sint cur"] bit_sint_iff [of cur 0] by auto
  finally show ?thesis .
qed

lemma lfsr_step_sint: "sint (lfsr_step feedback cur) = shift (sint feedback) (sint cur)"
  unfolding lfsr_step_def shift_def using and_one_sint [of cur]
  by (simp add: sint_signed_drop_bit_eq signed_xor_eq drop_bit_Suc)

lemma lfsr_loop_sint: "sint (lfsr_loop feedback n cur) = (shift (sint feedback) ^^ n) (sint cur)"
  by (induction n arbitrary: cur) (simp_all add: lfsr_step_sint funpow_Suc_right del: funpow.simps)


lemma half_xor: "(v XOR w) div 2 = (v div 2) XOR (w div 2 :: int)"
  using drop_bit_xor [of 1 v w] by (simp add: drop_bit_eq_div)

lemma shift_xor: "shift f (v XOR w) = shift f v XOR shift f w"
  by (auto simp: shift_def even_xor_iff half_xor ac_simps)

lemma shift_0 [simp]: "shift f 0 = 0"
  by (simp add: shift_def)

lemma range_take_bit: "0 \<le> v \<and> v < 2 ^ n \<longleftrightarrow> take_bit n v = (v :: int)"
  by (simp add: take_bit_int_eq_self_iff)

lemma xor_range: "0 \<le> v \<and> v < 2 ^ n \<Longrightarrow> 0 \<le> w \<and> w < 2 ^ n \<Longrightarrow> 0 \<le> v XOR w \<and> v XOR w < (2 ^ n :: int)"
  unfolding range_take_bit by (simp add: take_bit_xor)

lemma shift_range: "0 \<le> v \<and> v < 2 ^ n \<Longrightarrow> 0 \<le> f \<and> f < 2 ^ n \<Longrightarrow> 0 \<le> shift f v \<and> shift f v < 2 ^ n"
  unfolding shift_def by (auto intro: xor_range [THEN conjunct1] xor_range [THEN conjunct2])

lemma funpow_shift_xor: "(shift f ^^ n) (v XOR w) = (shift f ^^ n) v XOR (shift f ^^ n) w"
  by (induction n) (simp_all add: shift_xor)

lemma funpow_shift_range:
  "0 \<le> v \<and> v < 2 ^ k \<Longrightarrow> 0 \<le> f \<and> f < 2 ^ k \<Longrightarrow> 0 \<le> (shift f ^^ n) v \<and> (shift f ^^ n) v < 2 ^ k"
  by (induction n) (use shift_range in \<open>auto\<close>)

primrec mix :: "int \<Rightarrow> nat \<Rightarrow> int \<Rightarrow> int \<Rightarrow> int \<Rightarrow> int" where
  "mix f 0 acc v w = acc"
| "mix f (Suc k) acc v w = mix f k (shift f acc XOR (if odd v then w else 0)) (v div 2) w"

lemma mix_shift: "mix f k (shift f acc) v (shift f w) = shift f (mix f k acc v w)"
proof (induction k arbitrary: acc v)
  case (Suc k)
  have "shift f (shift f acc) XOR (if odd v then shift f w else 0) = shift f (shift f acc XOR (if odd v then w else 0))"
    by (simp add: shift_xor)
  with Suc show ?case by simp
qed simp

lemma mix_funpow: "mix f k 0 v ((shift f ^^ j) w) = (shift f ^^ j) (mix f k 0 v w)"
proof (induction j)
  case (Suc j)
  with mix_shift [of f k 0 v "(shift f ^^ j) w"] show ?case by simp
qed simp

lemma xor_top: "0 \<le> x \<Longrightarrow> x < 2 ^ n \<Longrightarrow> x XOR 2 ^ n = x + (2 ^ n :: int)"
proof -
  assume "0 \<le> x" "x < 2 ^ n"
  then have "take_bit n x = x" using range_take_bit [of x n] by simp
  then have "\<not> bit x n" by (metis bit_take_bit_iff less_irrefl)
  then have "x AND 2 ^ n = 0" by (simp add: and_exp_eq_0_iff_not_bit)
  then show ?thesis by (simp add: disjunctive_add_eq_xor)
qed

definition top_bit :: "nat \<Rightarrow> int" where
  "top_bit n = 2 ^ (n - 1)"

lemma mix_top:
  "0 \<le> v \<Longrightarrow> v < 2 ^ k \<Longrightarrow> k \<le> n \<Longrightarrow> 0 \<le> acc \<Longrightarrow> acc < 2 ^ (n - k) \<Longrightarrow>
    mix f k (2 ^ k * acc) v (top_bit n) = acc + 2 ^ (n - k) * v"
proof (induction k arbitrary: acc v)
  case (Suc k)
  obtain d where d: "n = Suc (d + k)" using Suc.prems(3) by (metis le_Suc_ex add.commute add_Suc)
  have t: "top_bit n = 2 ^ (d + k)" by (simp add: top_bit_def d)
  let ?b = "if odd v then 2 ^ d else 0 :: int"
  have acc: "acc < 2 ^ d" using Suc.prems(5) d by simp
  have "2 ^ k * acc < 2 ^ k * 2 ^ d" using acc by simp
  then have "2 ^ k * acc XOR 2 ^ (d + k) = 2 ^ k * (acc + 2 ^ d)"
    using xor_top [of "2 ^ k * acc" "d + k"] Suc.prems(4) by (simp add: power_add algebra_simps)
  then have "shift f (2 ^ Suc k * acc) XOR (if odd v then top_bit n else 0) = 2 ^ k * (acc + ?b)"
    by (simp add: shift_def t)
  moreover have "mix f k (2 ^ k * (acc + ?b)) (v div 2) (top_bit n) = acc + ?b + 2 ^ (n - k) * (v div 2)"
    using Suc.prems acc d by (intro Suc.IH) (auto simp: power_Suc)
  moreover have "?b + 2 ^ (n - k) * (v div 2) = 2 ^ (n - Suc k) * v"
  proof -
    have "?b + 2 ^ (n - k) * (v div 2) = 2 ^ d * (of_bool (odd v) + 2 * (v div 2))" by (simp add: d algebra_simps)
    also have "of_bool (odd v) + 2 * (v div 2) = v" using div_mult_mod_eq [of v 2] by (simp add: mod_2_eq_odd)
    finally show ?thesis by (simp add: d)
  qed
  ultimately show ?case by (cases "odd v") simp_all
qed simp

text \<open>Powers of the shift, on the top bit.\<close>

lemma mix_powers:
  assumes "0 < n" "0 \<le> f \<and> f < 2 ^ n"
  shows "mix f n 0 ((shift f ^^ i) (top_bit n)) ((shift f ^^ j) (top_bit n)) = (shift f ^^ (j + i)) (top_bit n)"
proof -
  let ?v = "(shift f ^^ i) (top_bit n)"
  have "0 \<le> top_bit n \<and> top_bit n < 2 ^ n" using assms(1) by (simp add: top_bit_def)
  then have "0 \<le> ?v \<and> ?v < 2 ^ n" by (rule funpow_shift_range [OF _ assms(2)])
  with mix_top [of ?v n n 0 f] have "mix f n 0 ?v (top_bit n) = ?v" by (simp add: top_bit_def)
  then show ?thesis by (simp add: mix_funpow funpow_add)
qed

primrec shift_power :: "int \<Rightarrow> nat \<Rightarrow> int \<Rightarrow> bool list \<Rightarrow> int" where
  "shift_power f n acc [] = acc"
| "shift_power f n acc (b # bs) =
     (let s = mix f n 0 acc acc in shift_power f n (if b then shift f s else s) bs)"

primrec bin_value :: "nat \<Rightarrow> bool list \<Rightarrow> nat" where
  "bin_value a [] = a"
| "bin_value a (b # bs) = bin_value (2 * a + of_bool b) bs"

lemma shift_power_eq:
  assumes "0 < n" "0 \<le> f \<and> f < 2 ^ n"
  shows "shift_power f n ((shift f ^^ a) (top_bit n)) bs = (shift f ^^ bin_value a bs) (top_bit n)"
proof (induction bs arbitrary: a)
  case (Cons b bs)
  from Cons [of "2 * a + of_bool b"] show ?case
    by (cases b) (simp_all add: Let_def mix_powers [OF assms] mult_2)
qed simp
section \<open>The period\<close>

definition irreducible_nat :: "nat \<Rightarrow> bool" where
  "irreducible_nat p \<longleftrightarrow> 1 < p \<and> (\<forall>d. d dvd p \<longrightarrow> d = 1 \<or> d = p)"

lemma irreducible_nat_check:
  assumes "1 < p" "p < k * k" "\<forall>d \<in> set [2..<k]. p mod d \<noteq> 0"
  shows "irreducible_nat p"
proof -
  have "d = 1 \<or> d = p" if "d dvd p" for d
  proof (rule ccontr)
    assume n: "\<not> (d = 1 \<or> d = p)"
    from that obtain c where p: "p = d * c" by blast
    have "c \<noteq> 0" "d \<noteq> 0" using p assms(1) by (metis mult_0_right mult_0 not_less_zero)+
    moreover have "c \<noteq> 1" using n p by auto
    moreover have "\<not> (k \<le> d \<and> k \<le> c)" using assms(2) p mult_le_mono [of k d k c] by auto
    ultimately have "d \<in> set [2..<k] \<or> c \<in> set [2..<k]" using n by auto
    moreover have "p mod d = 0" "p mod c = 0" using p by simp_all
    ultimately show False using assms(3) by metis
  qed
  with assms(1) show ?thesis by (simp add: irreducible_nat_def)
qed

lemma irreducible_factor:
  assumes "c dvd prod_list ps" "1 < c" "\<forall>p \<in> set ps. irreducible_nat p"
  shows "\<exists>p \<in> set ps. p dvd c"
proof (rule ccontr)
  assume n: "\<not> (\<exists>p \<in> set ps. p dvd c)"
  have "coprime c p" if "p \<in> set ps" for p
  proof -
    have "gcd c p = 1 \<or> gcd c p = p" using assms(3) that by (simp add: irreducible_nat_def)
    moreover have "gcd c p \<noteq> p" using n that by (metis gcd_dvd1)
    ultimately show ?thesis by (simp add: coprime_iff_gcd_eq_1)
  qed
  then have "coprime c (prod_list ps)" by (induction ps) auto
  with assms(1,2) show False by (metis coprime_absorb_left nat_dvd_1_iff_1 less_irrefl)
qed

lemma funpow_gcd:
  assumes "(g ^^ m) x = x" "(g ^^ n) x = x"
  shows "(g ^^ gcd m n) x = x"
  using assms
proof (induction m n rule: gcd_nat_induct)
  case (step m n)
  then have "(g ^^ (m mod n)) x = x" by (simp add: funpow_mod_eq)
  with step.IH step.prems have "(g ^^ gcd n (m mod n)) x = x" by blast
  then show ?case by (metis gcd_red_nat)
qed simp

lemma funpow_times: "(g ^^ n) x = x \<Longrightarrow> (g ^^ (n * k)) x = x"
  using funpow_mod_eq [where f = g and n = n and x = x and m = "n * k"] by simp

text \<open>The period of \<open>x\<close> is exactly \<open>M\<close> when no \<open>M div p\<close> is a period, for the irreducible factors of \<open>M\<close>.\<close>

lemma exact_period:
  assumes "(g ^^ prod_list ps) x = x" "\<forall>p \<in> set ps. irreducible_nat p"
    and "\<forall>p \<in> set ps. (g ^^ (prod_list ps div p)) x \<noteq> x" "0 < m" "m < prod_list ps"
  shows "(g ^^ m) x \<noteq> x"
proof
  assume "(g ^^ m) x = x"
  let ?M = "prod_list ps"
  let ?d = "gcd m ?M"
  have d: "(g ^^ ?d) x = x" using funpow_gcd [OF \<open>(g ^^ m) x = x\<close> assms(1)] .
  obtain c where c: "?M = ?d * c" using gcd_dvd2 by blast
  have "?d \<le> m" using assms(4) by (simp add: gcd_le1_nat)
  have "c \<noteq> 1"
  proof
    assume "c = 1"
    with c have "?M = ?d" by simp
    with \<open>?d \<le> m\<close> assms(5) show False by linarith
  qed
  moreover have "c \<noteq> 0" using c assms(5) by (metis mult_0_right not_less_zero)
  ultimately have "1 < c" by simp
  moreover have "c dvd ?M" using c by (metis dvd_triv_right)
  ultimately obtain p where p: "p \<in> set ps" "p dvd c" using irreducible_factor [OF _ _ assms(2)] by blast
  then obtain b where b: "c = p * b" by blast
  have "0 < p" using p(1) assms(2) by (auto simp: irreducible_nat_def)
  have "?M = p * (?d * b)" using c b by (metis mult.left_commute)
  then have "?M div p = ?d * b" using \<open>0 < p\<close> by (metis nonzero_mult_div_cancel_left less_irrefl)
  with funpow_times [OF d, of b] assms(3) p(1) show False by metis
qed

text \<open>\<open>bss\<close> are the numbers \<open>M div p\<close> in binary.\<close>

definition maximal :: "nat \<Rightarrow> int \<Rightarrow> bool" where
  "maximal n f \<longleftrightarrow> 0 \<le> f \<and> f < 2 ^ n \<and> (shift f ^^ (2 ^ n - 1)) (top_bit n) = top_bit n \<and>
     (\<forall>m. 0 < m \<longrightarrow> m < 2 ^ n - 1 \<longrightarrow> (shift f ^^ m) (top_bit n) \<noteq> top_bit n)"

lemma maximalI:
  assumes n: "0 < n" "0 \<le> f \<and> f < 2 ^ n" and ps: "prod_list ps = 2 ^ n - 1" "\<forall>p \<in> set ps. irreducible_nat p"
    and full: "shift_power f n (top_bit n) (replicate n True) = top_bit n"
    and bss: "map (bin_value 0) bss = map ((div) (2 ^ n - 1)) ps"
      "\<forall>bs \<in> set bss. shift_power f n (top_bit n) bs \<noteq> top_bit n"
  shows "maximal n f"
proof -
  have pow: "shift_power f n (top_bit n) bs = (shift f ^^ bin_value 0 bs) (top_bit n)" for bs
    using shift_power_eq [OF n, of 0 bs] by simp
  have "bin_value a (replicate k True) = (a + 1) * 2 ^ k - 1" for a k
    by (induction k arbitrary: a) (simp_all add: algebra_simps)
  then have "(shift f ^^ prod_list ps) (top_bit n) = top_bit n" using full pow ps(1) by simp
  moreover have "\<forall>p \<in> set ps. (shift f ^^ (prod_list ps div p)) (top_bit n) \<noteq> top_bit n"
  proof
    fix p assume "p \<in> set ps"
    then have "(2 ^ n - 1) div p \<in> set (map ((div) (2 ^ n - 1)) ps)" by simp
    then obtain bs where "bs \<in> set bss" "(2 ^ n - 1) div p = bin_value 0 bs"
      unfolding bss(1) [symmetric] by auto
    with bss(2) pow ps(1) show "(shift f ^^ (prod_list ps div p)) (top_bit n) \<noteq> top_bit n" by metis
  qed
  ultimately show ?thesis
    using n(2) exact_period [OF _ ps(2), of "shift f" "top_bit n"] ps(1) by (simp add: maximal_def)
qed


lemma irreducible_nat_primes [simp]:
  "irreducible_nat 3" "irreducible_nat 5" "irreducible_nat 7" "irreducible_nat 11" "irreducible_nat 13" "irreducible_nat 17" "irreducible_nat 23" "irreducible_nat 31" "irreducible_nat 43" "irreducible_nat 73" "irreducible_nat 89" "irreducible_nat 127" "irreducible_nat 151" "irreducible_nat 257" "irreducible_nat 8191"
proof -
  show "irreducible_nat 3" by (rule irreducible_nat_check [of _ 2]) (simp_all add: upt_rec_numeral)
  show "irreducible_nat 5" by (rule irreducible_nat_check [of _ 3]) (simp_all add: upt_rec_numeral)
  show "irreducible_nat 7" by (rule irreducible_nat_check [of _ 3]) (simp_all add: upt_rec_numeral)
  show "irreducible_nat 11" by (rule irreducible_nat_check [of _ 4]) (simp_all add: upt_rec_numeral)
  show "irreducible_nat 13" by (rule irreducible_nat_check [of _ 4]) (simp_all add: upt_rec_numeral)
  show "irreducible_nat 17" by (rule irreducible_nat_check [of _ 5]) (simp_all add: upt_rec_numeral)
  show "irreducible_nat 23" by (rule irreducible_nat_check [of _ 5]) (simp_all add: upt_rec_numeral)
  show "irreducible_nat 31" by (rule irreducible_nat_check [of _ 6]) (simp_all add: upt_rec_numeral)
  show "irreducible_nat 43" by (rule irreducible_nat_check [of _ 7]) (simp_all add: upt_rec_numeral)
  show "irreducible_nat 73" by (rule irreducible_nat_check [of _ 9]) (simp_all add: upt_rec_numeral)
  show "irreducible_nat 89" by (rule irreducible_nat_check [of _ 10]) (simp_all add: upt_rec_numeral)
  show "irreducible_nat 127" by (rule irreducible_nat_check [of _ 12]) (simp_all add: upt_rec_numeral)
  show "irreducible_nat 151" by (rule irreducible_nat_check [of _ 13]) (simp_all add: upt_rec_numeral)
  show "irreducible_nat 257" by (rule irreducible_nat_check [of _ 17]) (simp_all add: upt_rec_numeral)
  show "irreducible_nat 8191" by (rule irreducible_nat_check [of _ 91]) (simp_all add: upt_rec_numeral)
qed

text \<open>The terms of the program are maximal. Each proof evaluates a few powers of the shift.\<close>

lemma maximal_1: "maximal 1 0x1"
  by (rule maximalI [of 1 _ "[]" "[]"]) (simp_all, code_simp)

lemma maximal_2: "maximal 2 0x3"
proof (rule maximalI [of 2 _ "[3]"
      "[[True]]"])
  show "\<forall>p \<in> set [3]. irreducible_nat p" by (simp add: irreducible_nat_primes)
  show "shift_power 0x3 2 (top_bit 2) (replicate 2 True) = top_bit 2" by code_simp
  show "\<forall>bs \<in> set [[True]]. shift_power 0x3 2 (top_bit 2) bs \<noteq> top_bit 2" by code_simp
qed simp_all

lemma maximal_3: "maximal 3 0x6"
proof (rule maximalI [of 3 _ "[7]"
      "[[True]]"])
  show "\<forall>p \<in> set [7]. irreducible_nat p" by (simp add: irreducible_nat_primes)
  show "shift_power 0x6 3 (top_bit 3) (replicate 3 True) = top_bit 3" by code_simp
  show "\<forall>bs \<in> set [[True]]. shift_power 0x6 3 (top_bit 3) bs \<noteq> top_bit 3" by code_simp
qed simp_all

lemma maximal_4: "maximal 4 0xC"
proof (rule maximalI [of 4 _ "[3, 5]"
      "[[True, False, True],
       [True, True]]"])
  show "\<forall>p \<in> set [3, 5]. irreducible_nat p" by (simp add: irreducible_nat_primes)
  show "shift_power 0xC 4 (top_bit 4) (replicate 4 True) = top_bit 4" by code_simp
  show "\<forall>bs \<in> set [[True, False, True], [True, True]]. shift_power 0xC 4 (top_bit 4) bs \<noteq> top_bit 4" by code_simp
qed simp_all

lemma maximal_5: "maximal 5 0x17"
proof (rule maximalI [of 5 _ "[31]"
      "[[True]]"])
  show "\<forall>p \<in> set [31]. irreducible_nat p" by (simp add: irreducible_nat_primes)
  show "shift_power 0x17 5 (top_bit 5) (replicate 5 True) = top_bit 5" by code_simp
  show "\<forall>bs \<in> set [[True]]. shift_power 0x17 5 (top_bit 5) bs \<noteq> top_bit 5" by code_simp
qed simp_all

lemma maximal_6: "maximal 6 0x33"
proof (rule maximalI [of 6 _ "[3, 3, 7]"
      "[[True, False, True, False, True],
       [True, False, True, False, True],
       [True, False, False, True]]"])
  show "\<forall>p \<in> set [3, 3, 7]. irreducible_nat p" by (simp add: irreducible_nat_primes)
  show "shift_power 0x33 6 (top_bit 6) (replicate 6 True) = top_bit 6" by code_simp
  show "\<forall>bs \<in> set [[True, False, True, False, True], [True, False, True, False, True], [True, False, False, True]]. shift_power 0x33 6 (top_bit 6) bs \<noteq> top_bit 6" by code_simp
qed simp_all

lemma maximal_7: "maximal 7 0x69"
proof (rule maximalI [of 7 _ "[127]"
      "[[True]]"])
  show "\<forall>p \<in> set [127]. irreducible_nat p" by (simp add: irreducible_nat_primes)
  show "shift_power 0x69 7 (top_bit 7) (replicate 7 True) = top_bit 7" by code_simp
  show "\<forall>bs \<in> set [[True]]. shift_power 0x69 7 (top_bit 7) bs \<noteq> top_bit 7" by code_simp
qed simp_all

lemma maximal_8: "maximal 8 0x8E"
proof (rule maximalI [of 8 _ "[3, 5, 17]"
      "[[True, False, True, False, True, False, True],
       [True, True, False, False, True, True],
       [True, True, True, True]]"])
  show "\<forall>p \<in> set [3, 5, 17]. irreducible_nat p" by (simp add: irreducible_nat_primes)
  show "shift_power 0x8E 8 (top_bit 8) (replicate 8 True) = top_bit 8" by code_simp
  show "\<forall>bs \<in> set [[True, False, True, False, True, False, True], [True, True, False, False, True, True], [True, True, True, True]]. shift_power 0x8E 8 (top_bit 8) bs \<noteq> top_bit 8" by code_simp
qed simp_all

lemma maximal_9: "maximal 9 0x1F4"
proof (rule maximalI [of 9 _ "[7, 73]"
      "[[True, False, False, True, False, False, True],
       [True, True, True]]"])
  show "\<forall>p \<in> set [7, 73]. irreducible_nat p" by (simp add: irreducible_nat_primes)
  show "shift_power 0x1F4 9 (top_bit 9) (replicate 9 True) = top_bit 9" by code_simp
  show "\<forall>bs \<in> set [[True, False, False, True, False, False, True], [True, True, True]]. shift_power 0x1F4 9 (top_bit 9) bs \<noteq> top_bit 9" by code_simp
qed simp_all

lemma maximal_10: "maximal 10 0x2E3"
proof (rule maximalI [of 10 _ "[3, 11, 31]"
      "[[True, False, True, False, True, False, True, False, True],
       [True, False, True, True, True, False, True],
       [True, False, False, False, False, True]]"])
  show "\<forall>p \<in> set [3, 11, 31]. irreducible_nat p" by (simp add: irreducible_nat_primes)
  show "shift_power 0x2E3 10 (top_bit 10) (replicate 10 True) = top_bit 10" by code_simp
  show "\<forall>bs \<in> set [[True, False, True, False, True, False, True, False, True], [True, False, True, True, True, False, True], [True, False, False, False, False, True]]. shift_power 0x2E3 10 (top_bit 10) bs \<noteq> top_bit 10" by code_simp
qed simp_all

lemma maximal_11: "maximal 11 0x4C7"
proof (rule maximalI [of 11 _ "[23, 89]"
      "[[True, False, True, True, False, False, True],
       [True, False, True, True, True]]"])
  show "\<forall>p \<in> set [23, 89]. irreducible_nat p" by (simp add: irreducible_nat_primes)
  show "shift_power 0x4C7 11 (top_bit 11) (replicate 11 True) = top_bit 11" by code_simp
  show "\<forall>bs \<in> set [[True, False, True, True, False, False, True], [True, False, True, True, True]]. shift_power 0x4C7 11 (top_bit 11) bs \<noteq> top_bit 11" by code_simp
qed simp_all

lemma maximal_12: "maximal 12 0xA1B"
proof (rule maximalI [of 12 _ "[3, 3, 5, 7, 13]"
      "[[True, False, True, False, True, False, True, False, True, False, True],
       [True, False, True, False, True, False, True, False, True, False, True],
       [True, True, False, False, True, True, False, False, True, True],
       [True, False, False, True, False, False, True, False, False, True],
       [True, False, False, True, True, True, False, True, True]]"])
  show "\<forall>p \<in> set [3, 3, 5, 7, 13]. irreducible_nat p" by (simp add: irreducible_nat_primes)
  show "shift_power 0xA1B 12 (top_bit 12) (replicate 12 True) = top_bit 12" by code_simp
  show "\<forall>bs \<in> set [[True, False, True, False, True, False, True, False, True, False, True], [True, False, True, False, True, False, True, False, True, False, True], [True, True, False, False, True, True, False, False, True, True], [True, False, False, True, False, False, True, False, False, True], [True, False, False, True, True, True, False, True, True]]. shift_power 0xA1B 12 (top_bit 12) bs \<noteq> top_bit 12" by code_simp
qed simp_all

lemma maximal_13: "maximal 13 0x10F1"
proof (rule maximalI [of 13 _ "[8191]"
      "[[True]]"])
  show "\<forall>p \<in> set [8191]. irreducible_nat p" by (simp add: irreducible_nat_primes)
  show "shift_power 0x10F1 13 (top_bit 13) (replicate 13 True) = top_bit 13" by code_simp
  show "\<forall>bs \<in> set [[True]]. shift_power 0x10F1 13 (top_bit 13) bs \<noteq> top_bit 13" by code_simp
qed simp_all

lemma maximal_14: "maximal 14 0x20CE"
proof (rule maximalI [of 14 _ "[3, 43, 127]"
      "[[True, False, True, False, True, False, True, False, True, False, True, False, True],
       [True, False, True, True, True, True, True, False, True],
       [True, False, False, False, False, False, False, True]]"])
  show "\<forall>p \<in> set [3, 43, 127]. irreducible_nat p" by (simp add: irreducible_nat_primes)
  show "shift_power 0x20CE 14 (top_bit 14) (replicate 14 True) = top_bit 14" by code_simp
  show "\<forall>bs \<in> set [[True, False, True, False, True, False, True, False, True, False, True, False, True], [True, False, True, True, True, True, True, False, True], [True, False, False, False, False, False, False, True]]. shift_power 0x20CE 14 (top_bit 14) bs \<noteq> top_bit 14" by code_simp
qed simp_all

lemma maximal_15: "maximal 15 0x41D7"
proof (rule maximalI [of 15 _ "[7, 31, 151]"
      "[[True, False, False, True, False, False, True, False, False, True, False, False, True],
       [True, False, False, False, False, True, False, False, False, False, True],
       [True, True, False, True, True, False, False, True]]"])
  show "\<forall>p \<in> set [7, 31, 151]. irreducible_nat p" by (simp add: irreducible_nat_primes)
  show "shift_power 0x41D7 15 (top_bit 15) (replicate 15 True) = top_bit 15" by code_simp
  show "\<forall>bs \<in> set [[True, False, False, True, False, False, True, False, False, True, False, False, True], [True, False, False, False, False, True, False, False, False, False, True], [True, True, False, True, True, False, False, True]]. shift_power 0x41D7 15 (top_bit 15) bs \<noteq> top_bit 15" by code_simp
qed simp_all

lemma maximal_16: "maximal 16 0x8233"
proof (rule maximalI [of 16 _ "[3, 5, 17, 257]"
      "[[True, False, True, False, True, False, True, False, True, False, True, False, True, False, True],
       [True, True, False, False, True, True, False, False, True, True, False, False, True, True],
       [True, True, True, True, False, False, False, False, True, True, True, True],
       [True, True, True, True, True, True, True, True]]"])
  show "\<forall>p \<in> set [3, 5, 17, 257]. irreducible_nat p" by (simp add: irreducible_nat_primes)
  show "shift_power 0x8233 16 (top_bit 16) (replicate 16 True) = top_bit 16" by code_simp
  show "\<forall>bs \<in> set [[True, False, True, False, True, False, True, False, True, False, True, False, True, False, True], [True, True, False, False, True, True, False, False, True, True, False, False, True, True], [True, True, True, True, False, False, False, False, True, True, True, True], [True, True, True, True, True, True, True, True]]. shift_power 0x8233 16 (top_bit 16) bs \<noteq> top_bit 16" by code_simp
qed simp_all

section \<open>The orbit\<close>

text \<open>A point of period exactly \<open>M\<close>: its first \<open>M\<close> images are different, and so are any \<open>M\<close> in a row.\<close>

definition has_period :: "('a \<Rightarrow> 'a) \<Rightarrow> 'a \<Rightarrow> nat \<Rightarrow> bool" where
  "has_period g x M \<longleftrightarrow> 0 < M \<and> (g ^^ M) x = x \<and> (\<forall>m. 0 < m \<longrightarrow> m < M \<longrightarrow> (g ^^ m) x \<noteq> x)"

lemma has_period_less:
  assumes "has_period g x M" "j < k" "k < M"
  shows "(g ^^ j) x \<noteq> (g ^^ k) x"
proof
  assume eq: "(g ^^ j) x = (g ^^ k) x"
  have "(g ^^ (M - k + j)) x = (g ^^ (M - k)) ((g ^^ k) x)" by (simp only: funpow_add o_apply eq)
  also have "\<dots> = (g ^^ (M - k + k)) x" by (simp only: funpow_add o_apply)
  also have "M - k + k = M" using assms(3) by simp
  also have "(g ^^ M) x = x" using assms(1) unfolding has_period_def by blast
  finally have "(g ^^ (M - k + j)) x = x" .
  then have "\<not> (0 < M - k + j \<and> M - k + j < M)" using assms(1) by (auto simp only: has_period_def)
  with assms(2,3) show False by linarith
qed

lemma has_period_eq:
  assumes "has_period g x M" "j < M" "k < M" "(g ^^ j) x = (g ^^ k) x"
  shows "j = k"
  using has_period_less [OF assms(1), of j k] has_period_less [OF assms(1), of k j] assms(2-4)
  by (cases j k rule: linorder_cases) auto

lemma has_period_window:
  assumes "has_period g x M"
  shows "inj_on (\<lambda>i. (g ^^ i) ((g ^^ k) x)) {1..M}"
proof (rule inj_onI)
  fix i j assume ij: "i \<in> {1..M}" "j \<in> {1..M}" "(g ^^ i) ((g ^^ k) x) = (g ^^ j) ((g ^^ k) x)"
  from assms have M: "0 < M" "(g ^^ M) x = x" by (simp_all add: has_period_def)
  have red: "(g ^^ m) ((g ^^ k) x) = (g ^^ ((m + k) mod M)) x" for m
    using funpow_mod_eq [OF M(2), of "m + k"] by (simp add: funpow_add)
  have "(i + k) mod M = (j + k) mod M"
    by (rule has_period_eq [OF assms]) (use ij(3) M(1) red in auto)
  then have "int ((i + k) mod M) = int ((j + k) mod M)" by simp
  then have "(int i + int k) mod int M = (int j + int k) mod int M" by (simp add: zmod_int)
  then have d: "int M dvd int i - int j" by (simp add: mod_eq_dvd_iff)
  have "\<bar>int i - int j\<bar> < int M" using ij(1,2) by auto
  with d have "int i - int j = 0" by (meson dvd_imp_le_int linorder_not_less abs_of_nat le_less_trans abs_ge_self)
  then show "i = j" by simp
qed

lemma maximal_period: "maximal n f \<Longrightarrow> 0 < n \<Longrightarrow> has_period (shift f) (top_bit n) (2 ^ n - 1)"
  using power_increasing [of 1 n "2 :: nat"] by (auto simp: maximal_def has_period_def)

lemma shift_zero [simp]: "(shift f ^^ k) 0 = 0"
  by (induction k) simp_all

lemma orbit_range:
  assumes "maximal n f" "0 < n"
  shows "0 < (shift f ^^ k) (top_bit n) \<and> (shift f ^^ k) (top_bit n) < 2 ^ n"
proof -
  obtain M where M: "has_period (shift f) (top_bit n) M" using maximal_period [OF assms] by blast
  have t: "0 < top_bit n \<and> top_bit n < 2 ^ n" using assms(2) by (simp add: top_bit_def)
  then have r: "0 \<le> (shift f ^^ k) (top_bit n) \<and> (shift f ^^ k) (top_bit n) < 2 ^ n"
    using assms(1) by (intro funpow_shift_range) (simp_all add: maximal_def)
  have "(shift f ^^ k) (top_bit n) \<noteq> 0"
  proof
    assume z: "(shift f ^^ k) (top_bit n) = 0"
    have "k \<le> M * k" using M by (simp add: has_period_def)
    then have "(shift f ^^ (M * k)) (top_bit n) = (shift f ^^ (M * k - k)) ((shift f ^^ k) (top_bit n))"
      using funpow_add [of "M * k - k" k "shift f"] by simp
    moreover have "(shift f ^^ (M * k)) (top_bit n) = top_bit n"
      using M by (intro funpow_times) (simp add: has_period_def)
    ultimately show False using z t by simp
  qed
  with r show ?thesis by linarith
qed

lemma card_states: "card {1..(2 :: int) ^ n - 1} = 2 ^ n - 1"
  by (simp add: nat_diff_distrib nat_power_eq)

lemma orbit_window:
  assumes "maximal n f" "0 < n"
  shows "bij_betw (\<lambda>i. (shift f ^^ i) ((shift f ^^ k) (top_bit n))) {1..2 ^ n - 1} {1..2 ^ n - 1}"
proof -
  let ?g = "\<lambda>i. (shift f ^^ i) ((shift f ^^ k) (top_bit n))"
  obtain M where M: "M = (2 :: nat) ^ n - 1" by blast
  have inj: "inj_on ?g {1..M}" using has_period_window [OF maximal_period [OF assms]] M by simp
  have "?g i \<in> {1..2 ^ n - 1}" for i
    using orbit_range [OF assms, of "i + k"] by (simp add: funpow_add)
  then have "?g ` {1..M} \<subseteq> {1..2 ^ n - 1}" by blast
  moreover have "card (?g ` {1..M}) = card {1..(2 :: int) ^ n - 1}"
    unfolding card_states using inj M by (simp only: card_image card_atLeastAtMost)
  ultimately have "?g ` {1..M} = {1..2 ^ n - 1}" by (intro card_subset_eq) auto
  with inj M show ?thesis by (simp add: bij_betw_def)
qed

lemma seed_orbit:
  assumes "maximal n f" "0 < n" "0 < v" "v < 2 ^ n"
  shows "bij_betw (\<lambda>i. (shift f ^^ i) v) {1..2 ^ n - 1} {1..2 ^ n - 1}"
proof -
  have "v \<in> {1..2 ^ n - 1}" using assms(3,4) by simp
  then have "v \<in> (\<lambda>i. (shift f ^^ i) (top_bit n)) ` {1..2 ^ n - 1}"
    using orbit_window [OF assms(1,2), of 0] by (simp add: bij_betw_def)
  then obtain k where "(shift f ^^ k) (top_bit n) = v" by (elim imageE) metis
  with orbit_window [OF assms(1,2), of k] show ?thesis by simp
qed

section \<open>The function lfsr\<close>

lemma terms_maximal: "1 \<le> r \<Longrightarrow> r \<le> 16 \<Longrightarrow> maximal r (sint (terms ! (r - 1)))"
proof -
  assume "1 \<le> r" "r \<le> 16"
  then have "r \<in> {1, 2, 3, 4, 5, 6, 7, 8, 9, 10, 11, 12, 13, 14, 15, 16}" by (simp, presburger)
  then show ?thesis
    using maximal_1 maximal_2 maximal_3 maximal_4 maximal_5 maximal_6 maximal_7 maximal_8 maximal_9 maximal_10
      maximal_11 maximal_12 maximal_13 maximal_14 maximal_15 maximal_16
    by (auto simp: terms_def)
qed

lemma pow2_sint: "r < 31 \<Longrightarrow> sint (pow2 (of_nat r)) = 2 ^ r"
proof -
  assume r: "r < 31"
  have u: "unat (of_nat r :: i32) = r" using r by (simp add: unat_of_nat take_bit_nat_eq_self)
  have "(2 :: nat) ^ r < 2 ^ 31" using r by (intro power_strict_increasing) auto
  then have "sint (of_nat (2 ^ r) :: i32) = int (2 ^ r)" by (rule sint_of_nat32)
  then show ?thesis by (simp add: pow2_def u push_bit_eq_mult)
qed

definition feedback_of :: "nat \<Rightarrow> int" where
  "feedback_of r = sint (terms ! (r - 1))"

lemma lfsr_value:
  assumes r: "1 \<le> r" "r \<le> 16" and v: "0 < v" "v < 2 ^ r" and n: "n < 2 ^ 31"
  shows "lfsr (of_nat r) (word_of_int v) (of_nat n) = Ret (word_of_int ((shift (feedback_of r) ^^ n) v))"
proof -
  have rs: "sint (of_nat r :: i32) = int r" "unat (of_nat r - 1 :: i32) = r - 1"
    using r sint_of_nat32 [of r] by (auto simp: unat_of_nat take_bit_nat_eq_self unat_minus_one of_nat_eq_0_iff32)
  have "(2 :: int) ^ r \<le> 2 ^ 16" using r by (intro power_increasing) auto
  then have v31: "v < 2 ^ 31" using v by simp
  then have vs: "sint (word_of_int v :: i32) = v" using v by (simp add: signed_of_int signed_take_bit_int_eq_self)
  have "word_of_int v \<noteq> (0 :: i32)" using vs v by (metis sint_0 less_irrefl)
  moreover have "(word_of_int v :: i32) \<le>s pow2 (of_nat r)"
    using r v by (simp add: word_sle_eq vs pow2_sint)
  moreover have "1 \<le>s (of_nat r :: i32)" using r rs by (simp add: word_sle_eq)
  moreover have "(of_nat r :: i32) \<le> 16" using r by (simp add: word_le_nat_alt unat_of_nat take_bit_nat_eq_self)
  moreover have sn: "nat (sint (of_nat n :: i32)) = n" using sint_of_nat32 [OF n] by simp
  let ?c = "lfsr_loop (terms ! unat (of_nat r - 1 :: i32)) n (word_of_int v)"
  have c: "sint ?c = (shift (feedback_of r) ^^ n) v" by (simp add: lfsr_loop_sint vs rs feedback_of_def)
  have m: "maximal r (feedback_of r)" using terms_maximal [OF r] by (simp add: feedback_of_def)
  have "v \<in> {1..2 ^ r - 1}" using v by simp
  then have "v \<in> (\<lambda>i. (shift (feedback_of r) ^^ i) (top_bit r)) ` {1..2 ^ r - 1}"
    using orbit_window [OF m, of 0] r by (simp add: bij_betw_def)
  then obtain k where "v = (shift (feedback_of r) ^^ k) (top_bit r)" by (elim imageE) metis
  with orbit_range [OF m, of "n + k"] r have "0 < (shift (feedback_of r) ^^ n) v" by (simp add: funpow_add)
  with c have "?c \<noteq> 0" by (metis sint_0 less_irrefl)
  moreover have "?c = word_of_int (sint ?c)" by simp
  ultimately show ?thesis unfolding lfsr_def Let_def sn c by simp
qed

text \<open>
  C34: the register of a round visits every state. For each of the 16 rounds and every seed below \<open>2 ^ r\<close> the asserts of
  \<open>lfsr\<close> hold, and the numbers it returns for 1 to \<open>2 ^ r - 1\<close> steps are the numbers from 1 to \<open>2 ^ r - 1\<close>, each once: the
  feedback terms of the table are maximal, as the comment of the program says.
\<close>

theorem lfsr_full_period:
  assumes "1 \<le> r" "r \<le> 16" "0 < seed" "seed < 2 ^ r"
  shows "\<exists>g. (\<forall>n \<in> {1..2 ^ r - 1 :: nat}. lfsr (of_nat r) (word_of_int seed) (of_nat n) = Ret (word_of_int (g n))) \<and>
    bij_betw g {1..2 ^ r - 1} {1..2 ^ r - 1}"
proof -
  have "(2 :: nat) ^ r \<le> 2 ^ 16" using assms(2) by (intro power_increasing) auto
  then have "n < 2 ^ 31" if "n \<in> {1..2 ^ r - 1}" for n :: nat using that by auto
  moreover have "bij_betw (\<lambda>n. (shift (feedback_of r) ^^ n) seed) {1..2 ^ r - 1} {1..2 ^ r - 1}"
    using terms_maximal assms by (intro seed_orbit) (simp_all add: feedback_of_def)
  ultimately show ?thesis using lfsr_value [OF assms]
    by (intro exI [of _ "\<lambda>n. (shift (feedback_of r) ^^ n) seed"] conjI ballI) simp_all
qed

theorem lfsr_full_period_witness:
  "\<exists>g. (\<forall>n \<in> {1..65535}. lfsr 16 1 (of_nat n) = Ret (word_of_int (g n))) \<and> bij_betw g {1..65535} {1..65535}"
  using lfsr_full_period [of 16 1] by simp

end
