(* ===== verification/Wave.thy ===== *)
theory Wave
  imports Lfsr_Period
begin

text \<open>
  A wave of largetest.c: the threads form the complete binary tree of \<open>2 ^ r - 1\<close> nodes, each index is created once, no store
  leaves its array, and when no thread is left running without an error every slot holds the ID of one thread.
\<close>

section \<open>The pieces of a thread\<close>

definition nodes :: "nat \<Rightarrow> nat" where
  "nodes r = 2 ^ r - 1"

lemma nodes_less: "r \<le> 16 \<Longrightarrow> nodes r < 2 ^ 16"
  using power_increasing [of r 16 "2 :: nat"] by (simp add: nodes_def)

lemma less_nodes: "i < 2 ^ r \<longleftrightarrow> i \<le> nodes r"
proof -
  have "(0 :: nat) < 2 ^ r" by simp
  then show ?thesis unfolding nodes_def by linarith
qed

lemma word_sle_of_nat: "a < 2 ^ 31 \<Longrightarrow> b < 2 ^ 31 \<Longrightarrow> (of_nat a :: i32) \<le>s of_nat b \<longleftrightarrow> a \<le> b"
  by (simp add: word_sle_eq sint_of_nat32)

lemma word_sless_of_nat: "a < 2 ^ 31 \<Longrightarrow> b < 2 ^ 31 \<Longrightarrow> (of_nat a :: i32) <s of_nat b \<longleftrightarrow> a < b"
  by (simp add: word_sless_alt sint_of_nat32)

lemma next_pow2_loop_nat:
  assumes "i < 2 ^ Suc k" "2 ^ k \<le> i" "k < 30" "j \<le> Suc k"
  shows "next_pow2_loop (of_nat i) (of_nat (2 ^ j)) = Some (Ret (of_nat (2 ^ Suc k)))"
  using assms(4)
proof (induction j rule: inc_induct)
  case base
  have "(2 :: nat) ^ Suc k \<le> 2 ^ 30" using assms(3) by (intro power_increasing) auto
  moreover have "(2 :: nat) ^ 30 < 2 ^ 31" by simp
  ultimately have "(2 :: nat) ^ Suc k < 2 ^ 31" "i < 2 ^ 31" using assms(1) by linarith+
  with word_sle_of_nat [of "2 ^ Suc k" i] assms(1) have "\<not> (of_nat (2 ^ Suc k) :: i32) \<le>s of_nat i" by linarith
  then show ?case by (subst next_pow2_loop.simps) simp
next
  case (step j)
  have "(2 :: nat) ^ j \<le> 2 ^ k" "(2 :: nat) ^ k \<le> 2 ^ 29" using step.hyps assms(3) by (intro power_increasing; simp)+
  moreover have "(2 :: nat) ^ 29 < 2 ^ 30" "(2 :: nat) * 2 ^ 29 < 2 ^ 31" "(2 :: nat) ^ 30 < 2 ^ 31" "(2 :: nat) ^ Suc k = 2 * 2 ^ k" by simp_all
  ultimately have m: "(2 :: nat) ^ j \<le> i" "(2 :: nat) ^ j < 2 ^ 30" "i < 2 ^ 31" "(2 :: nat) ^ j < 2 ^ 31"
    using assms(1,2) by linarith+
  have "(of_nat (2 ^ j) :: i32) \<le>s of_nat i" using word_sle_of_nat [OF m(4,3)] m(1) by blast
  moreover have "\<not> (0x40000000 :: i32) \<le>s of_nat (2 ^ j)" using word_sle_of_nat [of "2 ^ 30" "2 ^ j"] m(2,4) by simp
  moreover have "(of_nat (2 ^ j) * 2 :: i32) = of_nat (2 ^ Suc j)" by simp
  ultimately show ?case using step.IH by (subst next_pow2_loop.simps) (simp only: if_True if_False)
qed

lemma next_pow2_nat:
  assumes "i < 2 ^ Suc k" "2 ^ k \<le> i" "k < 30"
  shows "next_pow2 (of_nat i) = Ret (of_nat (2 ^ Suc k))"
  using next_pow2_loop_nat [OF assms, of 0] by (simp add: next_pow2_def the_loop_def)

lemma power_bracket: "0 < i \<Longrightarrow> \<exists>k. 2 ^ k \<le> i \<and> i < (2 :: nat) ^ Suc k"
proof (induction i rule: nat_less_induct)
  case (1 i)
  show ?case
  proof (cases "i = 1")
    case True
    then show ?thesis by (intro exI [of _ 0]) simp
  next
    case False
    with 1 obtain k where "2 ^ k \<le> i div 2" "i div 2 < 2 ^ Suc k" by (metis One_nat_def Suc_lessI div_greater_zero_iff
        div_less_dividend lessI less_2_cases_iff not_less numeral_2_eq_2)
    then show ?thesis by (intro exI [of _ "Suc k"]) auto
  qed
qed

lemma thr_decide_nat:
  assumes r: "1 \<le> r" "r \<le> 16" and i: "0 < i" "i \<le> nodes r"
  shows "thr_decide (of_nat r) err (of_nat i) =
    Ret (if err = 0 \<and> 2 * i + 1 \<le> nodes r then [of_nat (2 * i), of_nat (2 * i + 1)] else [])"
proof -
  from power_bracket [OF i(1)] obtain k where k: "2 ^ k \<le> i" "i < 2 ^ Suc k" by blast
  have "i < 2 ^ r" using i(2) by (simp add: less_nodes)
  then have "(2 :: nat) ^ k < 2 ^ r" using k(1) by linarith
  then have kr: "k < r" by simp
  have np: "next_pow2 (of_nat i) = Ret (of_nat (2 ^ Suc k))" using k r kr by (intro next_pow2_nat) auto
  have "(2 :: nat) ^ Suc k \<le> 2 ^ 16" using kr r(2) by (intro power_increasing) auto
  then have s: "sint (of_nat (2 ^ Suc k) :: i32) = 2 ^ Suc k" using sint_of_nat32 [of "2 ^ Suc k"] by simp
  have "(of_nat (2 ^ Suc k) :: i32) <s pow2 (of_nat r) \<longleftrightarrow> (2 :: int) ^ Suc k < 2 ^ r"
    using r(2) by (simp only: word_sless_alt s pow2_sint)
  also have "\<dots> \<longleftrightarrow> Suc k < r" by (rule power_strict_increasing_iff) simp
  also have "\<dots> \<longleftrightarrow> 2 * i + 1 < 2 ^ r"
  proof
    assume "Suc k < r"
    then have "(2 :: nat) ^ Suc (Suc k) \<le> 2 ^ r" by (intro power_increasing) auto
    with k(2) show "2 * i + 1 < 2 ^ r" by simp
  next
    assume "2 * i + 1 < 2 ^ r"
    then have "(2 :: nat) ^ Suc k < 2 ^ r" using k(1) by simp
    then show "Suc k < r" by (metis power_strict_increasing_iff one_less_numeral_iff semiring_norm(76))
  qed
  finally have b: "(of_nat (2 ^ Suc k) :: i32) <s pow2 (of_nat r) \<longleftrightarrow> 2 * i + 1 \<le> nodes r" by (simp add: less_nodes)
  have "sdiv32 (of_nat (2 ^ Suc k)) 2 = of_nat (2 ^ k)"
    unfolding sdiv32_def s by (simp add: signed_divide_int_def)
  moreover have "(of_nat (2 ^ Suc k) + 2 * (of_nat i - of_nat (2 ^ k)) :: i32) = of_nat (2 * i)" by simp
  ultimately show ?thesis unfolding thr_decide_def np bnd.simps b by (simp add: Let_def)
qed

lemma put_at_nat: "i < length a \<Longrightarrow> length a < 2 ^ 31 \<Longrightarrow> put_at a (of_nat i) v = Ret (a[i := v])"
proof -
  assume i: "i < length a" "length a < 2 ^ 31"
  then have "sint (of_nat i :: i32) = int i" "unat (of_nat i :: i32) = i"
    using sint_of_nat32 [of i] by (simp_all add: unat_of_nat take_bit_nat_eq_self)
  with i show ?thesis by (simp add: put_at_def word_sle_eq)
qed

lemma put_at_pred: "0 < i \<Longrightarrow> i \<le> length a \<Longrightarrow> length a < 2 ^ 31 \<Longrightarrow> put_at a (of_nat i - 1) v = Ret (a[i - 1 := v])"
  using put_at_nat [of "i - 1" a v] by (simp add: of_nat_diff)

section \<open>The slots\<close>

definition slot :: "nat \<Rightarrow> int \<Rightarrow> nat \<Rightarrow> nat" where
  "slot r seed i = nat ((shift (feedback_of r) ^^ i) seed - 1)"

definition round_ok :: "nat \<Rightarrow> int \<Rightarrow> bool" where
  "round_ok r seed \<longleftrightarrow> 1 \<le> r \<and> r \<le> 16 \<and> 0 < seed \<and> seed < 2 ^ r"

lemma slot_bij: "round_ok r seed \<Longrightarrow> bij_betw (slot r seed) {1..nodes r} {0..<nodes r}"
proof -
  assume ok: "round_ok r seed"
  have b: "bij_betw (\<lambda>i. (shift (feedback_of r) ^^ i) seed) {1..nodes r} {1..2 ^ r - 1}"
    unfolding nodes_def using terms_maximal ok
    by (intro seed_orbit) (auto simp: feedback_of_def round_ok_def)
  have "bij_betw (\<lambda>x. nat (x - 1)) {1..2 ^ r - 1} {0..<nodes r}"
  proof (rule bij_betw_byWitness [where f' = "\<lambda>n. int n + 1"])
    have n: "int (nodes r) = 2 ^ r - 1" by (simp add: nodes_def)
    show "(\<lambda>x. nat (x - 1)) ` {1..2 ^ r - 1} \<subseteq> {0..<nodes r}" using n by auto
    show "(\<lambda>n. int n + 1) ` {0..<nodes r} \<subseteq> {1..2 ^ r - 1}" using n by auto
  qed auto
  moreover have "slot r seed = (\<lambda>x. nat (x - 1)) \<circ> (\<lambda>i. (shift (feedback_of r) ^^ i) seed)"
    by (simp add: fun_eq_iff slot_def)
  ultimately show ?thesis using bij_betw_trans [OF b] by simp
qed

lemma slot_less: "round_ok r seed \<Longrightarrow> 1 \<le> i \<Longrightarrow> i \<le> nodes r \<Longrightarrow> slot r seed i < nodes r"
  using slot_bij [of r seed] by (auto simp: bij_betw_def)

lemma slot_eq: "round_ok r seed \<Longrightarrow> i \<in> {1..nodes r} \<Longrightarrow> j \<in> {1..nodes r} \<Longrightarrow> slot r seed i = slot r seed j \<Longrightarrow> i = j"
  using slot_bij [of r seed] by (meson bij_betw_imp_inj_on inj_onD)

lemma lfsr_slot:
  assumes "round_ok r seed" "1 \<le> i" "i \<le> nodes r"
  shows "lfsr (of_nat r) (word_of_int seed) (of_nat i) = Ret (of_nat (Suc (slot r seed i)))"
proof -
  have m: "maximal r (feedback_of r)" "1 \<le> r" "r \<le> 16" "0 < seed" "seed < 2 ^ r"
    using terms_maximal assms(1) by (auto simp: feedback_of_def round_ok_def)
  have "i < 2 ^ 31" using nodes_less [OF m(3)] assms(3) by simp
  from lfsr_value [OF m(2-5) this]
  have "lfsr (of_nat r) (word_of_int seed) (of_nat i) = Ret (word_of_int ((shift (feedback_of r) ^^ i) seed))" .
  moreover have "(shift (feedback_of r) ^^ i) seed \<in> {1..2 ^ r - 1}"
    using seed_orbit [OF m(1) _ m(4,5)] m(2) assms(2,3) unfolding bij_betw_def nodes_def by auto
  then have "(shift (feedback_of r) ^^ i) seed = int (Suc (slot r seed i))" by (simp add: slot_def)
  ultimately show ?thesis by (simp only: of_int_of_nat_eq)
qed

lemma thr_publish_slot:
  assumes "round_ok r seed" "1 \<le> i" "i \<le> nodes r" "length (wv_free w) = nodes r"
  shows "thr_publish (of_nat r) (word_of_int seed) (of_nat i) t w = Ret (w\<lparr>wv_free := (wv_free w)[slot r seed i := t]\<rparr>)"
proof -
  have "put_at (wv_free w) (of_nat (Suc (slot r seed i)) - 1) t = Ret ((wv_free w)[slot r seed i := t])"
    using put_at_nat [of "slot r seed i" "wv_free w" t] slot_less [OF assms(1-3)] assms(1,4) nodes_less [of r]
    by (simp add: round_ok_def)
  then show ?thesis unfolding thr_publish_def lfsr_slot [OF assms(1-3)] bnd.simps by simp
qed

lemma thr_record_nat:
  assumes "r \<le> 16" "1 \<le> i" "i \<le> nodes r" "length (wv_spawn w) = nodes r"
  shows "thr_record (of_nat i) t w = Ret (w\<lparr>wv_spawn := (wv_spawn w)[i - 1 := t]\<rparr>)"
  using put_at_pred [of i "wv_spawn w" t] assms nodes_less [of r] by (simp add: thr_record_def)

section \<open>The invariant\<close>

text \<open>
  What the position of a thread says about its two children: \<open>a\<close> and \<open>b\<close> tell whether they have been created, \<open>e\<close>
  whether an error has occurred.
\<close>

definition kids_ok :: "bool \<Rightarrow> nat \<Rightarrow> nat \<Rightarrow> wpc \<Rightarrow> bool \<Rightarrow> bool \<Rightarrow> bool" where
  "kids_ok e N i p a b \<longleftrightarrow>
     (case p of
        W_None \<Rightarrow> \<not> a \<and> \<not> b
      | W_Start \<Rightarrow> \<not> a \<and> \<not> b
      | W_Create as \<Rightarrow> 2 * i + 1 \<le> N \<and> \<not> b \<and>
          (\<not> a \<and> as = [of_nat (2 * i), of_nat (2 * i + 1)] \<or> a \<and> as = [of_nat (2 * i + 1)])
      | W_Store c res as \<Rightarrow> 2 * i + 1 \<le> N \<and> a \<and>
          (\<not> b \<and> c = of_nat (2 * i) \<and> as = [of_nat (2 * i + 1)] \<or> b \<and> c = of_nat (2 * i + 1) \<and> as = [])
      | _ \<Rightarrow> \<not> e \<longrightarrow> 2 * i + 1 \<le> N \<longrightarrow> a \<and> b)"

definition tree_ok :: "bool \<Rightarrow> nat \<Rightarrow> (nat \<Rightarrow> wpc) \<Rightarrow> bool" where
  "tree_ok e N pc \<longleftrightarrow> pc 1 \<noteq> W_None \<and> (\<forall>i. pc i \<noteq> W_None \<longrightarrow> 1 \<le> i \<and> i \<le> N) \<and>
     (\<forall>i \<ge> 1. kids_ok e N i (pc i) (pc (2 * i) \<noteq> W_None) (pc (2 * i + 1) \<noteq> W_None))"

definition winv :: "nat \<Rightarrow> int \<Rightarrow> wsys \<Rightarrow> bool" where
  "winv r seed s \<longleftrightarrow> tree_ok (wv_error (ws_wave s) \<noteq> 0) (nodes r) (ws_pc s) \<and>
     length (wv_spawn (ws_wave s)) = nodes r \<and> length (wv_free (ws_wave s)) = nodes r \<and>
     (\<forall>i. ws_pc s i \<noteq> W_None \<longrightarrow> ws_tid s i \<noteq> 0) \<and>
     (wv_error (ws_wave s) = 0 \<longrightarrow> (\<forall>i. ws_pc s i = W_Done \<longrightarrow> wv_free (ws_wave s) ! slot r seed i = ws_tid s i)) \<and>
     (\<forall>j < nodes r. wv_free (ws_wave s) ! j \<noteq> 0 \<longrightarrow>
        (\<exists>i. ws_pc s i = W_Done \<and> slot r seed i = j \<and> wv_free (ws_wave s) ! j = ws_tid s i))"

lemma winvD:
  assumes "winv r seed s"
  shows "tree_ok (wv_error (ws_wave s) \<noteq> 0) (nodes r) (ws_pc s)"
    "length (wv_spawn (ws_wave s)) = nodes r" "length (wv_free (ws_wave s)) = nodes r"
    "ws_pc s i \<noteq> W_None \<Longrightarrow> ws_tid s i \<noteq> 0"
    "wv_error (ws_wave s) = 0 \<Longrightarrow> ws_pc s i = W_Done \<Longrightarrow> wv_free (ws_wave s) ! slot r seed i = ws_tid s i"
    "j < nodes r \<Longrightarrow> wv_free (ws_wave s) ! j \<noteq> 0 \<Longrightarrow>
       \<exists>i. ws_pc s i = W_Done \<and> slot r seed i = j \<and> wv_free (ws_wave s) ! j = ws_tid s i"
  using assms by (simp_all add: winv_def)

lemma tree_okD:
  assumes "tree_ok e N pc" "pc i \<noteq> W_None"
  shows "1 \<le> i" "i \<le> N" "kids_ok e N i (pc i) (pc (2 * i) \<noteq> W_None) (pc (2 * i + 1) \<noteq> W_None)"
  using assms by (simp_all add: tree_ok_def)

lemma kids_ok_error: "kids_ok e N i p a b \<Longrightarrow> (e \<longrightarrow> e') \<Longrightarrow> kids_ok e' N i p a b"
  by (auto simp: kids_ok_def split: wpc.splits)

text \<open>A thread moves; its children stay.\<close>

lemma tree_ok_move:
  assumes t: "tree_ok e N pc" and i: "pc i \<noteq> W_None" "p \<noteq> W_None" and e: "e \<longrightarrow> e'"
    and k: "kids_ok e' N i p (pc (2 * i) \<noteq> W_None) (pc (2 * i + 1) \<noteq> W_None)"
  shows "tree_ok e' N (pc(i := p))"
  unfolding tree_ok_def
proof (intro conjI allI impI)
  have flag: "(pc(i := p)) j \<noteq> W_None \<longleftrightarrow> pc j \<noteq> W_None" for j using i by simp
  show "(pc(i := p)) 1 \<noteq> W_None" using t flag unfolding tree_ok_def by blast
  fix j show "1 \<le> j" "j \<le> N" if "(pc(i := p)) j \<noteq> W_None" using tree_okD [OF t, of j] that flag by blast+
  show "kids_ok e' N j ((pc(i := p)) j) ((pc(i := p)) (2 * j) \<noteq> W_None) ((pc(i := p)) (2 * j + 1) \<noteq> W_None)"
    if j: "1 \<le> j" unfolding flag
  proof (cases "j = i")
    case False
    have "kids_ok e N j (pc j) (pc (2 * j) \<noteq> W_None) (pc (2 * j + 1) \<noteq> W_None)"
      using t j by (simp add: tree_ok_def)
    with False e show "kids_ok e' N j ((pc(i := p)) j) (pc (2 * j) \<noteq> W_None) (pc (2 * j + 1) \<noteq> W_None)"
      by (simp add: kids_ok_error)
  qed (use k in simp)
qed

text \<open>A thread creates its next child.\<close>

lemma tree_ok_create:
  assumes t: "tree_ok e N pc" and i: "pc i = W_Create (a # as)"
    and N: "N < 2 ^ 16"
  shows "pc (unat a) = W_None \<and> 1 \<le> unat a \<and> unat a \<noteq> i \<and> a = of_nat (unat a) \<and>
    tree_ok e N (pc(i := W_Store a res as, unat a := W_Start))"
proof -
  have ne: "pc i \<noteq> W_None" using i by simp
  note I = tree_okD [OF t ne]
  have k: "2 * i + 1 \<le> N" "pc (2 * i + 1) = W_None"
    "pc (2 * i) = W_None \<and> a = of_nat (2 * i) \<and> as = [of_nat (2 * i + 1)] \<or>
     pc (2 * i) \<noteq> W_None \<and> a = of_nat (2 * i + 1) \<and> as = []"
    using I(3) by (auto simp: kids_ok_def i)
  have u: "unat (of_nat m :: i32) = m" if "m \<le> N" for m
    using that N by (simp add: unat_of_nat take_bit_nat_eq_self)
  obtain c where c': "a = of_nat c" "c = 2 * i \<or> c = 2 * i + 1" "pc c = W_None" using k by blast
  then have "c \<le> N" using k(1) by auto
  with u c' have c: "unat a = c" "a = of_nat c" "c = 2 * i \<or> c = 2 * i + 1" "pc c = W_None" by blast+
  have ci: "c \<noteq> i" "1 \<le> c" "c \<le> N" using c(3) I(1) k(1) by auto
  have none: "pc (2 * c) = W_None \<and> pc (2 * c + 1) = W_None"
    using t c(4) ci(2) unfolding tree_ok_def by (auto simp: kids_ok_def dest!: spec [of _ c])
  let ?pc = "pc(i := W_Store a res as, c := W_Start)"
  have flag: "?pc j \<noteq> W_None \<longleftrightarrow> pc j \<noteq> W_None \<or> j = c" for j using i by simp
  have "tree_ok e N ?pc"
    unfolding tree_ok_def
  proof (intro conjI allI impI)
    show "?pc 1 \<noteq> W_None" using t flag unfolding tree_ok_def by blast
    fix j show "1 \<le> j" "j \<le> N" if "?pc j \<noteq> W_None" using tree_okD [OF t, of j] that flag ci by blast+
    show "kids_ok e N j (?pc j) (?pc (2 * j) \<noteq> W_None) (?pc (2 * j + 1) \<noteq> W_None)" if j: "1 \<le> j"
    proof (cases "j = i")
      case True
      then show ?thesis using k c ci I(1) unfolding flag by (auto simp: kids_ok_def)
    next
      case ji: False
      have old: "kids_ok e N j (pc j) (pc (2 * j) \<noteq> W_None) (pc (2 * j + 1) \<noteq> W_None)"
        using t j by (simp add: tree_ok_def)
      show ?thesis
      proof (cases "j = c")
        case True
        with none ci show ?thesis unfolding flag by (auto simp: kids_ok_def)
      next
        case False
        then have "2 * j \<noteq> c" "2 * j + 1 \<noteq> c" using c(3) ji by presburger+
        with old ji False show ?thesis unfolding flag by simp
      qed
    qed
  qed
  with c ci show ?thesis by simp
qed

section \<open>Every step keeps the invariant\<close>

text \<open>Steps that leave the slots alone.\<close>

lemma winv_same_free:
  assumes inv: "winv r seed s"
    and t: "tree_ok (wv_error w \<noteq> 0) (nodes r) pc" and e: "wv_error w = 0 \<longrightarrow> wv_error (ws_wave s) = 0"
    and a: "length (wv_spawn w) = nodes r" "wv_free w = wv_free (ws_wave s)"
    and old: "\<And>j. ws_pc s j = W_Done \<Longrightarrow> pc j = W_Done \<and> tid j = ws_tid s j"
    and new: "\<And>j. pc j = W_Done \<Longrightarrow> wv_error w = 0 \<Longrightarrow> ws_pc s j = W_Done"
    and tid: "\<And>j. pc j \<noteq> W_None \<Longrightarrow> tid j \<noteq> 0"
  shows "winv r seed (s\<lparr>ws_pc := pc, ws_tid := tid, ws_wave := w\<rparr>)"
  unfolding winv_def
proof (intro conjI allI impI)
  let ?s = "s\<lparr>ws_pc := pc, ws_tid := tid, ws_wave := w\<rparr>"
  show "tree_ok (wv_error (ws_wave ?s) \<noteq> 0) (nodes r) (ws_pc ?s)" using t by simp
  show "length (wv_spawn (ws_wave ?s)) = nodes r" using a(1) by simp
  show "length (wv_free (ws_wave ?s)) = nodes r" using a(2) winvD(3) [OF inv] by simp
  show "ws_tid ?s j \<noteq> 0" if "ws_pc ?s j \<noteq> W_None" for j using tid that by simp
  show "wv_free (ws_wave ?s) ! slot r seed j = ws_tid ?s j" if "wv_error (ws_wave ?s) = 0" "ws_pc ?s j = W_Done" for j
    using winvD(5) [OF inv, of j] new [of j] old [of j] e a(2) that by simp
  fix j assume j: "j < nodes r" "wv_free (ws_wave ?s) ! j \<noteq> 0"
  then obtain i where "ws_pc s i = W_Done" "slot r seed i = j" "wv_free (ws_wave s) ! j = ws_tid s i"
    using winvD(6) [OF inv, of j] a(2) by auto
  with old [of i] a(2)
  show "\<exists>i. ws_pc ?s i = W_Done \<and> slot r seed i = j \<and> wv_free (ws_wave ?s) ! j = ws_tid ?s i" by auto
qed

lemma winv_publish:
  assumes ok: "round_ok r seed" and inv: "winv r seed s" and i: "ws_pc s i = W_Publish"
  shows "winv r seed (s\<lparr>ws_pc := (ws_pc s)(i := W_Done),
    ws_wave := (ws_wave s)\<lparr>wv_free := (wv_free (ws_wave s))[slot r seed i := ws_tid s i]\<rparr>\<rparr>)"
    (is "winv r seed ?s")
proof -
  note t = winvD(1) [OF inv]
  have ne: "ws_pc s i \<noteq> W_None" using i by simp
  note I = tree_okD [OF t ne]
  have range: "j \<in> {1..nodes r}" if "ws_pc s j \<noteq> W_None" for j using tree_okD(1,2) [OF t that] by simp
  have len: "slot r seed i < length (wv_free (ws_wave s))" using slot_less [OF ok I(1,2)] winvD(3) [OF inv] by simp
  have other: "slot r seed j \<noteq> slot r seed i" if "ws_pc s j = W_Done" for j
  proof
    assume eq: "slot r seed j = slot r seed i"
    have "j = i" by (rule slot_eq [OF ok _ _ eq]) (use range [of j] range [of i] that ne in auto)
    with that i show False by simp
  qed
  show ?thesis
    unfolding winv_def
  proof (intro conjI allI impI)
    have "kids_ok (wv_error (ws_wave s) \<noteq> 0) (nodes r) i W_Done (ws_pc s (2 * i) \<noteq> W_None) (ws_pc s (2 * i + 1) \<noteq> W_None)"
      using I(3) by (simp add: i kids_ok_def)
    from tree_ok_move [OF t ne _ _ this] show "tree_ok (wv_error (ws_wave ?s) \<noteq> 0) (nodes r) (ws_pc ?s)" by simp
    show "length (wv_spawn (ws_wave ?s)) = nodes r" "length (wv_free (ws_wave ?s)) = nodes r"
      using winvD(2,3) [OF inv] by simp_all
    show "ws_tid ?s j \<noteq> 0" if "ws_pc ?s j \<noteq> W_None" for j using winvD(4) [OF inv, of j] ne that by (auto split: if_splits)
    show "wv_free (ws_wave ?s) ! slot r seed j = ws_tid ?s j" if "wv_error (ws_wave ?s) = 0" "ws_pc ?s j = W_Done" for j
      using winvD(5) [OF inv, of j] other [of j] that len by (cases "j = i") simp_all
    fix j assume j: "j < nodes r" "wv_free (ws_wave ?s) ! j \<noteq> 0"
    show "\<exists>i. ws_pc ?s i = W_Done \<and> slot r seed i = j \<and> wv_free (ws_wave ?s) ! j = ws_tid ?s i"
    proof (cases "slot r seed i = j")
      case True
      with len show ?thesis by (intro exI [of _ i]) auto
    next
      case False
      with j winvD(6) [OF inv, of j] obtain k where
        "ws_pc s k = W_Done" "slot r seed k = j" "wv_free (ws_wave s) ! j = ws_tid s k" by auto
      with False show ?thesis by (intro exI [of _ k]) auto
    qed
  qed
qed

inductive_cases wave_stepE: "wave_step round seed s s'"

lemma kids_ok_decided:
  "kids_ok e N i W_Start a b \<Longrightarrow>
    kids_ok e N i (create_or_publish (if \<not> e \<and> 2 * i + 1 \<le> N then [of_nat (2 * i), of_nat (2 * i + 1)] else [])) a b"
  by (auto simp: kids_ok_def create_or_publish_def)

lemma kids_ok_stored: "kids_ok e N i (W_Store c res as) a b \<Longrightarrow> kids_ok e N i (create_or_publish as) a b"
  by (auto simp: kids_ok_def create_or_publish_def)

lemma create_or_publish_ne [simp]: "create_or_publish as \<noteq> W_None" "create_or_publish as \<noteq> W_Done"
  by (simp_all add: create_or_publish_def)

lemma store_index:
  assumes "kids_ok e N i (W_Store c res as) a b" "1 \<le> i"
  shows "\<exists>m. c = of_nat m \<and> 1 \<le> m \<and> m \<le> N"
proof -
  have "2 * i + 1 \<le> N" "c = of_nat (2 * i) \<or> c = of_nat (2 * i + 1)"
    using assms(1) unfolding kids_ok_def wpc.case by blast+
  moreover have "1 \<le> 2 * i" "1 \<le> 2 * i + 1" "2 * i \<le> 2 * i + 1" using assms(2) by simp_all
  ultimately show ?thesis by (metis order_trans)
qed

lemma winv_record:
  assumes ok: "round_ok r seed" and inv: "winv r seed s" and i: "ws_pc s i = W_Store c res as"
  shows "\<exists>w. thr_record c res (ws_wave s) = Ret w \<and>
    winv r seed (s\<lparr>ws_pc := (ws_pc s)(i := create_or_publish as), ws_wave := w\<rparr>)"
proof -
  note t = winvD(1) [OF inv]
  have ne: "ws_pc s i \<noteq> W_None" using i by simp
  note I = tree_okD [OF t ne]
  from store_index [OF I(3) [unfolded i] I(1)] obtain m where m: "c = of_nat m" "1 \<le> m" "m \<le> nodes r" by blast
  let ?w = "(ws_wave s)\<lparr>wv_spawn := (wv_spawn (ws_wave s))[m - 1 := res]\<rparr>"
  have run: "thr_record c res (ws_wave s) = Ret ?w"
    unfolding m(1) using thr_record_nat [OF _ m(2,3) winvD(2) [OF inv], of res] ok by (simp add: round_ok_def)
  have "tree_ok (wv_error (ws_wave s) \<noteq> 0) (nodes r) ((ws_pc s)(i := create_or_publish as))"
    by (rule tree_ok_move [OF t ne _ _ kids_ok_stored [OF I(3) [unfolded i]]]) simp_all
  moreover have "ws_tid s j \<noteq> 0" if "((ws_pc s)(i := create_or_publish as)) j \<noteq> W_None" for j
    using winvD(4) [OF inv, of j] that ne by (auto split: if_splits)
  ultimately have "winv r seed (s\<lparr>ws_pc := (ws_pc s)(i := create_or_publish as), ws_tid := ws_tid s, ws_wave := ?w\<rparr>)"
    using winvD(2) [OF inv] i by (intro winv_same_free [OF inv]) (auto split: if_splits)
  with run show ?thesis by simp
qed

lemma winv_decide:
  assumes ok: "round_ok r seed" and inv: "winv r seed s" and i: "ws_pc s i = W_Start"
  shows "\<exists>as. thr_decide (of_nat r) (wv_error (ws_wave s)) (of_nat i) = Ret as \<and>
    winv r seed (s\<lparr>ws_pc := (ws_pc s)(i := create_or_publish as)\<rparr>)"
proof -
  note t = winvD(1) [OF inv]
  have ne: "ws_pc s i \<noteq> W_None" using i by simp
  note I = tree_okD [OF t ne]
  let ?as = "if \<not> wv_error (ws_wave s) \<noteq> 0 \<and> 2 * i + 1 \<le> nodes r then [of_nat (2 * i), of_nat (2 * i + 1)] else []"
  have run: "thr_decide (of_nat r) (wv_error (ws_wave s)) (of_nat i) = Ret ?as"
    using thr_decide_nat [of r i "wv_error (ws_wave s)"] I(1,2) ok by (simp add: round_ok_def)
  have "tree_ok (wv_error (ws_wave s) \<noteq> 0) (nodes r) ((ws_pc s)(i := create_or_publish ?as))"
    by (rule tree_ok_move [OF t ne _ _ kids_ok_decided [OF I(3) [unfolded i]]]) simp_all
  moreover have "ws_tid s j \<noteq> 0" if "((ws_pc s)(i := create_or_publish ?as)) j \<noteq> W_None" for j
    using winvD(4) [OF inv, of j] that ne by (auto split: if_splits)
  ultimately have "winv r seed (s\<lparr>ws_pc := (ws_pc s)(i := create_or_publish ?as), ws_tid := ws_tid s, ws_wave := ws_wave s\<rparr>)"
    using winvD(2) [OF inv] i by (intro winv_same_free [OF inv]) (auto split: if_splits)
  with run show ?thesis by auto
qed

lemma winv_create:
  assumes ok: "round_ok r seed" and inv: "winv r seed s" and i: "ws_pc s i = W_Create (a # as)" and res: "res \<noteq> 0"
  shows "winv r seed (s\<lparr>ws_pc := (ws_pc s)(i := W_Store a res as, unat a := W_Start),
    ws_tid := (ws_tid s)(unat a := res)\<rparr>)"
proof -
  have ne: "ws_pc s i \<noteq> W_None" using i by simp
  have "nodes r < 2 ^ 16" using nodes_less ok by (simp add: round_ok_def)
  note C = tree_ok_create [OF winvD(1) [OF inv] i this, of res]
  have "((ws_tid s)(unat a := res)) j = ws_tid s j" if "ws_pc s j = W_Done" for j using that C by auto
  then have "winv r seed (s\<lparr>ws_pc := (ws_pc s)(i := W_Store a res as, unat a := W_Start),
      ws_tid := (ws_tid s)(unat a := res), ws_wave := ws_wave s\<rparr>)"
    using C winvD(2) [OF inv] i winvD(4) [OF inv] res ne
    by (intro winv_same_free [OF inv]) (auto split: if_splits)
  then show ?thesis by simp
qed

lemma winv_fail:
  assumes inv: "winv r seed s" and i: "ws_pc s i = W_Create (a # as)"
  shows "winv r seed (s\<lparr>ws_pc := (ws_pc s)(i := W_Done), ws_wave := thr_failed (ws_wave s)\<rparr>)"
proof -
  have ne: "ws_pc s i \<noteq> W_None" using i by simp
  have "tree_ok True (nodes r) ((ws_pc s)(i := W_Done))"
    by (rule tree_ok_move [OF winvD(1) [OF inv] ne]) (simp_all add: kids_ok_def)
  then have "winv r seed (s\<lparr>ws_pc := (ws_pc s)(i := W_Done), ws_tid := ws_tid s, ws_wave := thr_failed (ws_wave s)\<rparr>)"
    using winvD(2) [OF inv] i winvD(4) [OF inv] ne
    by (intro winv_same_free [OF inv]) (auto simp: thr_failed_def split: if_splits)
  then show ?thesis by simp
qed

lemma winv_step:
  assumes ok: "round_ok r seed" and step: "wave_step (of_nat r) (word_of_int seed) s s'" and inv: "winv r seed s"
  shows "winv r seed s'"
  using step
proof (rule wave_stepE)
  fix i as
  assume "s' = s\<lparr>ws_pc := (ws_pc s)(i := create_or_publish as)\<rparr>" "ws_pc s i = W_Start"
    "thr_decide (of_nat r) (wv_error (ws_wave s)) (of_nat i) = Ret as"
  with winv_decide [OF ok inv, of i] show ?thesis by auto
next
  fix i a as res
  assume "s' = s\<lparr>ws_pc := (ws_pc s)(i := W_Store a res as, unat a := W_Start), ws_tid := (ws_tid s)(unat a := res)\<rparr>"
    "ws_pc s i = W_Create (a # as)" "res \<noteq> 0"
  with winv_create [OF ok inv] show ?thesis by blast
next
  fix i a as
  assume "s' = s\<lparr>ws_pc := (ws_pc s)(i := W_Done), ws_wave := thr_failed (ws_wave s)\<rparr>" "ws_pc s i = W_Create (a # as)"
  with winv_fail [OF inv] show ?thesis by blast
next
  fix i a res as w
  assume "s' = s\<lparr>ws_pc := (ws_pc s)(i := create_or_publish as), ws_wave := w\<rparr>" "ws_pc s i = W_Store a res as"
    "thr_record a res (ws_wave s) = Ret w"
  with winv_record [OF ok inv, of i a res as] show ?thesis by auto
next
  fix i w
  assume a: "s' = s\<lparr>ws_pc := (ws_pc s)(i := W_Done), ws_wave := w\<rparr>" "ws_pc s i = W_Publish"
    "thr_publish (of_nat r) (word_of_int seed) (of_nat i) (ws_tid s i) (ws_wave s) = Ret w"
  have "ws_pc s i \<noteq> W_None" using a(2) by simp
  note I = tree_okD(1,2) [OF winvD(1) [OF inv] this]
  from thr_publish_slot [OF ok I winvD(3) [OF inv]] winv_publish [OF ok inv a(2)] a show ?thesis by simp
qed

lemma winv_start: "round_ok r seed \<Longrightarrow> wave_start (of_nat r) s \<Longrightarrow> winv r seed s"
proof -
  assume ok: "round_ok r seed" and st: "wave_start (of_nat r) s"
  have r: "1 \<le> r" "r \<le> 16" using ok by (simp_all add: round_ok_def)
  have "uint (pow2 (of_nat r)) = 2 ^ r" using pow2_sint [of r] sint_nonneg [of "pow2 (of_nat r)"] r by simp
  then have "unat (pow2 (of_nat r)) = 2 ^ r" by (metis nat_numeral nat_power_eq unat_eq_nat_uint zero_le_numeral)
  then have n: "unat (pow2 (of_nat r)) - 1 = nodes r" by (simp add: nodes_def)
  have "(2 :: nat) ^ 1 \<le> 2 ^ r" using r by (intro power_increasing) auto
  then have "1 \<le> nodes r" by (simp add: nodes_def)
  moreover have "tree_ok False (nodes r) ((\<lambda>_. W_None)(1 := W_Start))"
    using \<open>1 \<le> nodes r\<close> by (auto simp: tree_ok_def kids_ok_def)
  ultimately show ?thesis using st unfolding wave_start_def Let_def n by (auto simp: winv_def split: if_splits)
qed

lemma wave_reach_inv:
  "wave_reach (of_nat r) (word_of_int seed) s \<Longrightarrow> round_ok r seed \<Longrightarrow> winv r seed s"
proof (induction rule: wave_reach.induct)
  case (wave_reach_start s)
  then show ?case using winv_start by blast
next
  case (wave_reach_step s s')
  then show ?case using winv_step by blast
qed

section \<open>A round\<close>


lemma reap_loop_all:
  assumes "length spawn < 2 ^ 31" "\<And>j. j \<in> set js \<Longrightarrow> 1 \<le> f j \<and> f j \<le> length spawn"
  shows "\<exists>sp. reap_loop (map (\<lambda>j. (Some (t j), 0, of_nat (f j))) js) spawn n 0 = Ret (sp, n + of_nat (length js), 0)"
  using assms
proof (induction js arbitrary: spawn n)
  case (Cons j js)
  have "put_at spawn (of_nat (f j) - 1) 0 = Ret (spawn[f j - 1 := 0])"
    using Cons.prems(1) Cons.prems(2) [of j] by (intro put_at_pred) auto
  moreover obtain sp where
    "reap_loop (map (\<lambda>j. (Some (t j), 0, of_nat (f j))) js) (spawn[f j - 1 := 0]) (n + 1) 0 = Ret (sp, n + 1 + of_nat (length js), 0)"
    using Cons.IH [of "spawn[f j - 1 := 0]" "n + 1"] Cons.prems by auto
  ultimately show ?case by (simp add: ac_simps)
qed simp

lemma wave_all_done:
  assumes t: "tree_ok False N pc" and all: "\<And>i. pc i = W_None \<or> pc i = W_Done" and N: "odd N"
  shows "1 \<le> i \<Longrightarrow> i \<le> N \<Longrightarrow> pc i = W_Done"
proof (induction i rule: nat_less_induct)
  case (1 i)
  have "pc i \<noteq> W_None"
  proof (cases "i = 1")
    case True
    with t show ?thesis by (simp add: tree_ok_def)
  next
    case False
    define h where "h = i div 2"
    have h: "1 \<le> h" "h < i" "h \<le> N" "i = 2 * h \<or> i = 2 * h + 1" "2 * h + 1 \<le> N"
      using False 1(2,3) N unfolding h_def by presburger+
    then have "pc h = W_Done" using 1(1) by blast
    moreover have "kids_ok False N h (pc h) (pc (2 * h) \<noteq> W_None) (pc (2 * h + 1) \<noteq> W_None)"
      using t h(1) unfolding tree_ok_def by blast
    ultimately have "pc (2 * h) \<noteq> W_None" "pc (2 * h + 1) \<noteq> W_None" using h(5) by (simp_all add: kids_ok_def)
    with h(4) show ?thesis by metis
  qed
  with all show ?case by blast
qed

lemma odd_nodes: "1 \<le> r \<Longrightarrow> odd (nodes r)"
  by (simp add: nodes_def)

lemma pow2_pred: "r \<le> 16 \<Longrightarrow> pow2 (of_nat r) - 1 = of_nat (nodes r)"
proof -
  assume "r \<le> 16"
  then have "(of_int (sint (pow2 (of_nat r))) :: i32) = of_int (2 ^ r)" by (simp only: pow2_sint)
  moreover have "(1 :: nat) \<le> 2 ^ r" by simp
  ultimately show ?thesis by (simp add: nodes_def of_nat_diff)
qed

lemma round_end_all:
  assumes r: "r \<le> 16" and len: "length spawn = nodes r" and f: "\<And>j. j < nodes r \<Longrightarrow> 1 \<le> f j \<and> f j \<le> nodes r"
  shows "round_end (of_nat r) (map (\<lambda>j. (Some (t j), 0, of_nat (f j))) [0..<nodes r]) spawn = Ret ([], of_nat (nodes r), 0)"
proof -
  have "length spawn < 2 ^ 31" using len nodes_less [OF r] by simp
  from reap_loop_all [OF this, of "[0..<nodes r]" f t 0] obtain sp where
    "reap_loop (map (\<lambda>j. (Some (t j), 0, of_nat (f j))) [0..<nodes r]) spawn 0 0 = Ret (sp, of_nat (nodes r), 0)"
    using f len by auto
  then show ?thesis unfolding round_end_def by (simp add: reap_rest_def pow2_pred [OF r])
qed

lemma next_seed_slot:
  assumes "round_ok r seed"
  shows "\<exists>seed'. next_seed (of_nat r) (word_of_int seed) = Ret (word_of_int seed') \<and> 0 < seed' \<and> seed' < 2 ^ r"
proof -
  have r: "1 \<le> r" "r \<le> nodes r" using assms less_nodes [of r r] less_exp [of r] by (auto simp: round_ok_def)
  have "int (Suc (slot r seed r)) \<le> int (nodes r)" using slot_less [OF assms r] by simp
  also have "int (nodes r) = 2 ^ r - 1" by (simp add: nodes_def)
  finally have "0 < int (Suc (slot r seed r))" "int (Suc (slot r seed r)) < 2 ^ r" by simp_all
  moreover have "next_seed (of_nat r) (word_of_int seed) = Ret (word_of_int (int (Suc (slot r seed r))))"
    using lfsr_slot [OF assms r] by (simp only: next_seed_def of_int_of_nat_eq)
  ultimately show ?thesis by blast
qed

text \<open>What main sees of a wave in which no thread is left running: every slot filled, every join with its index.\<close>

definition finished_env :: "nat \<Rightarrow> int \<Rightarrow> i32 \<Rightarrow> wsys \<Rightarrow> round_env" where
  "finished_env r seed res s =
     \<lparr>re_bufs = True, re_first = res, re_spawn = wv_spawn (ws_wave s),
      re_obs = map (\<lambda>j. (Some (wv_free (ws_wave s) ! j), 0, of_nat (inv_into {1..nodes r} (slot r seed) j))) [0..<nodes r]\<rparr>"

lemma slot_inv: "round_ok r seed \<Longrightarrow> j < nodes r \<Longrightarrow>
    1 \<le> inv_into {1..nodes r} (slot r seed) j \<and> inv_into {1..nodes r} (slot r seed) j \<le> nodes r"
  using inv_into_into [of j "slot r seed" "{1..nodes r}"] slot_bij [of r seed] by (simp add: bij_betw_def)

lemma main_round_finished:
  assumes ok: "round_ok r seed" and inv: "winv r seed s" and res: "\<not> neg32 res"
  shows "\<exists>seed'. main_round (of_nat r) (word_of_int seed) (finished_env r seed res s) = Ret (Round_Next (word_of_int seed')) \<and>
    0 < seed' \<and> seed' < 2 ^ r"
proof -
  have "round_end (of_nat r) (re_obs (finished_env r seed res s)) (re_spawn (finished_env r seed res s)) =
      Ret ([], of_nat (nodes r), 0)"
    using round_end_all [of r "wv_spawn (ws_wave s)" "inv_into {1..nodes r} (slot r seed)"] slot_inv [OF ok]
      winvD(2) [OF inv] ok by (simp add: finished_env_def round_ok_def)
  with next_seed_slot [OF ok] res show ?thesis by (auto simp: main_round_def finished_env_def)
qed

text \<open>
  C32: when no call of \<open>thr_create\<close> failed and no thread is left running, all \<open>2 ^ r - 1\<close> threads of the round exist, the
  slot that the register gives to a thread holds its ID and no two threads have the same slot; main, joining slot by slot,
  clears every entry and counts all of them, so its assertion holds, and goes on with a seed that fits the next round.
\<close>

theorem wave_complete:
  assumes "wave_reach (of_nat r) (word_of_int seed) s" "1 \<le> r" "r \<le> 16" "0 < seed" "seed < 2 ^ r"
    "wv_error (ws_wave s) = 0" "\<And>i. ws_pc s i = W_None \<or> ws_pc s i = W_Done" "\<not> neg32 res"
  shows "\<exists>g seed'. bij_betw g {1..2 ^ r - 1} {0..<2 ^ r - 1} \<and>
    (\<forall>i \<in> {1..2 ^ r - 1}. ws_pc s i = W_Done \<and>
       lfsr (of_nat r) (word_of_int seed) (of_nat i) = Ret (of_nat (Suc (g i))) \<and> wv_free (ws_wave s) ! g i = ws_tid s i) \<and>
    main_round (of_nat r) (word_of_int seed)
      \<lparr>re_bufs = True, re_first = res, re_spawn = wv_spawn (ws_wave s), re_obs =
        map (\<lambda>j. (Some (wv_free (ws_wave s) ! j), 0, of_nat (inv_into {1..2 ^ r - 1} g j))) [0..<2 ^ r - 1]\<rparr> =
      Ret (Round_Next (word_of_int seed')) \<and> 0 < seed' \<and> seed' < 2 ^ r"
proof -
  have ok: "round_ok r seed" using assms(2-5) by (simp add: round_ok_def)
  note inv = wave_reach_inv [OF assms(1) ok]
  have t: "tree_ok False (nodes r) (ws_pc s)" using winvD(1) [OF inv] assms(6) by simp
  have fin: "ws_pc s i = W_Done" if "i \<in> {1..nodes r}" for i
    using wave_all_done [OF t assms(7) odd_nodes [OF assms(2)], of i] that by simp
  have each: "\<forall>i \<in> {1..nodes r}. ws_pc s i = W_Done \<and>
      lfsr (of_nat r) (word_of_int seed) (of_nat i) = Ret (of_nat (Suc (slot r seed i))) \<and>
      wv_free (ws_wave s) ! slot r seed i = ws_tid s i"
    using fin lfsr_slot [OF ok] winvD(5) [OF inv assms(6)] by (simp del: of_nat_Suc)
  obtain seed' where
    "main_round (of_nat r) (word_of_int seed) (finished_env r seed res s) = Ret (Round_Next (word_of_int seed'))"
    "0 < seed'" "seed' < 2 ^ r"
    using main_round_finished [OF ok inv assms(8)] by blast
  with slot_bij [OF ok] each show ?thesis
    unfolding nodes_def [symmetric] finished_env_def by (intro exI [of _ "slot r seed"] exI [of _ seed'] conjI)
qed

section \<open>A wave of three threads\<close>

text \<open>The second round with seed 1: the threads have the slots 3, 2 and 1.\<close>

definition tri :: "'a \<Rightarrow> 'a \<Rightarrow> 'a \<Rightarrow> 'a \<Rightarrow> nat \<Rightarrow> 'a" where
  "tri z a b c i = (if i = 1 then a else if i = 2 then b else if i = 3 then c else z)"

lemma tri_simps [simp]:
  "tri z a b c 1 = a" "tri z a b c (Suc 0) = a" "tri z a b c 2 = b" "tri z a b c 3 = c"
  "(tri z a b c)(1 := x) = tri z x b c" "(tri z a b c)(Suc 0 := x) = tri z x b c"
  "(tri z a b c)(2 := x) = tri z a x c" "(tri z a b c)(3 := x) = tri z a b x"
  by (auto simp: tri_def)

definition wave3 :: "wpc \<Rightarrow> wpc \<Rightarrow> wpc \<Rightarrow> i32 \<Rightarrow> i32 \<Rightarrow> i32 list \<Rightarrow> i32 list \<Rightarrow> wsys" where
  "wave3 a b c t2 t3 spawn free =
     \<lparr>ws_pc = tri W_None a b c, ws_tid = tri 0 11 t2 t3, ws_wave = \<lparr>wv_error = 0, wv_spawn = spawn, wv_free = free\<rparr>\<rparr>"

lemma wave3_start: "wave_reach 2 1 (wave3 W_Start W_None W_None 0 0 [11, 0, 0] [0, 0, 0])"
proof -
  have "unat (pow2 2) - 1 = 3" "\<not> neg32 11 \<and> (11 :: i32) \<noteq> 0" by code_simp+
  moreover have "(\<lambda>_. W_None)(1 := W_Start) = tri W_None W_Start W_None W_None" by (auto simp: tri_def)
  ultimately show ?thesis
    by (intro wave_reach_start) (simp add: wave_start_def wave3_def numeral_3_eq_3 Let_def)
qed

lemma wave3_created:
  "wave_reach 2 1 (wave3 W_Publish W_Start W_Start 12 13 [11, 12, 13] [0, 0, 0])"
proof -
  have d: "thr_decide 2 0 1 = Ret [2, 3]" using thr_decide_nat [of 2 1 0] by (simp add: nodes_def)
  have n: "\<not> neg32 12" "\<not> neg32 13" by code_simp+
  have a: "put_at [11, 0, 0] 1 12 = Ret [11, 12, 0]" "put_at [11, 12, 0] 2 13 = Ret [11, 12, 13]" by code_simp+
  note step = wave_reach_step
  have "wave_reach 2 1 (wave3 (W_Create [2, 3]) W_None W_None 0 0 [11, 0, 0] [0, 0, 0])"
    using step [OF wave3_start w_decide [of "wave3 W_Start W_None W_None 0 0 [11, 0, 0] [0, 0, 0]" 1 2 "[2, 3]" 1]] d
    by (simp add: wave3_def create_or_publish_def)
  from step [OF this w_create [of _ 1 2 "[3]" 12]]
  have "wave_reach 2 1 (wave3 (W_Store 2 12 [3]) W_Start W_None 12 0 [11, 0, 0] [0, 0, 0])"
    by (simp add: wave3_def n)
  from step [OF this w_store [of _ 1 2 12 "[3]" "\<lparr>wv_error = 0, wv_spawn = [11, 12, 0], wv_free = [0, 0, 0]\<rparr>"]]
  have "wave_reach 2 1 (wave3 (W_Create [3]) W_Start W_None 12 0 [11, 12, 0] [0, 0, 0])"
    by (simp add: wave3_def create_or_publish_def thr_record_def a)
  from step [OF this w_create [of _ 1 3 "[]" 13]]
  have "wave_reach 2 1 (wave3 (W_Store 3 13 []) W_Start W_Start 12 13 [11, 12, 0] [0, 0, 0])"
    by (simp add: wave3_def n)
  from step [OF this w_store [of _ 1 3 13 "[]" "\<lparr>wv_error = 0, wv_spawn = [11, 12, 13], wv_free = [0, 0, 0]\<rparr>"]]
  show ?thesis by (simp add: wave3_def create_or_publish_def thr_record_def a)
qed

lemma wave3_published:
  "wave_reach 2 1 (wave3 W_Done W_Done W_Done 12 13 [11, 12, 13] [13, 12, 11])"
proof -
  have d: "thr_decide 2 0 2 = Ret []" "thr_decide 2 0 3 = Ret []"
    using thr_decide_nat [of 2 2 0] thr_decide_nat [of 2 3 0] by (simp_all add: nodes_def)
  have l: "lfsr 2 1 1 = Ret 3" "lfsr 2 1 2 = Ret 2" "lfsr 2 1 3 = Ret 1" by code_simp+
  have a: "put_at [0, 0, 0] 2 11 = Ret [0, 0, 11]" "put_at [0, 0, 11] 1 12 = Ret [0, 12, 11]"
    "put_at [0, 12, 11] 0 13 = Ret [13, 12, 11]" by code_simp+
  note defs = wave3_def create_or_publish_def thr_publish_def a d l
  note step = wave_reach_step
  from step [OF wave3_created w_publish [of _ 1 2 1 "\<lparr>wv_error = 0, wv_spawn = [11, 12, 13], wv_free = [0, 0, 11]\<rparr>"]]
  have "wave_reach 2 1 (wave3 W_Done W_Start W_Start 12 13 [11, 12, 13] [0, 0, 11])" by (simp add: defs)
  from step [OF this w_decide [of _ 2 2 "[]"]]
  have "wave_reach 2 1 (wave3 W_Done W_Publish W_Start 12 13 [11, 12, 13] [0, 0, 11])" by (simp add: defs)
  from step [OF this w_publish [of _ 2 2 1 "\<lparr>wv_error = 0, wv_spawn = [11, 12, 13], wv_free = [0, 12, 11]\<rparr>"]]
  have "wave_reach 2 1 (wave3 W_Done W_Done W_Start 12 13 [11, 12, 13] [0, 12, 11])" by (simp add: defs)
  from step [OF this w_decide [of _ 3 2 "[]"]]
  have "wave_reach 2 1 (wave3 W_Done W_Done W_Publish 12 13 [11, 12, 13] [0, 12, 11])" by (simp add: defs)
  from step [OF this w_publish [of _ 3 2 1 "\<lparr>wv_error = 0, wv_spawn = [11, 12, 13], wv_free = [13, 12, 11]\<rparr>"]]
  show ?thesis by (simp add: defs)
qed


theorem wave_complete_witness:
  "let s = wave3 W_Done W_Done W_Done 12 13 [11, 12, 13] [13, 12, 11] in
    wave_reach 2 1 s \<and>
    (\<exists>g seed'. bij_betw g {1..3} {0..<3} \<and>
      (\<forall>i \<in> {1..3}. ws_pc s i = W_Done \<and> lfsr 2 1 (of_nat i) = Ret (of_nat (Suc (g i))) \<and> wv_free (ws_wave s) ! g i = ws_tid s i) \<and>
      main_round 2 1 \<lparr>re_bufs = True, re_first = 11, re_spawn = wv_spawn (ws_wave s), re_obs =
        map (\<lambda>j. (Some (wv_free (ws_wave s) ! j), 0, of_nat (inv_into {1..3} g j))) [0..<3]\<rparr> =
        Ret (Round_Next (word_of_int seed')) \<and> 0 < seed' \<and> seed' < 4)"
proof -
  let ?s = "wave3 W_Done W_Done W_Done 12 13 [11, 12, 13] [13, 12, 11]"
  have "ws_pc ?s i = W_None \<or> ws_pc ?s i = W_Done" "wv_error (ws_wave ?s) = 0" for i by (simp_all add: wave3_def tri_def)
  moreover have "\<not> neg32 11" by code_simp
  ultimately show ?thesis using wave_complete [of 2 1 ?s 11] wave3_published by (simp add: Let_def)
qed

text \<open>A round whose first thread cannot be created ends the program with the report of success.\<close>

lemma main_round_no_thread: "neg32 (re_first e) \<Longrightarrow> main_round round seed e = Ret (Round_Break 0)"
  by (simp add: main_round_def)

lemma largetest_false_success:
  assumes "neg32 (re_first (env 1))"
  shows "largetest_main env = Ret 0"
  using main_round_no_thread [OF assms] by (simp add: largetest_main_def numeral_eq_Suc)

end
