(* ===== verification/Asm.thy ===== *)
theory Asm
  imports Stdlib String_Props
begin

text \<open>
  A machine for the assembly routines of the library: the registers they use, the zero flag, byte memory, and the
  instructions of user/libsyscall/syscall.S, user/libatomic/atomic.S and 410user/libsimics/simics.S. A routine is the list of
  its instructions; it runs until control leaves it, by \<open>ret\<close> or by a call. A trap into the kernel and the magic
  instruction of the simulator are functions of the environment: they see the registers and the memory and return \<open>%eax\<close> and
  the memory; the kernel preserves the other registers.
\<close>

section \<open>Words in memory\<close>

definition load32 :: "mem \<Rightarrow> addr \<Rightarrow> u32" where
  "load32 m a = ucast (load_bytes 4 m a)"

lemma load32_store32 [simp]: "load32 (store32 a v m) a = v"
proof -
  have "take_bit 32 (ucast v :: u64) = ucast v" by (rule bit_word_eqI) (auto simp: bit_simps dest: bit_imp_le_length)
  moreover have "ucast (ucast v :: u64) = v" by (rule bit_word_eqI) (auto simp: bit_simps)
  ultimately show ?thesis by (simp add: load32_def store32_def load_store_bytes)
qed

text \<open>Two words lie apart.\<close>

definition apart4 :: "addr \<Rightarrow> addr \<Rightarrow> bool" where
  "apart4 a b \<longleftrightarrow> 4 \<le> unat (b - a) \<and> 4 \<le> unat (a - b)"

lemma apart4_bytes: "apart4 a b \<Longrightarrow> i < 4 \<Longrightarrow> j < 4 \<Longrightarrow> b + of_nat i \<noteq> a + of_nat j"
proof
  assume a: "apart4 a b" "i < 4" "j < 4" "b + of_nat i = a + of_nat j"
  have eq: "b - a = of_nat j - of_nat i" "a - b = of_nat i - of_nat j"
    using a(4) by (metis add_diff_cancel_left' add_diff_cancel_right' diff_add_eq_diff_diff_swap diff_diff_eq2)+
  show False
  proof (cases "i \<le> j")
    case True
    then have "b - a = of_nat (j - i)" by (simp add: eq of_nat_diff)
    then have "unat (b - a) = j - i" using a(3) by (simp add: unat_of_nat take_bit_nat_eq_self)
    with a show False unfolding apart4_def by linarith
  next
    case False
    then have "a - b = of_nat (i - j)" by (simp add: eq of_nat_diff)
    then have "unat (a - b) = i - j" using a(2) by (simp add: unat_of_nat take_bit_nat_eq_self)
    with a show False unfolding apart4_def by linarith
  qed
qed

lemma store32_other: "\<forall>j < 4. b \<noteq> a + of_nat j \<Longrightarrow> store32 a v m b = m b"
  unfolding store32_def by (rule store_bytes_other) auto

lemma load32_cong: "(\<And>i. i < 4 \<Longrightarrow> m' (a + of_nat i) = m (a + of_nat i)) \<Longrightarrow> load32 m' a = load32 m a"
  unfolding load32_def by (subst load_bytes_cong) auto

lemma load32_store32_apart: "apart4 a b \<Longrightarrow> load32 (store32 a v m) b = load32 m b"
  by (rule load32_cong, rule store32_other) (use apart4_bytes in blast)

section \<open>Instructions\<close>

datatype reg = EAX | EBX | ECX | EDX | ESI | ESP

record cpu =
  rg :: "reg \<Rightarrow> u32"
  zf :: bool
  mm :: mem

record machine_env =
  trap :: "nat \<Rightarrow> (reg \<Rightarrow> u32) \<Rightarrow> mem \<Rightarrow> u32 \<times> mem"
  magic :: "(reg \<Rightarrow> u32) \<Rightarrow> mem \<Rightarrow> u32 \<times> mem"
  loc :: "nat \<Rightarrow> u32" \<comment> \<open>the address of the instruction with this many instructions behind it\<close>

text \<open>
  The operands are in the order of the source. \<open>Load d b r\<close> is \<open>mov d(%b), %r\<close>; \<open>Xchg\<close>, \<open>Cmpxchg\<close> and \<open>Xadd\<close> are the
  locked instructions on \<open>(%b)\<close>; \<open>Magic\<close> is \<open>xchg %ebx, %ebx\<close>; \<open>Jne k\<close> jumps over \<open>k\<close> instructions.
\<close>

datatype instr =
    Push reg | Pop reg | Mov reg reg | Mov_Imm u32 reg | Load u32 reg reg | Add_Imm u32 reg | Neg reg
  | Cmp_Imm u32 reg | Xchg reg reg | Cmpxchg reg reg | Xadd reg reg | Trap nat | Magic
  | Jne nat | Call_Reg reg | Call u32 | Return

definition set_reg :: "reg \<Rightarrow> u32 \<Rightarrow> cpu \<Rightarrow> cpu" where
  "set_reg r v s = s\<lparr>rg := (rg s)(r := v)\<rparr>"

definition push_word :: "u32 \<Rightarrow> cpu \<Rightarrow> cpu" where
  "push_word v s = (let a = rg s ESP - 4 in s\<lparr>rg := (rg s)(ESP := a), mm := store32 a v (mm s)\<rparr>)"

definition answer :: "u32 \<times> mem \<Rightarrow> cpu \<Rightarrow> cpu" where
  "answer r s = s\<lparr>rg := (rg s)(EAX := fst r), mm := snd r\<rparr>"

fun exec_instr :: "machine_env \<Rightarrow> instr \<Rightarrow> cpu \<Rightarrow> cpu" where
  "exec_instr E (Push r) s = push_word (rg s r) s"
| "exec_instr E (Pop r) s = set_reg r (load32 (mm s) (rg s ESP)) (set_reg ESP (rg s ESP + 4) s)"
| "exec_instr E (Mov a b) s = set_reg b (rg s a) s"
| "exec_instr E (Mov_Imm v r) s = set_reg r v s"
| "exec_instr E (Load d b r) s = set_reg r (load32 (mm s) (rg s b + d)) s"
| "exec_instr E (Add_Imm v r) s = (let x = rg s r + v in set_reg r x (s\<lparr>zf := x = 0\<rparr>))"
| "exec_instr E (Neg r) s = (let x = - rg s r in set_reg r x (s\<lparr>zf := x = 0\<rparr>))"
| "exec_instr E (Cmp_Imm v r) s = s\<lparr>zf := rg s r = v\<rparr>"
| "exec_instr E (Xchg b r) s =
     (let x = load32 (mm s) (rg s b) in set_reg r x (s\<lparr>mm := store32 (rg s b) (rg s r) (mm s)\<rparr>))"
| "exec_instr E (Cmpxchg r b) s =
     (let x = load32 (mm s) (rg s b) in
      if rg s EAX = x then s\<lparr>zf := True, mm := store32 (rg s b) (rg s r) (mm s)\<rparr>
      else set_reg EAX x (s\<lparr>zf := False\<rparr>))"
| "exec_instr E (Xadd r b) s =
     (let x = load32 (mm s) (rg s b); y = x + rg s r in
      set_reg r x (s\<lparr>zf := y = 0, mm := store32 (rg s b) y (mm s)\<rparr>))"
| "exec_instr E (Trap n) s = answer (trap E n (rg s) (mm s)) s"
| "exec_instr E Magic s = answer (magic E (rg s) (mm s)) s"
| "exec_instr E _ s = s"

text \<open>Where control goes when it leaves the routine, and the state then; \<open>None\<close> when it runs off the end.\<close>

fun run :: "machine_env \<Rightarrow> instr list \<Rightarrow> cpu \<Rightarrow> (u32 \<times> cpu) option" where
  "run E [] s = None"
| "run E (Return # is) s = Some (load32 (mm s) (rg s ESP), set_reg ESP (rg s ESP + 4) s)"
| "run E (Call_Reg r # is) s = Some (rg s r, push_word (loc E (length is)) s)"
| "run E (Call a # is) s = Some (a, push_word (loc E (length is)) s)"
| "run E (Jne k # is) s = (if zf s then run E is s else run E (drop k is) s)"
| "run E (i # is) s = run E is (exec_instr E i s)"

lemmas asm_simps = push_word_def set_reg_def answer_def Let_def

end
