(* ===== verification/Stubs.thy ===== *)
theory Stubs
  imports Asm Atomic
begin

text \<open>
  user/libsyscall/syscall.S instruction by instruction, \<open>sim_call\<close> of 410user/libsimics/simics.S, and user/libatomic/atomic.S
  once more at this level. What is shown: a stub makes the one trap of its system call with the argument, or the address of
  its arguments, in \<open>%esi\<close>, returns what the kernel answers, and keeps the registers of its caller; \<open>thread_fork\<close>
  starts the child in the given function on its own stack; the atomic routines compute what \<open>Atomic\<close> says.
\<close>

section \<open>syscall.S\<close>

definition fork :: "instr list" where
  "fork = [Trap 0x41, Return]"

text \<open>The child runs \<open>thread_fork\<close> up to its call of the function, and \<open>thread_fork_child_end\<close> when that returns.\<close>

definition thread_fork_child_end :: "addr \<Rightarrow> instr list" where
  "thread_fork_child_end thr_exit_at = [Push EAX, Call thr_exit_at]"

definition thread_fork :: "addr \<Rightarrow> instr list" where
  "thread_fork thr_exit_at =
     [Push EBX, Load 0x08 ESP ECX, Load 0x0c ESP EDX, Load 0x10 ESP EBX, Trap 0x52, Cmp_Imm 0 EAX, Jne 5,
      Mov EBX ESP, Push EDX, Call_Reg ECX] @ thread_fork_child_end thr_exit_at @ [Pop EBX, Return]"

definition exec :: "instr list" where
  "exec = [Push ESI, Mov ESP ESI, Add_Imm 0x8 ESI, Trap 0x42, Pop ESI, Return]"

definition set_status :: "instr list" where
  "set_status = [Push ESI, Load 0x8 ESP ESI, Trap 0x59, Pop ESI, Return]"

definition vanish :: "instr list" where
  "vanish = [Push ESI, Load 0x8 ESP ESI, Trap 0x60, Pop ESI, Return]"

definition wait :: "instr list" where
  "wait = [Push ESI, Load 0x8 ESP ESI, Trap 0x44, Pop ESI, Return]"

definition task_vanish :: "instr list" where
  "task_vanish = [Push ESI, Load 0x8 ESP ESI, Trap 0x57, Pop ESI, Return]"

definition gettid :: "instr list" where
  "gettid = [Trap 0x48, Return]"

definition yield :: "instr list" where
  "yield = [Push ESI, Load 0x8 ESP ESI, Trap 0x45, Pop ESI, Return]"

definition deschedule :: "instr list" where
  "deschedule = [Push ESI, Load 0x8 ESP ESI, Trap 0x46, Pop ESI, Return]"

definition make_runnable :: "instr list" where
  "make_runnable = [Push ESI, Load 0x8 ESP ESI, Trap 0x47, Pop ESI, Return]"

definition get_ticks :: "instr list" where
  "get_ticks = [Trap 0x53, Return]"

definition sleep :: "instr list" where
  "sleep = [Push ESI, Load 0x8 ESP ESI, Trap 0x4B, Pop ESI, Return]"

definition new_pages :: "instr list" where
  "new_pages = [Push ESI, Mov ESP ESI, Add_Imm 0x8 ESI, Trap 0x49, Pop ESI, Return]"

definition remove_pages :: "instr list" where
  "remove_pages = [Push ESI, Load 0x8 ESP ESI, Trap 0x4A, Pop ESI, Return]"

definition getchar :: "instr list" where
  "getchar = [Trap 0x4C, Return]"

definition readline :: "instr list" where
  "readline = [Push ESI, Mov ESP ESI, Add_Imm 0x8 ESI, Trap 0x4D, Pop ESI, Return]"

definition print :: "instr list" where
  "print = [Push ESI, Mov ESP ESI, Add_Imm 0x8 ESI, Trap 0x4E, Pop ESI, Return]"

definition set_term_color :: "instr list" where
  "set_term_color = [Push ESI, Load 0x8 ESP ESI, Trap 0x4F, Pop ESI, Return]"

definition set_cursor_pos :: "instr list" where
  "set_cursor_pos = [Push ESI, Mov ESP ESI, Add_Imm 0x8 ESI, Trap 0x50, Pop ESI, Return]"

definition get_cursor_pos :: "instr list" where
  "get_cursor_pos = [Push ESI, Mov ESP ESI, Add_Imm 0x8 ESI, Trap 0x51, Pop ESI, Return]"

definition halt :: "instr list" where
  "halt = [Trap 0x55, Return]"

definition readfile :: "instr list" where
  "readfile = [Push ESI, Mov ESP ESI, Add_Imm 0x8 ESI, Trap 0x62, Pop ESI, Return]"

definition misbehave :: "instr list" where
  "misbehave = [Push ESI, Load 0x8 ESP ESI, Trap 0x54, Pop ESI, Return]"

definition swexn :: "instr list" where
  "swexn = [Push ESI, Mov ESP ESI, Add_Imm 0x8 ESI, Trap 0x74, Pop ESI, Return]"

section \<open>simics.S and atomic.S\<close>

definition sim_call :: "instr list" where
  "sim_call = [Push EBX, Load 0x8 ESP EBX, Load 0xC ESP ECX, Load 0x10 ESP EDX, Mov_Imm 0 EAX, Magic, Pop EBX, Return]"

definition atomic_exchange_code :: "instr list" where
  "atomic_exchange_code = [Load 0x4 ESP ECX, Load 0x8 ESP EAX, Xchg ECX EAX, Return]"

definition atomic_compare_swap_code :: "instr list" where
  "atomic_compare_swap_code = [Load 0x4 ESP ECX, Load 0x8 ESP EAX, Load 0xc ESP EDX, Cmpxchg EDX ECX, Return]"

definition atomic_fetch_add_code :: "instr list" where
  "atomic_fetch_add_code = [Load 0x4 ESP ECX, Load 0x8 ESP EDX, Xadd EDX ECX, Mov EDX EAX, Return]"

definition atomic_fetch_sub_code :: "instr list" where
  "atomic_fetch_sub_code = [Load 0x4 ESP ECX, Load 0x8 ESP EDX, Neg EDX, Xadd EDX ECX, Mov EDX EAX, Return]"

definition atomic_load_code :: "instr list" where
  "atomic_load_code = [Load 0x4 ESP ECX, Mov_Imm 0 EAX, Xadd EAX ECX, Return]"

definition atomic_store_code :: "instr list" where
  "atomic_store_code = [Load 0x4 ESP ECX, Load 0x8 ESP EDX, Xchg ECX EDX, Return]"

section \<open>The stubs\<close>

text \<open>By what they pass: nothing, their argument, or the address of their arguments.\<close>

definition plain_stubs :: "(nat \<times> instr list) list" where
  "plain_stubs = [(0x41, fork), (0x48, gettid), (0x53, get_ticks), (0x4C, getchar), (0x55, halt)]"

definition arg_stubs :: "(nat \<times> instr list) list" where
  "arg_stubs = [(0x59, set_status), (0x60, vanish), (0x44, wait), (0x57, task_vanish), (0x45, yield), (0x46, deschedule),
     (0x47, make_runnable), (0x4B, sleep), (0x4A, remove_pages), (0x4F, set_term_color), (0x54, misbehave)]"

definition packet_stubs :: "(nat \<times> instr list) list" where
  "packet_stubs = [(0x42, exec), (0x49, new_pages), (0x4D, readline), (0x4E, print), (0x50, set_cursor_pos),
     (0x51, get_cursor_pos), (0x62, readfile), (0x74, swexn)]"

lemmas stub_defs = fork_def exec_def set_status_def vanish_def wait_def task_vanish_def gettid_def yield_def deschedule_def
  make_runnable_def get_ticks_def sleep_def new_pages_def remove_pages_def getchar_def readline_def print_def
  set_term_color_def set_cursor_pos_def get_cursor_pos_def halt_def readfile_def misbehave_def swexn_def

lemma plain_stub: "(n, code) \<in> set plain_stubs \<Longrightarrow> code = [Trap n, Return]"
  by (auto simp: plain_stubs_def stub_defs)

lemma arg_stub: "(n, code) \<in> set arg_stubs \<Longrightarrow> code = [Push ESI, Load 0x8 ESP ESI, Trap n, Pop ESI, Return]"
  by (auto simp: arg_stubs_def stub_defs)

lemma packet_stub: "(n, code) \<in> set packet_stubs \<Longrightarrow> code = [Push ESI, Mov ESP ESI, Add_Imm 0x8 ESI, Trap n, Pop ESI, Return]"
  by (auto simp: packet_stubs_def stub_defs)

text \<open>The word at \<open>a\<close> is not written.\<close>

definition word_kept :: "mem \<Rightarrow> mem \<Rightarrow> addr \<Rightarrow> bool" where
  "word_kept m m' a \<longleftrightarrow> load32 m' a = load32 m a"

text \<open>
  What the caller of a stub sees: control is back at the return address with \<open>%esp\<close> above it, \<open>%eax\<close> is the answer and no other
  register has changed.
\<close>

definition returned :: "cpu \<Rightarrow> u32 \<Rightarrow> mem \<Rightarrow> (u32 \<times> cpu) option \<Rightarrow> bool" where
  "returned s v m r \<longleftrightarrow> (\<exists>s'. r = Some (load32 (mm s) (rg s ESP), s') \<and>
     rg s' = (rg s)(EAX := v, ESP := rg s ESP + 4) \<and> mm s' = m)"

lemma apart_esp [simp]:
  "apart4 (a - 4) a" "apart4 (a - 4) (a + 4)" "apart4 (a - 4) (a + 8)" "apart4 (a - 4) (a + 0xc)"
  by (simp_all add: apart4_def)

lemma saved_above [simp]:
  "load32 (store32 (a - 4) v m) a = load32 m a" "load32 (store32 (a - 4) v m) (a + 4) = load32 m (a + 4)"
  "load32 (store32 (a - 4) v m) (a + 8) = load32 m (a + 8)" "load32 (store32 (a - 4) v m) (a + 0xc) = load32 m (a + 0xc)"
  "load32 (store32 (a - 4) v m) (4 + a) = load32 m (a + 4)" "load32 (store32 (a - 4) v m) (8 + a) = load32 m (a + 8)"
  "load32 (store32 (a - 4) v m) (0xc + a) = load32 m (a + 0xc)"
  by (simp_all add: load32_store32_apart add.commute [of _ a])

lemma run_plain_stub:
  assumes "word_kept (mm s) (snd (trap E n (rg s) (mm s))) (rg s ESP)"
  shows "returned s (fst (trap E n (rg s) (mm s))) (snd (trap E n (rg s) (mm s))) (run E [Trap n, Return] s)"
  using assms by (auto simp: returned_def word_kept_def asm_simps)

text \<open>With \<open>%esi\<close> saved below the return address.\<close>

lemma run_arg_stub:
  assumes "m = store32 (rg s ESP - 4) (rg s ESI) (mm s)"
    and "r = (rg s)(ESP := rg s ESP - 4, ESI := load32 (mm s) (rg s ESP + 4))"
    and "word_kept m (snd (trap E n r m)) (rg s ESP - 4)" "word_kept m (snd (trap E n r m)) (rg s ESP)"
  shows "returned s (fst (trap E n r m)) (snd (trap E n r m))
    (run E [Push ESI, Load 0x8 ESP ESI, Trap n, Pop ESI, Return] s)"
  using assms(3,4) unfolding assms(1,2)
  by (auto simp: returned_def word_kept_def asm_simps add.commute [of 4 "rg s ESP"] intro!: ext)

lemma run_packet_stub:
  assumes "m = store32 (rg s ESP - 4) (rg s ESI) (mm s)"
    and "r = (rg s)(ESP := rg s ESP - 4, ESI := rg s ESP + 4)"
    and "word_kept m (snd (trap E n r m)) (rg s ESP - 4)" "word_kept m (snd (trap E n r m)) (rg s ESP)"
  shows "returned s (fst (trap E n r m)) (snd (trap E n r m))
    (run E [Push ESI, Mov ESP ESI, Add_Imm 0x8 ESI, Trap n, Pop ESI, Return] s)"
  using assms(3,4) unfolding assms(1,2)
  by (auto simp: returned_def word_kept_def asm_simps add.commute [of 4 "rg s ESP"] intro!: ext)

text \<open>
  C25: every stub of syscall.S makes exactly the trap of its call: with no argument as the registers are, with one argument
  with it in \<open>%esi\<close>, with several with their address there; the saved register is below the stack, so the kernel finds
  the memory of the caller otherwise. When the kernel leaves that word and the return address alone, the stub returns the
  answer with every other register restored.
\<close>

theorem syscall_stubs_correct:
  assumes "(n, code) \<in> set plain_stubs \<and> r = rg s \<and> m = mm s \<or>
      (n, code) \<in> set arg_stubs \<and> r = (rg s)(ESP := rg s ESP - 4, ESI := load32 (mm s) (rg s ESP + 4)) \<and>
        m = store32 (rg s ESP - 4) (rg s ESI) (mm s) \<or>
      (n, code) \<in> set packet_stubs \<and> r = (rg s)(ESP := rg s ESP - 4, ESI := rg s ESP + 4) \<and>
        m = store32 (rg s ESP - 4) (rg s ESI) (mm s)"
    and "trap E n r m = (v, m')" "word_kept m m' (rg s ESP - 4)" "word_kept m m' (rg s ESP)"
  shows "returned s v m' (run E code s) \<and> (\<forall>a. apart4 (rg s ESP - 4) a \<longrightarrow> load32 m a = load32 (mm s) a)"
  using assms(1)
proof (elim disjE conjE)
  assume a: "(n, code) \<in> set plain_stubs" "r = rg s" "m = mm s"
  then show ?thesis using run_plain_stub [of s E n] plain_stub [OF a(1)] assms(2-4) by simp
next
  assume a: "(n, code) \<in> set arg_stubs" "r = (rg s)(ESP := rg s ESP - 4, ESI := load32 (mm s) (rg s ESP + 4))"
    "m = store32 (rg s ESP - 4) (rg s ESI) (mm s)"
  from run_arg_stub [OF a(3,2), of E n] assms(2-4) have "returned s v m' (run E code s)"
    unfolding arg_stub [OF a(1)] by simp
  then show ?thesis by (simp add: a(3) load32_store32_apart)
next
  assume a: "(n, code) \<in> set packet_stubs" "r = (rg s)(ESP := rg s ESP - 4, ESI := rg s ESP + 4)"
    "m = store32 (rg s ESP - 4) (rg s ESI) (mm s)"
  from run_packet_stub [OF a(3,2), of E n] assms(2-4) have "returned s v m' (run E code s)"
    unfolding packet_stub [OF a(1)] by simp
  then show ?thesis by (simp add: a(3) load32_store32_apart)
qed

section \<open>Starting a thread\<close>

text \<open>What \<open>thread_fork\<close> hands to the kernel.\<close>

definition fork_regs :: "cpu \<Rightarrow> reg \<Rightarrow> u32" where
  "fork_regs s = (rg s)(ESP := rg s ESP - 4, ECX := load32 (mm s) (rg s ESP + 4), EDX := load32 (mm s) (rg s ESP + 8),
     EBX := load32 (mm s) (rg s ESP + 0xc))"

definition fork_mem :: "cpu \<Rightarrow> mem" where
  "fork_mem s = store32 (rg s ESP - 4) (rg s EBX) (mm s)"

lemma run_thread_fork_parent:
  assumes "trap E 0x52 (fork_regs s) (fork_mem s) = (v, m')" "v \<noteq> 0"
    "word_kept (fork_mem s) m' (rg s ESP - 4)" "word_kept (fork_mem s) m' (rg s ESP)"
  shows "\<exists>s'. run E (thread_fork x) s = Some (load32 (mm s) (rg s ESP), s') \<and> mm s' = m' \<and>
    rg s' = (fork_regs s)(EAX := v, EBX := rg s EBX, ESP := rg s ESP + 4)"
  using assms unfolding fork_regs_def fork_mem_def
  by (auto simp: thread_fork_def thread_fork_child_end_def word_kept_def asm_simps intro!: ext)

lemma run_thread_fork_child:
  assumes "trap E 0x52 (fork_regs s) (fork_mem s) = (0, m')" "sp = load32 (mm s) (rg s ESP + 0xc)"
  shows "\<exists>c. run E (thread_fork x) s = Some (load32 (mm s) (rg s ESP + 4), c) \<and> rg c ESP = sp - 8 \<and>
    mm c = store32 (sp - 8) (loc E 4) (store32 (sp - 4) (load32 (mm s) (rg s ESP + 8)) m')"
  using assms unfolding fork_regs_def fork_mem_def
  by (auto simp: thread_fork_def thread_fork_child_end_def asm_simps eval_nat_numeral)

text \<open>Two words pushed below \<open>sp\<close>.\<close>

lemma pushed_two:
  "load32 (store32 (sp - 8) v (store32 (sp - 4) w m)) (sp - 8) = v"
  "load32 (store32 (sp - 8) v (store32 (sp - 4) w m)) (sp - 4) = w"
proof -
  have "apart4 (sp - 8) (sp - 4)" by (simp add: apart4_def)
  then show "load32 (store32 (sp - 8) v (store32 (sp - 4) w m)) (sp - 4) = w" by (simp add: load32_store32_apart)
qed simp

lemma store32_stack:
  assumes "4 \<le> unat d" "unat d \<le> unat len" "unat len \<le> unat (b - base)"
  shows "store32 (base + len - d) v m b = m b"
proof (rule store32_other, intro allI impI notI)
  fix j :: nat assume j: "j < 4" "b = base + len - d + of_nat j"
  have "b - base = (len - d) + of_nat j" using j(2) by simp
  moreover have "unat (len - d) = unat len - unat d" using assms(2) by (simp add: unat_sub word_le_nat_alt)
  moreover have "unat len - unat d + j < 2 ^ 32" using j(1) assms(1,2) unsigned_less [of len, where 'a = nat] by simp
  ultimately have "unat (b - base) = unat len - unat d + j" by (metis unat_add_small)
  then show False using assms j(1) by linarith
qed

text \<open>
  C24: when the kernel answers 0, control of the child goes to the given function with the given argument on a stack whose top
  is the third argument; with a stack of \<open>len\<close> bytes from \<open>base\<close> nothing outside it is written. When the function comes
  back, \<open>thr_exit\<close> is called with its result as its argument. The parent gets the ID of the child back, with its
  registers except \<open>%ecx\<close> and \<open>%edx\<close>, which C lets a function change.
\<close>

theorem thread_fork_starts_child:
  assumes "trap E 0x52 (fork_regs s) (fork_mem s) = (v, m')"
    and "load32 (mm s) (rg s ESP + 0xc) = base + len" "8 \<le> len"
    and "word_kept (fork_mem s) m' (rg s ESP - 4)" "word_kept (fork_mem s) m' (rg s ESP)"
  shows "(v \<noteq> 0 \<longrightarrow> (\<exists>s'. run E (thread_fork exit_at) s = Some (load32 (mm s) (rg s ESP), s') \<and> mm s' = m' \<and>
      rg s' EAX = v \<and> rg s' EBX = rg s EBX \<and> rg s' ESI = rg s ESI \<and> rg s' ESP = rg s ESP + 4)) \<and>
    (v = 0 \<longrightarrow> (\<exists>c. run E (thread_fork exit_at) s = Some (load32 (mm s) (rg s ESP + 4), c) \<and> rg c ESP = base + len - 8 \<and>
      load32 (mm c) (rg c ESP + 4) = load32 (mm s) (rg s ESP + 8) \<and>
      (\<forall>b. unat len \<le> unat (b - base) \<longrightarrow> mm c b = m' b))) \<and>
    (\<forall>t. rg t ESP = base + len - 4 \<longrightarrow> (\<exists>t'. run E (thread_fork_child_end exit_at) t = Some (exit_at, t') \<and>
      load32 (mm t') (rg t' ESP + 4) = rg t EAX))"
proof (intro conjI impI allI)
  assume "v \<noteq> 0"
  from run_thread_fork_parent [OF assms(1) this assms(4,5), of exit_at]
  show "\<exists>s'. run E (thread_fork exit_at) s = Some (load32 (mm s) (rg s ESP), s') \<and> mm s' = m' \<and>
      rg s' EAX = v \<and> rg s' EBX = rg s EBX \<and> rg s' ESI = rg s ESI \<and> rg s' ESP = rg s ESP + 4"
    by (auto simp: fork_regs_def)
next
  assume "v = 0"
  with run_thread_fork_child [where E = E and s = s and m' = m' and x = exit_at and sp = "base + len"] assms(1,2) obtain c where
    c: "run E (thread_fork exit_at) s = Some (load32 (mm s) (rg s ESP + 4), c)" "rg c ESP = base + len - 8"
      "mm c = store32 (base + len - 8) (loc E 4) (store32 (base + len - 4) (load32 (mm s) (rg s ESP + 8)) m')" by auto
  have "load32 (mm c) (rg c ESP + 4) = load32 (mm s) (rg s ESP + 8)"
    using pushed_two(2) [of "base + len"] c(2,3) by simp
  moreover have "mm c b = m' b" if "unat len \<le> unat (b - base)" for b
    using that assms(3) store32_stack [of 8 len b base] store32_stack [of 4 len b base]
    by (simp add: c(3) word_le_nat_alt)
  ultimately show "\<exists>c. run E (thread_fork exit_at) s = Some (load32 (mm s) (rg s ESP + 4), c) \<and> rg c ESP = base + len - 8 \<and>
      load32 (mm c) (rg c ESP + 4) = load32 (mm s) (rg s ESP + 8) \<and>
      (\<forall>b. unat len \<le> unat (b - base) \<longrightarrow> mm c b = m' b)" using c(1,2) by blast
next
  fix t :: cpu assume "rg t ESP = base + len - 4"
  show "\<exists>t'. run E (thread_fork_child_end exit_at) t = Some (exit_at, t') \<and> load32 (mm t') (rg t' ESP + 4) = rg t EAX"
    using pushed_two(2) [of "rg t ESP"] by (simp add: thread_fork_child_end_def asm_simps)
qed

section \<open>The atomic routines\<close>

text \<open>
  A routine returns with \<open>%eax = v\<close>, leaves \<open>w\<close> in the cell \<open>p\<close>, writes nothing else and keeps the registers that C makes
  a function keep.
\<close>

definition cell_op :: "cpu \<Rightarrow> addr \<Rightarrow> u32 \<Rightarrow> u32 \<Rightarrow> (u32 \<times> cpu) option \<Rightarrow> bool" where
  "cell_op s p v w r \<longleftrightarrow> (\<exists>s'. r = Some (load32 (mm s) (rg s ESP), s') \<and> rg s' EAX = v \<and> load32 (mm s') p = w \<and>
     (\<forall>q. apart4 p q \<longrightarrow> load32 (mm s') q = load32 (mm s) q) \<and>
     rg s' EBX = rg s EBX \<and> rg s' ESI = rg s ESI \<and> rg s' ESP = rg s ESP + 4)"

lemmas atomic_code_defs = atomic_exchange_code_def atomic_compare_swap_code_def atomic_fetch_add_code_def
  atomic_fetch_sub_code_def atomic_load_code_def atomic_store_code_def

lemmas atomic_defs = atomic_exchange_def atomic_compare_swap_def atomic_fetch_add_def atomic_fetch_sub_def
  atomic_load_def atomic_store_def

text \<open>
  C30: the instructions of each routine of atomic.S, run on a call whose cell is not the word of the return address, compute
  the operation of \<open>Atomic\<close> on the cell.
\<close>

theorem atomic_codes_correct:
  assumes "p = load32 (mm s) (rg s ESP + 4)" "apart4 p (rg s ESP)" "x = load32 (mm s) p"
    and "a = load32 (mm s) (rg s ESP + 8)" "b = load32 (mm s) (rg s ESP + 0xc)"
  shows "cell_op s p (fst (atomic_exchange x a)) (snd (atomic_exchange x a)) (run E atomic_exchange_code s) \<and>
    cell_op s p (fst (atomic_compare_swap x a b)) (snd (atomic_compare_swap x a b)) (run E atomic_compare_swap_code s) \<and>
    cell_op s p (fst (atomic_fetch_add x a)) (snd (atomic_fetch_add x a)) (run E atomic_fetch_add_code s) \<and>
    cell_op s p (fst (atomic_fetch_sub x a)) (snd (atomic_fetch_sub x a)) (run E atomic_fetch_sub_code s) \<and>
    cell_op s p (fst (atomic_load x)) (snd (atomic_load x)) (run E atomic_load_code s) \<and>
    cell_op s p (rg s EAX) (atomic_store x a) (run E atomic_store_code s)"
  using assms by (simp add: cell_op_def atomic_code_defs atomic_defs asm_simps load32_store32_apart)

section \<open>The simulator call\<close>

lemma run_sim_call:
  assumes "r = (rg s)(ESP := rg s ESP - 4, EBX := load32 (mm s) (rg s ESP + 4), ECX := load32 (mm s) (rg s ESP + 8),
      EDX := load32 (mm s) (rg s ESP + 0xc), EAX := 0)"
    and "m = store32 (rg s ESP - 4) (rg s EBX) (mm s)" "magic E r m = (v, m')"
    and "word_kept m m' (rg s ESP - 4)" "word_kept m m' (rg s ESP)"
  shows "\<exists>s'. run E sim_call s = Some (load32 (mm s) (rg s ESP), s') \<and> rg s' EAX = v \<and> mm s' = m' \<and>
    rg s' EBX = rg s EBX \<and> rg s' ESI = rg s ESI \<and> rg s' ESP = rg s ESP + 4"
  using assms(3-5) unfolding assms(1,2) by (auto simp: sim_call_def word_kept_def asm_simps)

section \<open>A concrete machine\<close>

text \<open>The kernel answers with the sum of the number of the trap and \<open>%esi\<close>, and with 0 to \<open>thread_fork\<close>.\<close>

definition demo_env :: machine_env where
  "demo_env = \<lparr>trap = (\<lambda>n r m. (if n = 0x52 then 0 else of_nat n + r ESI, m)), magic = (\<lambda>r m. (0, m)), loc = (\<lambda>n. 0x1000)\<rparr>"

text \<open>A call with the arguments 0x100000, 7 and 0x200000; the return address is 0x2000.\<close>

definition demo_call :: cpu where
  "demo_call = \<lparr>rg = (\<lambda>_. 5)(ESP := 0x8000), zf = False, mm =
     store32 0x8000 0x2000 (store32 0x8004 0x100000 (store32 0x8008 7 (store32 0x800c 0x200000 (\<lambda>_. 0))))\<rparr>"

lemma demo_call_words:
  "load32 (mm demo_call) 0x8000 = 0x2000" "load32 (mm demo_call) 0x8004 = 0x100000"
  "load32 (mm demo_call) 0x8008 = 7" "load32 (mm demo_call) 0x800c = 0x200000" "rg demo_call ESP = 0x8000"
proof -
  have "apart4 0x8000 0x8004" "apart4 0x8000 0x8008" "apart4 0x8000 0x800c" "apart4 0x8004 0x8008" "apart4 0x8004 0x800c"
    "apart4 0x8008 0x800c" by (simp_all add: apart4_def)
  then show "load32 (mm demo_call) 0x8000 = 0x2000" "load32 (mm demo_call) 0x8004 = 0x100000"
    "load32 (mm demo_call) 0x8008 = 7" "load32 (mm demo_call) 0x800c = 0x200000" "rg demo_call ESP = 0x8000"
    by (simp_all add: demo_call_def load32_store32_apart)
qed

lemma demo_env_trap: "n \<noteq> 0x52 \<Longrightarrow> trap demo_env n r m = (of_nat n + r ESI, m)" "trap demo_env 0x52 r m = (0, m)"
  by (simp_all add: demo_env_def)

theorem syscall_stubs_correct_witness:
  "\<exists>m'. returned demo_call (0x49 + 0x8004) m' (run demo_env new_pages demo_call)"
proof -
  let ?m = "store32 (rg demo_call ESP - 4) (rg demo_call ESI) (mm demo_call)"
  let ?r = "(rg demo_call)(ESP := rg demo_call ESP - 4, ESI := rg demo_call ESP + 4)"
  have "trap demo_env 0x49 ?r ?m = (0x49 + 0x8004, ?m)" by (simp add: demo_env_trap demo_call_words)
  with syscall_stubs_correct [where n = "0x49" and code = new_pages and s = demo_call and r = ?r and m = ?m and E = demo_env]
  show ?thesis by (auto simp: packet_stubs_def word_kept_def)
qed

theorem thread_fork_starts_child_witness:
  "\<exists>c. run demo_env (thread_fork 0x3000) demo_call = Some (0x100000, c) \<and> rg c ESP = 0x200000 - 8 \<and>
    load32 (mm c) (rg c ESP + 4) = 7"
proof -
  have "trap demo_env 0x52 (fork_regs demo_call) (fork_mem demo_call) = (0, fork_mem demo_call)" by (simp add: demo_env_trap)
  from thread_fork_starts_child [OF this, of "0x1ff000" "0x1000" "0x3000"] show ?thesis
    by (auto simp: demo_call_words word_kept_def)
qed

theorem atomic_codes_correct_witness:
  "cell_op demo_call 0x100000 0 7 (run demo_env atomic_exchange_code demo_call)"
proof -
  have "load32 (mm demo_call) 0x100000 = 0"
  proof -
    have "apart4 0x8000 0x100000" "apart4 0x8004 0x100000" "apart4 0x8008 0x100000" "apart4 0x800c 0x100000"
      by (simp_all add: apart4_def)
    moreover have "load32 (\<lambda>_. 0) 0x100000 = 0" by (simp add: load32_def eval_nat_numeral)
    ultimately show ?thesis by (simp add: demo_call_def load32_store32_apart)
  qed
  moreover have "apart4 0x100000 0x8000" by (simp add: apart4_def)
  ultimately show ?thesis
    using atomic_codes_correct [where p = "0x100000" and s = demo_call and E = demo_env] by (simp add: demo_call_words atomic_exchange_def)
qed

end
