(* ===== verification/Rwlock.thy ===== *)
theory Rwlock
  imports Prelude
begin

text \<open>
  user/libthread/rwlock.c: the readers/writer locks are stubs. The type is an empty struct, and no function does anything; the
  last section shows what that means for a program.
\<close>

datatype rwlock_type = RWLOCK_READ | RWLOCK_WRITE

type_synonym rwlock_t = unit

definition rwlock_init :: "rwlock_t \<Rightarrow> i32 \<times> rwlock_t" where
  "rwlock_init rw = (0, rw)"

definition rwlock_destroy :: "rwlock_t \<Rightarrow> rwlock_t" where
  "rwlock_destroy rw = rw"

definition rwlock_lock :: "rwlock_t \<Rightarrow> rwlock_type \<Rightarrow> rwlock_t" where
  "rwlock_lock rw type = rw"

definition rwlock_unlock :: "rwlock_t \<Rightarrow> rwlock_t" where
  "rwlock_unlock rw = rw"

definition rwlock_downgrade :: "rwlock_t \<Rightarrow> rwlock_t" where
  "rwlock_downgrade rw = rw"

section \<open>Threads on one lock\<close>

text \<open>What a set of threads holds, when each call returns at once. A writer excludes everybody, a reader the writers.\<close>

datatype rw_call = Rw_Lock nat rwlock_type | Rw_Unlock nat

fun rw_run :: "rw_call list \<Rightarrow> rwlock_t \<Rightarrow> (nat \<Rightarrow> rwlock_type option) \<Rightarrow> rwlock_t \<times> (nat \<Rightarrow> rwlock_type option)" where
  "rw_run [] rw held = (rw, held)"
| "rw_run (Rw_Lock i ty # cs) rw held = rw_run cs (rwlock_lock rw ty) (held(i := Some ty))"
| "rw_run (Rw_Unlock i # cs) rw held = rw_run cs (rwlock_unlock rw) (held(i := None))"

definition rw_excluded :: "(nat \<Rightarrow> rwlock_type option) \<Rightarrow> bool" where
  "rw_excluded held \<longleftrightarrow> (\<forall>i j. held i = Some RWLOCK_WRITE \<longrightarrow> held j \<noteq> None \<longrightarrow> i = j)"

lemma rwlock_excludes_nobody:
  "\<exists>cs. \<not> rw_excluded (snd (rw_run cs (snd (rwlock_init rw)) (\<lambda>_. None)))"
proof
  show "\<not> rw_excluded (snd (rw_run [Rw_Lock 0 RWLOCK_WRITE, Rw_Lock 1 RWLOCK_WRITE] (snd (rwlock_init rw)) (\<lambda>_. None)))"
    unfolding rw_excluded_def by (intro notI) (drule spec [of _ 0], drule spec [of _ 1], simp)
qed

end
