(* ===== verification/Spec2Isabelle.thy ===== *)
theory Spec2Isabelle
  imports Thread_Machine Cond_Machine Sem_Machine Malloc_Props Heap_Machine Block_Copy Stdio_Props Mersenne Thrgrp Qsort_Props
    Quad_Div_Correct Report Nibbles_Props Shell_Props Wave Stubs Rwlock
begin

text \<open>
  The 15-410 user-level thread library (user/libthread, user/libatomic) and the C library it is linked with
  (410user/lib*), for the Pebbles kernel.

  \<^bold>\<open>How the program is put together.\<close> A program links the thread library over the system calls of the kernel. Atomic
  instructions give the spin lock of \<open>mutex.c\<close>; \<open>cond.c\<close> adds a queue of waiting threads and the kernel's
  \<open>deschedule\<close> and \<open>make_runnable\<close>; \<open>sem.c\<close> is a counter over one mutex and one condition variable;
  \<open>thread.c\<close> keeps a table of threads, each with a condition variable for its joiner, over \<open>new_pages\<close> and
  \<open>thread_fork\<close>. Both queues are the list of \<open>linked_list.c\<close>. The objects come from the allocator of
  410user/libmalloc, which \<open>user/libthread/malloc.c\<close> wraps with a lock. \<open>thrgrp.c\<close> builds groups of joinable
  threads on top. Strings, formatting, sorting, random numbers and 64-bit division are the rest of the C library.

  \<^bold>\<open>Conventions\<close> (\<open>Prelude\<close>). A C function is a HOL function of the values it reads that returns an \<open>outcome\<close>:
  \<open>Ret\<close> with its result and the new state, \<open>Panic\<close> for a failed \<open>assert\<close>, \<open>Fault\<close> for undefined behaviour,
  \<open>Hang\<close> for a loop that waits for other threads or never ends. Integers keep their width. Typed heap objects (list
  nodes, threads, records of waiting threads) live in a map from addresses (\<open>Types\<close>), the allocator and the strings in
  byte memory (\<open>Memory\<close>). What \<open>malloc\<close> returned inside a function of the thread library is an argument, 0 when it
  failed. A loop that may not end is \<open>partial_function (option)\<close> and its termination is a theorem.

  \<^bold>\<open>Theories and sources.\<close>
  \<^item> \<open>Asm\<close>, \<open>Stubs\<close>: a machine for the assembly, and on it libsyscall/syscall.S, libsimics/simics.S and libatomic/atomic.S
    instruction by instruction: what each system call passes and restores, where \<open>thread_fork\<close> starts the child.
    \<open>Rwlock\<close>: the empty functions of rwlock.c.
  \<^item> \<open>Atomic\<close>: libatomic/atomic.S as operations. \<open>Mutex\<close>: mutex.c, and the machine of any number of threads on one mutex (\<open>mstep\<close>):
    mutual exclusion and progress by rule induction.
  \<^item> \<open>Linked_List\<close>: linked_list.c; \<open>list_rep\<close> relates the pointers to a list of entries. The locale \<open>fifo\<close> is what
    the clients need of the queue, interpreted on \<open>list_insert\<close> and \<open>list_dequeue\<close>.
  \<^item> \<open>Kernel\<close>: the system calls as a record of functions with the documented laws \<open>kernel_ok\<close> and \<open>vm_ok\<close>; \<open>demo_kernel\<close>
    and \<open>demo_vm\<close> show that they can hold.
  \<^item> \<open>Cond\<close>: cond.c. \<open>cond_wait\<close> is split at its loop. The locale \<open>condvar\<close> states signal and broadcast on the queue of
    waiters, interpreted on the code. \<open>Cond_Machine\<close>: the interleaving of waits, signals and broadcasts with the kernel's
    scheduling (\<open>cstep\<close>): no lost wakeup, no failed assertion, no touch of freed memory, progress.
  \<^item> \<open>Sem\<close>, \<open>Sem_Machine\<close>: sem.c and the machine of its critical sections: the permits are counted exactly.
  \<^item> \<open>Thread\<close>, \<open>Thread_Table\<close>, \<open>Thread_Lifecycle\<close>: thread.c; the table as a finite map of threads; create, exit and join
    with all error paths, the search for a stack, and two ways in which the code goes wrong. \<open>Thread_Machine\<close>: any number of
    threads that create, join and end one another (\<open>tstep\<close>), each critical section one step: no call fails, every status is
    delivered once, no joiner is stuck, stacks never overlap.
  \<^item> \<open>Thrgrp\<close>: thrgrp.c, a queue of exited threads threaded through the blocks of the threads.
  \<^item> \<open>Malloc\<close>, \<open>Malloc_Heap\<close>, \<open>Malloc_Ops\<close>, \<open>Allocator\<close>, \<open>Malloc_Props\<close>: libmalloc. The heap is a list of blocks with
    boundary tags in memory; the locale \<open>allocator\<close> is the contract of \<open>malloc\<close> and \<open>free\<close> on payloads, interpreted on
    the code and used for the locked entry points. \<open>Heap_Machine\<close>: any number of threads that call libthread/malloc.c and write
    what they own (\<open>hstep\<close>): their areas never overlap and no step of one changes a byte of another. \<open>Block_Copy\<close>: libx86/bcopy.S and bzero.S.
  \<^item> \<open>C_String\<close>, \<open>String_Props\<close>, \<open>String_Copy\<close>: libstring; \<open>cstr m a s\<close> says that the string \<open>s\<close> lies at \<open>a\<close>.
    \<open>Stdlib\<close>: character classes, strtol and its relatives, rand.
  \<^item> \<open>Doprnt\<close>, \<open>Doprnt_Props\<close>, \<open>Stdio\<close>, \<open>Stdio_Props\<close>: the formatter, sprintf, snprintf, printf, hexdump, panic and
    sscanf; what each conversion prints, bounds of the buffers, numbers printed and read back.
  \<^item> \<open>Qsort\<close>, \<open>Qsort_Props\<close>: qsort sorts for every comparison that is a total preorder. \<open>Mersenne\<close>: the generator follows
    its recurrence. \<open>Quad_Div\<close>, \<open>Quad_Div_Props\<close>, \<open>Quad_Div_Correct\<close>: libx86/gccisms.c; Algorithm D, digit by digit, is
    division on 64 bits, which is what the models of the formatter use for \<open>/\<close> and \<open>%\<close>.
  \<^item> \<open>Report\<close>: libtest/report.c, libsimics/simics_c.c, libstdlib/exit.c and crt0.c. \<open>Nibbles\<close>, \<open>Nibbles_Props\<close>: the snake
    game progs/nibbles.c; its ring buffer refines a list of cells and the program never fails. \<open>Shell\<close>, \<open>Shell_Props\<close>:
    progs/shell.c; a command gets exactly the words of its line; the locale \<open>comparator\<close> is the contract of a comparison,
    interpreted on strcmp, for the sort of \<open>ls\<close>.
  \<^item> \<open>Largetest\<close>, \<open>Lfsr_Period\<close>, \<open>Wave\<close>: progs/largetest.c. The shift register runs through all its states for each of the 16
    terms; a wave of threads (\<open>wave_step\<close>) creates every node of a binary tree once, and main joins them all.

  \<^bold>\<open>Bounds.\<close> \<open>mutex_lock\<close> takes a list of what other threads do between two tries; \<open>Hang\<close> only says that the list ended
  while the lock was held, and the machines of \<open>Mutex\<close> and \<open>Cond_Machine\<close> have no such bound. The conversion of a number
  has the 32 cells of the code's buffer, enough for 64 bits in the bases the format letters use. Queues are shorter than
  \<open>2 ^ 32\<close> entries, the size of their counter. The game's loop runs over the keys that are read, of any number.

  \<^bold>\<open>Not modelled.\<close> The kernel and the simulator are binaries: what is behind a trap is a parameter. The boot code under
  410kern, the host tool exec2obj.c and the test programs other than nibbles.c, shell.c and largetest.c are glue or tests.
  Memory ordering beyond the locked instructions is sequentially consistent, as on the one-processor target.
\<close>

end
